(* ===== verification/Prelude.thy ===== *)
theory Prelude
  imports Main "HOL-Library.Word" "HOL-Library.AList" "HOL-Library.List_Lexorder"
begin

text \<open>
  Shared vocabulary of the VexFS development: machine integers and their little-endian
  encodings, byte slices of fixed arrays, the image file as a growable byte store, the
  standard library's hash maps as association lists, and the interface of an on-disk record
  format. Nothing here is specific to one source file; every component theory builds on it.

  Conventions. A \<open>u64\<close> that the code stores or computes with is a \<open>64 word\<close>, so that its
  arithmetic wraps as the release build does. A \<open>usize\<close> that counts elements of an in-memory
  collection is a \<open>nat\<close> (such a count never reaches the width of the type). A Rust
  \<open>String\<close> is the list of its UTF-8 bytes, which is also what its ordering compares.
\<close>

unbundle bit_operations_syntax

section \<open>Machine integers and strings\<close>

type_synonym u8 = "8 word"
type_synonym u32 = "32 word"
type_synonym u64 = "64 word"
type_synonym bytes = "u8 list"
type_synonym rstring = "u8 list"

named_theorems layout_simps "field layout of on-disk records"
named_theorems file_simps "reads and writes of the image file"

text \<open>Unsigned saturating subtraction (\<open>u64::saturating_sub\<close>).\<close>

definition sat_sub :: "'a::len word \<Rightarrow> 'a word \<Rightarrow> 'a word" where
  "sat_sub a b = (if b \<le> a then a - b else 0)"

lemma unat_sat_sub: "unat (sat_sub a b) = unat a - unat b"
  by (simp add: sat_sub_def unat_sub word_le_nat_alt)

lemma unat_lt64: "unat (w :: u64) < 2 ^ 64"
  using unsigned_less [of w] by simp

lemma unat_lt32: "unat (w :: u32) < 2 ^ 32"
  using unsigned_less [of w] by simp

lemma unat64_of_nat: "n < 2 ^ 64 \<Longrightarrow> unat (of_nat n :: u64) = n"
  unfolding unat_of_nat by simp

lemma unat64_add: "unat a + unat b < 2 ^ 64 \<Longrightarrow> unat (a + b) = unat a + unat (b :: u64)"
  by (subst unat_add_lem [THEN iffD1]) auto

text \<open>The ASCII bytes of a literal string.\<close>

definition ascii :: "string \<Rightarrow> rstring" where
  "ascii s = map (\<lambda>c. of_nat (of_char c)) s"

section \<open>Little-endian encodings\<close>

primrec le_enc :: "nat \<Rightarrow> 'a::len word \<Rightarrow> bytes" where
  "le_enc 0 w = []"
| "le_enc (Suc n) w = ucast w # le_enc n (drop_bit 8 w)"

primrec le_dec :: "bytes \<Rightarrow> 'a::len word" where
  "le_dec [] = 0"
| "le_dec (b # bs) = ucast b OR push_bit 8 (le_dec bs)"

lemma length_le_enc [simp]: "length (le_enc n w) = n"
  by (induction n arbitrary: w) auto

lemma le_dec_le_enc: "le_dec (le_enc n w) = (take_bit (8 * n) w :: 'a::len word)"
proof (induction n arbitrary: w)
  case 0
  then show ?case by simp
next
  case (Suc n)
  show ?case
    by (rule bit_word_eqI)
      (auto simp: Suc.IH bit_or_iff bit_push_bit_iff bit_take_bit_iff bit_drop_bit_eq bit_ucast_iff
        simp del: take_bit_drop_bit)
qed

lemma le_dec_enc_id:
  assumes "LENGTH('a::len) \<le> 8 * n"
  shows "le_dec (le_enc n w) = (w :: 'a word)"
  using assms by (simp add: le_dec_le_enc take_bit_word_eq_self)

lemma le_enc_dec_id:
  assumes "length bs = n" and "8 * n \<le> LENGTH('a::len)"
  shows "le_enc n (le_dec bs :: 'a word) = bs"
  using assms
proof (induction bs arbitrary: n)
  case Nil
  then show ?case by simp
next
  case (Cons b bs)
  then obtain m where m: "n = Suc m" "length bs = m"
    by auto
  have low: "ucast (ucast b OR push_bit 8 (le_dec bs :: 'a word)) = b"
    by (rule bit_word_eqI)
      (use Cons.prems(2) m in \<open>auto simp: bit_or_iff bit_ucast_iff bit_push_bit_iff\<close>)
  have "drop_bit 8 (ucast b OR push_bit 8 (le_dec bs :: 'a word)) = take_bit (LENGTH('a) - 8) (le_dec bs)"
    by (rule bit_word_eqI)
      (auto simp: bit_or_iff bit_ucast_iff bit_push_bit_iff bit_drop_bit_eq bit_take_bit_iff
        dest: bit_imp_le_length)
  moreover have "le_enc m (take_bit (LENGTH('a) - 8) (le_dec bs :: 'a word)) = le_enc m (le_dec bs :: 'a word)"
    if "8 * m \<le> LENGTH('a) - 8" for m
  proof -
    have "le_enc m (take_bit k w) = le_enc m w" if "8 * m \<le> k" for k m and w :: "'a word"
      using that
    proof (induction m arbitrary: k w)
      case 0
      then show ?case by simp
    next
      case (Suc m)
      have "ucast (take_bit k w) = (ucast w :: u8)"
        by (rule bit_word_eqI) (use Suc.prems in \<open>auto simp: bit_ucast_iff bit_take_bit_iff\<close>)
      moreover have "drop_bit 8 (take_bit k w) = take_bit (k - 8) (drop_bit 8 w)"
        by (rule bit_word_eqI) (use Suc.prems in \<open>auto simp: bit_drop_bit_eq bit_take_bit_iff\<close>)
      ultimately show ?case using Suc.IH [of "k - 8" "drop_bit 8 w"] Suc.prems by simp
    qed
    with that show ?thesis by blast
  qed
  ultimately show ?case using low Cons m by simp
qed

text \<open>The four codec functions of \<open>disk.rs\<close> are these instances.\<close>

abbreviation u64_to_le :: "u64 \<Rightarrow> bytes" where "u64_to_le \<equiv> le_enc 8"
abbreviation u32_to_le :: "u32 \<Rightarrow> bytes" where "u32_to_le \<equiv> le_enc 4"
abbreviation le_to_u64 :: "bytes \<Rightarrow> u64" where "le_to_u64 \<equiv> le_dec"
abbreviation le_to_u32 :: "bytes \<Rightarrow> u32" where "le_to_u32 \<equiv> le_dec"

lemma le_u64 [simp]: "le_to_u64 (u64_to_le v) = v"
  by (rule le_dec_enc_id) simp

lemma le_u32 [simp]: "le_to_u32 (u32_to_le v) = v"
  by (rule le_dec_enc_id) simp

declare le_enc.simps(2) [simp del]

section \<open>Slices of byte arrays\<close>

text \<open>\<open>sub b i j\<close> is \<open>b[i..j]\<close>; \<open>put b i xs\<close> is \<open>b[i..i + len].copy_from_slice(xs)\<close>.\<close>

definition sub :: "'a list \<Rightarrow> nat \<Rightarrow> nat \<Rightarrow> 'a list" where
  "sub b i j = take (j - i) (drop i b)"

definition put :: "'a list \<Rightarrow> nat \<Rightarrow> 'a list \<Rightarrow> 'a list" where
  "put b i xs = take i b @ xs @ drop (i + length xs) b"

definition zeros :: "nat \<Rightarrow> bytes" where
  "zeros n = replicate n 0"

lemma length_zeros [simp]: "length (zeros n) = n"
  by (simp add: zeros_def)

lemma zeros_0 [simp]: "zeros 0 = []"
  by (simp add: zeros_def)

lemma nth_zeros [simp]: "i < n \<Longrightarrow> zeros n ! i = 0"
  by (simp add: zeros_def)

lemma length_put [simp]: "i + length xs \<le> length b \<Longrightarrow> length (put b i xs) = length b"
  by (auto simp: put_def)

lemma length_sub [simp]: "length (sub b i j) = min (j - i) (length b - i)"
  by (simp add: sub_def)

lemma put_append_right:
  assumes "length pre \<le> i"
  shows "put (pre @ b) i xs = pre @ put b (i - length pre) xs"
  using assms by (simp add: put_def)

lemma put_zeros_start: "length xs \<le> n \<Longrightarrow> put (zeros n) 0 xs = xs @ zeros (n - length xs)"
  by (simp add: put_def zeros_def)

lemma put_zeros_gap:
  assumes "0 < i" and "i + length xs \<le> n"
  shows "put (zeros n) i xs = zeros i @ put (zeros (n - i)) 0 xs"
  using assms by (simp add: put_def zeros_def min_def)

lemma sub_append_left: "j \<le> length xs \<Longrightarrow> sub (xs @ ys) i j = sub xs i j"
  by (simp add: sub_def)

lemma sub_append_right:
  "length xs \<le> i \<Longrightarrow> sub (xs @ ys) i j = sub ys (i - length xs) (j - length xs)"
  by (simp add: sub_def)

lemma sub_zero_append: "length xs \<le> j \<Longrightarrow> sub (xs @ ys) 0 j = xs @ sub ys 0 (j - length xs)"
  by (simp add: sub_def)

lemma sub_empty [simp]: "j \<le> i \<Longrightarrow> sub xs i j = []"
  by (simp add: sub_def)

lemma sub_all: "j = length xs \<Longrightarrow> sub xs 0 j = xs"
  by (simp add: sub_def)

lemma take_put: "i + length xs \<le> length b \<Longrightarrow> n \<le> i \<Longrightarrow> take n (put b i xs) = take n b"
  by (simp add: put_def)

lemma sub_put_same: "i + length xs \<le> length b \<Longrightarrow> sub (put b i xs) i (i + length xs) = xs"
  by (simp add: put_def sub_def)

lemma nth_put:
  assumes "i + length xs \<le> length b" and "k < length b"
  shows "put b i xs ! k = (if i \<le> k \<and> k < i + length xs then xs ! (k - i) else b ! k)"
  using assms by (auto simp: put_def nth_append min_def)

lemma nth_sub: "k < j - i \<Longrightarrow> j \<le> length b \<Longrightarrow> sub b i j ! k = b ! (i + k)"
  by (simp add: sub_def)

lemma sub_put_other:
  assumes "i + length xs \<le> length b" and "q \<le> length b" and "q \<le> i \<or> i + length xs \<le> p"
  shows "sub (put b i xs) p q = sub b p q"
proof (rule nth_equalityI)
  show "length (sub (put b i xs) p q) = length (sub b p q)"
    using assms by simp
next
  fix k assume "k < length (sub (put b i xs) p q)"
  then have k: "k < q - p"
    using assms by simp
  have "sub (put b i xs) p q ! k = put b i xs ! (p + k)"
    using k assms by (intro nth_sub) auto
  also have "\<dots> = b ! (p + k)"
    using k assms by (subst nth_put) auto
  also have "\<dots> = sub b p q ! k"
    using k assms by (intro nth_sub [symmetric]) auto
  finally show "sub (put b i xs) p q ! k = sub b p q ! k" .
qed

lemma put_Cons: "0 < i \<Longrightarrow> put (x # b) i xs = x # put b (i - 1) xs"
  by (cases i) (simp_all add: put_def)

lemma sub_Cons_0: "0 < j \<Longrightarrow> sub (x # xs) 0 j = x # sub xs 0 (j - 1)"
  by (cases j) (simp_all add: sub_def)

lemma sub_Cons: "0 < i \<Longrightarrow> sub (x # xs) i j = sub xs (i - 1) (j - 1)"
  by (cases i; cases j) (simp_all add: sub_def)

lemma sub_zeros: "sub (zeros n) i j = zeros (min (j - i) (n - i))"
  by (simp add: sub_def zeros_def min.commute)

lemma le_dec_zeros [simp]: "le_dec (zeros n) = 0"
  by (induction n) (simp_all add: zeros_def)

lemmas put_simps = put_append_right put_Cons put_zeros_start
lemmas sub_simps = sub_append_left sub_append_right sub_zero_append sub_Cons sub_Cons_0 sub_all

section \<open>The image file\<close>

text \<open>
  \<open>std::fs::File\<close> on the disk image: a length and the bytes below it. Every operation of the
  sources seeks to an absolute offset first, so the cursor is not part of the state.
  \<open>write_all\<close> past the end extends the file and fills the gap with zeros; \<open>read_exact\<close> that
  would pass the end fails. Failures of the device itself (\<open>EIO\<close>, \<open>ENOSPC\<close>) are outside the
  model.
\<close>

record image =
  flen :: nat
  fdat :: "nat \<Rightarrow> u8"

definition fget :: "image \<Rightarrow> nat \<Rightarrow> u8" where
  "fget f i = (if i < flen f then fdat f i else 0)"

definition fread :: "image \<Rightarrow> nat \<Rightarrow> nat \<Rightarrow> bytes option" where
  "fread f off n = (if off + n \<le> flen f then Some (map (fget f) [off..<off + n]) else None)"

definition fwrite :: "image \<Rightarrow> nat \<Rightarrow> bytes \<Rightarrow> image" where
  "fwrite f off xs =
     (if xs = [] then f
      else \<lparr>flen = max (flen f) (off + length xs),
            fdat = (\<lambda>i. if off \<le> i \<and> i < off + length xs then xs ! (i - off) else fget f i)\<rparr>)"

text \<open>A freshly created image of a given size (\<open>dd if=/dev/zero\<close>).\<close>

definition blank_file :: "nat \<Rightarrow> image" where
  "blank_file n = \<lparr>flen = n, fdat = (\<lambda>_. 0)\<rparr>"

text \<open>Two files with the same contents.\<close>

definition same_file :: "image \<Rightarrow> image \<Rightarrow> bool" where
  "same_file f g \<longleftrightarrow> flen f = flen g \<and> (\<forall>i. fget f i = fget g i)"

lemma fget_beyond [simp]: "flen f \<le> i \<Longrightarrow> fget f i = 0"
  by (simp add: fget_def)

lemma fget_fwrite:
  "fget (fwrite f off xs) i = (if off \<le> i \<and> i < off + length xs then xs ! (i - off) else fget f i)"
  by (cases "xs = []") (auto simp: fwrite_def fget_def)

lemma flen_fwrite:
  "flen (fwrite f off xs) = (if xs = [] then flen f else max (flen f) (off + length xs))"
  by (simp add: fwrite_def)

lemma flen_fwrite_inside [simp]: "off + length xs \<le> flen f \<Longrightarrow> flen (fwrite f off xs) = flen f"
  by (simp add: flen_fwrite)

lemma flen_fwrite_mono: "flen f \<le> flen (fwrite f off xs)"
  by (simp add: flen_fwrite)

lemma length_fread: "fread f off n = Some xs \<Longrightarrow> length xs = n"
  by (auto simp: fread_def split: if_splits)

lemma fread_Some: "off + n \<le> flen f \<Longrightarrow> fread f off n = Some (map (fget f) [off..<off + n])"
  by (simp add: fread_def)

lemma fread_nth: "fread f off n = Some xs \<Longrightarrow> i < n \<Longrightarrow> xs ! i = fget f (off + i)"
  by (auto simp: fread_def split: if_splits)

lemma fread_cong:
  assumes "flen f = flen g" and "\<And>i. off \<le> i \<Longrightarrow> i < off + n \<Longrightarrow> fget f i = fget g i"
  shows "fread f off n = fread g off n"
  using assms by (auto simp: fread_def)

lemma fread_fwrite_same [file_simps]:
  assumes "n = length xs" and "xs \<noteq> [] \<or> off \<le> flen f"
  shows "fread (fwrite f off xs) off n = Some xs"
proof -
  have "map (fget (fwrite f off xs)) [off..<off + length xs] = xs"
    by (rule nth_equalityI) (auto simp: fget_fwrite)
  with assms show ?thesis
    by (auto simp: fread_def flen_fwrite)
qed

lemma fread_fwrite_other [file_simps]:
  assumes "q + n \<le> off \<or> off + length xs \<le> q" and "q + n \<le> flen f"
  shows "fread (fwrite f off xs) q n = fread f q n"
  using assms flen_fwrite_mono [of f off xs] by (auto simp: fread_def fget_fwrite)

lemma fread_blank: "off + n \<le> k \<Longrightarrow> fread (blank_file k) off n = Some (zeros n)"
  by (auto simp: fread_def blank_file_def zeros_def fget_def intro: nth_equalityI)

lemma same_file_refl [simp]: "same_file f f"
  by (simp add: same_file_def)

lemma same_file_sym: "same_file f g \<Longrightarrow> same_file g f"
  by (simp add: same_file_def)

lemma same_file_trans: "same_file f g \<Longrightarrow> same_file g h \<Longrightarrow> same_file f h"
  by (simp add: same_file_def)

lemma same_file_fread: "same_file f g \<Longrightarrow> fread f off n = fread g off n"
  by (simp add: same_file_def fread_def)

lemma same_file_fwrite: "same_file f g \<Longrightarrow> same_file (fwrite f off xs) (fwrite g off xs)"
  by (auto simp: same_file_def flen_fwrite fget_fwrite)

text \<open>Writing what is already there changes nothing.\<close>

lemma fwrite_fread_id:
  assumes "fread f off n = Some xs"
  shows "same_file (fwrite f off xs) f"
  using assms by (auto simp: same_file_def flen_fwrite fget_fwrite fread_def split: if_splits)

text \<open>Two images that differ at most in the bytes \<open>a..b\<close>.\<close>

definition agree_outside :: "nat \<Rightarrow> nat \<Rightarrow> image \<Rightarrow> image \<Rightarrow> bool" where
  "agree_outside a b f g \<longleftrightarrow>
     (\<forall>i. i < a \<or> b \<le> i \<longrightarrow> fget g i = fget f i) \<and> flen f \<le> flen g \<and> flen g \<le> max (flen f) b"

lemma agree_outside_refl [simp]: "agree_outside a b f f"
  by (simp add: agree_outside_def)

lemma agree_outside_trans: "agree_outside a b f g \<Longrightarrow> agree_outside a b g h \<Longrightarrow> agree_outside a b f h"
  by (force simp: agree_outside_def)

lemma agree_outside_fwrite:
  "a \<le> off \<Longrightarrow> off + length xs \<le> b \<Longrightarrow> agree_outside a b f (fwrite f off xs)"
  by (auto simp: agree_outside_def fget_fwrite flen_fwrite)

lemma agree_outside_mono: "agree_outside a b f g \<Longrightarrow> a' \<le> a \<Longrightarrow> b \<le> b' \<Longrightarrow> agree_outside a' b' f g"
  by (force simp: agree_outside_def)

lemma agree_outside_fread:
  assumes "agree_outside a b f g" and "off + n \<le> a \<or> b \<le> off" and "off + n \<le> flen f"
  shows "fread g off n = fread f off n"
  using assms by (auto simp: agree_outside_def fread_def)

lemma agree_outside_flen: "agree_outside a b f g \<Longrightarrow> b \<le> flen f \<Longrightarrow> flen g = flen f"
  by (auto simp: agree_outside_def)

section \<open>Hash maps\<close>

text \<open>
  A \<open>HashMap\<close> is an association list with distinct keys. Its iteration order is unspecified
  in Rust; here it is the order of the list, which the theorems leave arbitrary.
\<close>

type_synonym ('k, 'v) hmap = "('k \<times> 'v) list"

definition hm_get :: "('k, 'v) hmap \<Rightarrow> 'k \<Rightarrow> 'v option" where
  "hm_get m k = map_of m k"

definition hm_insert :: "'k \<Rightarrow> 'v \<Rightarrow> ('k, 'v) hmap \<Rightarrow> ('k, 'v) hmap" where
  "hm_insert k v m = AList.update k v m"

definition hm_remove :: "'k \<Rightarrow> ('k, 'v) hmap \<Rightarrow> ('k, 'v) hmap" where
  "hm_remove k m = AList.delete k m"

definition hm_wf :: "('k, 'v) hmap \<Rightarrow> bool" where
  "hm_wf m \<longleftrightarrow> distinct (map fst m)"

lemma hm_wf_Nil [simp]: "hm_wf []"
  by (simp add: hm_wf_def)

lemma hm_get_Nil [simp]: "hm_get [] k = None"
  by (simp add: hm_get_def)

lemma hm_get_insert [simp]: "hm_get (hm_insert k v m) k' = (if k' = k then Some v else hm_get m k')"
  by (simp add: hm_get_def hm_insert_def update_conv')

lemma hm_get_remove [simp]: "hm_get (hm_remove k m) k' = (if k' = k then None else hm_get m k')"
  by (simp add: hm_get_def hm_remove_def delete_conv')

lemma hm_wf_insert [simp]: "hm_wf m \<Longrightarrow> hm_wf (hm_insert k v m)"
  by (simp add: hm_wf_def hm_insert_def distinct_update)

lemma hm_wf_remove [simp]: "hm_wf m \<Longrightarrow> hm_wf (hm_remove k m)"
  by (simp add: hm_wf_def hm_remove_def distinct_delete)

lemma hm_get_Some_iff: "hm_wf m \<Longrightarrow> hm_get m k = Some v \<longleftrightarrow> (k, v) \<in> set m"
  by (simp add: hm_wf_def hm_get_def)

lemma hm_get_None_iff: "hm_get m k = None \<longleftrightarrow> k \<notin> fst ` set m"
  by (simp add: hm_get_def map_of_eq_None_iff)

lemma hm_get_in_set: "hm_get m k = Some v \<Longrightarrow> (k, v) \<in> set m"
  by (simp add: hm_get_def map_of_SomeD)

lemma hm_insert_new: "hm_get m k = None \<Longrightarrow> hm_insert k v m = m @ [(k, v)]"
  by (induction m) (auto simp: hm_insert_def hm_get_def split: if_splits)

lemma hm_all_insert:
  "hm_wf m \<Longrightarrow> \<forall>x \<in> set m. P x \<Longrightarrow> P (k, v) \<Longrightarrow> \<forall>x \<in> set (hm_insert k v m). P x"
  using hm_wf_insert [of m k v]
  by (auto simp flip: hm_get_Some_iff split: if_splits)

lemma hm_keys_insert: "fst ` set (hm_insert k v m) = insert k (fst ` set m)"
  by (auto simp: hm_insert_def update_conv' simp flip: dom_map_of_conv_image_fst)

lemma hm_keys_remove: "fst ` set (hm_remove k m) = fst ` set m - {k}"
  by (auto simp: hm_remove_def delete_conv' simp flip: dom_map_of_conv_image_fst split: if_splits)

text \<open>The sum of a measure over the values of a map.\<close>

definition hm_sum :: "('v \<Rightarrow> nat) \<Rightarrow> ('k, 'v) hmap \<Rightarrow> nat" where
  "hm_sum f m = sum_list (map (f \<circ> snd) m)"

lemma hm_sum_Nil [simp]: "hm_sum f [] = 0"
  by (simp add: hm_sum_def)

lemma hm_sum_remove: "hm_wf m \<Longrightarrow> hm_get m k = Some v \<Longrightarrow> hm_sum f (hm_remove k m) + f v = hm_sum f m"
proof (induction m)
  case Nil
  then show ?case by simp
next
  case (Cons p m)
  show ?case
  proof (cases "fst p = k")
    case True
    have "k \<notin> fst ` set m" using Cons.prems(1) True by (auto simp: hm_wf_def)
    then have "AList.delete k m = m" by (force simp: AList.delete_eq filter_id_conv)
    with True Cons.prems show ?thesis
      by (cases p) (auto simp: hm_sum_def hm_remove_def hm_get_def)
  next
    case False
    with Cons show ?thesis
      by (cases p) (auto simp: hm_sum_def hm_remove_def hm_get_def hm_wf_def)
  qed
qed

lemma hm_sum_insert_new: "hm_get m k = None \<Longrightarrow> hm_sum f (hm_insert k v m) = hm_sum f m + f v"
  by (induction m) (auto simp: hm_sum_def hm_insert_def hm_get_def split: if_splits)

lemma hm_sum_insert_old:
  "hm_get m k = Some w \<Longrightarrow> hm_sum f (hm_insert k v m) + f w = hm_sum f m + f v"
  by (induction m) (auto simp: hm_sum_def hm_insert_def hm_get_def split: if_splits)

lemma hm_sum_member: "hm_get m k = Some v \<Longrightarrow> f v \<le> hm_sum f m"
  by (induction m) (auto simp: hm_sum_def hm_get_def split: if_splits)

lemma length_hm_remove: "hm_get m k = Some v \<Longrightarrow> length (hm_remove k m) < length m"
  using length_delete_le [of k] by (induction m) (auto simp: hm_remove_def hm_get_def less_Suc_eq_le split: if_splits)

section \<open>Vectors and iterators\<close>

text \<open>
  \<open>Vec::insert\<close> and \<open>Vec::remove\<close> at an index in range, \<open>partition_point\<close> as the length
  of the longest prefix satisfying the predicate (which is what it computes on a partitioned
  slice), and \<open>min_by_key\<close>, which returns the first of several minima.
\<close>

definition insert_nth :: "nat \<Rightarrow> 'a \<Rightarrow> 'a list \<Rightarrow> 'a list" where
  "insert_nth i x xs = take i xs @ x # drop i xs"

definition remove_nth :: "nat \<Rightarrow> 'a list \<Rightarrow> 'a list" where
  "remove_nth i xs = take i xs @ drop (Suc i) xs"

definition min_by_key :: "('a \<Rightarrow> 'k::linorder) \<Rightarrow> 'a list \<Rightarrow> 'a option" where
  "min_by_key key xs =
     (case xs of [] \<Rightarrow> None
      | y # ys \<Rightarrow> Some (foldl (\<lambda>b c. if key c < key b then c else b) y ys))"

lemma length_remove_nth: "i < length xs \<Longrightarrow> length (remove_nth i xs) = length xs - 1"
  by (simp add: remove_nth_def)

lemma set_remove_nth_subset: "set (remove_nth i xs) \<subseteq> set xs"
  by (auto simp: remove_nth_def dest: in_set_takeD in_set_dropD)

lemma remove_nth_append: "i = length xs \<Longrightarrow> remove_nth i (xs @ y # ys) = xs @ ys"
  by (simp add: remove_nth_def)

lemma length_insert_nth: "length (insert_nth i x xs) = Suc (length xs)"
  by (auto simp: insert_nth_def)

lemma min_by_key_fold:
  "foldl (\<lambda>b c. if key c < key b then c else b) y ys \<in> insert y (set ys)
   \<and> (\<forall>x \<in> insert y (set ys). key (foldl (\<lambda>b c. if key c < key b then c else b) y ys) \<le> key x)"
  for key :: "'a \<Rightarrow> 'k::linorder"
proof (induction ys arbitrary: y)
  case Nil
  then show ?case by simp
next
  case (Cons c ys)
  let ?m = "if key c < key y then c else y"
  let ?r = "foldl (\<lambda>b c. if key c < key b then c else b) ?m ys"
  have "?r \<in> insert ?m (set ys)" and le: "\<forall>x \<in> insert ?m (set ys). key ?r \<le> key x"
    using Cons.IH [of ?m] by blast+
  moreover have "key ?r \<le> key ?m" and "key ?m \<le> key y" and "key ?m \<le> key c"
    using le by auto
  ultimately show ?case
    by (auto split: if_splits intro: order.trans)
qed

lemma min_by_key_Some:
  assumes "min_by_key key xs = Some m"
  shows "m \<in> set xs" and "x \<in> set xs \<Longrightarrow> key m \<le> key x"
  using assms min_by_key_fold [where key = key] by (auto simp: min_by_key_def split: list.splits)

lemma min_by_key_None: "min_by_key key xs = None \<longleftrightarrow> xs = []"
  by (simp add: min_by_key_def split: list.splits)

lemma min_by_key_singleton [simp]: "min_by_key key [x] = Some x"
  by (simp add: min_by_key_def)

definition partition_point :: "('a \<Rightarrow> bool) \<Rightarrow> 'a list \<Rightarrow> nat" where
  "partition_point p xs = length (takeWhile p xs)"

lemma partition_point_le: "partition_point p xs \<le> length xs"
  by (simp add: partition_point_def length_takeWhile_le)

lemma partition_point_Nil [simp]: "partition_point p [] = 0"
  by (simp add: partition_point_def)

lemma partition_point_Cons:
  "partition_point p (x # xs) = (if p x then Suc (partition_point p xs) else 0)"
  by (simp add: partition_point_def)

lemma insert_nth_0 [simp]: "insert_nth 0 x xs = x # xs"
  by (simp add: insert_nth_def)

lemma insert_nth_Suc [simp]: "insert_nth (Suc i) x (y # ys) = y # insert_nth i x ys"
  by (simp add: insert_nth_def)

lemma remove_nth_0 [simp]: "remove_nth 0 (y # ys) = ys"
  by (simp add: remove_nth_def)

lemma remove_nth_Suc [simp]: "remove_nth (Suc i) (y # ys) = y # remove_nth i ys"
  by (simp add: remove_nth_def)

lemma nth_size_less [termination_simp]: "i < length xs \<Longrightarrow> f (xs ! i) < Suc (size_list f xs)"
  by (metis size_list_estimation' le_imp_less_Suc nth_mem order_refl)

text \<open>\<open>entry(k).or_default().push(x)\<close>.\<close>

definition hm_push :: "'k \<Rightarrow> 'v \<Rightarrow> ('k, 'v list) hmap \<Rightarrow> ('k, 'v list) hmap" where
  "hm_push k x m = hm_insert k ((case hm_get m k of Some xs \<Rightarrow> xs | None \<Rightarrow> []) @ [x]) m"

text \<open>Collecting elements by a key, in their order.\<close>

definition group_by :: "('a \<Rightarrow> 'k) \<Rightarrow> 'a list \<Rightarrow> ('k, 'a list) hmap" where
  "group_by key xs = foldl (\<lambda>m x. hm_push (key x) x m) [] xs"

lemma hm_wf_push [simp]: "hm_wf m \<Longrightarrow> hm_wf (hm_push k x m)"
  by (simp add: hm_push_def)

lemma hm_wf_group_by [simp]: "hm_wf (group_by key xs)"
  by (induction xs rule: rev_induct) (simp_all add: group_by_def)

lemma hm_get_group_by:
  "hm_get (group_by key xs) k = (if k \<in> key ` set xs then Some (filter (\<lambda>x. key x = k) xs) else None)"
proof (induction xs rule: rev_induct)
  case Nil
  then show ?case by (simp add: group_by_def)
next
  case (snoc x xs)
  have "group_by key (xs @ [x]) = hm_push (key x) x (group_by key xs)" by (simp add: group_by_def)
  then show ?case
    using snoc by (cases "k = key x"; cases "key x \<in> key ` set xs") (auto simp: hm_push_def image_iff filter_empty_conv)
qed

text \<open>A stable sort by a key, largest first: \<open>sort_by(|a, b| key(b).cmp(&key(a)))\<close>.\<close>

definition sort_desc :: "('a \<Rightarrow> 'w::len word) \<Rightarrow> 'a list \<Rightarrow> 'a list" where
  "sort_desc key = sort_key (\<lambda>x. - int (unat (key x)))"

lemma sort_desc_set [simp]: "set (sort_desc key xs) = set xs" "length (sort_desc key xs) = length xs"
  "distinct (sort_desc key xs) = distinct xs"
  by (simp_all add: sort_desc_def)

lemma sort_desc_cong:
  assumes "\<And>x. x \<in> set xs \<Longrightarrow> f x = g x"
  shows "sort_desc f xs = sort_desc g xs"
proof -
  have ins: "insort_key f x ys = insort_key g x ys" if "f x = g x" "\<forall>y \<in> set ys. f y = g y"
    for f g :: "'a \<Rightarrow> int" and x ys
    using that by (induction ys) auto
  have "sort_key f xs = sort_key g xs" if "\<forall>x \<in> set xs. f x = g x" for f g :: "'a \<Rightarrow> int"
    using that
  proof (induction xs)
    case (Cons x xs)
    then have "sort_key f xs = sort_key g xs" "f x = g x" "\<forall>y \<in> set (sort_key g xs). f y = g y" by auto
    then show ?case by (simp only: sort_key_simps ins)
  qed simp
  then show ?thesis unfolding sort_desc_def using assms by simp
qed

lemma sort_desc_order:
  assumes "x \<in> set (take n (sort_desc key xs))" and "y \<in> set (drop n (sort_desc key xs))"
  shows "key y \<le> key x"
proof -
  let ?k = "\<lambda>x. - int (unat (key x))"
  have "sorted (map ?k (take n (sort_desc key xs) @ drop n (sort_desc key xs)))" by (simp add: sort_desc_def)
  with assms show ?thesis by (simp only: map_append sorted_append) (auto simp: word_le_def)
qed

text \<open>\<open>chunks(n)\<close> of a slice, for \<open>n > 0\<close>: pieces of \<open>n\<close> elements, the last one shorter.\<close>

fun chunks :: "nat \<Rightarrow> 'a list \<Rightarrow> 'a list list" where
  "chunks n xs = (if n = 0 \<or> xs = [] then [] else take n xs # chunks n (drop n xs))"

declare chunks.simps [simp del]

lemma chunks_Nil [simp]: "chunks n [] = []"
  by (simp add: chunks.simps)

lemma chunks_Cons: "0 < n \<Longrightarrow> xs \<noteq> [] \<Longrightarrow> chunks n xs = take n xs # chunks n (drop n xs)"
  by (subst chunks.simps) simp

lemma concat_chunks: "0 < n \<Longrightarrow> concat (chunks n xs) = xs"
proof (induction n xs rule: chunks.induct)
  case (1 n xs)
  then show ?case by (cases "xs = []") (simp_all add: chunks_Cons)
qed

lemma length_chunks: "0 < n \<Longrightarrow> length (chunks n xs) = (length xs + n - 1) div n"
proof (induction n xs rule: chunks.induct)
  case (1 n xs)
  show ?case
  proof (cases "xs = []")
    case True
    with 1 show ?thesis by simp
  next
    case False
    with 1 have ih: "length (chunks n (drop n xs)) = (length xs - n + n - 1) div n"
      by simp
    show ?thesis
    proof (cases "n \<le> length xs")
      case True
      with 1 False ih show ?thesis
        using div_add_self2 [of n "length xs - 1"] by (simp add: chunks_Cons)
    next
      case less: False
      have "(length xs + n - 1) div n = Suc ((length xs - 1) div n)"
        using 1 False div_add_self2 [of n "length xs - 1"] by (cases "length xs") auto
      with 1 False less ih show ?thesis by (simp add: chunks_Cons)
    qed
  qed
qed

lemma chunks_bounds: "0 < n \<Longrightarrow> c \<in> set (chunks n xs) \<Longrightarrow> c \<noteq> [] \<and> length c \<le> n"
proof (induction n xs rule: chunks.induct)
  case (1 n xs)
  then show ?case by (cases "xs = []") (auto simp: chunks_Cons)
qed

end
