(* ===== verification/BTree.thy ===== *)
theory BTree
  imports Prelude
begin

text \<open>
  \<open>src/fs/btree.rs\<close>: the B+ tree that indexes directory entries by
  \<open>(parent inode, name)\<close>. Vector indexing that would panic out of range is guarded by the
  range test; the invariant shows the guard always holds.
\<close>

section \<open>Keys and values\<close>

definition ORDER :: nat where "ORDER = 8"

datatype key = Key (key_parent: u64) (key_name: rstring)

definition key_new :: "u64 \<Rightarrow> rstring \<Rightarrow> key" where
  "key_new parent_ino name = Key parent_ino name"

definition dir_start :: "u64 \<Rightarrow> key" where
  "dir_start parent_ino = Key parent_ino []"

text \<open>The UTF-8 bytes of \<open>U+10FFFF\<close>.\<close>

definition dir_end :: "u64 \<Rightarrow> key" where
  "dir_end parent_ino = Key parent_ino [0xF4, 0x8F, 0xBF, 0xBF]"

text \<open>\<open>impl Ord for Key\<close>: the parent first, then the name.\<close>

instantiation key :: linorder
begin

definition less_key :: "key \<Rightarrow> key \<Rightarrow> bool" where
  "less_key k l \<longleftrightarrow>
     key_parent k < key_parent l \<or> (key_parent k = key_parent l \<and> key_name k < key_name l)"

definition less_eq_key :: "key \<Rightarrow> key \<Rightarrow> bool" where
  "less_eq_key k l \<longleftrightarrow>
     key_parent k < key_parent l \<or> (key_parent k = key_parent l \<and> key_name k \<le> key_name l)"

instance
  by standard (auto simp: less_key_def less_eq_key_def not_less key.expand)

end

record bt_value =
  v_ino :: u64
  v_size :: u64
  v_is_dir :: bool
  v_disk_index :: nat

section \<open>Nodes\<close>

datatype node = Leaf "key list" "bt_value list" | Internal "key list" "node list"

datatype insert_result = InsertOk | Split key node

datatype remove_result = RemoveOk "bt_value option" | NotFound

definition new_leaf :: node where "new_leaf = Leaf [] []"

definition new_internal :: "key list \<Rightarrow> node list \<Rightarrow> node" where
  "new_internal ks cs = Internal ks cs"

definition is_leaf :: "node \<Rightarrow> bool" where
  "is_leaf n = (case n of Leaf _ _ \<Rightarrow> True | Internal _ _ \<Rightarrow> False)"

definition key_count :: "node \<Rightarrow> nat" where
  "key_count n = (case n of Leaf ks _ \<Rightarrow> length ks | Internal ks _ \<Rightarrow> length ks)"

definition is_full :: "node \<Rightarrow> bool" where
  "is_full n \<longleftrightarrow> ORDER - 1 \<le> key_count n"

fun node_get :: "key \<Rightarrow> node \<Rightarrow> bt_value option" where
  "node_get key (Leaf keys vals) =
     (let pos = partition_point (\<lambda>k. k < key) keys in
      if pos < length keys \<and> keys ! pos = key then Some (vals ! pos) else None)"
| "node_get key (Internal keys children) =
     (let pos = partition_point (\<lambda>k. k \<le> key) keys in
      if pos < length children then node_get key (children ! pos) else None)"

text \<open>
  \<open>&mut self\<close> methods return the updated node with their result.
\<close>

definition leaf_insert :: "key \<Rightarrow> bt_value \<Rightarrow> key list \<Rightarrow> bt_value list \<Rightarrow> node \<times> insert_result" where
  "leaf_insert key val keys vals =
     (let pos = partition_point (\<lambda>k. k < key) keys in
      if pos < length keys \<and> keys ! pos = key then (Leaf keys (vals[pos := val]), InsertOk)
      else
        (let keys = insert_nth pos key keys; vals = insert_nth pos val vals in
         if ORDER \<le> length keys
         then (let mid = length keys div 2;
                   right_keys = drop mid keys;
                   right_vals = drop mid vals;
                   promoted = right_keys ! 0
               in (Leaf (take mid keys) (take mid vals), Split promoted (Leaf right_keys right_vals)))
         else (Leaf keys vals, InsertOk)))"

definition internal_absorb :: "nat \<Rightarrow> key list \<Rightarrow> node list \<Rightarrow> node \<times> insert_result \<Rightarrow> node \<times> insert_result" where
  "internal_absorb pos keys children res =
     (case res of
        (child, InsertOk) \<Rightarrow> (Internal keys (children[pos := child]), InsertOk)
      | (child, Split promoted right_child) \<Rightarrow>
          (let keys = insert_nth pos promoted keys;
               children = insert_nth (pos + 1) right_child (children[pos := child]) in
           if ORDER \<le> length keys
           then (let mid = length keys div 2;
                     promoted = keys ! mid;
                     right_keys = drop (mid + 1) keys;
                     left_keys = butlast (take (mid + 1) keys);
                     right_children = drop (mid + 1) children
                 in (Internal left_keys (take (mid + 1) children),
                     Split promoted (new_internal right_keys right_children)))
           else (Internal keys children, InsertOk)))"

fun node_insert :: "key \<Rightarrow> bt_value \<Rightarrow> node \<Rightarrow> node \<times> insert_result" where
  "node_insert key val (Leaf keys vals) = leaf_insert key val keys vals"
| "node_insert key val (Internal keys children) =
     (let pos = partition_point (\<lambda>k. k \<le> key) keys in
      if pos < length children
      then internal_absorb pos keys children (node_insert key val (children ! pos))
      else (Internal keys children, InsertOk))"

fun node_remove :: "key \<Rightarrow> node \<Rightarrow> node \<times> remove_result" where
  "node_remove key (Leaf keys vals) =
     (let pos = partition_point (\<lambda>k. k < key) keys in
      if pos < length keys \<and> keys ! pos = key
      then (Leaf (remove_nth pos keys) (remove_nth pos vals), RemoveOk (Some (vals ! pos)))
      else (Leaf keys vals, NotFound))"
| "node_remove key (Internal keys children) =
     (let pos = partition_point (\<lambda>k. k \<le> key) keys in
      if pos < length children
      then (let (child, r) = node_remove key (children ! pos)
            in (Internal keys (children[pos := child]), r))
      else (Internal keys children, NotFound))"

fun collect_all :: "node \<Rightarrow> (key \<times> bt_value) list" where
  "collect_all (Leaf keys vals) = zip keys vals"
| "collect_all (Internal keys children) = concat (map collect_all children)"

text \<open>\<open>keys.get(i).map_or(true, p)\<close>.\<close>

definition get_map_or_true :: "'a list \<Rightarrow> nat \<Rightarrow> ('a \<Rightarrow> bool) \<Rightarrow> bool" where
  "get_map_or_true xs i p \<longleftrightarrow> (if i < length xs then p (xs ! i) else True)"

fun collect_range :: "key \<Rightarrow> key \<Rightarrow> node \<Rightarrow> (key \<times> bt_value) list" where
  "collect_range start end' (Leaf keys vals) =
     filter (\<lambda>(k, v). start \<le> k \<and> k \<le> end') (zip keys vals)"
| "collect_range start end' (Internal keys children) =
     concat (map (\<lambda>i.
       (let above_min = (if i = 0 then True else get_map_or_true keys (i - 1) (\<lambda>k. k \<le> end'));
            below_max = get_map_or_true keys i (\<lambda>k. start \<le> k)
        in if above_min \<and> below_max then collect_range start end' (children ! i) else []))
       [0..<length children])"

section \<open>The tree\<close>

record bplus_tree =
  bt_root :: node
  bt_size :: nat

definition bt_new :: bplus_tree where
  "bt_new = \<lparr>bt_root = new_leaf, bt_size = 0\<rparr>"

definition bt_len :: "bplus_tree \<Rightarrow> nat" where "bt_len t = bt_size t"
definition bt_is_empty :: "bplus_tree \<Rightarrow> bool" where "bt_is_empty t \<longleftrightarrow> bt_size t = 0"

definition bt_insert :: "u64 \<Rightarrow> rstring \<Rightarrow> bt_value \<Rightarrow> bplus_tree \<Rightarrow> bplus_tree" where
  "bt_insert parent_ino name value t =
     (let key = key_new parent_ino name;
          already_exists = node_get key (bt_root t) \<noteq> None;
          root = (case node_insert key value (bt_root t) of
                    (root, InsertOk) \<Rightarrow> root
                  | (root, Split promoted right) \<Rightarrow> new_internal [promoted] [root, right])
      in \<lparr>bt_root = root, bt_size = (if already_exists then bt_size t else bt_size t + 1)\<rparr>)"

definition bt_remove :: "u64 \<Rightarrow> rstring \<Rightarrow> bplus_tree \<Rightarrow> bplus_tree \<times> bt_value option" where
  "bt_remove parent_ino name t =
     (case node_remove (key_new parent_ino name) (bt_root t) of
        (root, RemoveOk val) \<Rightarrow>
          (\<lparr>bt_root = root, bt_size = (if val \<noteq> None then bt_size t - 1 else bt_size t)\<rparr>, val)
      | (root, NotFound) \<Rightarrow> (t\<lparr>bt_root := root\<rparr>, None))"

definition bt_get :: "u64 \<Rightarrow> rstring \<Rightarrow> bplus_tree \<Rightarrow> bt_value option" where
  "bt_get parent_ino name t = node_get (key_new parent_ino name) (bt_root t)"

definition bt_list_dir :: "u64 \<Rightarrow> bplus_tree \<Rightarrow> (key \<times> bt_value) list" where
  "bt_list_dir parent_ino t = collect_range (dir_start parent_ino) (dir_end parent_ino) (bt_root t)"

definition bt_list_all :: "bplus_tree \<Rightarrow> (key \<times> bt_value) list" where
  "bt_list_all t = collect_all (bt_root t)"

definition bt_range_keys :: "key \<Rightarrow> key \<Rightarrow> bplus_tree \<Rightarrow> (key \<times> bt_value) list" where
  "bt_range_keys start end' t = collect_range start end' (bt_root t)"

section \<open>The search-tree invariant\<close>

text \<open>
  A subtree holds keys in a half-open interval; \<open>None\<close> is an absent bound. Child \<open>i\<close> of an
  internal node lies between separator \<open>i - 1\<close> (included) and separator \<open>i\<close> (excluded).
\<close>

definition ge_lo :: "key option \<Rightarrow> key \<Rightarrow> bool" where
  "ge_lo lo k = (case lo of None \<Rightarrow> True | Some l \<Rightarrow> l \<le> k)"

definition gt_lo :: "key option \<Rightarrow> key \<Rightarrow> bool" where
  "gt_lo lo k = (case lo of None \<Rightarrow> True | Some l \<Rightarrow> l < k)"

definition lt_hi :: "key option \<Rightarrow> key \<Rightarrow> bool" where
  "lt_hi hi k = (case hi of None \<Rightarrow> True | Some h \<Rightarrow> k < h)"

fun node_inv :: "key option \<Rightarrow> key option \<Rightarrow> node \<Rightarrow> bool"
  and kids_inv :: "key option \<Rightarrow> key option \<Rightarrow> key list \<Rightarrow> node list \<Rightarrow> bool" where
  "node_inv lo hi (Leaf ks vs) \<longleftrightarrow>
     length ks = length vs \<and> sorted_wrt (<) ks \<and> (\<forall>k \<in> set ks. ge_lo lo k \<and> lt_hi hi k)"
| "node_inv lo hi (Internal ks cs) \<longleftrightarrow> kids_inv lo hi ks cs"
| "kids_inv lo hi [] [c] \<longleftrightarrow> node_inv lo hi c"
| "kids_inv lo hi (k # ks) (c # cs) \<longleftrightarrow>
     gt_lo lo k \<and> lt_hi hi k \<and> node_inv lo (Some k) c \<and> kids_inv (Some k) hi ks cs"
| "kids_inv lo hi _ _ \<longleftrightarrow> False"

lemma bounds_simps [simp]:
  "ge_lo None k" "gt_lo None k" "lt_hi None k"
  "ge_lo (Some l) k \<longleftrightarrow> l \<le> k" "gt_lo (Some l) k \<longleftrightarrow> l < k" "lt_hi (Some h) k \<longleftrightarrow> k < h"
  by (simp_all add: ge_lo_def gt_lo_def lt_hi_def)

lemma lt_hi_trans: "k < l \<Longrightarrow> lt_hi hi l \<Longrightarrow> lt_hi hi k"
  by (cases hi) auto

lemma ge_lo_trans: "ge_lo lo k \<Longrightarrow> k \<le> l \<Longrightarrow> ge_lo lo l"
  by (cases lo) auto

lemma gt_lo_ge: "gt_lo lo k \<Longrightarrow> ge_lo lo k"
  by (cases lo) auto

lemma gt_lo_trans: "gt_lo lo k \<Longrightarrow> k \<le> l \<Longrightarrow> gt_lo lo l"
  by (cases lo) auto

lemma kids_inv_length: "kids_inv lo hi ks cs \<Longrightarrow> length cs = Suc (length ks)"
  by (induction ks arbitrary: lo cs) (auto elim: kids_inv.elims)

lemma kids_inv_Nil: "kids_inv lo hi [] cs \<longleftrightarrow> (\<exists>c. cs = [c] \<and> node_inv lo hi c)"
  by (cases cs; cases "tl cs") auto

lemma kids_inv_Cons:
  "kids_inv lo hi (k # ks) cs \<longleftrightarrow>
    (\<exists>c cs'. cs = c # cs' \<and> gt_lo lo k \<and> lt_hi hi k \<and> node_inv lo (Some k) c \<and> kids_inv (Some k) hi ks cs')"
  by (cases cs) auto

lemma kids_inv_append:
  "length cs1 = Suc (length ks1) \<Longrightarrow> kids_inv lo hi (ks1 @ k # ks2) (cs1 @ cs2) \<longleftrightarrow>
    kids_inv lo (Some k) ks1 cs1 \<and> gt_lo lo k \<and> lt_hi hi k \<and> kids_inv (Some k) hi ks2 cs2"
proof (induction ks1 arbitrary: lo cs1)
  case Nil
  then obtain c where "cs1 = [c]" by (cases cs1) auto
  then show ?case by auto
next
  case (Cons k1 ks1)
  then obtain c cs' where cs1: "cs1 = c # cs'" and len: "length cs' = Suc (length ks1)"
    by (cases cs1) auto
  have "k1 < k \<Longrightarrow> gt_lo lo k1 \<Longrightarrow> gt_lo lo k" and "k1 < k \<Longrightarrow> lt_hi hi k \<Longrightarrow> lt_hi hi k1"
    by (auto intro: gt_lo_trans lt_hi_trans)
  then show ?case
    using Cons.IH [OF len, of "Some k1"] by (auto simp: cs1)
qed

section \<open>Entries\<close>

abbreviation keys_of :: "node \<Rightarrow> key set" where
  "keys_of n \<equiv> fst ` set (collect_all n)"

abbreviation kids_all :: "node list \<Rightarrow> (key \<times> bt_value) list" where
  "kids_all cs \<equiv> concat (map collect_all cs)"

lemma node_inv_entries:
  "node_inv lo hi n \<Longrightarrow> sorted_wrt (<) (map fst (collect_all n))
     \<and> (\<forall>k \<in> keys_of n. ge_lo lo k \<and> lt_hi hi k)"
  and kids_inv_entries:
  "kids_inv lo hi ks cs \<Longrightarrow> sorted_wrt (<) (map fst (kids_all cs))
     \<and> (\<forall>k \<in> fst ` set (kids_all cs). ge_lo lo k \<and> lt_hi hi k)"
proof (induction lo hi n and lo hi ks cs rule: node_inv_kids_inv.induct)
  case (1 lo hi ks vs)
  then show ?case
    by (auto dest: set_zip_leftD)
next
  case (4 lo hi k ks c cs)
  then have ih1: "sorted_wrt (<) (map fst (collect_all c))" "\<forall>x \<in> keys_of c. ge_lo lo x \<and> x < k"
    and ih2: "sorted_wrt (<) (map fst (kids_all cs))" "\<forall>x \<in> fst ` set (kids_all cs). k \<le> x \<and> lt_hi hi x"
    and k: "gt_lo lo k" "lt_hi hi k"
    by auto
  have "sorted_wrt (<) (map fst (kids_all (c # cs)))"
    using ih1 ih2 by (force simp: sorted_wrt_append)
  moreover have "\<forall>x \<in> fst ` set (kids_all (c # cs)). ge_lo lo x \<and> lt_hi hi x"
  proof
    fix x assume "x \<in> fst ` set (kids_all (c # cs))"
    then consider "x \<in> keys_of c" | "x \<in> fst ` set (kids_all cs)"
      by auto
    then show "ge_lo lo x \<and> lt_hi hi x"
      using ih1(2) ih2(2) k by cases (blast intro: gt_lo_ge ge_lo_trans lt_hi_trans)+
  qed
  ultimately show ?case ..
qed auto

text \<open>Where a search descends, and what may be put in the place of that child.\<close>

lemma kids_descend:
  assumes "kids_inv lo hi ks cs" and "ge_lo lo key" and "lt_hi hi key"
  defines "pos \<equiv> partition_point (\<lambda>k. k \<le> key) ks"
  shows "\<exists>cs1 c cs2 lo' hi'. cs = cs1 @ c # cs2 \<and> length cs1 = pos
    \<and> node_inv lo' hi' c \<and> ge_lo lo' key \<and> lt_hi hi' key
    \<and> (\<forall>k \<in> fst ` set (kids_all cs1). k < key) \<and> (\<forall>k \<in> fst ` set (kids_all cs2). key < k)
    \<and> (\<forall>c'. node_inv lo' hi' c' \<longrightarrow> kids_inv lo hi ks (cs1 @ c' # cs2))
    \<and> (\<forall>c' p r. node_inv lo' (Some p) c' \<and> node_inv (Some p) hi' r \<and> gt_lo lo' p \<and> lt_hi hi' p
         \<longrightarrow> kids_inv lo hi (insert_nth pos p ks) (cs1 @ c' # r # cs2))"
  using assms(1,2) unfolding pos_def
proof (induction ks arbitrary: lo cs)
  case Nil
  then obtain c where "cs = [c]" "node_inv lo hi c"
    by (auto simp: kids_inv_Nil)
  with Nil assms(3) show ?case
    by (intro exI [of _ "[]"] exI [of _ c] exI [of _ lo] exI [of _ hi]) auto
next
  case (Cons k ks)
  then obtain c cs' where cs: "cs = c # cs'" and k: "gt_lo lo k" "lt_hi hi k"
    and c: "node_inv lo (Some k) c" and rest: "kids_inv (Some k) hi ks cs'"
    by (auto simp: kids_inv_Cons)
  show ?case
  proof (cases "k \<le> key")
    case True
    from Cons.IH [OF rest] True obtain cs1 d cs2 lo' hi' where
      d: "cs' = cs1 @ d # cs2" "length cs1 = partition_point (\<lambda>k. k \<le> key) ks"
        "node_inv lo' hi' d" "ge_lo lo' key" "lt_hi hi' key"
      and before: "\<forall>k \<in> fst ` set (kids_all cs1). k < key"
      and after: "\<forall>k \<in> fst ` set (kids_all cs2). key < k"
      and one: "\<forall>c'. node_inv lo' hi' c' \<longrightarrow> kids_inv (Some k) hi ks (cs1 @ c' # cs2)"
      and two: "\<forall>c' p r. node_inv lo' (Some p) c' \<and> node_inv (Some p) hi' r \<and> gt_lo lo' p \<and> lt_hi hi' p
         \<longrightarrow> kids_inv (Some k) hi (insert_nth (partition_point (\<lambda>k. k \<le> key) ks) p ks) (cs1 @ c' # r # cs2)"
      by auto
    have "\<forall>x \<in> keys_of c. x < key"
      using node_inv_entries [OF c] True by auto
    with before have "\<forall>x \<in> fst ` set (kids_all (c # cs1)). x < key"
      by auto
    with d after one two True k c show ?thesis
      by (intro exI [of _ "c # cs1"] exI [of _ d] exI [of _ cs2] exI [of _ lo'] exI [of _ hi'])
        (simp add: cs partition_point_Cons)
  next
    case False
    have "\<forall>x \<in> fst ` set (kids_all cs'). key < x"
      using kids_inv_entries [OF rest] False by (metis bounds_simps(4) not_le order.strict_trans2)
    with False k c rest Cons.prems(2) show ?thesis
      by (intro exI [of _ "[]"] exI [of _ c] exI [of _ cs'] exI [of _ lo] exI [of _ "Some k"])
        (auto simp: cs partition_point_Cons intro: lt_hi_trans)
  qed
qed

definition descent :: "key option \<Rightarrow> key option \<Rightarrow> key list \<Rightarrow> node list \<Rightarrow> key
    \<Rightarrow> node list \<Rightarrow> node \<Rightarrow> node list \<Rightarrow> key option \<Rightarrow> key option \<Rightarrow> bool" where
  "descent lo hi ks cs key cs1 c cs2 lo' hi' \<longleftrightarrow>
     (let pos = partition_point (\<lambda>k. k \<le> key) ks in
      cs = cs1 @ c # cs2 \<and> length cs1 = pos \<and> node_inv lo' hi' c \<and> ge_lo lo' key \<and> lt_hi hi' key
      \<and> (\<forall>k \<in> fst ` set (kids_all cs1). k < key) \<and> (\<forall>k \<in> fst ` set (kids_all cs2). key < k)
      \<and> (\<forall>c'. node_inv lo' hi' c' \<longrightarrow> kids_inv lo hi ks (cs1 @ c' # cs2))
      \<and> (\<forall>c' p r. node_inv lo' (Some p) c' \<and> node_inv (Some p) hi' r \<and> gt_lo lo' p \<and> lt_hi hi' p
           \<longrightarrow> kids_inv lo hi (insert_nth pos p ks) (cs1 @ c' # r # cs2)))"

lemma kids_descent:
  assumes "kids_inv lo hi ks cs" and "ge_lo lo key" and "lt_hi hi key"
  shows "\<exists>cs1 c cs2 lo' hi'. descent lo hi ks cs key cs1 c cs2 lo' hi'"
  using kids_descend [OF assms] unfolding descent_def Let_def .

lemma descentD:
  assumes "descent lo hi ks cs key cs1 c cs2 lo' hi'"
  defines "pos \<equiv> partition_point (\<lambda>k. k \<le> key) ks"
  shows "cs = cs1 @ c # cs2" and "length cs1 = pos"
    and "pos < length cs" and "cs ! pos = c" and "cs[pos := d] = cs1 @ d # cs2"
    and "node_inv lo' hi' c" and "ge_lo lo' key" and "lt_hi hi' key"
    and "\<forall>k \<in> fst ` set (kids_all cs1). k < key" and "\<forall>k \<in> fst ` set (kids_all cs2). key < k"
    and "node_inv lo' hi' d \<Longrightarrow> kids_inv lo hi ks (cs1 @ d # cs2)"
    and "node_inv lo' (Some p) d \<Longrightarrow> node_inv (Some p) hi' r \<Longrightarrow> gt_lo lo' p \<Longrightarrow> lt_hi hi' p
       \<Longrightarrow> kids_inv lo hi (insert_nth pos p ks) (cs1 @ d # r # cs2)"
proof -
  show cs: "cs = cs1 @ c # cs2" and len: "length cs1 = pos"
    using assms by (simp_all add: descent_def Let_def)
  show "pos < length cs" "cs ! pos = c" "cs[pos := d] = cs1 @ d # cs2"
    by (simp_all add: cs flip: len)
qed (use assms in \<open>simp_all add: descent_def Let_def\<close>)

section \<open>Sorted association lists\<close>

text \<open>The abstract effect of an insertion and of a removal on the entries in key order.\<close>

definition upd_sorted :: "'k::linorder \<Rightarrow> 'v \<Rightarrow> ('k \<times> 'v) list \<Rightarrow> ('k \<times> 'v) list" where
  "upd_sorted k v xs = filter (\<lambda>p. fst p < k) xs @ (k, v) # filter (\<lambda>p. k < fst p) xs"

definition del_sorted :: "'k \<Rightarrow> ('k \<times> 'v) list \<Rightarrow> ('k \<times> 'v) list" where
  "del_sorted k xs = filter (\<lambda>p. fst p \<noteq> k) xs"

lemma all_below:
  assumes "\<forall>x \<in> fst ` set xs. x < (k :: 'k::linorder)"
  shows "filter (\<lambda>p. fst p < k) xs = xs" and "filter (\<lambda>p. k < fst p) xs = []"
    and "filter (\<lambda>p. fst p \<noteq> k) xs = xs" and "map_of xs k = None"
proof -
  have lt: "fst p < k" if "p \<in> set xs" for p
    using assms that by simp
  then show "filter (\<lambda>p. fst p < k) xs = xs"
    by (simp add: filter_id_conv)
  show "filter (\<lambda>p. k < fst p) xs = []"
    using lt by (force simp: filter_empty_conv)
  show "filter (\<lambda>p. fst p \<noteq> k) xs = xs"
    using lt by (force simp: filter_id_conv)
  show "map_of xs k = None"
    using lt by (force simp: map_of_eq_None_iff)
qed

lemma all_above:
  assumes "\<forall>x \<in> fst ` set xs. (k :: 'k::linorder) < x"
  shows "filter (\<lambda>p. fst p < k) xs = []" and "filter (\<lambda>p. k < fst p) xs = xs"
    and "filter (\<lambda>p. fst p \<noteq> k) xs = xs" and "map_of xs k = None"
proof -
  have lt: "k < fst p" if "p \<in> set xs" for p
    using assms that by simp
  then show "filter (\<lambda>p. k < fst p) xs = xs"
    by (simp add: filter_id_conv)
  show "filter (\<lambda>p. fst p < k) xs = []"
    using lt by (force simp: filter_empty_conv)
  show "filter (\<lambda>p. fst p \<noteq> k) xs = xs"
    using lt by (force simp: filter_id_conv)
  show "map_of xs k = None"
    using lt by (force simp: map_of_eq_None_iff)
qed

lemma upd_sorted_middle:
  assumes "\<forall>x \<in> fst ` set xs. x < (k :: 'k::linorder)" and "\<forall>x \<in> fst ` set zs. k < x"
  shows "upd_sorted k v (xs @ ys @ zs) = xs @ upd_sorted k v ys @ zs"
  using all_below [OF assms(1)] all_above [OF assms(2)] by (simp add: upd_sorted_def)

lemma del_sorted_middle:
  assumes "\<forall>x \<in> fst ` set xs. x < (k :: 'k::linorder)" and "\<forall>x \<in> fst ` set zs. k < x"
  shows "del_sorted k (xs @ ys @ zs) = xs @ del_sorted k ys @ zs"
  using all_below [OF assms(1)] all_above [OF assms(2)] by (simp add: del_sorted_def)

lemma map_of_filter_key: "map_of (filter (\<lambda>p. P (fst p)) xs) x = (if P x then map_of xs x else None)"
  by (induction xs) auto

lemma map_of_upd_sorted: "map_of (upd_sorted k v xs) = (map_of xs)(k \<mapsto> v)"
  by (rule ext) (auto simp: upd_sorted_def map_add_def map_of_filter_key [of "\<lambda>x. x < k"]
      map_of_filter_key [of "\<lambda>x. k < x"] split: option.splits)

lemma map_of_del_sorted: "map_of (del_sorted k xs) = (map_of xs)(k := None)"
  by (rule ext) (auto simp: del_sorted_def map_of_filter_key [of "\<lambda>x. x \<noteq> k"])

lemma map_of_middle:
  assumes "\<forall>x \<in> fst ` set xs. x < (k :: 'k::linorder)" and "\<forall>x \<in> fst ` set zs. k < x"
  shows "map_of (xs @ ys @ zs) k = map_of ys k"
  using all_below(4) [OF assms(1)] all_above(4) [OF assms(2)] by (auto simp: map_add_def split: option.splits)

lemma sorted_upd_sorted:
  "sorted_wrt (<) (map fst xs) \<Longrightarrow> sorted_wrt (<) (map fst (upd_sorted k v xs))"
  by (auto simp: upd_sorted_def sorted_wrt_append sorted_wrt_map sorted_wrt_filter)

lemma keys_upd_sorted: "fst ` set (upd_sorted k v xs) \<subseteq> insert k (fst ` set xs)"
  by (auto simp: upd_sorted_def)

lemma length_upd_sorted:
  assumes "sorted_wrt (<) (map fst xs)"
  shows "length (upd_sorted k v xs) = (if k \<in> fst ` set xs then length xs else Suc (length xs))"
  using assms
proof (induction xs)
  case Nil
  then show ?case by (simp add: upd_sorted_def)
next
  case (Cons p xs)
  then have gt: "\<forall>x \<in> fst ` set xs. fst p < x"
    by auto
  consider "fst p < k" | "fst p = k" | "k < fst p" by fastforce
  then show ?case
  proof cases
    case 1
    then have "upd_sorted k v (p # xs) = p # upd_sorted k v xs"
      by (auto simp: upd_sorted_def)
    with 1 Cons show ?thesis by auto
  next
    case 2
    then have "filter (\<lambda>q. fst q < k) xs = []" "filter (\<lambda>q. k < fst q) xs = xs"
      using gt by (auto simp: filter_empty_conv filter_id_conv)
    with 2 show ?thesis by (simp add: upd_sorted_def)
  next
    case 3
    then have "filter (\<lambda>q. fst q < k) xs = []" "filter (\<lambda>q. k < fst q) xs = xs"
      using gt by (auto simp: filter_empty_conv filter_id_conv)
    with 3 gt show ?thesis by (auto simp: upd_sorted_def)
  qed
qed

text \<open>A leaf's parallel vectors split at the position the code computes.\<close>

lemma leaf_position:
  fixes xs :: "('k::linorder \<times> 'v) list" and key :: 'k
  assumes "sorted_wrt (<) (map fst xs)"
  defines "pos \<equiv> partition_point (\<lambda>k. k < key) (map fst xs)"
  shows "take pos xs = filter (\<lambda>p. fst p < key) xs"
    and "drop pos xs = filter (\<lambda>p. key \<le> fst p) xs"
    and "pos = length (filter (\<lambda>p. fst p < key) xs)"
proof -
  have "take pos xs = filter (\<lambda>p. fst p < key) xs \<and> drop pos xs = filter (\<lambda>p. key \<le> fst p) xs"
    using assms(1) unfolding pos_def
  proof (induction xs)
    case Nil
    then show ?case by simp
  next
    case (Cons p xs)
    show ?case
    proof (cases "fst p < key")
      case True
      with Cons show ?thesis by (simp add: partition_point_Cons)
    next
      case False
      have "\<forall>q \<in> set xs. key \<le> fst q \<and> \<not> fst q < key"
        using Cons.prems False by fastforce
      then have "filter (\<lambda>p. fst p < key) xs = []" "filter (\<lambda>p. key \<le> fst p) xs = xs"
        by (auto simp: filter_empty_conv filter_id_conv)
      with False show ?thesis by (simp add: partition_point_Cons)
    qed
  qed
  moreover have "pos \<le> length xs"
    unfolding pos_def by (metis length_map partition_point_le)
  ultimately show "take pos xs = filter (\<lambda>p. fst p < key) xs"
    and "drop pos xs = filter (\<lambda>p. key \<le> fst p) xs"
    and "pos = length (filter (\<lambda>p. fst p < key) xs)"
    by (auto, metis length_take min.absorb2)
qed

lemma leaf_cases:
  fixes xs :: "('k::linorder \<times> 'v) list" and key :: 'k
  assumes "sorted_wrt (<) (map fst xs)"
  defines "pos \<equiv> partition_point (\<lambda>k. k < key) (map fst xs)"
  obtains (present) v zs where "xs = filter (\<lambda>p. fst p < key) xs @ (key, v) # zs"
      "zs = filter (\<lambda>p. key < fst p) xs" "pos < length xs" "map fst xs ! pos = key" "map_of xs key = Some v"
  | (absent) "xs = filter (\<lambda>p. fst p < key) xs @ filter (\<lambda>p. key < fst p) xs"
      "\<not> (pos < length xs \<and> map fst xs ! pos = key)" "map_of xs key = None"
proof -
  let ?lo = "filter (\<lambda>p. fst p < key) xs"
  note lp = leaf_position [OF assms(1), of key, folded pos_def]
  have split: "xs = ?lo @ filter (\<lambda>p. key \<le> fst p) xs"
    using lp(1,2) append_take_drop_id [of pos xs] by simp
  show thesis
  proof (cases "key \<in> fst ` set xs")
    case True
    then obtain v where v: "(key, v) \<in> set xs" by auto
    then have mv: "map_of xs key = Some v"
      using assms(1) by (simp add: strict_sorted_iff)
    obtain q zs where hd: "filter (\<lambda>p. key \<le> fst p) xs = q # zs"
      using v by (cases "filter (\<lambda>p. key \<le> fst p) xs") (auto simp: filter_empty_conv)
    have "sorted_wrt (<) (map fst (q # zs))"
      using assms(1) hd by (metis sorted_wrt_filter sorted_wrt_map)
    moreover have "(key, v) \<in> set (filter (\<lambda>p. key \<le> fst p) xs)"
      using v by simp
    moreover have "q \<in> set (filter (\<lambda>p. key \<le> fst p) xs)"
      using hd by simp
    moreover have "key \<le> fst q"
      using calculation(3) by simp
    ultimately have "sorted_wrt (<) (map fst (q # zs))" "(key, v) \<in> set (q # zs)" "key \<le> fst q"
      using hd by simp_all
    then have q: "q = (key, v)" by fastforce
    then have gt: "\<forall>z \<in> set zs. key < fst z"
      using \<open>sorted_wrt (<) (map fst (q # zs))\<close> by auto
    have "zs = filter (\<lambda>p. key < fst p) (q # zs)"
      using q gt by (simp add: filter_id_conv)
    also have "\<dots> = filter (\<lambda>p. key < fst p) xs"
      unfolding hd [symmetric] filter_filter by (rule filter_cong) auto
    finally have zs: "zs = filter (\<lambda>p. key < fst p) xs" .
    have xs: "xs = ?lo @ (key, v) # zs"
      using split hd q by simp
    moreover have "pos < length xs" "map fst xs ! pos = key"
      using lp(3) xs by (metis (no_types, lifting) add_Suc_right length_Cons length_append less_add_Suc1,
          metis (no_types, lifting) append_Cons fst_conv length_map list.simps(9) lp(3) map_append nth_append_length)
    ultimately show thesis using zs mv by (intro present)
  next
    case False
    have "filter (\<lambda>p. key \<le> fst p) xs = filter (\<lambda>p. key < fst p) xs"
      using False by (intro filter_cong) (auto simp: le_less)
    moreover have "\<not> (pos < length xs \<and> map fst xs ! pos = key)"
      using False by (metis (no_types, lifting) imageI in_set_conv_nth length_map nth_map)
    ultimately show thesis
      using split False by (intro absent) (auto simp: map_of_eq_None_iff)
  qed
qed

section \<open>Lookup\<close>

lemma leaf_zip:
  assumes "length ks = length vs"
  obtains xs where "ks = map fst xs" "vs = map snd xs" "zip ks vs = xs"
  using assms by (metis map_fst_zip map_snd_zip)

lemma node_get_correct:
  assumes "node_inv lo hi n" and "ge_lo lo key" and "lt_hi hi key"
  shows "node_get key n = map_of (collect_all n) key"
  using assms
proof (induction key n arbitrary: lo hi rule: node_get.induct)
  case (1 key ks vs)
  then obtain xs where xs: "ks = map fst xs" "vs = map snd xs" "zip ks vs = xs"
    by (auto elim: leaf_zip)
  have "sorted_wrt (<) (map fst xs)" using 1 xs by simp
  then show ?case
  proof (cases rule: leaf_cases [where key = key])
    case (present v zs)
    let ?pos = "partition_point (\<lambda>k. k < key) (map fst xs)"
    have "distinct (map fst xs)"
      using \<open>sorted_wrt (<) (map fst xs)\<close> strict_sorted_iff by blast
    moreover have "xs ! ?pos \<in> set xs" using present(3) by simp
    ultimately have "map_of xs key = Some (snd (xs ! ?pos))"
      using present(3,4) by (metis map_of_is_SomeI nth_map prod.collapse)
    with present(3,4) xs show ?thesis by (simp add: Let_def)
  next
    case absent
    from absent(2,3) xs show ?thesis by (auto simp: Let_def)
  qed
next
  case (2 key ks cs)
  let ?pos = "partition_point (\<lambda>k. k \<le> key) ks"
  have inv: "kids_inv lo hi ks cs" using 2 by simp
  from kids_descent [OF inv 2(3,4)] obtain cs1 c cs2 lo' hi'
    where "descent lo hi ks cs key cs1 c cs2 lo' hi'" by blast
  note d = descentD [OF this]
  note c = d(1,2) and pos = d(3,4) and upd = d(5) and kid = d(6-8) and out = d(9,10) and one = d(11) and two = d(12)
  then have "node_get key c = map_of (collect_all c) key"
    using 2(1) [OF refl, of lo' hi'] pos kid by simp
  with pos map_of_middle [OF out, of "collect_all c"] c(1) show ?case
    by (simp add: Let_def)
qed

section \<open>Insertion\<close>

text \<open>What an insertion into a subtree promises its parent.\<close>

definition insert_ok :: "key option \<Rightarrow> key option \<Rightarrow> (key \<times> bt_value) list \<Rightarrow> node \<times> insert_result \<Rightarrow> bool" where
  "insert_ok lo hi entries res =
     (case res of
        (n, InsertOk) \<Rightarrow> node_inv lo hi n \<and> collect_all n = entries
      | (n, Split p m) \<Rightarrow> node_inv lo (Some p) n \<and> node_inv (Some p) hi m \<and> gt_lo lo p \<and> lt_hi hi p
          \<and> collect_all n @ collect_all m = entries)"

lemma leaf_split_ok:
  assumes "sorted_wrt (<) (map fst xs)" and "\<forall>k \<in> set (map fst xs). ge_lo lo k \<and> lt_hi hi k"
    and "0 < mid" and "mid < length xs"
  shows "insert_ok lo hi xs (Leaf (take mid (map fst xs)) (take mid (map snd xs)),
      Split (drop mid (map fst xs) ! 0) (Leaf (drop mid (map fst xs)) (drop mid (map snd xs))))"
proof -
  let ?ks = "map fst xs"
  have split: "?ks = take mid ?ks @ drop mid ?ks" by simp
  have sorted: "sorted_wrt (<) (take mid ?ks)" "sorted_wrt (<) (drop mid ?ks)"
    using assms(1) by (auto simp: sorted_wrt_take sorted_wrt_drop)
  have hd: "drop mid ?ks ! 0 = ?ks ! mid" using assms(4) by simp
  have below: "k < ?ks ! mid" if k: "k \<in> set (take mid ?ks)" for k
  proof -
    from k obtain i where "i < mid" "k = ?ks ! i"
      using assms(4) by (auto simp: in_set_conv_nth)
    with assms(1,4) show ?thesis
      using sorted_wrt_nth_less [OF assms(1), of i mid] by auto
  qed
  have above: "?ks ! mid \<le> k" if k: "k \<in> set (drop mid ?ks)" for k
  proof -
    from k obtain i where "i < length ?ks - mid" "k = ?ks ! (mid + i)"
      by (auto simp: in_set_conv_nth)
    with assms(1,4) show ?thesis
      using sorted_wrt_nth_less [OF assms(1), of mid "mid + i"] by (cases i) (auto simp del: nth_map simp: less_imp_le)
  qed
  have "?ks ! 0 < ?ks ! mid"
    using sorted_wrt_nth_less [OF assms(1), of 0 mid] assms(3,4) by auto
  moreover have "ge_lo lo (?ks ! 0)"
    using assms(2,4) by (metis nth_mem length_map gr_zeroI not_less_zero)
  ultimately have gt: "gt_lo lo (?ks ! mid)"
    by (cases lo) auto
  have lt: "lt_hi hi (?ks ! mid)"
    using assms(2,4) by (metis nth_mem length_map)
  have "node_inv lo (Some (?ks ! mid)) (Leaf (take mid ?ks) (take mid (map snd xs)))"
    using sorted(1) below assms(2) in_set_takeD [of _ mid ?ks] by (auto simp del: nth_map set_map)
  moreover have "node_inv (Some (?ks ! mid)) hi (Leaf (drop mid ?ks) (drop mid (map snd xs)))"
    using sorted(2) above assms(2) in_set_dropD [of _ mid ?ks] by (auto simp del: nth_map set_map)
  moreover have "zip (take mid ?ks) (take mid (map snd xs)) @ zip (drop mid ?ks) (drop mid (map snd xs)) = xs"
    by (simp add: zip_map_fst_snd take_map drop_map)
  ultimately show ?thesis
    unfolding insert_ok_def hd using gt lt by simp
qed

lemma leaf_insert_ok:
  assumes "node_inv lo hi (Leaf ks vs)" and "ge_lo lo key" and "lt_hi hi key"
  shows "insert_ok lo hi (upd_sorted key val (zip ks vs)) (leaf_insert key val ks vs)"
proof -
  from assms obtain xs where xs: "ks = map fst xs" "vs = map snd xs" "zip ks vs = xs"
    by (auto elim: leaf_zip)
  have sorted: "sorted_wrt (<) (map fst xs)" using assms xs by simp
  let ?pos = "partition_point (\<lambda>k. k < key) (map fst xs)"
  let ?lo = "filter (\<lambda>p. fst p < key) xs"
  let ?new = "upd_sorted key val xs"
  have pos: "?pos = length ?lo" using leaf_position(3) [OF sorted] .
  have bounds: "\<forall>k \<in> set (map fst ?new). ge_lo lo k \<and> lt_hi hi k"
    using assms xs keys_upd_sorted [of key val xs] by fastforce
  have new_sorted: "sorted_wrt (<) (map fst ?new)"
    using sorted by (rule sorted_upd_sorted)
  have whole: "insert_ok lo hi ?new (Leaf (map fst ?new) (map snd ?new), InsertOk)"
    using bounds new_sorted by (auto simp: insert_ok_def zip_map_fst_snd)
  show ?thesis
    using sorted
  proof (cases rule: leaf_cases [where key = key])
    case (present v zs)
    have "?new = ?lo @ (key, val) # zs"
      using present(2) by (simp add: upd_sorted_def)
    moreover have "(map snd xs)[?pos := val] = map snd ?lo @ val # map snd zs"
      by (subst (1) present(1)) (simp add: pos list_update_append)
    moreover have "map fst xs = map fst ?lo @ key # map fst zs"
      by (subst (1) present(1)) simp
    moreover have "leaf_insert key val ks vs = (Leaf (map fst xs) ((map snd xs)[?pos := val]), InsertOk)"
      using present(3,4) xs(1,2) by (simp add: leaf_insert_def)
    ultimately have "leaf_insert key val ks vs = (Leaf (map fst ?new) (map snd ?new), InsertOk)"
      by simp
    with whole xs show ?thesis by simp
  next
    case absent
    have ks: "insert_nth ?pos key (map fst xs) = map fst ?new"
      by (subst (2) absent(1)) (simp add: insert_nth_def pos upd_sorted_def)
    have vs: "insert_nth ?pos val (map snd xs) = map snd ?new"
      by (subst (2) absent(1)) (simp add: insert_nth_def pos upd_sorted_def)
    have eq: "leaf_insert key val ks vs =
      (let keys = map fst ?new; vals = map snd ?new in
       if ORDER \<le> length keys
       then (let mid = length keys div 2; right_keys = drop mid keys; right_vals = drop mid vals;
                 promoted = right_keys ! 0
             in (Leaf (take mid keys) (take mid vals), Split promoted (Leaf right_keys right_vals)))
       else (Leaf keys vals, InsertOk))"
      using absent(2) unfolding leaf_insert_def Let_def xs(1,2) length_map by (simp only: if_False ks vs length_map)
    show ?thesis
    proof (cases "ORDER \<le> length ?new")
      case True
      then have "0 < length ?new div 2" "length ?new div 2 < length ?new"
        by (auto simp: ORDER_def)
      from leaf_split_ok [OF new_sorted bounds this] True show ?thesis
        unfolding eq Let_def xs(3) by (simp only: if_True length_map)
    next
      case False
      with whole show ?thesis
        unfolding eq Let_def xs(3) by (simp only: if_False length_map)
    qed
  qed
qed

lemma butlast_take_Suc: "i < length xs \<Longrightarrow> butlast (take (Suc i) xs) = take i xs"
  by (simp add: take_Suc_conv_app_nth)

lemma internal_split_ok:
  assumes "kids_inv lo hi ks cs" and "mid < length ks"
  shows "insert_ok lo hi (kids_all cs) (Internal (butlast (take (mid + 1) ks)) (take (mid + 1) cs),
      Split (ks ! mid) (new_internal (drop (mid + 1) ks) (drop (mid + 1) cs)))"
proof -
  have ks: "ks = take mid ks @ ks ! mid # drop (Suc mid) ks"
    using assms(2) by (rule id_take_nth_drop)
  have cs: "cs = take (Suc mid) cs @ drop (Suc mid) cs" by simp
  have "length (take (Suc mid) cs) = Suc (length (take mid ks))"
    using kids_inv_length [OF assms(1)] assms(2) by simp
  from kids_inv_append [OF this, of lo hi "ks ! mid" "drop (Suc mid) ks" "drop (Suc mid) cs"]
  have "kids_inv lo (Some (ks ! mid)) (take mid ks) (take (Suc mid) cs) \<and> gt_lo lo (ks ! mid)
      \<and> lt_hi hi (ks ! mid) \<and> kids_inv (Some (ks ! mid)) hi (drop (Suc mid) ks) (drop (Suc mid) cs)"
    using assms(1) ks cs by simp
  moreover have "kids_all (take (Suc mid) cs) @ kids_all (drop (Suc mid) cs) = kids_all cs"
    by (metis append_take_drop_id concat_append map_append)
  ultimately show ?thesis
    using assms(2) by (simp add: insert_ok_def new_internal_def butlast_take_Suc)
qed

lemma node_insert_ok:
  assumes "node_inv lo hi n" and "ge_lo lo key" and "lt_hi hi key"
  shows "insert_ok lo hi (upd_sorted key val (collect_all n)) (node_insert key val n)"
  using assms
proof (induction key val n arbitrary: lo hi rule: node_insert.induct)
  case (1 key val ks vs)
  then show ?case by (simp add: leaf_insert_ok)
next
  case (2 key val ks cs)
  let ?pos = "partition_point (\<lambda>k. k \<le> key) ks"
  have inv: "kids_inv lo hi ks cs" using 2 by simp
  from kids_descent [OF inv 2(3,4)] obtain cs1 c cs2 lo' hi'
    where "descent lo hi ks cs key cs1 c cs2 lo' hi'" by blast
  note d = descentD [OF this]
  note c = d(1,2) and pos = d(3,4) and upd = d(5) and kid = d(6-8) and out = d(9,10) and one = d(11) and two = d(12)
  have ins: "insert_nth (Suc ?pos) r (cs1 @ c' # cs2) = cs1 @ c' # r # cs2" for r c'
    using c(2) [symmetric] by (simp add: insert_nth_def)
  have ih: "insert_ok lo' hi' (upd_sorted key val (collect_all c)) (node_insert key val c)"
    using 2(1) [OF refl, of lo' hi'] pos kid by simp
  have target: "upd_sorted key val (kids_all cs) = kids_all cs1 @ upd_sorted key val (collect_all c) @ kids_all cs2"
    using upd_sorted_middle [OF out, of val "collect_all c"] c(1) by simp
  obtain c' r where res: "node_insert key val c = (c', r)" by fastforce
  show ?case
  proof (cases r)
    case InsertOk
    then show ?thesis
      using ih res pos one target
      by (simp add: insert_ok_def internal_absorb_def upd Let_def)
  next
    case (Split p m)
    let ?ks = "insert_nth ?pos p ks" and ?cs = "cs1 @ c' # m # cs2"
    have split: "node_inv lo' (Some p) c'" "node_inv (Some p) hi' m" "gt_lo lo' p" "lt_hi hi' p"
      "collect_all c' @ collect_all m = upd_sorted key val (collect_all c)"
      using ih res Split by (simp_all add: insert_ok_def)
    have kids: "kids_inv lo hi ?ks ?cs" using two [OF split(1-4)] .
    have entries: "kids_all ?cs = upd_sorted key val (kids_all cs)"
      using split(5) target by simp
    show ?thesis
    proof (cases "ORDER \<le> length ?ks")
      case True
      then have "length ?ks div 2 < length ?ks" by (auto simp: ORDER_def)
      from internal_split_ok [OF kids this] True entries pos res Split show ?thesis
        by (simp add: internal_absorb_def upd ins Let_def)
    next
      case False
      with kids entries pos res Split show ?thesis
        by (simp add: insert_ok_def internal_absorb_def upd ins Let_def)
    qed
  qed
qed

section \<open>Removal\<close>

lemma leaf_remove_ok:
  assumes inv: "node_inv lo hi (Leaf (map fst xs) (map snd xs))"
  shows "node_inv lo hi (fst (node_remove key (Leaf (map fst xs) (map snd xs))))
    \<and> collect_all (fst (node_remove key (Leaf (map fst xs) (map snd xs)))) = del_sorted key xs
    \<and> snd (node_remove key (Leaf (map fst xs) (map snd xs))) = (case map_of xs key of None \<Rightarrow> NotFound | Some v \<Rightarrow> RemoveOk (Some v))"
proof -
  have sorted: "sorted_wrt (<) (map fst xs)" using inv by simp
  let ?pos = "partition_point (\<lambda>k. k < key) (map fst xs)"
  let ?lo = "filter (\<lambda>p. fst p < key) xs"
  have pos: "?pos = length ?lo" using leaf_position(3) [OF sorted] .
  show ?thesis
    using sorted
  proof (cases rule: leaf_cases [where key = key])
    case (present v zs)
    have gt: "\<forall>p \<in> set zs. key < fst p" and "sorted_wrt (<) (map fst zs)"
      using present(2) sorted by (auto simp: sorted_wrt_filter sorted_wrt_map)
    have "del_sorted key xs = filter (\<lambda>p. fst p \<noteq> key) (?lo @ (key, v) # zs)"
      using present(1) by (simp add: del_sorted_def)
    also have "\<dots> = ?lo @ zs"
    proof -
      have "filter (\<lambda>p. fst p \<noteq> key) ?lo = ?lo" and "filter (\<lambda>p. fst p \<noteq> key) zs = zs"
        using gt by (force simp: filter_id_conv simp del: filter_filter)+
      then show ?thesis by simp
    qed
    finally have del: "del_sorted key xs = ?lo @ zs" .
    have ks: "remove_nth ?pos (map fst xs) = map fst (?lo @ zs)"
      by (subst (2) present(1)) (simp add: remove_nth_def pos)
    have vs: "remove_nth ?pos (map snd xs) = map snd (?lo @ zs)"
      by (subst (2) present(1)) (simp add: remove_nth_def pos)
    have val: "map snd xs ! ?pos = v"
      by (subst (1) present(1)) (simp add: pos nth_append)
    have fst: "node_remove key (Leaf (map fst xs) (map snd xs)) = (Leaf (map fst (?lo @ zs)) (map snd (?lo @ zs)), RemoveOk (Some v))"
      using present(3,4) ks vs val by (simp add: Let_def)
    have "sorted_wrt (<) (map fst (?lo @ zs))"
      using sorted del [symmetric] by (simp add: del_sorted_def sorted_wrt_filter sorted_wrt_map)
    moreover have "set (?lo @ zs) \<subseteq> set xs" using present(2) by auto
    then have "\<forall>k \<in> set (map fst (?lo @ zs)). ge_lo lo k \<and> lt_hi hi k"
      using inv by auto
    ultimately have "node_inv lo hi (Leaf (map fst (?lo @ zs)) (map snd (?lo @ zs)))"
      by simp
    moreover have "collect_all (Leaf (map fst (?lo @ zs)) (map snd (?lo @ zs))) = ?lo @ zs"
      by (simp only: collect_all.simps zip_map_fst_snd)
    ultimately show ?thesis
      unfolding fst using del present(5) by simp
  next
    case absent
    have "del_sorted key xs = xs"
      using absent(3) by (force simp: del_sorted_def filter_id_conv map_of_eq_None_iff)
    with absent(2,3) inv show ?thesis by (simp add: Let_def zip_map_fst_snd)
  qed
qed

lemma node_remove_ok:
  assumes "node_inv lo hi n" and "ge_lo lo key" and "lt_hi hi key"
  shows "node_inv lo hi (fst (node_remove key n))
    \<and> collect_all (fst (node_remove key n)) = del_sorted key (collect_all n)
    \<and> snd (node_remove key n) = (case map_of (collect_all n) key of None \<Rightarrow> NotFound | Some v \<Rightarrow> RemoveOk (Some v))"
  using assms
proof (induction key n arbitrary: lo hi rule: node_remove.induct)
  case (1 key ks vs)
  then obtain xs where xs: "ks = map fst xs" "vs = map snd xs" "zip ks vs = xs"
    by (auto elim: leaf_zip)
  then show ?case using leaf_remove_ok [of lo hi xs key] 1(1) by simp
next
  case (2 key ks cs)
  let ?pos = "partition_point (\<lambda>k. k \<le> key) ks"
  have inv: "kids_inv lo hi ks cs" using 2 by simp
  from kids_descent [OF inv 2(3,4)] obtain cs1 c cs2 lo' hi'
    where "descent lo hi ks cs key cs1 c cs2 lo' hi'" by blast
  note d = descentD [OF this]
  note c = d(1,2) and pos = d(3,4) and upd = d(5) and kid = d(6-8) and out = d(9,10) and one = d(11) and two = d(12)
  obtain c' r where res: "node_remove key c = (c', r)" by fastforce
  have ih: "node_inv lo' hi' c'" "collect_all c' = del_sorted key (collect_all c)"
    "r = (case map_of (collect_all c) key of None \<Rightarrow> NotFound | Some v \<Rightarrow> RemoveOk (Some v))"
    using 2(1) [OF refl, of lo' hi'] pos kid res by simp_all
  have "node_remove key (Internal ks cs) = (Internal ks (cs1 @ c' # cs2), r)"
    using pos res by (simp add: upd)
  moreover have "del_sorted key (kids_all cs) = kids_all (cs1 @ c' # cs2)"
    using del_sorted_middle [OF out, of "collect_all c"] c(1) ih(2) by simp
  moreover have "map_of (kids_all cs) key = map_of (collect_all c) key"
    using map_of_middle [OF out, of "collect_all c"] c(1) by simp
  ultimately show ?case
    using one [OF ih(1)] ih(3) by simp
qed

section \<open>Range scans\<close>

lemma kids_inv_nth:
  assumes "kids_inv lo hi ks cs" and "i < length cs"
  shows "node_inv (if i = 0 then lo else Some (ks ! (i - 1))) (if i < length ks then Some (ks ! i) else hi) (cs ! i)"
  using assms
proof (induction ks arbitrary: lo cs i)
  case Nil
  then show ?case by (auto simp: kids_inv_Nil)
next
  case (Cons k ks)
  then obtain c cs' where cs: "cs = c # cs'" "node_inv lo (Some k) c" "kids_inv (Some k) hi ks cs'"
    by (auto simp: kids_inv_Cons)
  show ?case
  proof (cases i)
    case 0
    with cs show ?thesis by simp
  next
    case (Suc j)
    with Cons.IH [OF cs(3), of j] Cons.prems(2) cs show ?thesis
      by (cases j) (auto simp: nth_Cons')
  qed
qed

abbreviation in_range :: "key \<Rightarrow> key \<Rightarrow> key \<times> bt_value \<Rightarrow> bool" where
  "in_range start end' p \<equiv> start \<le> fst p \<and> fst p \<le> end'"

lemma collect_range_correct:
  assumes "node_inv lo hi n"
  shows "collect_range start end' n = filter (in_range start end') (collect_all n)"
  using assms
proof (induction start end' n arbitrary: lo hi rule: collect_range.induct)
  case (1 start end' ks vs)
  then show ?case by (simp add: case_prod_unfold)
next
  case (2 start end' ks cs)
  have inv: "kids_inv lo hi ks cs" using 2(2) by simp
  note len = kids_inv_length [OF inv]
  let ?go = "\<lambda>i. (if i = 0 then True else get_map_or_true ks (i - 1) (\<lambda>k. k \<le> end'))
      \<and> get_map_or_true ks i (\<lambda>k. start \<le> k)"
  have kid: "(if ?go i then collect_range start end' (cs ! i) else [])
      = filter (in_range start end') (collect_all (cs ! i))" if i: "i \<in> set [0..<length cs]" for i
  proof (cases "?go i")
    case True
    then have "collect_range start end' (cs ! i) = filter (in_range start end') (collect_all (cs ! i))"
      using i by (intro 2(1) [OF i refl refl _ kids_inv_nth [OF inv]]) auto
    then show ?thesis unfolding if_P [OF True] .
  next
    case False
    have inv_i: "node_inv (if i = 0 then lo else Some (ks ! (i - 1)))
        (if i < length ks then Some (ks ! i) else hi) (cs ! i)"
      using kids_inv_nth [OF inv] i by simp
    consider "0 < i" "end' < ks ! (i - 1)" | "i < length ks" "ks ! i < start"
      using False i len by (auto simp: get_map_or_true_def split: if_splits)
    then have "\<forall>k \<in> keys_of (cs ! i). \<not> (start \<le> k \<and> k \<le> end')"
    proof cases
      case 1
      then have "\<forall>k \<in> keys_of (cs ! i). ks ! (i - 1) \<le> k"
        using node_inv_entries [OF inv_i] by simp
      with 1 show ?thesis by fastforce
    next
      case 2
      then have "\<forall>k \<in> keys_of (cs ! i). k < ks ! i"
        using node_inv_entries [OF inv_i] by simp
      with 2 show ?thesis by fastforce
    qed
    then have "filter (in_range start end') (collect_all (cs ! i)) = []"
      by (force simp: filter_empty_conv)
    then show ?thesis unfolding if_not_P [OF False] by (rule sym)
  qed
  have "collect_range start end' (Internal ks cs)
      = concat (map (\<lambda>i. if ?go i then collect_range start end' (cs ! i) else []) [0..<length cs])"
    by (simp add: Let_def)
  also have "\<dots> = concat (map (\<lambda>i. filter (in_range start end') (collect_all (cs ! i))) [0..<length cs])"
    by (intro arg_cong [where f = concat] map_cong refl kid)
  also have "\<dots> = filter (in_range start end') (concat (map (\<lambda>i. collect_all (cs ! i)) [0..<length cs]))"
    by (simp add: filter_concat o_def)
  also have "map (\<lambda>i. collect_all (cs ! i)) [0..<length cs] = map collect_all cs"
    by (intro nth_equalityI) simp_all
  finally show ?case by simp
qed

section \<open>Balance and fanout\<close>

text \<open>All leaves at the same depth, no node with more than \<open>ORDER - 1\<close> keys.\<close>

fun node_shape :: "nat \<Rightarrow> node \<Rightarrow> bool" where
  "node_shape h (Leaf ks vs) \<longleftrightarrow> h = 0 \<and> length ks < ORDER"
| "node_shape h (Internal ks cs) \<longleftrightarrow>
     0 < h \<and> ks \<noteq> [] \<and> length ks < ORDER \<and> (\<forall>c \<in> set cs. node_shape (h - 1) c)"

definition shape_ok :: "nat \<Rightarrow> node \<times> insert_result \<Rightarrow> bool" where
  "shape_ok h res =
     (case res of (n, InsertOk) \<Rightarrow> node_shape h n | (n, Split p m) \<Rightarrow> node_shape h n \<and> node_shape h m)"

lemma leaf_insert_shape:
  "length ks < ORDER \<Longrightarrow> length vs = length ks \<Longrightarrow> shape_ok 0 (leaf_insert key val ks vs)"
  by (auto simp: leaf_insert_def shape_ok_def Let_def ORDER_def length_insert_nth)

lemma set_insert_nth: "set (insert_nth i x xs) = insert x (set xs)"
  unfolding insert_nth_def by (metis append_take_drop_id list.set(2) set_append Un_insert_right)

lemma internal_absorb_shape:
  assumes "length ks < ORDER" and "ks \<noteq> []" and "\<forall>c \<in> set cs. node_shape h c" and "shape_ok h res"
  shows "shape_ok (Suc h) (internal_absorb pos ks cs res)"
proof -
  obtain c r where res: "res = (c, r)" by fastforce
  show ?thesis
  proof (cases r)
    case InsertOk
    with assms res show ?thesis
      using set_update_subset_insert [of cs pos c] by (auto simp: shape_ok_def internal_absorb_def)
  next
    case (Split p m)
    let ?ks = "insert_nth pos p ks" and ?cs = "insert_nth (pos + 1) m (cs[pos := c])"
    have kids: "\<forall>c \<in> set ?cs. node_shape h c"
      using set_update_subset_insert [of cs pos c] assms(3,4) res Split
      by (auto simp: shape_ok_def set_insert_nth)
    have len: "length ?ks = Suc (length ks)" by (simp add: length_insert_nth)
    show ?thesis
    proof (cases "ORDER \<le> length ?ks")
      case True
      then have "length ?ks = 8" using len assms(1) by (simp add: ORDER_def)
      then have "internal_absorb pos ks cs res = (Internal (butlast (take 5 ?ks)) (take 5 ?cs),
          Split (?ks ! 4) (Internal (drop 5 ?ks) (drop 5 ?cs)))"
        using True res Split by (simp add: internal_absorb_def Let_def new_internal_def)
      with kids \<open>length ?ks = 8\<close> show ?thesis
        by (auto simp: shape_ok_def ORDER_def dest: in_set_takeD in_set_dropD
            simp flip: length_0_conv length_greater_0_conv)
    next
      case False
      with kids len res Split show ?thesis
        by (auto simp: internal_absorb_def shape_ok_def Let_def simp flip: length_0_conv)
    qed
  qed
qed

lemma node_insert_shape:
  "node_inv lo hi n \<Longrightarrow> node_shape h n \<Longrightarrow> shape_ok h (node_insert key val n)"
proof (induction key val n arbitrary: h lo hi rule: node_insert.induct)
  case (1 key val ks vs)
  then show ?case by (simp add: leaf_insert_shape)
next
  case (2 key val ks cs)
  let ?pos = "partition_point (\<lambda>k. k \<le> key) ks"
  obtain h' where h: "h = Suc h'" using 2(3) by (cases h) auto
  show ?case
  proof (cases "?pos < length cs")
    case True
    then have "shape_ok h' (node_insert key val (cs ! ?pos))"
      using 2(1) [OF refl True kids_inv_nth [OF _ True]] 2(2,3) h by simp
    with internal_absorb_shape [where pos = ?pos] 2(3) h True show ?thesis by (simp add: Let_def)
  next
    case False
    with 2(3) show ?thesis by (simp add: shape_ok_def)
  qed
qed

lemma node_remove_shape: "node_shape h n \<Longrightarrow> node_shape h (fst (node_remove key n))"
proof (induction key n arbitrary: h rule: node_remove.induct)
  case (1 key ks vs)
  then show ?case by (auto simp: Let_def remove_nth_def)
next
  case (2 key ks cs)
  let ?pos = "partition_point (\<lambda>k. k \<le> key) ks"
  show ?case
  proof (cases "?pos < length cs")
    case True
    then have "node_shape (h - 1) (fst (node_remove key (cs ! ?pos)))"
      using 2 by simp
    with 2(2) True show ?thesis
      by (auto simp: Let_def split: prod.splits dest!: set_update_subset_insert [THEN subsetD])
  next
    case False
    with 2(2) show ?thesis by simp
  qed
qed

section \<open>The interface of a sorted index\<close>

text \<open>
  What the file-system layer relies on: an index whose contents are a list of entries sorted by
  key, changed by an insertion or a removal at one key only. The lemmas inside hold for
  every sequence of operations.
\<close>

datatype ('k, 'v) index_op = Put 'k 'v | Del 'k

fun map_step :: "('k, 'v) index_op \<Rightarrow> ('k \<rightharpoonup> 'v) \<Rightarrow> ('k \<rightharpoonup> 'v)" where
  "map_step (Put k v) m = m(k \<mapsto> v)"
| "map_step (Del k) m = m(k := None)"

locale sorted_index =
  fixes inv :: "'s \<Rightarrow> bool"
    and entries :: "'s \<Rightarrow> ('k::linorder \<times> 'v) list"
    and ins :: "'k \<Rightarrow> 'v \<Rightarrow> 's \<Rightarrow> 's"
    and del :: "'k \<Rightarrow> 's \<Rightarrow> 's"
    and look :: "'k \<Rightarrow> 's \<Rightarrow> 'v option"
  assumes inv_ins: "inv s \<Longrightarrow> inv (ins k v s)"
    and inv_del: "inv s \<Longrightarrow> inv (del k s)"
    and entries_ins: "inv s \<Longrightarrow> entries (ins k v s) = upd_sorted k v (entries s)"
    and entries_del: "inv s \<Longrightarrow> entries (del k s) = del_sorted k (entries s)"
    and look_entries: "inv s \<Longrightarrow> look k s = map_of (entries s) k"
    and sorted_entries: "inv s \<Longrightarrow> sorted_wrt (<) (map fst (entries s))"
begin

fun step :: "('k, 'v) index_op \<Rightarrow> 's \<Rightarrow> 's" where
  "step (Put k v) s = ins k v s"
| "step (Del k) s = del k s"

lemma step_inv: "inv s \<Longrightarrow> inv (step a s)"
  by (cases a) (simp_all add: inv_ins inv_del)

lemma step_map: "inv s \<Longrightarrow> map_of (entries (step a s)) = map_step a (map_of (entries s))"
  by (cases a) (simp_all add: entries_ins entries_del map_of_upd_sorted map_of_del_sorted)

lemma run_inv: "inv s \<Longrightarrow> inv (fold step as s)"
  by (induction as arbitrary: s) (simp_all add: step_inv)

lemma run_map: "inv s \<Longrightarrow> map_of (entries (fold step as s)) = fold map_step as (map_of (entries s))"
  by (induction as arbitrary: s) (simp_all add: step_inv step_map)

lemma run_look: "inv s \<Longrightarrow> look k (fold step as s) = fold map_step as (map_of (entries s)) k"
  by (simp add: look_entries run_inv run_map)

lemma look_ins: "inv s \<Longrightarrow> look k' (ins k v s) = (if k' = k then Some v else look k' s)"
  by (simp add: look_entries inv_ins entries_ins map_of_upd_sorted)

lemma look_del: "inv s \<Longrightarrow> look k' (del k s) = (if k' = k then None else look k' s)"
  by (simp add: look_entries inv_del entries_del map_of_del_sorted)

lemma entries_iff: "inv s \<Longrightarrow> (k, v) \<in> set (entries s) \<longleftrightarrow> look k s = Some v"
  using sorted_entries [of s] by (simp add: look_entries strict_sorted_iff)

lemma entries_distinct: "inv s \<Longrightarrow> distinct (map fst (entries s))"
  using sorted_entries [of s] by (simp add: strict_sorted_iff)

end

section \<open>The B+ tree is a sorted index\<close>

definition bt_inv :: "bplus_tree \<Rightarrow> bool" where
  "bt_inv t \<longleftrightarrow> node_inv None None (bt_root t) \<and> (\<exists>h. node_shape h (bt_root t))
     \<and> bt_size t = length (bt_list_all t)"

lemma bt_new_inv: "bt_inv bt_new"
  by (auto simp: bt_inv_def bt_new_def new_leaf_def bt_list_all_def ORDER_def)

lemma bt_get_entries: "bt_inv t \<Longrightarrow> bt_get p n t = map_of (bt_list_all t) (Key p n)"
  using node_get_correct [of None None "bt_root t" "Key p n"]
  by (simp add: bt_inv_def bt_get_def bt_list_all_def key_new_def)

lemma bt_sorted_entries: "bt_inv t \<Longrightarrow> sorted_wrt (<) (map fst (bt_list_all t))"
  using node_inv_entries [of None None "bt_root t"] by (simp add: bt_inv_def bt_list_all_def)

lemma bt_insert_root:
  assumes "bt_inv t"
  shows "node_inv None None (bt_root (bt_insert p n v t)) \<and> (\<exists>h. node_shape h (bt_root (bt_insert p n v t)))
    \<and> bt_list_all (bt_insert p n v t) = upd_sorted (Key p n) v (bt_list_all t)"
proof -
  from assms obtain h where inv: "node_inv None None (bt_root t)" and h: "node_shape h (bt_root t)"
    by (auto simp: bt_inv_def)
  obtain root r where res: "node_insert (Key p n) v (bt_root t) = (root, r)" by fastforce
  have ok: "insert_ok None None (upd_sorted (Key p n) v (bt_list_all t)) (root, r)"
    using node_insert_ok [OF inv, of "Key p n" v] res by (simp add: bt_list_all_def)
  have shape: "shape_ok h (root, r)"
    using node_insert_shape [OF inv h, of "Key p n" v] res by simp
  show ?thesis
  proof (cases r)
    case InsertOk
    with ok shape res show ?thesis
      by (auto simp: bt_insert_def key_new_def insert_ok_def shape_ok_def bt_list_all_def Let_def)
  next
    case (Split q right)
    then have "node_shape (Suc h) (Internal [q] [root, right])"
      using shape by (simp add: shape_ok_def ORDER_def)
    with Split ok res show ?thesis
      by (auto simp: bt_insert_def key_new_def insert_ok_def bt_list_all_def new_internal_def Let_def)
  qed
qed

lemma bt_insert_inv:
  assumes "bt_inv t"
  shows "bt_inv (bt_insert p n v t)"
proof -
  have "node_get (Key p n) (bt_root t) \<noteq> None \<longleftrightarrow> Key p n \<in> fst ` set (bt_list_all t)"
    using bt_get_entries [OF assms, of p n] by (auto simp: bt_get_def key_new_def map_of_eq_None_iff)
  then have "bt_size (bt_insert p n v t) = length (upd_sorted (Key p n) v (bt_list_all t))"
    using length_upd_sorted [OF bt_sorted_entries [OF assms]] assms
    by (simp add: bt_insert_def bt_inv_def Let_def key_new_def)
  with bt_insert_root [OF assms] show ?thesis by (simp add: bt_inv_def)
qed

lemma length_del_sorted:
  assumes "distinct (map fst xs)"
  shows "length (del_sorted k xs) = (if k \<in> fst ` set xs then length xs - 1 else length xs)"
  using assms
proof (induction xs)
  case Nil
  then show ?case by (simp add: del_sorted_def)
next
  case (Cons p xs)
  then show ?case
    by (cases xs) (auto simp: del_sorted_def)
qed

lemma bt_remove_root:
  assumes "bt_inv t"
  shows "node_inv None None (bt_root (fst (bt_remove p n t))) \<and> (\<exists>h. node_shape h (bt_root (fst (bt_remove p n t))))
    \<and> bt_list_all (fst (bt_remove p n t)) = del_sorted (Key p n) (bt_list_all t)
    \<and> snd (bt_remove p n t) = bt_get p n t
    \<and> bt_size (fst (bt_remove p n t)) = (if bt_get p n t = None then bt_size t else bt_size t - 1)"
proof -
  from assms obtain h where inv: "node_inv None None (bt_root t)" and h: "node_shape h (bt_root t)"
    by (auto simp: bt_inv_def)
  obtain root r where res: "node_remove (Key p n) (bt_root t) = (root, r)" by fastforce
  have "node_inv None None root" "collect_all root = del_sorted (Key p n) (bt_list_all t)"
    and r: "r = (case bt_get p n t of None \<Rightarrow> NotFound | Some v \<Rightarrow> RemoveOk (Some v))"
    using node_remove_ok [OF inv, of "Key p n"] res bt_get_entries [OF assms, of p n]
    by (simp_all add: bt_list_all_def)
  moreover have "node_shape h root"
    using node_remove_shape [OF h, of "Key p n"] res by simp
  ultimately show ?thesis
    using res by (cases "bt_get p n t") (auto simp: bt_remove_def key_new_def bt_list_all_def)
qed

lemma bt_remove_inv:
  assumes "bt_inv t"
  shows "bt_inv (fst (bt_remove p n t))"
proof -
  have "distinct (map fst (bt_list_all t))"
    using bt_sorted_entries [OF assms] by (simp add: strict_sorted_iff)
  moreover have "bt_get p n t = None \<longleftrightarrow> Key p n \<notin> fst ` set (bt_list_all t)"
    using bt_get_entries [OF assms] by (simp add: map_of_eq_None_iff)
  ultimately have "length (del_sorted (Key p n) (bt_list_all t)) = bt_size (fst (bt_remove p n t))"
    using bt_remove_root [OF assms, of p n] assms by (simp add: length_del_sorted bt_inv_def)
  with bt_remove_root [OF assms, of p n] show ?thesis by (simp add: bt_inv_def)
qed

interpretation bt: sorted_index bt_inv bt_list_all
  "\<lambda>k. bt_insert (key_parent k) (key_name k)" "\<lambda>k t. fst (bt_remove (key_parent k) (key_name k) t)"
  "\<lambda>k. bt_get (key_parent k) (key_name k)"
  by unfold_locales
    (simp_all add: bt_insert_inv bt_remove_inv bt_insert_root bt_remove_root bt_get_entries bt_sorted_entries)

lemmas bt_laws = bt_insert_inv bt_remove_inv bt_get_entries
  bt.look_ins [of _ "Key p n" "Key q m" for p n q m, simplified]
  bt.look_del [of _ "Key p n" "Key q m" for p n q m, simplified]

section \<open>Directory listings\<close>

text \<open>Names the sentinel of \<open>dir_end\<close> bounds.\<close>

definition below_sentinel :: "rstring \<Rightarrow> bool" where
  "below_sentinel name \<longleftrightarrow> name \<le> key_name (dir_end 0)"

lemma bt_range_keys_correct:
  "bt_inv t \<Longrightarrow> bt_range_keys s e t = filter (in_range s e) (bt_list_all t)"
  using collect_range_correct [of None None "bt_root t"]
  by (simp add: bt_inv_def bt_range_keys_def bt_list_all_def)

lemma in_dir_range:
  "in_range (dir_start p) (dir_end p) (k, v) \<longleftrightarrow> key_parent k = p \<and> below_sentinel (key_name k)"
  by (cases k) (auto simp: dir_start_def dir_end_def less_eq_key_def below_sentinel_def)

lemma bt_list_dir_filter:
  "bt_inv t \<Longrightarrow> bt_list_dir p t
    = filter (\<lambda>(k, v). key_parent k = p \<and> below_sentinel (key_name k)) (bt_list_all t)"
  using bt_range_keys_correct [of t "dir_start p" "dir_end p"]
  by (simp add: bt_range_keys_def bt_list_dir_def in_dir_range [simplified] case_prod_unfold
      cong: filter_cong)

text \<open>A name that starts below the byte \<open>F4\<close>, in particular every ASCII name, is bounded.\<close>

lemma below_sentinel_first_byte: "name = [] \<or> hd name < 0xF4 \<Longrightarrow> below_sentinel name"
  by (cases name) (auto simp: below_sentinel_def dir_end_def)

fun bt_step :: "(key, bt_value) index_op \<Rightarrow> bplus_tree \<Rightarrow> bplus_tree" where
  "bt_step (Put k v) t = bt_insert (key_parent k) (key_name k) v t"
| "bt_step (Del k) t = fst (bt_remove (key_parent k) (key_name k) t)"

lemma bt_step_index: "bt_step a t = bt.step a t"
  by (cases a) simp_all

lemma bt_run_index: "fold bt_step as t = fold bt.step as t"
  by (intro fold_cong refl ext) (simp add: bt_step_index)

lemma bt_run_inv: "bt_inv t \<Longrightarrow> bt_inv (fold bt_step as t)"
  unfolding bt_run_index by (rule bt.run_inv)

section \<open>Properties\<close>

text \<open>C5: After any sequence of insertions and removals on an empty tree, a lookup returns what
  the same sequence leaves in a finite map, and the cached size is the number of entries.\<close>

theorem btree_refines_map:
  "bt_get p n (fold bt_step as bt_new) = fold map_step as Map.empty (Key p n)
    \<and> bt_len (fold bt_step as bt_new) = card (dom (fold map_step as Map.empty))"
proof -
  let ?t = "fold bt_step as bt_new"
  have inv: "bt_inv ?t" by (rule bt_run_inv [OF bt_new_inv])
  have "bt_list_all bt_new = []" by (simp add: bt_new_def bt_list_all_def new_leaf_def)
  then have map: "map_of (bt_list_all ?t) = fold map_step as Map.empty"
    using bt.run_map [OF bt_new_inv, of as] by (simp add: bt_run_index)
  have "card (dom (map_of (bt_list_all ?t))) = length (bt_list_all ?t)"
    using distinct_card [OF bt.entries_distinct [OF inv]] by (simp add: dom_map_of_conv_image_fst)
  with map bt_get_entries [OF inv, of p n] inv show ?thesis
    by (simp add: bt_len_def bt_inv_def)
qed

text \<open>The listing of a directory is exactly the entries whose parent is that directory, in
  strictly increasing name order, provided no name sorts after the upper sentinel.\<close>

theorem btree_list_dir_children:
  assumes "bt_inv t" and "\<forall>(k, v) \<in> set (bt_list_all t). key_parent k = p \<longrightarrow> below_sentinel (key_name k)"
  shows "bt_list_dir p t = filter (\<lambda>(k, v). key_parent k = p) (bt_list_all t)
    \<and> sorted_wrt (<) (map (key_name \<circ> fst) (bt_list_dir p t))"
proof -
  have eq: "bt_list_dir p t = filter (\<lambda>(k, v). key_parent k = p) (bt_list_all t)"
    unfolding bt_list_dir_filter [OF assms(1)] using assms(2) by (intro filter_cong) auto
  have "sorted_wrt (<) (map fst (bt_list_dir p t))"
    using bt_sorted_entries [OF assms(1)] by (simp add: eq sorted_wrt_map sorted_wrt_filter)
  moreover have "\<forall>x \<in> set (bt_list_dir p t). key_parent (fst x) = p"
    by (auto simp: eq)
  ultimately have "sorted_wrt (\<lambda>x y. key_name (fst x) < key_name (fst y)) (bt_list_dir p t)"
    using sorted_wrt_mono_rel [of "bt_list_dir p t" "\<lambda>x y. fst x < fst y"
        "\<lambda>x y. key_name (fst x) < key_name (fst y)"]
    by (auto simp: less_key_def sorted_wrt_map)
  with eq show ?thesis by (simp add: sorted_wrt_map)
qed

definition sample_tree :: bplus_tree where
  "sample_tree = foldr (\<lambda>b. bt_insert 1 [b] \<lparr>v_ino = ucast b, v_size = 0, v_is_dir = False, v_disk_index = 0\<rparr>)
     [0x69, 0x68, 0x67, 0x66, 0x65, 0x64, 0x63, 0x62, 0x61] (bt_insert 2 [0x61] \<lparr>v_ino = 99, v_size = 0, v_is_dir = False, v_disk_index = 0\<rparr> bt_new)"

lemma sample_tree_inv: "bt_inv sample_tree"
  by (simp add: sample_tree_def bt_insert_inv bt_new_inv)

lemma sample_tree_keys: "map fst (bt_list_all sample_tree)
    = map (\<lambda>b. Key 1 [b]) [0x61, 0x62, 0x63, 0x64, 0x65, 0x66, 0x67, 0x68, 0x69] @ [Key 2 [0x61]]"
proof -
  have "bt_list_all bt_new = []" by (simp add: bt_new_def bt_list_all_def new_leaf_def)
  then show ?thesis
    by (simp add: sample_tree_def bt_insert_root bt_insert_inv bt_new_inv upd_sorted_def less_key_def)
qed

theorem btree_list_dir_children_witness:
  "bt_list_dir 1 sample_tree = filter (\<lambda>(k, v). key_parent k = 1) (bt_list_all sample_tree)
    \<and> sorted_wrt (<) (map (key_name \<circ> fst) (bt_list_dir 1 sample_tree))"
proof (rule btree_list_dir_children [OF sample_tree_inv])
  show "\<forall>(k, v) \<in> set (bt_list_all sample_tree). key_parent k = 1 \<longrightarrow> below_sentinel (key_name k)"
  proof -
    have "\<forall>k \<in> set (map fst (bt_list_all sample_tree)). key_parent k = 1 \<longrightarrow> below_sentinel (key_name k)"
      unfolding sample_tree_keys by (simp add: below_sentinel_first_byte)
    then show ?thesis by auto
  qed
qed

text \<open>A removal returns the value a lookup would have returned, deletes that key alone, and
  keeps the tree balanced, ordered and correctly counted.\<close>

theorem btree_remove_correct:
  assumes "bt_inv t"
  shows "snd (bt_remove p n t) = bt_get p n t
    \<and> bt_inv (fst (bt_remove p n t))
    \<and> bt_list_all (fst (bt_remove p n t)) = filter (\<lambda>e. fst e \<noteq> Key p n) (bt_list_all t)"
  using bt_remove_root [OF assms, of p n] bt_remove_inv [OF assms, of p n] by (simp add: del_sorted_def)

theorem btree_remove_correct_witness:
  "snd (bt_remove 1 (ascii ''c'') sample_tree) = bt_get 1 (ascii ''c'') sample_tree
    \<and> bt_inv (fst (bt_remove 1 (ascii ''c'') sample_tree))
    \<and> bt_list_all (fst (bt_remove 1 (ascii ''c'') sample_tree))
      = filter (\<lambda>e. fst e \<noteq> Key 1 (ascii ''c'')) (bt_list_all sample_tree)"
  by (rule btree_remove_correct [OF sample_tree_inv])

text \<open>The upper sentinel is the bytes of \<open>U+10FFFF\<close>; a name that extends it is stored and found
  by lookup, but the listing of its directory omits it.\<close>

theorem btree_sentinel_hides_name:
  "let name = key_name (dir_end 1) @ ascii ''a''; t = bt_insert 1 name v bt_new
   in bt_get 1 name t = Some v \<and> bt_list_dir 1 t = []"
proof -
  let ?n = "key_name (dir_end 1) @ ascii ''a''"
  have "bt_list_all (bt_insert 1 ?n v bt_new) = [(Key 1 ?n, v)]"
    using bt_insert_root [OF bt_new_inv, of 1 ?n v]
    by (simp add: bt_new_def bt_list_all_def new_leaf_def upd_sorted_def)
  moreover have "\<not> below_sentinel ?n"
    by (simp add: below_sentinel_def dir_end_def ascii_def)
  ultimately show ?thesis
    using bt_list_dir_filter [OF bt_insert_inv [OF bt_new_inv], of 1 1 ?n v]
      bt_get_entries [OF bt_insert_inv [OF bt_new_inv], of 1 ?n 1 ?n v]
    by (simp add: Let_def)
qed

end
