(* ===== verification/Cache.thy ===== *)
theory Cache
  imports Prelude
begin

text \<open>
  \<open>src/cache/mod.rs\<close>: the adaptive replacement cache. Byte counts and list lengths (\<open>usize\<close>) are
  natural numbers; the invariant shows that the subtractions the code makes never go below zero.
\<close>

section \<open>Ordered sets\<close>

text \<open>
  \<open>OrderedSet\<close>: the queue \<open>os_order\<close> may hold keys that have left the set; they are skipped when
  they come to the front.
\<close>

record ordered_set =
  os_order :: "u64 list"
  os_set :: "u64 set"

definition os_new :: ordered_set where
  "os_new = \<lparr>os_order = [], os_set = {}\<rparr>"

definition os_contains :: "u64 \<Rightarrow> ordered_set \<Rightarrow> bool" where
  "os_contains key s \<longleftrightarrow> key \<in> os_set s"

definition os_push_back :: "u64 \<Rightarrow> ordered_set \<Rightarrow> ordered_set" where
  "os_push_back key s =
     (if key \<notin> os_set s then \<lparr>os_order = os_order s @ [key], os_set = insert key (os_set s)\<rparr> else s)"

fun pop_loop :: "u64 list \<Rightarrow> u64 set \<Rightarrow> u64 option \<times> ordered_set" where
  "pop_loop [] s = (None, \<lparr>os_order = [], os_set = s\<rparr>)"
| "pop_loop (key # rest) s =
     (if key \<in> s then (Some key, \<lparr>os_order = rest, os_set = s - {key}\<rparr>) else pop_loop rest s)"

definition os_pop_front :: "ordered_set \<Rightarrow> u64 option \<times> ordered_set" where
  "os_pop_front s = pop_loop (os_order s) (os_set s)"

definition os_remove :: "u64 \<Rightarrow> ordered_set \<Rightarrow> bool \<times> ordered_set" where
  "os_remove key s = (key \<in> os_set s, s\<lparr>os_set := os_set s - {key}\<rparr>)"

definition os_len :: "ordered_set \<Rightarrow> nat" where "os_len s = card (os_set s)"
definition os_is_empty :: "ordered_set \<Rightarrow> bool" where "os_is_empty s \<longleftrightarrow> os_set s = {}"

lemma pop_loop_shorter:
  "pop_loop order s = (Some k, t) \<Longrightarrow> length (os_order t) < length order"
  by (induction order) (auto split: if_splits)

function os_truncate_to :: "nat \<Rightarrow> ordered_set \<Rightarrow> ordered_set" where
  "os_truncate_to m s =
     (if m < card (os_set s)
      then (case os_pop_front s of (None, s') \<Rightarrow> s' | (Some _, s') \<Rightarrow> os_truncate_to m s')
      else s)"
  by pat_completeness auto
termination
  by (relation "measure (\<lambda>(m, s). length (os_order s))")
    (auto simp: os_pop_front_def dest: pop_loop_shorter pop_loop_shorter [OF sym])

declare os_truncate_to.simps [simp del]

section \<open>The cache\<close>

record cache_entry =
  ce_data :: bytes
  ce_size :: nat

record arc_cache =
  arc_t1 :: ordered_set
  arc_t2 :: ordered_set
  arc_b1 :: ordered_set
  arc_b2 :: ordered_set
  arc_data :: "(u64, cache_entry) hmap"
  arc_p :: nat
  arc_max_bytes :: nat
  arc_used_bytes :: nat
  arc_evicted :: "u64 list"

definition arc_new :: "nat \<Rightarrow> arc_cache" where
  "arc_new max_bytes = \<lparr>arc_t1 = os_new, arc_t2 = os_new, arc_b1 = os_new, arc_b2 = os_new,
     arc_data = [], arc_p = 0, arc_max_bytes = max_bytes, arc_used_bytes = 0, arc_evicted = []\<rparr>"

definition arc_drain_evicted :: "arc_cache \<Rightarrow> u64 list \<times> arc_cache" where
  "arc_drain_evicted c = (arc_evicted c, c\<lparr>arc_evicted := []\<rparr>)"

definition arc_promote :: "u64 \<Rightarrow> arc_cache \<Rightarrow> arc_cache" where
  "arc_promote key c =
     (let (removed, t1) = os_remove key (arc_t1 c); c = c\<lparr>arc_t1 := t1\<rparr>
      in if removed then c\<lparr>arc_t2 := os_push_back key (arc_t2 c)\<rparr> else c)"

text \<open>The two arms of \<open>evict_one\<close>; \<open>b\<close> is the ghost list that remembers the key.\<close>

definition evict_key :: "u64 \<Rightarrow> arc_cache \<Rightarrow> arc_cache" where
  "evict_key key c =
     (let c = (case hm_get (arc_data c) key of
                 Some entry \<Rightarrow> c\<lparr>arc_data := hm_remove key (arc_data c),
                                 arc_used_bytes := arc_used_bytes c - ce_size entry\<rparr>
               | None \<Rightarrow> c)
      in c\<lparr>arc_evicted := arc_evicted c @ [key]\<rparr>)"

definition arc_evict_one :: "arc_cache \<Rightarrow> arc_cache" where
  "arc_evict_one c =
     (let evict_from_t1 = os_len (arc_t1 c) > arc_p c \<or> os_is_empty (arc_t2 c) in
      if evict_from_t1 \<and> \<not> os_is_empty (arc_t1 c)
      then (case os_pop_front (arc_t1 c) of
              (None, t1) \<Rightarrow> c\<lparr>arc_t1 := t1\<rparr>
            | (Some key, t1) \<Rightarrow>
                (let c = evict_key key (c\<lparr>arc_t1 := t1\<rparr>)
                 in c\<lparr>arc_b1 := os_truncate_to 1000 (os_push_back key (arc_b1 c))\<rparr>))
      else if \<not> os_is_empty (arc_t2 c)
      then (case os_pop_front (arc_t2 c) of
              (None, t2) \<Rightarrow> c\<lparr>arc_t2 := t2\<rparr>
            | (Some key, t2) \<Rightarrow>
                (let c = evict_key key (c\<lparr>arc_t2 := t2\<rparr>)
                 in c\<lparr>arc_b2 := os_truncate_to 1000 (os_push_back key (arc_b2 c))\<rparr>))
      else c)"

text \<open>The eviction loop of \<open>insert\<close>; \<open>None\<close> would be a loop that does not end.\<close>

partial_function (option) evict_loop :: "nat \<Rightarrow> arc_cache \<Rightarrow> arc_cache option" where
  "evict_loop needed c =
     (if arc_data c \<noteq> [] \<and> arc_max_bytes c < arc_used_bytes c + needed
      then evict_loop needed (arc_evict_one c) else Some c)"

definition arc_insert :: "u64 \<Rightarrow> bytes \<Rightarrow> arc_cache \<Rightarrow> arc_cache option" where
  "arc_insert key value c =
     (let len = length value in
      case hm_get (arc_data c) key of
        Some entry \<Rightarrow>
          Some (arc_promote key
            (c\<lparr>arc_used_bytes := arc_used_bytes c - ce_size entry + len,
               arc_data := hm_insert key \<lparr>ce_data = value, ce_size = len\<rparr> (arc_data c)\<rparr>))
      | None \<Rightarrow>
          (case evict_loop len c of
             None \<Rightarrow> None
           | Some c \<Rightarrow>
               (let c = c\<lparr>arc_used_bytes := arc_used_bytes c + len,
                          arc_data := hm_insert key \<lparr>ce_data = value, ce_size = len\<rparr> (arc_data c)\<rparr>
                in Some (if \<not> os_contains key (arc_t1 c) \<and> \<not> os_contains key (arc_t2 c)
                         then c\<lparr>arc_t1 := os_push_back key (arc_t1 c)\<rparr> else c))))"

definition arc_get :: "u64 \<Rightarrow> arc_cache \<Rightarrow> bytes option \<times> arc_cache" where
  "arc_get key c =
     (if hm_get (arc_data c) key \<noteq> None
      then (let c = arc_promote key c in (map_option ce_data (hm_get (arc_data c) key), c))
      else if os_contains key (arc_b1 c) then (None, c\<lparr>arc_p := min (arc_p c + 1) (arc_max_bytes c)\<rparr>)
      else if os_contains key (arc_b2 c) then (None, c\<lparr>arc_p := arc_p c - 1\<rparr>)
      else (None, c))"

definition arc_contains :: "u64 \<Rightarrow> arc_cache \<Rightarrow> bool" where
  "arc_contains key c \<longleftrightarrow> hm_get (arc_data c) key \<noteq> None"

definition arc_remove :: "u64 \<Rightarrow> arc_cache \<Rightarrow> bytes option \<times> arc_cache" where
  "arc_remove key c =
     (case hm_get (arc_data c) key of
        Some entry \<Rightarrow>
          (Some (ce_data entry),
           c\<lparr>arc_data := hm_remove key (arc_data c),
             arc_used_bytes := arc_used_bytes c - ce_size entry,
             arc_t1 := snd (os_remove key (arc_t1 c)),
             arc_t2 := snd (os_remove key (arc_t2 c))\<rparr>)
      | None \<Rightarrow> (None, c))"

definition arc_peek_eviction_candidate :: "arc_cache \<Rightarrow> u64 option" where
  "arc_peek_eviction_candidate c =
     (if arc_used_bytes c < arc_max_bytes c then None
      else
        (let evict_from_t1 = os_len (arc_t1 c) > arc_p c \<or> os_is_empty (arc_t2 c) in
         if evict_from_t1 then find (\<lambda>k. k \<in> os_set (arc_t1 c)) (os_order (arc_t1 c))
         else find (\<lambda>k. k \<in> os_set (arc_t2 c)) (os_order (arc_t2 c))))"

section \<open>Ordered sets as queues\<close>

definition os_wf :: "ordered_set \<Rightarrow> bool" where
  "os_wf s \<longleftrightarrow> os_set s \<subseteq> set (os_order s)"

text \<open>The keys of the set in the order of their first occurrence in the queue.\<close>

definition os_items :: "ordered_set \<Rightarrow> u64 list" where
  "os_items s = rev (remdups (rev (filter (\<lambda>k. k \<in> os_set s) (os_order s))))"

lemma os_wf_finite: "os_wf s \<Longrightarrow> finite (os_set s)"
  unfolding os_wf_def by (rule finite_subset) auto

lemma set_os_items: "os_wf s \<Longrightarrow> set (os_items s) = os_set s"
  by (auto simp: os_wf_def os_items_def)

lemma distinct_os_items [simp]: "distinct (os_items s)"
  by (simp add: os_items_def)

lemma remdups_snoc: "remdups (xs @ [x]) = remdups (filter (\<lambda>y. y \<noteq> x) xs) @ [x]"
  by (induction xs) auto

lemma remdups_filter_comm: "remdups (filter P xs) = filter P (remdups xs)"
  by (induction xs) auto

lemma os_items_Cons:
  "os_items \<lparr>os_order = k # ks, os_set = s\<rparr>
     = (if k \<in> s then k # os_items \<lparr>os_order = ks, os_set = s - {k}\<rparr> else os_items \<lparr>os_order = ks, os_set = s\<rparr>)"
proof -
  have "filter (\<lambda>y. y \<noteq> k) (rev (filter (\<lambda>k. k \<in> s) ks)) = rev (filter (\<lambda>x. x \<in> s \<and> x \<noteq> k) ks)"
    by (simp add: rev_filter [symmetric] conj_commute)
  then show ?thesis
    by (simp add: os_items_def remdups_snoc)
qed

lemma pop_loop_items:
  assumes "s \<subseteq> set order"
  shows "case pop_loop order s of
     (None, t) \<Rightarrow> s = {} \<and> os_set t = {} \<and> os_wf t
   | (Some k, t) \<Rightarrow> k \<in> s \<and> os_set t = s - {k} \<and> os_wf t \<and> os_items \<lparr>os_order = order, os_set = s\<rparr> = k # os_items t"
  using assms
proof (induction order)
  case Nil
  then show ?case by (simp add: os_wf_def)
next
  case (Cons k ks)
  show ?case
  proof (cases "k \<in> s")
    case True
    with Cons.prems show ?thesis by (auto simp: os_wf_def os_items_Cons)
  next
    case False
    with Cons.prems have "s \<subseteq> set ks" by auto
    with Cons.IH False show ?thesis by (simp add: os_items_Cons split: prod.splits option.splits)
  qed
qed

lemma pop_front_items:
  assumes "os_wf s"
  shows "case os_pop_front s of
     (None, t) \<Rightarrow> os_set s = {} \<and> os_set t = {} \<and> os_wf t
   | (Some k, t) \<Rightarrow> k \<in> os_set s \<and> os_set t = os_set s - {k} \<and> os_wf t \<and> os_items s = k # os_items t"
proof -
  obtain q t where s: "s = \<lparr>os_order = q, os_set = t\<rparr>" by (cases s)
  show ?thesis using pop_loop_items [of t q] assms by (auto simp: s os_wf_def os_pop_front_def split: prod.splits option.splits)
qed

text \<open>The queue interface: what a user of an ordered set relies on.\<close>

locale fifo_set =
  fixes inv :: "'s \<Rightarrow> bool"
    and items :: "'s \<Rightarrow> 'k list"
    and fresh :: "'k \<Rightarrow> 's \<Rightarrow> bool"
    and push :: "'k \<Rightarrow> 's \<Rightarrow> 's"
    and pop :: "'s \<Rightarrow> 'k option \<times> 's"
    and del :: "'k \<Rightarrow> 's \<Rightarrow> 's"
  assumes push_inv: "inv s \<Longrightarrow> inv (push k s)"
    and push_fresh: "inv s \<Longrightarrow> fresh k s \<Longrightarrow> items (push k s) = items s @ [k]"
    and push_keeps_fresh: "inv s \<Longrightarrow> fresh k s \<Longrightarrow> fresh l s \<Longrightarrow> k \<noteq> l \<Longrightarrow> fresh l (push k s)"
    and pop_empty: "inv s \<Longrightarrow> items s = [] \<Longrightarrow> fst (pop s) = None"
    and pop_first: "inv s \<Longrightarrow> items s = k # ks \<Longrightarrow> fst (pop s) = Some k \<and> items (snd (pop s)) = ks \<and> inv (snd (pop s))"
    and del_items: "inv s \<Longrightarrow> items (del k s) = filter (\<lambda>l. l \<noteq> k) (items s)"
    and del_inv: "inv s \<Longrightarrow> inv (del k s)"
begin

primrec drain :: "nat \<Rightarrow> 's \<Rightarrow> 'k list" where
  "drain 0 s = []"
| "drain (Suc n) s = (case pop s of (None, _) \<Rightarrow> [] | (Some k, t) \<Rightarrow> k # drain n t)"

lemma drain_items: "inv s \<Longrightarrow> drain n s = take n (items s)"
proof (induction n arbitrary: s)
  case 0
  then show ?case by simp
next
  case (Suc n)
  show ?case
  proof (cases "items s")
    case Nil
    with pop_empty [OF Suc.prems] show ?thesis by (cases "pop s") simp
  next
    case (Cons k ks)
    with pop_first [OF Suc.prems Cons] Suc.IH show ?thesis by (cases "pop s") simp
  qed
qed

lemma push_all:
  "inv s \<Longrightarrow> distinct ks \<Longrightarrow> \<forall>k \<in> set ks. fresh k s
    \<Longrightarrow> inv (fold push ks s) \<and> items (fold push ks s) = items s @ ks"
proof (induction ks arbitrary: s)
  case Nil
  then show ?case by simp
next
  case (Cons k ks)
  have "\<forall>l \<in> set ks. fresh l (push k s)"
    using Cons.prems push_keeps_fresh by (metis distinct.simps(2) list.set_intros(1,2))
  then show ?case
    using Cons push_inv push_fresh by simp
qed

text \<open>What goes in one after the other comes out in that order.\<close>

lemma drain_push_all:
  "inv s \<Longrightarrow> items s = [] \<Longrightarrow> distinct ks \<Longrightarrow> \<forall>k \<in> set ks. fresh k s
    \<Longrightarrow> drain (length ks) (fold push ks s) = ks"
  using push_all by (simp add: drain_items)

end

text \<open>A key is fresh when the queue holds no occurrence of it, alive or not.\<close>

lemma os_push_items:
  assumes "os_wf s" and "k \<notin> set (os_order s)"
  shows "os_items (os_push_back k s) = os_items s @ [k]"
proof -
  have k: "k \<notin> os_set s" using assms by (auto simp: os_wf_def)
  have "filter (\<lambda>x. x = k \<or> x \<in> os_set s) (os_order s) = filter (\<lambda>x. x \<in> os_set s) (os_order s)"
    using assms(2) by (intro filter_cong) auto
  then show ?thesis
    using k assms(2) by (simp add: os_push_back_def os_items_def)
qed

lemma os_push_wf: "os_wf s \<Longrightarrow> os_wf (os_push_back k s)"
  by (auto simp: os_wf_def os_push_back_def)

lemma os_remove_wf: "os_wf s \<Longrightarrow> os_wf (snd (os_remove k s))"
  by (auto simp: os_wf_def os_remove_def)

lemma os_remove_items: "os_items (snd (os_remove k s)) = filter (\<lambda>l. l \<noteq> k) (os_items s)"
proof -
  have "rev (filter (\<lambda>x. x \<in> os_set s \<and> x \<noteq> k) (os_order s)) = filter (\<lambda>l. l \<noteq> k) (rev (filter (\<lambda>x. x \<in> os_set s) (os_order s)))"
    by (simp add: rev_filter conj_commute)
  then show ?thesis
    by (simp add: os_items_def os_remove_def remdups_filter_comm rev_filter)
qed

interpretation lru: fifo_set os_wf os_items "\<lambda>k s. k \<notin> set (os_order s)" os_push_back os_pop_front
  "\<lambda>k s. snd (os_remove k s)"
proof unfold_locales
  fix s :: ordered_set and k l :: u64 and ks
  show "os_wf s \<Longrightarrow> os_wf (os_push_back k s)" by (rule os_push_wf)
  show "os_wf s \<Longrightarrow> k \<notin> set (os_order s) \<Longrightarrow> os_items (os_push_back k s) = os_items s @ [k]"
    by (rule os_push_items)
  show "k \<noteq> l \<Longrightarrow> l \<notin> set (os_order s) \<Longrightarrow> l \<notin> set (os_order (os_push_back k s))"
    by (simp add: os_push_back_def)
  show "os_wf s \<Longrightarrow> os_items s = [] \<Longrightarrow> fst (os_pop_front s) = None"
    using pop_front_items [of s] by (auto split: prod.splits option.splits)
  show "os_wf s \<Longrightarrow> os_items s = k # ks \<Longrightarrow> fst (os_pop_front s) = Some k \<and> os_items (snd (os_pop_front s)) = ks
      \<and> os_wf (snd (os_pop_front s))"
    using pop_front_items [of s] set_os_items [of s] by (auto split: prod.splits option.splits)
  show "os_items (snd (os_remove k s)) = filter (\<lambda>l. l \<noteq> k) (os_items s)" by (rule os_remove_items)
  show "os_wf s \<Longrightarrow> os_wf (snd (os_remove k s))" by (rule os_remove_wf)
qed

section \<open>Invariant of the cache\<close>

definition cache_inv :: "arc_cache \<Rightarrow> bool" where
  "cache_inv c \<longleftrightarrow>
     hm_wf (arc_data c) \<and> os_wf (arc_t1 c) \<and> os_wf (arc_t2 c) \<and> os_wf (arc_b1 c) \<and> os_wf (arc_b2 c)
     \<and> os_set (arc_t1 c) \<inter> os_set (arc_t2 c) = {}
     \<and> fst ` set (arc_data c) = os_set (arc_t1 c) \<union> os_set (arc_t2 c)
     \<and> (\<forall>(k, e) \<in> set (arc_data c). ce_size e = length (ce_data e))
     \<and> arc_used_bytes c = hm_sum ce_size (arc_data c)
     \<and> os_len (arc_b1 c) \<le> 1000 \<and> os_len (arc_b2 c) \<le> 1000"

lemma cache_invI:
  assumes "hm_wf (arc_data c)" and "os_wf (arc_t1 c)" and "os_wf (arc_t2 c)" and "os_wf (arc_b1 c)" and "os_wf (arc_b2 c)"
    and "os_set (arc_t1 c) \<inter> os_set (arc_t2 c) = {}"
    and "fst ` set (arc_data c) = os_set (arc_t1 c) \<union> os_set (arc_t2 c)"
    and "\<forall>(k, e) \<in> set (arc_data c). ce_size e = length (ce_data e)"
    and "arc_used_bytes c = hm_sum ce_size (arc_data c)"
    and "os_len (arc_b1 c) \<le> 1000" and "os_len (arc_b2 c) \<le> 1000"
  shows "cache_inv c"
  using assms unfolding cache_inv_def by blast

lemma cache_invD:
  assumes "cache_inv c"
  shows "hm_wf (arc_data c)" "os_wf (arc_t1 c)" "os_wf (arc_t2 c)" "os_wf (arc_b1 c)" "os_wf (arc_b2 c)"
    "os_set (arc_t1 c) \<inter> os_set (arc_t2 c) = {}"
    "fst ` set (arc_data c) = os_set (arc_t1 c) \<union> os_set (arc_t2 c)"
    "\<forall>(k, e) \<in> set (arc_data c). ce_size e = length (ce_data e)"
    "arc_used_bytes c = hm_sum ce_size (arc_data c)"
    "os_len (arc_b1 c) \<le> 1000" "os_len (arc_b2 c) \<le> 1000"
  using assms unfolding cache_inv_def by blast+

abbreviation arc_lookup :: "arc_cache \<Rightarrow> u64 \<Rightarrow> bytes option" where
  "arc_lookup c k \<equiv> map_option ce_data (hm_get (arc_data c) k)"

lemma arc_new_inv: "cache_inv (arc_new m)"
  by (simp add: cache_inv_def arc_new_def os_new_def os_wf_def os_len_def)

lemma truncate_wf: "os_wf s \<Longrightarrow> os_wf (os_truncate_to m s) \<and> os_len (os_truncate_to m s) \<le> m"
proof (induction m s rule: os_truncate_to.induct)
  case (1 m s)
  show ?case
  proof (cases "m < card (os_set s)")
    case True
    then show ?thesis
      using 1 pop_front_items [OF 1(2)]
      by (subst (1 2) os_truncate_to.simps) (auto simp: os_len_def split: prod.splits option.splits)
  next
    case False
    with 1(2) show ?thesis
      by (subst (1 2) os_truncate_to.simps) (simp add: os_len_def)
  qed
qed

lemma pop_front_nonempty:
  assumes "os_wf s" and "os_set s \<noteq> {}"
  obtains k t where "os_pop_front s = (Some k, t)" "k \<in> os_set s" "os_set t = os_set s - {k}" "os_wf t"
    "os_items s = k # os_items t"
  using pop_front_items [OF assms(1)] assms(2) by (cases "os_pop_front s") (auto split: option.splits)

lemma sizes_remove:
  "\<forall>(k, e) \<in> set m. P e \<Longrightarrow> \<forall>(k, e) \<in> set (hm_remove l m). P e"
  by (auto simp: hm_remove_def AList.delete_eq)

lemma sizes_insert:
  "\<forall>(k, e) \<in> set m. P e \<Longrightarrow> P v \<Longrightarrow> \<forall>(k, e) \<in> set (hm_insert l v m). P e"
  by (induction m) (auto simp: hm_insert_def)

text \<open>One eviction drops exactly one entry, the one at the front of the list it picks.\<close>

lemma evict_one_ok:
  assumes "cache_inv c" and "arc_data c \<noteq> []"
  obtains k e c' where "arc_evict_one c = c'" and "cache_inv c'" and "hm_get (arc_data c) k = Some e"
    and "arc_data c' = hm_remove k (arc_data c)" and "arc_used_bytes c' + ce_size e = arc_used_bytes c"
    and "arc_evicted c' = arc_evicted c @ [k]" and "arc_max_bytes c' = arc_max_bytes c"
    and "hd (os_items (if os_len (arc_t1 c) > arc_p c \<or> os_is_empty (arc_t2 c) then arc_t1 c else arc_t2 c)) = k"
proof -
  let ?from1 = "os_len (arc_t1 c) > arc_p c \<or> os_is_empty (arc_t2 c)"
  have inv: "hm_wf (arc_data c)" "os_wf (arc_t1 c)" "os_wf (arc_t2 c)" "os_wf (arc_b1 c)" "os_wf (arc_b2 c)"
    "os_set (arc_t1 c) \<inter> os_set (arc_t2 c) = {}"
    "fst ` set (arc_data c) = os_set (arc_t1 c) \<union> os_set (arc_t2 c)"
    "\<forall>(k, e) \<in> set (arc_data c). ce_size e = length (ce_data e)"
    "arc_used_bytes c = hm_sum ce_size (arc_data c)"
    "os_len (arc_b1 c) \<le> 1000" "os_len (arc_b2 c) \<le> 1000"
    using assms(1) unfolding cache_inv_def by blast+
  have nonempty: "os_set (arc_t1 c) \<noteq> {} \<or> os_set (arc_t2 c) \<noteq> {}"
    using assms(2) inv(7) by (cases "arc_data c") auto
  show thesis
  proof (cases ?from1)
    case True
    then have "os_set (arc_t1 c) \<noteq> {}"
      using nonempty by (auto simp: os_len_def os_is_empty_def)
    then obtain k t where pop: "os_pop_front (arc_t1 c) = (Some k, t)" "k \<in> os_set (arc_t1 c)"
      "os_set t = os_set (arc_t1 c) - {k}" "os_wf t" "os_items (arc_t1 c) = k # os_items t"
      using pop_front_nonempty [OF inv(2)] by metis
    then obtain e where e: "hm_get (arc_data c) k = Some e"
      using inv(7) hm_get_None_iff [of "arc_data c" k] by (cases "hm_get (arc_data c) k") auto
    let ?c = "c\<lparr>arc_t1 := t, arc_data := hm_remove k (arc_data c), arc_used_bytes := arc_used_bytes c - ce_size e,
        arc_evicted := arc_evicted c @ [k], arc_b1 := os_truncate_to 1000 (os_push_back k (arc_b1 c))\<rparr>"
    have run: "arc_evict_one c = ?c"
      using True pop(1,2) e by (auto simp: arc_evict_one_def evict_key_def os_is_empty_def Let_def)
    have k2: "k \<notin> os_set (arc_t2 c)" using inv(6) pop(2) by auto
    have keys: "fst ` set (hm_remove k (arc_data c)) = os_set t \<union> os_set (arc_t2 c)"
      using inv(7) pop(2,3) k2 by (auto simp: hm_keys_remove)
    have "cache_inv ?c"
      unfolding cache_inv_def
      using inv pop(3,4) keys truncate_wf [OF os_push_wf [OF inv(4)], of 1000 k]
        sizes_remove [OF inv(8), of k] hm_sum_remove [OF inv(1) e, of ce_size]
      by (auto simp: hm_wf_remove)
    then show thesis
      using True e run inv(9) hm_sum_member [OF e, of ce_size] pop(5) by (intro that [of ?c k e]) auto
  next
    case False
    then have "os_set (arc_t2 c) \<noteq> {}" by (auto simp: os_is_empty_def)
    then obtain k t where pop: "os_pop_front (arc_t2 c) = (Some k, t)" "k \<in> os_set (arc_t2 c)"
      "os_set t = os_set (arc_t2 c) - {k}" "os_wf t" "os_items (arc_t2 c) = k # os_items t"
      using pop_front_nonempty [OF inv(3)] by metis
    then obtain e where e: "hm_get (arc_data c) k = Some e"
      using inv(7) hm_get_None_iff [of "arc_data c" k] by (cases "hm_get (arc_data c) k") auto
    let ?c = "c\<lparr>arc_t2 := t, arc_data := hm_remove k (arc_data c), arc_used_bytes := arc_used_bytes c - ce_size e,
        arc_evicted := arc_evicted c @ [k], arc_b2 := os_truncate_to 1000 (os_push_back k (arc_b2 c))\<rparr>"
    have run: "arc_evict_one c = ?c"
      using False pop(1,2) e by (auto simp: arc_evict_one_def evict_key_def os_is_empty_def Let_def)
    have k1: "k \<notin> os_set (arc_t1 c)" using inv(6) pop(2) by auto
    have keys: "fst ` set (hm_remove k (arc_data c)) = os_set (arc_t1 c) \<union> os_set t"
      using inv(7) pop(2,3) k1 by (auto simp: hm_keys_remove)
    have "cache_inv ?c"
      unfolding cache_inv_def
      using inv pop(3,4) keys truncate_wf [OF os_push_wf [OF inv(5)], of 1000 k]
        sizes_remove [OF inv(8), of k] hm_sum_remove [OF inv(1) e, of ce_size]
      by (auto simp: hm_wf_remove)
    then show thesis
      using False e run inv(9) hm_sum_member [OF e, of ce_size] pop(5) by (intro that [of ?c k e]) auto
  qed
qed

section \<open>The operations keep the invariant\<close>

text \<open>The eviction loop ends: every round drops an entry.\<close>

lemma evict_loop_ok:
  assumes "cache_inv c"
  shows "\<exists>c' ks. evict_loop n c = Some c' \<and> cache_inv c' \<and> arc_max_bytes c' = arc_max_bytes c
    \<and> arc_evicted c' = arc_evicted c @ ks \<and> set ks = fst ` set (arc_data c) - fst ` set (arc_data c')
    \<and> (\<forall>k. hm_get (arc_data c') k = (if k \<in> set ks then None else hm_get (arc_data c) k))
    \<and> (arc_data c' = [] \<or> arc_used_bytes c' + n \<le> arc_max_bytes c)"
  using assms
proof (induction "length (arc_data c)" arbitrary: c rule: less_induct)
  case less
  show ?case
  proof (cases "arc_data c \<noteq> [] \<and> arc_max_bytes c < arc_used_bytes c + n")
    case False
    then have run: "evict_loop n c = Some c" by (subst evict_loop.simps) (rule if_not_P)
    have "arc_data c = [] \<or> arc_used_bytes c + n \<le> arc_max_bytes c" using False by linarith
    with run less.prems show ?thesis by (intro exI [of _ c] exI [of _ "[]"] conjI) simp_all
  next
    case True
    obtain k e c1 where step: "arc_evict_one c = c1" "cache_inv c1" and e: "hm_get (arc_data c) k = Some e"
      and d: "arc_data c1 = hm_remove k (arc_data c)" and ev: "arc_evicted c1 = arc_evicted c @ [k]"
      and m: "arc_max_bytes c1 = arc_max_bytes c"
      using evict_one_ok [OF less.prems] True by metis
    have run: "evict_loop n c = evict_loop n c1"
      using True step(1) by (subst evict_loop.simps) (simp only: if_P simp_thms)
    have keys: "fst ` set (arc_data c1) = fst ` set (arc_data c) - {k}"
      by (simp add: d hm_keys_remove)
    have k: "k \<in> fst ` set (arc_data c)"
      using e hm_get_None_iff [of "arc_data c" k] by auto
    have "length (arc_data c1) < length (arc_data c)"
      using length_hm_remove [OF e] by (simp add: d)
    from less.hyps [OF this step(2)] obtain c' ks where
      c': "evict_loop n c1 = Some c'" "cache_inv c'" "arc_max_bytes c' = arc_max_bytes c1"
        "arc_evicted c' = arc_evicted c1 @ ks" "set ks = fst ` set (arc_data c1) - fst ` set (arc_data c')"
        "\<forall>k. hm_get (arc_data c') k = (if k \<in> set ks then None else hm_get (arc_data c1) k)"
        "arc_data c' = [] \<or> arc_used_bytes c' + n \<le> arc_max_bytes c1"
      by blast
    have "k \<notin> fst ` set (arc_data c')"
      using c'(6) keys by (simp add: d flip: hm_get_None_iff)
    then have "set (k # ks) = fst ` set (arc_data c) - fst ` set (arc_data c')"
      using c'(5) keys k by auto
    moreover have "\<forall>l. hm_get (arc_data c') l = (if l \<in> set (k # ks) then None else hm_get (arc_data c) l)"
      using c'(6) by (auto simp: d)
    moreover have "evict_loop n c = Some c'" using run c'(1) by simp
    moreover have "arc_evicted c' = arc_evicted c @ k # ks" using c'(4) ev by simp
    moreover have "arc_max_bytes c' = arc_max_bytes c" using c'(3) m by simp
    moreover have "arc_data c' = [] \<or> arc_used_bytes c' + n \<le> arc_max_bytes c" using c'(7) m by simp
    ultimately show ?thesis using c'(2) by blast
  qed
qed

lemma promote_inv:
  assumes "cache_inv c"
  shows "cache_inv (arc_promote k c)"
proof (cases "k \<in> os_set (arc_t1 c)")
  case True
  then have "k \<notin> os_set (arc_t2 c)" using assms by (auto simp: cache_inv_def)
  then have "os_set (os_push_back k (arc_t2 c)) = insert k (os_set (arc_t2 c))"
    by (simp add: os_push_back_def)
  moreover have "arc_promote k c = c\<lparr>arc_t1 := snd (os_remove k (arc_t1 c)), arc_t2 := os_push_back k (arc_t2 c)\<rparr>"
    using True by (simp add: arc_promote_def os_remove_def)
  moreover have "os_set (snd (os_remove k (arc_t1 c))) = os_set (arc_t1 c) - {k}"
    by (simp add: os_remove_def)
  ultimately show ?thesis
    using assms True os_push_wf [of "arc_t2 c" k] os_remove_wf [of "arc_t1 c" k]
    unfolding cache_inv_def by auto
next
  case False
  then have "arc_promote k c = c"
    by (simp add: arc_promote_def os_remove_def)
  with assms show ?thesis by simp
qed

lemma promote_data [simp]:
  "arc_data (arc_promote k c) = arc_data c" "arc_used_bytes (arc_promote k c) = arc_used_bytes c"
  "arc_max_bytes (arc_promote k c) = arc_max_bytes c" "arc_evicted (arc_promote k c) = arc_evicted c"
  by (simp_all add: arc_promote_def os_remove_def Let_def)

lemma insert_present:
  assumes "cache_inv c" and "hm_get (arc_data c) key = Some e"
  obtains c' where "arc_insert key v c = Some c'" and "cache_inv c'" and "arc_max_bytes c' = arc_max_bytes c"
    and "arc_data c' = hm_insert key \<lparr>ce_data = v, ce_size = length v\<rparr> (arc_data c)"
    and "arc_used_bytes c' + ce_size e = arc_used_bytes c + length v" and "arc_evicted c' = arc_evicted c"
proof -
  let ?e = "\<lparr>ce_data = v, ce_size = length v\<rparr>"
  let ?c = "c\<lparr>arc_used_bytes := arc_used_bytes c - ce_size e + length v, arc_data := hm_insert key ?e (arc_data c)\<rparr>"
  have inv: "hm_wf (arc_data c)" "fst ` set (arc_data c) = os_set (arc_t1 c) \<union> os_set (arc_t2 c)"
    "\<forall>(k, e) \<in> set (arc_data c). ce_size e = length (ce_data e)" "arc_used_bytes c = hm_sum ce_size (arc_data c)"
    using assms(1) unfolding cache_inv_def by blast+
  have le: "ce_size e \<le> arc_used_bytes c"
    using hm_sum_member [OF assms(2), of ce_size] inv(4) by simp
  have "key \<in> fst ` set (arc_data c)"
    using assms(2) hm_get_None_iff [of "arc_data c" key] by auto
  then have keys: "fst ` set (hm_insert key ?e (arc_data c)) = os_set (arc_t1 c) \<union> os_set (arc_t2 c)"
    using inv(2) by (auto simp: hm_keys_insert)
  have used: "arc_used_bytes c - ce_size e + length v = hm_sum ce_size (hm_insert key ?e (arc_data c))"
    using hm_sum_insert_old [OF assms(2), of ce_size ?e] inv(4) le by simp
  have "\<forall>(k, e) \<in> set (hm_insert key ?e (arc_data c)). ce_size e = length (ce_data e)"
    by (rule sizes_insert [OF inv(3)]) simp
  with assms(1) keys used inv(1) have "cache_inv ?c"
    unfolding cache_inv_def by simp
  then show thesis
    using assms(2) le by (intro that [of "arc_promote key ?c"] promote_inv) (simp_all add: arc_insert_def Let_def)
qed

lemma insert_absent:
  assumes "cache_inv c" and "hm_get (arc_data c) key = None"
  obtains c' ks where "arc_insert key v c = Some c'" and "cache_inv c'" and "arc_max_bytes c' = arc_max_bytes c"
    and "arc_evicted c' = arc_evicted c @ ks" and "key \<notin> set ks"
    and "\<forall>k. hm_get (arc_data c') k = (if k = key then Some \<lparr>ce_data = v, ce_size = length v\<rparr>
           else if k \<in> set ks then None else hm_get (arc_data c) k)"
    and "length v \<le> arc_max_bytes c \<longrightarrow> arc_used_bytes c' \<le> arc_max_bytes c"
proof -
  let ?e = "\<lparr>ce_data = v, ce_size = length v\<rparr>"
  obtain c1 ks where c1: "evict_loop (length v) c = Some c1" "cache_inv c1" "arc_max_bytes c1 = arc_max_bytes c"
    "arc_evicted c1 = arc_evicted c @ ks" and ks: "set ks = fst ` set (arc_data c) - fst ` set (arc_data c1)"
    and get: "\<forall>k. hm_get (arc_data c1) k = (if k \<in> set ks then None else hm_get (arc_data c) k)"
    and room: "arc_data c1 = [] \<or> arc_used_bytes c1 + length v \<le> arc_max_bytes c"
    using evict_loop_ok [OF assms(1), of "length v"] by blast
  have inv: "hm_wf (arc_data c1)" "fst ` set (arc_data c1) = os_set (arc_t1 c1) \<union> os_set (arc_t2 c1)"
    "\<forall>(k, e) \<in> set (arc_data c1). ce_size e = length (ce_data e)" "arc_used_bytes c1 = hm_sum ce_size (arc_data c1)"
    "os_wf (arc_t1 c1)"
    using c1(2) unfolding cache_inv_def by blast+
  have none: "hm_get (arc_data c1) key = None" using get assms(2) by auto
  then have out: "key \<notin> os_set (arc_t1 c1)" "key \<notin> os_set (arc_t2 c1)"
    using inv(2) by (auto simp: hm_get_None_iff)
  have notks: "key \<notin> set ks"
    using assms(2) ks by (auto simp: hm_get_None_iff)
  let ?c = "c1\<lparr>arc_used_bytes := arc_used_bytes c1 + length v, arc_data := hm_insert key ?e (arc_data c1),
      arc_t1 := os_push_back key (arc_t1 c1)\<rparr>"
  have run: "arc_insert key v c = Some ?c"
    using assms(2) c1(1) out by (simp add: arc_insert_def os_contains_def Let_def)
  have t1: "os_set (os_push_back key (arc_t1 c1)) = insert key (os_set (arc_t1 c1))"
    using out by (simp add: os_push_back_def)
  have sizes: "\<forall>(k, e) \<in> set (hm_insert key ?e (arc_data c1)). ce_size e = length (ce_data e)"
    by (rule sizes_insert [OF inv(3)]) simp
  have "cache_inv ?c"
    using cache_invD [OF c1(2)] out os_push_wf [OF inv(5), of key] hm_sum_insert_new [OF none, of ce_size ?e] sizes
    by (intro cache_invI) (simp_all add: hm_keys_insert t1)
  moreover have "arc_used_bytes c1 = 0" if "arc_data c1 = []"
    using inv(4) that by simp
  ultimately show thesis
    using run c1 room notks get by (intro that [of ?c ks]) auto
qed

lemma remove_ok:
  assumes "cache_inv c" and "arc_remove key c = (r, c')"
  shows "cache_inv c'" and "r = arc_lookup c key"
    and "hm_get (arc_data c') k = (if k = key then None else hm_get (arc_data c) k)"
proof -
  have inv: "hm_wf (arc_data c)" "os_wf (arc_t1 c)" "os_wf (arc_t2 c)"
    "fst ` set (arc_data c) = os_set (arc_t1 c) \<union> os_set (arc_t2 c)"
    "\<forall>(k, e) \<in> set (arc_data c). ce_size e = length (ce_data e)" "arc_used_bytes c = hm_sum ce_size (arc_data c)"
    using assms(1) unfolding cache_inv_def by blast+
  show "r = arc_lookup c key"
    and "hm_get (arc_data c') k = (if k = key then None else hm_get (arc_data c) k)"
    using assms(2) by (auto simp: arc_remove_def split: option.splits)
  show "cache_inv c'"
  proof (cases "hm_get (arc_data c) key")
    case None
    with assms show ?thesis by (simp add: arc_remove_def)
  next
    case (Some e)
    have "fst ` set (hm_remove key (arc_data c)) = os_set (snd (os_remove key (arc_t1 c))) \<union> os_set (snd (os_remove key (arc_t2 c)))"
      using inv(4) by (auto simp: hm_keys_remove os_remove_def)
    moreover have "os_set (snd (os_remove key (arc_t1 c))) \<inter> os_set (snd (os_remove key (arc_t2 c))) = {}"
      using assms(1) by (auto simp: cache_inv_def os_remove_def)
    moreover have "c' = c\<lparr>arc_data := hm_remove key (arc_data c), arc_used_bytes := arc_used_bytes c - ce_size e,
        arc_t1 := snd (os_remove key (arc_t1 c)), arc_t2 := snd (os_remove key (arc_t2 c))\<rparr>"
      using assms(2) Some by (simp add: arc_remove_def)
    ultimately show ?thesis
      using cache_invD [OF assms(1)] hm_sum_remove [OF inv(1) Some, of ce_size] os_remove_wf [OF inv(2), of key]
        os_remove_wf [OF inv(3), of key] sizes_remove [OF inv(5), of key]
      by (intro cache_invI) simp_all
  qed
qed

lemma get_ok:
  assumes "cache_inv c" and "arc_get key c = (r, c')"
  shows "cache_inv c'" and "r = arc_lookup c key" and "arc_data c' = arc_data c"
    and "arc_used_bytes c' = arc_used_bytes c"
proof -
  have "cache_inv (c\<lparr>arc_p := p\<rparr>)" for p
    using assms(1) by (simp add: cache_inv_def)
  then show "cache_inv c'"
    using assms promote_inv [OF assms(1), of key] by (auto simp: arc_get_def Let_def split: if_splits)
  show "r = arc_lookup c key" and "arc_data c' = arc_data c" and "arc_used_bytes c' = arc_used_bytes c"
    using assms(2) by (auto simp: arc_get_def Let_def split: if_splits)
qed

section \<open>Properties\<close>

text \<open>The states the cache can reach from an empty one.\<close>

inductive cache_reachable :: "nat \<Rightarrow> arc_cache \<Rightarrow> bool" for m where
  fresh: "cache_reachable m (arc_new m)"
| inserted: "cache_reachable m c \<Longrightarrow> arc_insert k v c = Some c' \<Longrightarrow> cache_reachable m c'"
| looked_up: "cache_reachable m c \<Longrightarrow> arc_get k c = (r, c') \<Longrightarrow> cache_reachable m c'"
| removed: "cache_reachable m c \<Longrightarrow> arc_remove k c = (r, c') \<Longrightarrow> cache_reachable m c'"
| drained: "cache_reachable m c \<Longrightarrow> arc_drain_evicted c = (ks, c') \<Longrightarrow> cache_reachable m c'"

lemma cache_reachable_inv: "cache_reachable m c \<Longrightarrow> cache_inv c \<and> arc_max_bytes c = m"
proof (induction rule: cache_reachable.induct)
  case fresh
  then show ?case by (simp add: arc_new_inv) (simp add: arc_new_def)
next
  case (inserted c k v c')
  then have inv: "cache_inv c" and m: "arc_max_bytes c = m" by auto
  show ?case
  proof (cases "hm_get (arc_data c) k")
    case None
    obtain d where "arc_insert k v c = Some d" "cache_inv d" "arc_max_bytes d = arc_max_bytes c"
      by (rule insert_absent [OF inv None, of v])
    with inserted.hyps(2) m show ?thesis by simp
  next
    case (Some e)
    obtain d where "arc_insert k v c = Some d" "cache_inv d" "arc_max_bytes d = arc_max_bytes c"
      by (rule insert_present [OF inv Some, of v])
    with inserted.hyps(2) m show ?thesis by simp
  qed
next
  case (looked_up c k r c')
  then show ?case
    using get_ok(1) [of c k r c'] by (auto simp: arc_get_def Let_def split: if_splits)
next
  case (removed c k r c')
  then show ?case
    using remove_ok(1) [of c k r c'] by (auto simp: arc_remove_def split: option.splits)
next
  case (drained c ks c')
  then have "cache_inv c" "arc_max_bytes c = m" "c' = c\<lparr>arc_evicted := []\<rparr>"
    by (simp_all add: arc_drain_evicted_def)
  then show ?case by (simp add: cache_inv_def)
qed

text \<open>C21: Inserting ends and stores the value: the key reads back, and every other key reads as before
  unless its eviction was recorded for the caller.\<close>

theorem cache_insert_correct:
  assumes "cache_reachable m c"
  shows "\<exists>c' ks. arc_insert k v c = Some c' \<and> cache_inv c'
    \<and> arc_evicted c' = arc_evicted c @ ks \<and> k \<notin> set ks \<and> arc_lookup c' k = Some v
    \<and> (\<forall>l. l \<noteq> k \<longrightarrow> arc_lookup c' l = (if l \<in> set ks then None else arc_lookup c l))"
proof -
  have inv: "cache_inv c" using cache_reachable_inv [OF assms] by simp
  show ?thesis
  proof (cases "hm_get (arc_data c) k")
    case None
    obtain c' ks where c': "arc_insert k v c = Some c'" "cache_inv c'" "arc_evicted c' = arc_evicted c @ ks"
      "k \<notin> set ks" "\<forall>l. hm_get (arc_data c') l = (if l = k then Some \<lparr>ce_data = v, ce_size = length v\<rparr>
           else if l \<in> set ks then None else hm_get (arc_data c) l)"
      by (rule insert_absent [OF inv None, of v])
    then show ?thesis by (intro exI [of _ c'] exI [of _ ks]) simp
  next
    case (Some e)
    obtain c' where c': "arc_insert k v c = Some c'" "cache_inv c'" "arc_evicted c' = arc_evicted c"
      "arc_data c' = hm_insert k \<lparr>ce_data = v, ce_size = length v\<rparr> (arc_data c)"
      by (rule insert_present [OF inv Some, of v])
    then show ?thesis by (intro exI [of _ c'] exI [of _ "[]"]) simp
  qed
qed

theorem cache_insert_correct_witness:
  "\<exists>c'. arc_insert 7 [1, 2, 3] (arc_new 2) = Some c' \<and> arc_lookup c' 7 = Some [1, 2, 3]"
  using cache_insert_correct [OF cache_reachable.fresh [of 2], of 7 "[1, 2, 3]"] by blast

text \<open>C22: A new key whose value fits the budget leaves the cache within the budget, whatever the
  cache held.\<close>

theorem cache_insert_within_budget:
  assumes "cache_reachable m c" and "\<not> arc_contains k c" and "length v \<le> m"
  shows "\<exists>c'. arc_insert k v c = Some c' \<and> arc_used_bytes c' \<le> m
    \<and> arc_used_bytes c' = hm_sum (\<lambda>e. length (ce_data e)) (arc_data c')"
proof -
  have inv: "cache_inv c" "arc_max_bytes c = m" using cache_reachable_inv [OF assms(1)] by auto
  have "hm_get (arc_data c) k = None" using assms(2) by (simp add: arc_contains_def)
  then obtain c' where c': "arc_insert k v c = Some c'" "cache_inv c'"
    and fits: "length v \<le> arc_max_bytes c \<longrightarrow> arc_used_bytes c' \<le> arc_max_bytes c"
    by (rule insert_absent [OF inv(1), of k v])
  have "hm_sum ce_size (arc_data c') = hm_sum (\<lambda>e. length (ce_data e)) (arc_data c')"
    unfolding hm_sum_def using cache_invD(8) [OF c'(2)]
    by (intro arg_cong [where f = sum_list] map_cong) auto
  with c' fits inv(2) assms(3) cache_invD(9) [OF c'(2)] show ?thesis by auto
qed

theorem cache_insert_within_budget_witness:
  "\<exists>c'. arc_insert 7 [1, 2, 3] (arc_new 4) = Some c' \<and> arc_used_bytes c' \<le> 4
    \<and> arc_used_bytes c' = hm_sum (\<lambda>e. length (ce_data e)) (arc_data c')"
  by (rule cache_insert_within_budget [OF cache_reachable.fresh]) (simp_all add: arc_contains_def arc_new_def)

text \<open>The ceiling is not hard: a larger value for a key already cached is stored in place without
  evicting anything, so the cache then holds more bytes than its maximum.\<close>

theorem cache_update_exceeds_budget:
  assumes "m < length v"
  shows "\<exists>c c'. arc_insert k [] (arc_new m) = Some c \<and> arc_insert k v c = Some c'
    \<and> arc_evicted c' = [] \<and> arc_used_bytes c' = length v \<and> arc_max_bytes c' < arc_used_bytes c'"
proof -
  have none: "hm_get (arc_data (arc_new m)) k = None" by (simp add: arc_new_def)
  obtain c where c: "arc_insert k [] (arc_new m) = Some c" "cache_inv c" and mx: "arc_max_bytes c = m"
    and ev: "arc_evicted c = []" and g: "hm_get (arc_data c) k = Some \<lparr>ce_data = [], ce_size = 0\<rparr>" and u: "arc_used_bytes c = 0"
  proof
    let ?c = "arc_new m\<lparr>arc_data := hm_insert k \<lparr>ce_data = [], ce_size = 0\<rparr> [], arc_t1 := os_push_back k os_new\<rparr>"
    have "evict_loop 0 (arc_new m) = Some (arc_new m)"
      by (subst evict_loop.simps) (simp add: arc_new_def)
    then show run: "arc_insert k [] (arc_new m) = Some ?c"
      by (simp add: arc_insert_def none Let_def os_contains_def) (simp add: arc_new_def os_new_def)
    then show "cache_inv ?c"
      using cache_reachable_inv [OF cache_reachable.inserted [OF cache_reachable.fresh run]] by simp
  qed (simp_all add: arc_new_def)
  obtain c' where "arc_insert k v c = Some c'" "arc_max_bytes c' = arc_max_bytes c"
    "arc_used_bytes c' + ce_size \<lparr>ce_data = [], ce_size = 0\<rparr> = arc_used_bytes c + length v"
    "arc_evicted c' = arc_evicted c"
    by (rule insert_present [OF c(2) g, of v])
  with c(1) assms mx ev u show ?thesis by (intro exI [of _ c] exI [of _ c']) simp
qed

theorem cache_update_exceeds_budget_witness:
  "\<exists>c c'. arc_insert 7 [] (arc_new 2) = Some c \<and> arc_insert 7 [1, 2, 3] c = Some c'
    \<and> arc_evicted c' = [] \<and> arc_used_bytes c' = length [1 :: u8, 2, 3] \<and> arc_max_bytes c' < arc_used_bytes c'"
  by (rule cache_update_exceeds_budget) simp

lemma find_first_item:
  "find (\<lambda>k. k \<in> os_set s) (os_order s) = (case os_items s of [] \<Rightarrow> None | k # _ \<Rightarrow> Some k)"
proof -
  have "find (\<lambda>k. k \<in> t) q = (case rev (remdups (rev (filter (\<lambda>k. k \<in> t) q))) of [] \<Rightarrow> None | k # _ \<Rightarrow> Some k)" for q t
    by (induction q) (simp_all add: remdups_snoc)
  then show ?thesis by (simp add: os_items_def)
qed

definition full_cache :: arc_cache where
  "full_cache = \<lparr>arc_t1 = \<lparr>os_order = [7], os_set = {7}\<rparr>, arc_t2 = os_new, arc_b1 = os_new, arc_b2 = os_new,
     arc_data = [(7, \<lparr>ce_data = [1, 2], ce_size = 2\<rparr>)], arc_p = 0, arc_max_bytes = 2,
     arc_used_bytes = 2, arc_evicted = []\<rparr>"

lemma full_cache_reachable: "cache_reachable 2 full_cache"
proof (rule cache_reachable.inserted [OF cache_reachable.fresh])
  have "evict_loop (Suc (Suc 0)) (arc_new 2) = Some (arc_new 2)"
    by (subst evict_loop.simps) (simp add: arc_new_def)
  moreover have "hm_get (arc_data (arc_new 2)) 7 = None" by (simp add: arc_new_def)
  ultimately show "arc_insert 7 [1, 2] (arc_new 2) = Some full_cache"
    by (simp add: arc_insert_def) (simp add: full_cache_def arc_new_def os_new_def os_contains_def
        os_push_back_def hm_insert_def hm_remove_def)
qed

text \<open>When an eviction is due, the key the cache announces is the one it evicts.\<close>

theorem cache_peek_is_evicted:
  assumes "cache_reachable m c" and "arc_data c \<noteq> []" and "m \<le> arc_used_bytes c"
  shows "\<exists>k. arc_peek_eviction_candidate c = Some k \<and> arc_evicted (arc_evict_one c) = arc_evicted c @ [k]
    \<and> \<not> arc_contains k (arc_evict_one c)"
proof -
  have inv: "cache_inv c" "arc_max_bytes c = m" using cache_reachable_inv [OF assms(1)] by auto
  let ?s = "if os_len (arc_t1 c) > arc_p c \<or> os_is_empty (arc_t2 c) then arc_t1 c else arc_t2 c"
  obtain k c' where step: "arc_evict_one c = c'" "arc_data c' = hm_remove k (arc_data c)"
    "arc_evicted c' = arc_evicted c @ [k]" "hd (os_items ?s) = k"
    by (rule evict_one_ok [OF inv(1) assms(2)])
  have "os_set ?s \<noteq> {}"
    using cache_invD(7) [OF inv(1)] assms(2) by (cases "arc_data c") (auto simp: os_len_def os_is_empty_def)
  moreover have "os_wf ?s" using cache_invD(2,3) [OF inv(1)] by simp
  ultimately have "os_items ?s \<noteq> []"
    using set_os_items [of ?s] by (metis list.set(1))
  then have "arc_peek_eviction_candidate c = Some k"
    using step(4) assms(3) inv(2)
    by (cases "os_items ?s") (auto simp: arc_peek_eviction_candidate_def find_first_item Let_def split: if_splits)
  with step show ?thesis by (simp add: arc_contains_def)
qed

theorem cache_peek_is_evicted_witness:
  "\<exists>k. arc_peek_eviction_candidate full_cache = Some k
    \<and> arc_evicted (arc_evict_one full_cache) = arc_evicted full_cache @ [k]
    \<and> \<not> arc_contains k (arc_evict_one full_cache)"
  by (rule cache_peek_is_evicted [OF full_cache_reachable]) (simp_all add: full_cache_def)

primrec os_drain :: "nat \<Rightarrow> ordered_set \<Rightarrow> u64 list" where
  "os_drain 0 s = []"
| "os_drain (Suc n) s = (case os_pop_front s of (None, _) \<Rightarrow> [] | (Some k, t) \<Rightarrow> k # os_drain n t)"

lemma os_drain_lru: "os_drain n s = lru.drain n s"
  by (induction n arbitrary: s) (auto split: prod.splits option.splits)

text \<open>Distinct keys pushed one after the other are popped in that order.\<close>

theorem ordered_set_fifo:
  assumes "distinct ks"
  shows "os_drain (length ks) (fold os_push_back ks os_new) = ks"
  unfolding os_drain_lru
  by (rule lru.drain_push_all [OF _ _ assms]) (simp_all add: os_new_def os_wf_def os_items_def)

theorem ordered_set_fifo_witness:
  "os_drain (length [5 :: u64, 7, 6]) (fold os_push_back [5, 7, 6] os_new) = [5, 7, 6]"
  by (rule ordered_set_fifo) simp

text \<open>A key that is removed and pushed again does not go to the back: the place it left in the queue
  counts again, and it is popped before a key that was pushed earlier than its second push.\<close>

theorem ordered_set_stale_place:
  assumes "k \<noteq> l"
  shows "fst (os_pop_front (os_push_back k (snd (os_remove k (os_push_back l (os_push_back k os_new)))))) = Some k"
  using assms by (simp add: os_push_back_def os_new_def os_remove_def os_pop_front_def)

theorem ordered_set_stale_place_witness:
  "fst (os_pop_front (os_push_back 1 (snd (os_remove 1 (os_push_back 2 (os_push_back 1 os_new)))))) = Some 1"
  by (rule ordered_set_stale_place) simp

end
