(* ===== verification/Compress.thy ===== *)
theory Compress
  imports Prelude
begin

text \<open>
  \<open>src/fs/compress.rs\<close>: transparent compression of file data. The \<open>zstd\<close> crate is outside the
  repository: \<open>zenc\<close> stands for \<open>encode_all(_, 3)\<close> (\<open>None\<close> is an error) and \<open>zdec\<close> for what a
  decoder of a payload appends to its output before it ends or fails.
\<close>

definition COMPRESS_MAGIC :: u32 where "COMPRESS_MAGIC = 0x5A535444"
definition COMPRESS_HEADER_SIZE :: nat where "COMPRESS_HEADER_SIZE = 8"

definition compress :: "(bytes \<Rightarrow> bytes option) \<Rightarrow> bytes \<Rightarrow> bytes" where
  "compress zenc data =
     (if length data < 512 then data
      else
        (let compressed = (case zenc data of Some c \<Rightarrow> c | None \<Rightarrow> data) in
         if length data \<le> length compressed then data
         else u32_to_le COMPRESS_MAGIC @ u32_to_le (of_nat (length data)) @ compressed))"

definition decompress :: "(bytes \<Rightarrow> bytes) \<Rightarrow> bytes \<Rightarrow> bytes" where
  "decompress zdec data =
     (if length data < COMPRESS_HEADER_SIZE then data
      else
        (let magic = le_to_u32 (sub data 0 4) in
         if magic \<noteq> COMPRESS_MAGIC then data
         else zdec (drop COMPRESS_HEADER_SIZE data)))"

definition is_compressed :: "bytes \<Rightarrow> bool" where
  "is_compressed data \<longleftrightarrow> 4 \<le> length data \<and> le_to_u32 (sub data 0 4) = COMPRESS_MAGIC"

lemma compress_cases:
  obtains (plain) "compress zenc data = data"
  | (packed) c where "512 \<le> length data" "zenc data = Some c" "length c < length data"
      "compress zenc data = u32_to_le COMPRESS_MAGIC @ u32_to_le (of_nat (length data)) @ c"
proof (cases "512 \<le> length data \<and> (\<exists>c. zenc data = Some c \<and> length c < length data)")
  case True
  then obtain c where "512 \<le> length data" "zenc data = Some c" "length c < length data" by blast
  then show thesis by (intro packed) (auto simp: compress_def)
next
  case False
  then show thesis by (intro plain) (auto simp: compress_def Let_def not_less split: option.splits)
qed

lemma decompress_packed:
  "decompress zdec (u32_to_le COMPRESS_MAGIC @ u32_to_le n @ c) = zdec c"
  by (simp add: decompress_def COMPRESS_HEADER_SIZE_def sub_simps)

section \<open>Properties\<close>

text \<open>Decompressing what was compressed gives the data back, when the codec round-trips and the
  data does not itself start with the magic number.\<close>

theorem decompress_compress:
  assumes "\<And>d c. zenc d = Some c \<Longrightarrow> zdec c = d" and "\<not> is_compressed data"
  shows "decompress zdec (compress zenc data) = data"
proof (cases rule: compress_cases [where zenc = zenc and data = data])
  case plain
  with assms(2) show ?thesis
    by (auto simp: decompress_def is_compressed_def COMPRESS_HEADER_SIZE_def Let_def)
next
  case (packed c)
  with assms(1) show ?thesis by (simp add: decompress_packed)
qed

theorem decompress_compress_witness:
  "decompress (\<lambda>c. if c = [1] then zeros 600 else [])
     (compress (\<lambda>d. if d = zeros 600 then Some [1] else None) (zeros 600)) = zeros 600"
proof (rule decompress_compress)
  show "\<not> is_compressed (zeros 600)"
    by (simp add: is_compressed_def COMPRESS_MAGIC_def sub_zeros)
qed (simp split: if_splits)

text \<open>Stored data that starts with the magic number by accident is taken for a compressed block when
  it is read, also when it was stored as it is.\<close>

theorem decompress_magic_collision:
  assumes "length rest < 500" and "4 \<le> length rest"
  shows "compress zenc (u32_to_le COMPRESS_MAGIC @ rest) = u32_to_le COMPRESS_MAGIC @ rest
    \<and> decompress zdec (u32_to_le COMPRESS_MAGIC @ rest) = zdec (drop 4 rest)"
  using assms by (simp add: compress_def decompress_def COMPRESS_HEADER_SIZE_def sub_simps)

theorem decompress_magic_collision_witness:
  "compress (\<lambda>_. None) (u32_to_le COMPRESS_MAGIC @ [1, 2, 3, 4]) = u32_to_le COMPRESS_MAGIC @ [1, 2, 3, 4]
    \<and> decompress (\<lambda>_. []) (u32_to_le COMPRESS_MAGIC @ [1, 2, 3, 4]) = []"
  using decompress_magic_collision [of "[1, 2, 3, 4]" "\<lambda>_. None" "\<lambda>_. []"] by simp

text \<open>The header can make the stored block longer than the data, by up to seven bytes.\<close>

theorem compress_growth:
  shows "length (compress zenc data) \<le> length data + 7
    \<and> (512 \<le> length data \<and> zenc data = Some c \<and> length c + 1 = length data
       \<longrightarrow> length (compress zenc data) = length data + 7)"
proof -
  have "length (compress zenc data) \<le> length data + 7"
    by (cases rule: compress_cases [where zenc = zenc and data = data]) auto
  then show ?thesis by (auto simp: compress_def Let_def)
qed

theorem compress_growth_witness:
  "length (compress (\<lambda>_. Some (zeros 511)) (zeros 512)) = 519"
  using compress_growth [of "\<lambda>_. Some (zeros 511)" "zeros 512" "zeros 511"] by simp

end
