(* ===== verification/Write_Buffer.thy ===== *)
theory Write_Buffer
  imports Prelude
begin

text \<open>
  \<open>src/fs/buffer.rs\<close>: the buffer of writes not yet on disk. The clock is the argument \<open>now\<close>.
\<close>

record pending_write =
  pw_data :: bytes
  pw_disk_index :: nat
  pw_name :: rstring
  pw_dirty_since :: u64

record write_buffer =
  wb_pending :: "(u64, pending_write) hmap"
  wb_max_pending :: nat
  wb_interval :: u64

definition wb_new :: "nat \<Rightarrow> u64 \<Rightarrow> write_buffer" where
  "wb_new max_pending flush_interval_secs =
     \<lparr>wb_pending = [], wb_max_pending = max_pending, wb_interval = flush_interval_secs\<rparr>"

definition wb_write :: "u64 \<Rightarrow> u64 \<Rightarrow> rstring \<Rightarrow> bytes \<Rightarrow> nat \<Rightarrow> write_buffer \<Rightarrow> write_buffer" where
  "wb_write now ino name data disk_index b =
     b\<lparr>wb_pending := hm_insert ino \<lparr>pw_data = data, pw_disk_index = disk_index, pw_name = name,
         pw_dirty_since = now\<rparr> (wb_pending b)\<rparr>"

definition wb_get :: "u64 \<Rightarrow> write_buffer \<Rightarrow> bytes option" where
  "wb_get ino b = map_option pw_data (hm_get (wb_pending b) ino)"

definition due_for_flush :: "u64 \<Rightarrow> write_buffer \<Rightarrow> u64 list" where
  "due_for_flush now b =
     (if wb_max_pending b \<le> length (wb_pending b) then map fst (wb_pending b)
      else map fst (filter (\<lambda>(_, w). wb_interval b \<le> sat_sub now (pw_dirty_since w)) (wb_pending b)))"

definition wb_take :: "u64 \<Rightarrow> write_buffer \<Rightarrow> (bytes \<times> nat \<times> rstring) option \<times> write_buffer" where
  "wb_take ino b =
     (map_option (\<lambda>w. (pw_data w, pw_disk_index w, pw_name w)) (hm_get (wb_pending b) ino),
      b\<lparr>wb_pending := hm_remove ino (wb_pending b)\<rparr>)"

definition wb_take_all :: "write_buffer \<Rightarrow> (u64 \<times> bytes \<times> nat \<times> rstring) list \<times> write_buffer" where
  "wb_take_all b =
     (map (\<lambda>(ino, w). (ino, pw_data w, pw_disk_index w, pw_name w)) (wb_pending b), b\<lparr>wb_pending := []\<rparr>)"

definition wb_len :: "write_buffer \<Rightarrow> nat" where "wb_len b = length (wb_pending b)"
definition wb_is_empty :: "write_buffer \<Rightarrow> bool" where "wb_is_empty b \<longleftrightarrow> wb_pending b = []"

definition wb_inv :: "write_buffer \<Rightarrow> bool" where
  "wb_inv b \<longleftrightarrow> hm_wf (wb_pending b)"

lemma wb_write_inv: "wb_inv b \<Longrightarrow> wb_inv (wb_write now ino name data i b)"
  by (simp add: wb_inv_def wb_write_def)

lemma wb_take_inv: "wb_inv b \<Longrightarrow> wb_inv (snd (wb_take ino b))"
  by (simp add: wb_inv_def wb_take_def)

lemma wb_get_write [simp]: "wb_get ino' (wb_write now ino name data i b) = (if ino' = ino then Some data else wb_get ino' b)"
  by (simp add: wb_get_def wb_write_def)

lemma wb_get_take [simp]: "wb_get ino' (snd (wb_take ino b)) = (if ino' = ino then None else wb_get ino' b)"
  by (simp add: wb_get_def wb_take_def)

section \<open>Properties\<close>

text \<open>A pending inode is due for flushing exactly when the buffer is full or its last write is at
  least the flush interval old (a write stamped in the future counts as age 0).\<close>

theorem due_for_flush_iff:
  assumes "wb_inv b"
  shows "ino \<in> set (due_for_flush now b) \<longleftrightarrow>
    (\<exists>w. hm_get (wb_pending b) ino = Some w
       \<and> (wb_max_pending b \<le> wb_len b \<or> unat (wb_interval b) \<le> unat now - unat (pw_dirty_since w)))"
proof -
  have mem: "(\<exists>w. hm_get (wb_pending b) ino = Some w \<and> P w) \<longleftrightarrow> (\<exists>w. (ino, w) \<in> set (wb_pending b) \<and> P w)" for P
    using assms by (simp add: wb_inv_def hm_get_Some_iff)
  show ?thesis
    unfolding mem by (force simp: due_for_flush_def wb_len_def word_le_nat_alt unat_sat_sub)
qed

theorem due_for_flush_iff_witness:
  "7 \<in> set (due_for_flush 105 (wb_write 100 7 [] [1] 0 (wb_new 10 5)))"
proof -
  have "wb_inv (wb_write 100 7 [] [1] 0 (wb_new 10 5))"
    by (rule wb_write_inv) (simp add: wb_inv_def wb_new_def)
  from due_for_flush_iff [OF this, of 7 105] show ?thesis
    by (simp add: wb_write_def wb_new_def)
qed

text \<open>Draining the buffer returns every pending write exactly once and leaves it empty.\<close>

theorem wb_take_all_complete:
  assumes "wb_inv b"
  shows "wb_is_empty (snd (wb_take_all b)) \<and> distinct (map fst (fst (wb_take_all b)))
    \<and> (\<forall>ino data. (\<exists>i n. (ino, data, i, n) \<in> set (fst (wb_take_all b))) \<longleftrightarrow> wb_get ino b = Some data)"
proof -
  have "map fst (fst (wb_take_all b)) = map fst (wb_pending b)"
    by (auto simp: wb_take_all_def)
  moreover have "(\<exists>i n. (ino, data, i, n) \<in> set (fst (wb_take_all b))) \<longleftrightarrow> wb_get ino b = Some data" for ino data
    using assms by (force simp: wb_take_all_def wb_get_def wb_inv_def hm_get_Some_iff)
  ultimately show ?thesis
    using assms by (simp add: wb_inv_def hm_wf_def) (simp add: wb_is_empty_def wb_take_all_def)
qed

theorem wb_take_all_complete_witness:
  "wb_is_empty (snd (wb_take_all (wb_write 100 7 [] [1] 0 (wb_new 10 5))))"
proof -
  have "wb_inv (wb_write 100 7 [] [1] 0 (wb_new 10 5))"
    by (rule wb_write_inv) (simp add: wb_inv_def wb_new_def)
  from wb_take_all_complete [OF this] show ?thesis by blast
qed

end
