(* ===== verification/Snapshots.thy ===== *)
theory Snapshots
  imports Prelude "HOL-Library.Multiset"
begin

text \<open>
  \<open>src/fs/snapshot.rs\<close>: in-memory snapshots per inode. The clock is the argument \<open>now\<close>; the
  \<open>HashMap\<close> is iterated in the order of the association list, which the theorems leave open.
\<close>

section \<open>State and operations\<close>

definition NOT_ON_DISK :: nat where "NOT_ON_DISK = 2 ^ 64 - 1"

record snapshot =
  ss_id :: u32
  ss_ino :: u64
  ss_name :: rstring
  ss_size :: u64
  ss_data_offset :: u64
  ss_timestamp :: u64
  ss_data :: bytes
  ss_disk_slot :: nat

definition snapshot_new :: "u64 \<Rightarrow> u32 \<Rightarrow> u64 \<Rightarrow> rstring \<Rightarrow> bytes \<Rightarrow> u64 \<Rightarrow> snapshot" where
  "snapshot_new now i ino name data data_offset =
     \<lparr>ss_id = i, ss_ino = ino, ss_name = name, ss_size = of_nat (length data), ss_data_offset = data_offset,
      ss_timestamp = now, ss_data = data, ss_disk_slot = NOT_ON_DISK\<rparr>"

text \<open>Decimal digits, as \<open>format!("{}", n)\<close> prints them.\<close>

fun decimal :: "nat \<Rightarrow> rstring" where
  "decimal n = (if n < 10 then [of_nat (48 + n)] else decimal (n div 10) @ [of_nat (48 + n mod 10)])"

declare decimal.simps [simp del]

definition age_str :: "u64 \<Rightarrow> snapshot \<Rightarrow> rstring" where
  "age_str now s =
     (let age = unat (sat_sub now (ss_timestamp s)) in
      if age < 60 then decimal age @ ascii ''s ago''
      else if age < 3600 then decimal (age div 60) @ ascii ''m ago''
      else if age < 86400 then decimal (age div 3600) @ ascii ''h ago''
      else decimal (age div 86400) @ ascii ''d ago'')"

record snapshot_manager =
  sm_snapshots :: "(u64, snapshot list) hmap"
  sm_next_id :: u32
  sm_max_per_file :: nat

definition sm_new :: "nat \<Rightarrow> snapshot_manager" where
  "sm_new max_per_file = \<lparr>sm_snapshots = [], sm_next_id = 1, sm_max_per_file = max_per_file\<rparr>"

text \<open>\<open>self.snapshots.get(&ino)\<close> with an absent entry as the empty vector.\<close>

definition sm_list :: "u64 \<Rightarrow> snapshot_manager \<Rightarrow> snapshot list" where
  "sm_list ino m = (case hm_get (sm_snapshots m) ino of Some v \<Rightarrow> v | None \<Rightarrow> [])"

definition sm_snapshot :: "u64 \<Rightarrow> u64 \<Rightarrow> rstring \<Rightarrow> bytes \<Rightarrow> u64 \<Rightarrow> snapshot_manager \<Rightarrow> snapshot_manager" where
  "sm_snapshot now ino name data data_offset m =
     (if data = [] then m
      else
        (let i = sm_next_id m;
             snap = snapshot_new now i ino name data data_offset;
             lst = sm_list ino m @ [snap];
             lst = (if sm_max_per_file m < length lst then remove_nth 0 lst else lst)
         in m\<lparr>sm_next_id := i + 1, sm_snapshots := hm_insert ino lst (sm_snapshots m)\<rparr>))"

definition sm_list_by_name :: "rstring \<Rightarrow> snapshot_manager \<Rightarrow> snapshot list" where
  "sm_list_by_name name m = filter (\<lambda>s. ss_name s = name) (concat (map snd (sm_snapshots m)))"

definition sm_get :: "u64 \<Rightarrow> u32 \<Rightarrow> snapshot_manager \<Rightarrow> snapshot option" where
  "sm_get ino version m =
     (case hm_get (sm_snapshots m) ino of None \<Rightarrow> None | Some v \<Rightarrow> find (\<lambda>s. ss_id s = version) v)"

definition sm_restore :: "u64 \<Rightarrow> u32 \<Rightarrow> snapshot_manager \<Rightarrow> bytes option" where
  "sm_restore ino version m = map_option ss_data (sm_get ino version m)"

definition total_snapshots :: "snapshot_manager \<Rightarrow> nat" where
  "total_snapshots m = hm_sum length (sm_snapshots m)"

definition files_with_snapshots :: "snapshot_manager \<Rightarrow> nat" where
  "files_with_snapshots m = length (sm_snapshots m)"

definition sm_remove_file :: "u64 \<Rightarrow> snapshot_manager \<Rightarrow> snapshot_manager" where
  "sm_remove_file ino m = m\<lparr>sm_snapshots := hm_remove ino (sm_snapshots m)\<rparr>"

text \<open>Newest first, then larger ids first; both parts of the key are packed in one integer.\<close>

definition recent_key :: "snapshot \<Rightarrow> int" where
  "recent_key s = - (uint (ss_timestamp s) * 2 ^ 32 + uint (ss_id s))"

definition all_recent :: "nat \<Rightarrow> snapshot_manager \<Rightarrow> snapshot list" where
  "all_recent limit m = take limit (sort_key recent_key (concat (map snd (sm_snapshots m))))"

text \<open>One vector of the collection: what stays and what is reported as freed.\<close>

definition gc_list :: "nat \<Rightarrow> snapshot list \<Rightarrow> snapshot list \<times> (nat \<times> u64 \<times> u64) list" where
  "gc_list keep snaps =
     (if length snaps \<le> keep then (snaps, [])
      else
        (let snaps = sort_key ss_timestamp snaps;
             to_remove = length snaps - keep;
             removed = take to_remove snaps
         in (drop to_remove snaps,
             map (\<lambda>s. (ss_disk_slot s, ss_data_offset s, ss_size s)) (filter (\<lambda>s. ss_disk_slot s \<noteq> NOT_ON_DISK) removed))))"

definition gc_keep_per_file :: "nat \<Rightarrow> snapshot_manager \<Rightarrow> (nat \<times> u64 \<times> u64) list \<times> snapshot_manager" where
  "gc_keep_per_file keep m =
     (concat (map (\<lambda>(_, v). snd (gc_list keep v)) (sm_snapshots m)),
      m\<lparr>sm_snapshots := map (\<lambda>(ino, v). (ino, fst (gc_list keep v))) (sm_snapshots m)\<rparr>)"

section \<open>Invariant\<close>

text \<open>
  At most \<open>max_per_file\<close> snapshots of a file (one when the maximum is 0 is never kept: the vector is
  cut back to the maximum at once), and each belongs to the inode it is filed under.
\<close>

definition sm_inv :: "snapshot_manager \<Rightarrow> bool" where
  "sm_inv m \<longleftrightarrow> hm_wf (sm_snapshots m)
     \<and> (\<forall>ino. length (sm_list ino m) \<le> sm_max_per_file m \<and> (\<forall>s \<in> set (sm_list ino m). ss_ino s = ino))"

lemma sm_new_inv: "sm_inv (sm_new k)"
  by (simp add: sm_inv_def sm_new_def sm_list_def)

lemma sm_list_snapshot:
  "sm_list i (sm_snapshot now ino name data off m) =
     (if i = ino \<and> data \<noteq> []
      then (let lst = sm_list ino m @ [snapshot_new now (sm_next_id m) ino name data off]
            in if sm_max_per_file m < length lst then tl lst else lst)
      else sm_list i m)"
proof -
  have tl: "remove_nth 0 (xs @ [x]) = tl (xs @ [x])" for xs and x :: snapshot
    by (cases xs) (simp_all add: remove_nth_def)
  show ?thesis
    by (simp add: sm_snapshot_def sm_list_def [of _ "m\<lparr>sm_next_id := _, sm_snapshots := _\<rparr>"] Let_def tl)
      (simp add: sm_list_def)
qed

lemma sm_snapshot_inv:
  assumes "sm_inv m"
  shows "sm_inv (sm_snapshot now ino name data off m)"
proof -
  let ?m = "sm_snapshot now ino name data off m"
  have max: "sm_max_per_file ?m = sm_max_per_file m"
    by (simp add: sm_snapshot_def Let_def)
  have "length (sm_list i ?m) \<le> sm_max_per_file m \<and> (\<forall>s \<in> set (sm_list i ?m). ss_ino s = i)" for i
  proof -
    have old: "length (sm_list i m) \<le> sm_max_per_file m" "\<forall>s \<in> set (sm_list i m). ss_ino s = i"
      using assms by (auto simp: sm_inv_def)
    show ?thesis
      using old by (auto simp: sm_list_snapshot Let_def snapshot_new_def dest: list.set_sel(2) [rotated])
        (auto dest!: list.set_sel(2) [rotated])
  qed
  moreover have "hm_wf (sm_snapshots m)"
    using assms by (simp add: sm_inv_def)
  then have "hm_wf (sm_snapshots ?m)"
    by (simp add: sm_snapshot_def Let_def)
  ultimately show ?thesis by (simp add: sm_inv_def max)
qed

lemma gc_list_length: "length (fst (gc_list keep v)) = min keep (length v)"
  by (simp add: gc_list_def Let_def)

lemma sm_list_gc: "sm_list ino (snd (gc_keep_per_file keep m)) = fst (gc_list keep (sm_list ino m))"
proof -
  have "map_of (map (\<lambda>(i, v). (i, fst (gc_list keep v))) xs) ino = map_option (\<lambda>v. fst (gc_list keep v)) (map_of xs ino)" for xs
    by (induction xs) auto
  then show ?thesis
    by (cases "hm_get (sm_snapshots m) ino")
      (simp_all add: sm_list_def gc_keep_per_file_def hm_get_def gc_list_def)
qed

section \<open>Properties\<close>

text \<open>A snapshot of non-empty data can be restored under the id it was given, as long as one per file
  may be kept and the file's older snapshots have other ids.\<close>

theorem snapshot_restore:
  assumes "sm_inv m" and "0 < sm_max_per_file m" and "data \<noteq> []"
    and "\<forall>s \<in> set (sm_list ino m). ss_id s \<noteq> sm_next_id m"
  shows "sm_restore ino (sm_next_id m) (sm_snapshot now ino name data off m) = Some data
    \<and> length (sm_list ino (sm_snapshot now ino name data off m)) \<le> sm_max_per_file m"
proof -
  let ?m = "sm_snapshot now ino name data off m" and ?new = "snapshot_new now (sm_next_id m) ino name data off"
  obtain pre where pre: "sm_list ino ?m = pre @ [?new]" "set pre \<subseteq> set (sm_list ino m)"
  proof (cases "sm_max_per_file m < length (sm_list ino m @ [?new])")
    case True
    then have "sm_list ino m \<noteq> []" using assms(2) by auto
    then have "tl (sm_list ino m @ [?new]) = tl (sm_list ino m) @ [?new]" by simp
    with True assms(3) show thesis
      by (intro that [of "tl (sm_list ino m)"]) (auto simp: sm_list_snapshot Let_def dest: list.set_sel(2) [rotated])
  next
    case False
    with assms(3) show thesis by (intro that [of "sm_list ino m"]) (auto simp: sm_list_snapshot Let_def)
  qed
  have "find (\<lambda>s. ss_id s = sm_next_id m) pre = None"
    using pre(2) assms(4) by (auto simp: find_None_iff)
  then have "find (\<lambda>s. ss_id s = sm_next_id m) (pre @ [?new]) = Some ?new"
    by (induction pre) (auto simp: snapshot_new_def split: if_splits)
  moreover have "hm_get (sm_snapshots ?m) ino = Some (sm_list ino ?m)"
    using assms(3) by (simp add: sm_list_def sm_snapshot_def Let_def)
  ultimately have "sm_restore ino (sm_next_id m) ?m = Some data"
    by (simp add: sm_restore_def sm_get_def pre(1)) (simp add: snapshot_new_def)
  moreover have "length (sm_list ino ?m) \<le> sm_max_per_file m"
  proof -
    have "sm_max_per_file ?m = sm_max_per_file m" by (simp add: sm_snapshot_def Let_def)
    then show ?thesis
      using sm_snapshot_inv [OF assms(1), of now ino name data off] unfolding sm_inv_def by metis
  qed
  ultimately show ?thesis ..
qed

theorem snapshot_restore_witness:
  "sm_restore 7 1 (sm_snapshot 100 7 [] [1, 2, 3] 0 (sm_new 2)) = Some [1, 2, 3]"
  using snapshot_restore [OF sm_new_inv [of 2], of "[1, 2, 3]" 7 100 "[]" 0]
  by (simp add: sm_new_def sm_list_def)

text \<open>Garbage collection keeps, per file, the newest snapshots only: at most \<open>keep\<close> stay, no removed one
  is newer than one that stays, and together they are what was there.\<close>

theorem gc_keeps_newest:
  shows "length (sm_list ino (snd (gc_keep_per_file keep m))) = min keep (length (sm_list ino m))
    \<and> (\<exists>removed. mset (sm_list ino m) = mset removed + mset (sm_list ino (snd (gc_keep_per_file keep m)))
         \<and> (\<forall>r \<in> set removed. \<forall>s \<in> set (sm_list ino (snd (gc_keep_per_file keep m))). ss_timestamp r \<le> ss_timestamp s))"
proof -
  let ?v = "sm_list ino m"
  let ?s = "sort_key ss_timestamp ?v" and ?n = "length ?v - keep"
  show ?thesis
  proof (cases "length ?v \<le> keep")
    case True
    then have "fst (gc_list keep ?v) = ?v" by (simp add: gc_list_def)
    with True show ?thesis
      unfolding sm_list_gc by (intro conjI exI [of _ "[]"]) (simp_all add: gc_list_length)
  next
    case False
    then have kept: "fst (gc_list keep ?v) = drop ?n ?s" by (simp add: gc_list_def Let_def)
    have "mset ?v = mset (take ?n ?s) + mset (drop ?n ?s)"
      by (metis append_take_drop_id mset_append mset_sort)
    moreover have "ss_timestamp r \<le> ss_timestamp s" if "r \<in> set (take ?n ?s)" "s \<in> set (drop ?n ?s)" for r s
    proof -
      have "sorted (map ss_timestamp (take ?n ?s @ drop ?n ?s))" by simp
      with that show ?thesis by (simp only: map_append sorted_append) auto
    qed
    ultimately show ?thesis
      unfolding sm_list_gc kept by (intro conjI exI [of _ "take ?n ?s"]) (use gc_list_length [of keep ?v] kept in auto)
  qed
qed

theorem gc_keeps_newest_witness:
  "length (sm_list 7 (snd (gc_keep_per_file 1 (sm_snapshot 101 7 [] [2] 0 (sm_snapshot 100 7 [] [1] 0 (sm_new 5)))))) = 1"
  using gc_keeps_newest [of 7 1 "sm_snapshot 101 7 [] [2] 0 (sm_snapshot 100 7 [] [1] 0 (sm_new 5))"]
  by (simp add: sm_list_snapshot Let_def) (simp add: sm_list_def sm_new_def sm_snapshot_def)

end
