(* ===== verification/Record_Codec.thy ===== *)
theory Record_Codec
  imports Prelude
begin

text \<open>
  The interface of an on-disk record format and of a table of such records. \<open>SuperblockRaw\<close>,
  \<open>InodeRaw\<close>, \<open>SnapshotRaw\<close>, \<open>JournalHeader\<close>, \<open>JournalEntry\<close> and \<open>FreeExtent\<close> are all
  used through the same contract: a fixed width, and a decoder that gives back what was
  encoded (up to fields the encoder recomputes, such as a stored checksum). The facts about
  writing a record at an offset of the image and reading it back are proved once here and
  reused through the interpretations in the component theories.
\<close>

locale record_codec =
  fixes enc :: "'a \<Rightarrow> bytes"
    and dec :: "bytes \<Rightarrow> 'e + 'a"
    and renorm :: "'a \<Rightarrow> 'a"
    and width :: nat
    and wf :: "'a \<Rightarrow> bool"
  assumes width_pos: "0 < width"
    and enc_width: "wf x \<Longrightarrow> length (enc x) = width"
    and dec_enc: "wf x \<Longrightarrow> dec (enc x) = Inr (renorm x)"
begin

lemma enc_not_Nil: "wf x \<Longrightarrow> enc x \<noteq> []"
  using width_pos enc_width by fastforce

lemma load_store:
  "wf x \<Longrightarrow> fread (fwrite f off (enc x)) off width = Some (enc x)"
  by (rule fread_fwrite_same) (simp_all add: enc_width enc_not_Nil)

lemma load_store_dec:
  "wf x \<Longrightarrow> map_option dec (fread (fwrite f off (enc x)) off width) = Some (Inr (renorm x))"
  by (simp add: load_store dec_enc)

lemma load_other:
  assumes "wf x" and "q + n \<le> off \<or> off + width \<le> q" and "q + n \<le> flen f"
  shows "fread (fwrite f off (enc x)) q n = fread f q n"
  using assms by (auto intro!: fread_fwrite_other simp: enc_width)

lemma enc_determines: "wf x \<Longrightarrow> wf y \<Longrightarrow> enc x = enc y \<Longrightarrow> renorm x = renorm y"
  by (metis dec_enc sum.inject(2))

end

text \<open>A table of such records, one after the other from a base offset.\<close>

locale slot_table = record_codec +
  fixes base :: nat
begin

lemma slot_disjoint:
  assumes "i \<noteq> j"
  shows "base + j * width + width \<le> base + i * width \<or> base + i * width + width \<le> base + j * width"
proof (cases "i < j")
  case True
  then have "Suc i * width \<le> j * width"
    by (intro mult_le_mono1) simp
  then show ?thesis by simp
next
  case False
  with assms have "Suc j * width \<le> i * width"
    by (intro mult_le_mono1) simp
  then show ?thesis by simp
qed

lemma slot_same:
  "wf x \<Longrightarrow> map_option dec (fread (fwrite f (base + i * width) (enc x)) (base + i * width) width)
     = Some (Inr (renorm x))"
  by (rule load_store_dec)

lemma slot_other:
  assumes "wf x" and "i \<noteq> j" and "base + j * width + width \<le> flen f"
  shows "fread (fwrite f (base + i * width) (enc x)) (base + j * width) width
    = fread f (base + j * width) width"
  using assms slot_disjoint [of i j] by (intro load_other) auto

end

end
