(* ===== verification/Disk.thy ===== *)
theory Disk
  imports Record_Codec
begin

text \<open>
  \<open>src/fs/disk.rs\<close>: the error type of the storage layer, reads and writes of the image, and
  the serialisation of the superblock, inodes and snapshot records with their CRC32. The CRC
  itself comes from the \<open>crc32fast\<close> crate and is the parameter \<open>crc\<close> of the definitions.
\<close>

section \<open>Errors and raw reads and writes\<close>

text \<open>
  \<open>DiskError\<close>, with one more value: \<open>Panic\<close> stands for a failed assertion or an index out of
  range, which in the program unwinds instead of returning. The component theories show where
  it cannot occur.
\<close>

datatype io_kind = UnexpectedEof | InvalidInput | OtherIo

datatype disk_error =
    Io io_kind
  | BadMagic u64 u64
  | BadChecksum u32 u32
  | SizeMismatch nat nat
  | Panic

type_synonym 'a disk_result = "disk_error + 'a"

definition read_bytes :: "image \<Rightarrow> nat \<Rightarrow> nat \<Rightarrow> bytes disk_result" where
  "read_bytes f off n = (case fread f off n of Some b \<Rightarrow> Inr b | None \<Rightarrow> Inl (Io UnexpectedEof))"

definition write_bytes :: "image \<Rightarrow> nat \<Rightarrow> bytes \<Rightarrow> image" where
  "write_bytes f off xs = fwrite f off xs"

definition read_vec :: "image \<Rightarrow> nat \<Rightarrow> nat \<Rightarrow> bytes disk_result" where
  "read_vec f off len =
     (if len = 0 then Inr []
      else case fread f off len of Some b \<Rightarrow> Inr b | None \<Rightarrow> Inl (Io UnexpectedEof))"

definition verify_crc32 :: "(bytes \<Rightarrow> u32) \<Rightarrow> bytes \<Rightarrow> u32 \<Rightarrow> unit disk_result" where
  "verify_crc32 crc data stored =
     (let computed = crc data in
      if computed \<noteq> stored then Inl (BadChecksum stored computed) else Inr ())"

lemma read_vec_fwrite: "n = length xs \<Longrightarrow> read_vec (fwrite f off xs) off n = Inr xs"
  by (auto simp: read_vec_def fread_fwrite_same)

lemma verify_crc32_ok [simp]: "verify_crc32 crc data (crc data) = Inr ()"
  by (simp add: verify_crc32_def)

lemma verify_crc32_iff: "verify_crc32 crc data stored = Inr () \<longleftrightarrow> crc data = stored"
  by (simp add: verify_crc32_def Let_def)

section \<open>Superblock\<close>

definition SUPERBLOCK_BYTES :: nat where "SUPERBLOCK_BYTES = 64"

record superblock_raw =
  sb_magic :: u64
  sb_version :: u32
  sb_block_size :: u32
  sb_total_blocks :: u64
  sb_free_blocks :: u64
  sb_inode_count :: u64
  sb_next_data_offset :: u64
  sb_created_at :: u64
  sb_crc32 :: u32

definition superblock_to_bytes :: "(bytes \<Rightarrow> u32) \<Rightarrow> superblock_raw \<Rightarrow> bytes" where
  "superblock_to_bytes crc s =
     (let b = zeros SUPERBLOCK_BYTES;
          b = put b 0 (u64_to_le (sb_magic s));
          b = put b 8 (u32_to_le (sb_version s));
          b = put b 12 (u32_to_le (sb_block_size s));
          b = put b 16 (u64_to_le (sb_total_blocks s));
          b = put b 24 (u64_to_le (sb_free_blocks s));
          b = put b 32 (u64_to_le (sb_inode_count s));
          b = put b 40 (u64_to_le (sb_next_data_offset s));
          b = put b 48 (u64_to_le (sb_created_at s));
          checksum = crc (sub b 0 56)
      in put b 56 (u32_to_le checksum))"

definition superblock_from_bytes :: "(bytes \<Rightarrow> u32) \<Rightarrow> bytes \<Rightarrow> superblock_raw disk_result" where
  "superblock_from_bytes crc b =
     (let stored = le_to_u32 (sub b 56 60) in
      case verify_crc32 crc (sub b 0 56) stored of
        Inl e \<Rightarrow> Inl e
      | Inr _ \<Rightarrow> Inr \<lparr>
          sb_magic = le_to_u64 (sub b 0 8),
          sb_version = le_to_u32 (sub b 8 12),
          sb_block_size = le_to_u32 (sub b 12 16),
          sb_total_blocks = le_to_u64 (sub b 16 24),
          sb_free_blocks = le_to_u64 (sub b 24 32),
          sb_inode_count = le_to_u64 (sub b 32 40),
          sb_next_data_offset = le_to_u64 (sub b 40 48),
          sb_created_at = le_to_u64 (sub b 48 56),
          sb_crc32 = stored\<rparr>)"

text \<open>The bytes the checksum covers, as a plain concatenation of the fields.\<close>

definition superblock_body :: "superblock_raw \<Rightarrow> bytes" where
  "superblock_body s =
     u64_to_le (sb_magic s) @ u32_to_le (sb_version s) @ u32_to_le (sb_block_size s)
     @ u64_to_le (sb_total_blocks s) @ u64_to_le (sb_free_blocks s) @ u64_to_le (sb_inode_count s)
     @ u64_to_le (sb_next_data_offset s) @ u64_to_le (sb_created_at s)"

lemma length_superblock_body [simp]: "length (superblock_body s) = 56"
  by (simp add: superblock_body_def)

lemma superblock_layout:
  "superblock_to_bytes crc s
     = superblock_body s @ u32_to_le (crc (superblock_body s)) @ zeros 4"
  by (simp add: superblock_to_bytes_def superblock_body_def SUPERBLOCK_BYTES_def Let_def
      put_simps sub_simps)

lemma superblock_decode:
  "superblock_from_bytes crc (superblock_body s @ u32_to_le c @ zeros 4)
     = (if crc (superblock_body s) = c then Inr (s\<lparr>sb_crc32 := c\<rparr>)
        else Inl (BadChecksum c (crc (superblock_body s))))"
  by (simp add: superblock_from_bytes_def superblock_body_def Let_def sub_simps verify_crc32_def)

interpretation superblock: record_codec
  "superblock_to_bytes crc" "superblock_from_bytes crc"
  "\<lambda>s. s\<lparr>sb_crc32 := crc (superblock_body s)\<rparr>" 64 "\<lambda>_. True"
  for crc
  by unfold_locales (simp_all add: superblock_layout superblock_decode)

section \<open>Names\<close>

text \<open>
  Inodes and snapshots store a name in a NUL-terminated array and read it back the same way:
  up to the first NUL, and only if every character is an ASCII letter, digit or one of
  \<open>._- \<close>. A lossy UTF-8 conversion only ever adds non-ASCII characters, so the test on the
  characters of the converted string is the test on the bytes.
\<close>

definition is_ascii_graphic :: "u8 \<Rightarrow> bool" where
  "is_ascii_graphic c \<longleftrightarrow> 0x21 \<le> c \<and> c \<le> 0x7E"

definition is_ascii_alphanumeric :: "u8 \<Rightarrow> bool" where
  "is_ascii_alphanumeric c \<longleftrightarrow>
     (0x30 \<le> c \<and> c \<le> 0x39) \<or> (0x41 \<le> c \<and> c \<le> 0x5A) \<or> (0x61 \<le> c \<and> c \<le> 0x7A)"

definition name_char :: "u8 \<Rightarrow> bool" where
  "name_char c \<longleftrightarrow> is_ascii_alphanumeric c \<or> c \<in> {0x2E, 0x5F, 0x2D, 0x20}"

definition nul_terminated :: "bytes \<Rightarrow> bytes" where
  "nul_terminated b = takeWhile (\<lambda>c. c \<noteq> 0) b"

definition decode_name :: "bytes \<Rightarrow> rstring" where
  "decode_name b = (let s = nul_terminated b in if list_all name_char s then s else [])"

definition encode_name :: "nat \<Rightarrow> rstring \<Rightarrow> bytes" where
  "encode_name n name = put (zeros n) 0 (take (n - 1) name)"

lemma length_encode_name [simp]: "length (encode_name n name) = n"
  by (simp add: encode_name_def)

lemma encode_name_append: "encode_name n name = take (n - 1) name @ zeros (n - min (n - 1) (length name))"
  by (simp add: encode_name_def put_zeros_start min.commute)

lemma not_name_char_0 [simp]: "\<not> name_char 0"
  by (simp add: name_char_def is_ascii_alphanumeric_def)

lemma nul_terminated_encode:
  assumes "0 \<notin> set name" and "0 < n"
  shows "nul_terminated (encode_name n name) = take (n - 1) name"
proof -
  have "0 \<notin> set (take (n - 1) name)"
    using assms(1) by (auto dest: in_set_takeD)
  moreover have "takeWhile (\<lambda>c. c \<noteq> 0) (zeros k) = []" for k
    by (cases k) (auto simp: zeros_def)
  ultimately show ?thesis
    by (auto simp: nul_terminated_def encode_name_append takeWhile_append)
qed

lemma decode_encode_name:
  assumes "0 \<notin> set name" and "0 < n"
  shows "decode_name (encode_name n name)
    = (if list_all name_char (take (n - 1) name) then take (n - 1) name else [])"
  using assms by (simp add: decode_name_def nul_terminated_encode Let_def)

section \<open>Inodes\<close>

definition INODE_BYTES :: nat where "INODE_BYTES = 256"

record inode_raw =
  in_ino :: u64
  in_size :: u64
  in_data_offset :: u64
  in_created_at :: u64
  in_modified_at :: u64
  in_parent_ino :: u64
  in_is_used :: u8
  in_is_dir :: u8
  in_name :: bytes

text \<open>The array type \<open>[u8; 200]\<close> of the name.\<close>

definition inode_wf :: "inode_raw \<Rightarrow> bool" where
  "inode_wf n \<longleftrightarrow> length (in_name n) = 200"

definition inode_empty :: inode_raw where
  "inode_empty = \<lparr>in_ino = 0, in_size = 0, in_data_offset = 0, in_created_at = 0,
     in_modified_at = 0, in_parent_ino = 0, in_is_used = 0, in_is_dir = 0, in_name = zeros 200\<rparr>"

definition inode_to_bytes :: "(bytes \<Rightarrow> u32) \<Rightarrow> inode_raw \<Rightarrow> bytes" where
  "inode_to_bytes crc n =
     (let b = zeros INODE_BYTES;
          b = put b 0 (u64_to_le (in_ino n));
          b = put b 8 (u64_to_le (in_size n));
          b = put b 16 (u64_to_le (in_data_offset n));
          b = put b 24 (u64_to_le (in_created_at n));
          b = put b 32 (u64_to_le (in_modified_at n));
          b = put b 40 (u64_to_le (in_parent_ino n));
          b = put b 48 [in_is_used n];
          b = put b 49 [in_is_dir n];
          checksum = crc (sub b 0 50);
          b = put b 50 (u32_to_le checksum)
      in put b 56 (in_name n))"

definition inode_from_bytes :: "(bytes \<Rightarrow> u32) \<Rightarrow> bytes \<Rightarrow> inode_raw disk_result" where
  "inode_from_bytes crc b =
     (let stored = le_to_u32 (sub b 50 54) in
      case verify_crc32 crc (sub b 0 50) stored of
        Inl e \<Rightarrow> Inl e
      | Inr _ \<Rightarrow> Inr \<lparr>
          in_ino = le_to_u64 (sub b 0 8),
          in_size = le_to_u64 (sub b 8 16),
          in_data_offset = le_to_u64 (sub b 16 24),
          in_created_at = le_to_u64 (sub b 24 32),
          in_modified_at = le_to_u64 (sub b 32 40),
          in_parent_ino = le_to_u64 (sub b 40 48),
          in_is_used = b ! 48,
          in_is_dir = b ! 49,
          in_name = sub b 56 256\<rparr>)"

definition inode_is_valid :: "inode_raw \<Rightarrow> bool" where
  "inode_is_valid n \<longleftrightarrow>
     (if in_is_used n = 0 then False
      else let first = in_name n ! 0 in
        if first = 0 then False
        else if \<not> is_ascii_graphic first then False
        else True)"

definition inode_get_parent_ino :: "inode_raw \<Rightarrow> u64" where
  "inode_get_parent_ino n = (if in_parent_ino n = 0 then 1 else in_parent_ino n)"

definition inode_get_name :: "inode_raw \<Rightarrow> rstring" where
  "inode_get_name n = decode_name (in_name n)"

definition inode_set_name :: "rstring \<Rightarrow> inode_raw \<Rightarrow> inode_raw" where
  "inode_set_name name n = n\<lparr>in_name := encode_name 200 name\<rparr>"

definition inode_body :: "inode_raw \<Rightarrow> bytes" where
  "inode_body n =
     u64_to_le (in_ino n) @ u64_to_le (in_size n) @ u64_to_le (in_data_offset n)
     @ u64_to_le (in_created_at n) @ u64_to_le (in_modified_at n) @ u64_to_le (in_parent_ino n)
     @ [in_is_used n] @ [in_is_dir n]"

lemma length_inode_body [simp]: "length (inode_body n) = 50"
  by (simp add: inode_body_def)

lemma inode_layout:
  "inode_wf n \<Longrightarrow> inode_to_bytes crc n
     = inode_body n @ u32_to_le (crc (inode_body n)) @ zeros 2 @ in_name n"
  by (simp add: inode_to_bytes_def inode_body_def INODE_BYTES_def Let_def inode_wf_def
      put_simps sub_simps put_zeros_gap)

lemma inode_decode:
  "inode_wf n \<Longrightarrow> inode_from_bytes crc (inode_body n @ u32_to_le c @ zeros 2 @ in_name n)
     = (if crc (inode_body n) = c then Inr n else Inl (BadChecksum c (crc (inode_body n))))"
  by (simp add: inode_from_bytes_def inode_body_def Let_def sub_simps verify_crc32_def inode_wf_def
      nth_append)

interpretation inode: record_codec
  "inode_to_bytes crc" "inode_from_bytes crc" "\<lambda>n. n" 256 inode_wf
  for crc
  by unfold_locales (simp_all add: inode_layout inode_decode, simp add: inode_wf_def)

section \<open>Snapshot records\<close>

definition SNAPSHOT_BYTES :: nat where "SNAPSHOT_BYTES = 512"

record snapshot_raw =
  sn_magic :: u64
  sn_ino :: u64
  sn_size :: u64
  sn_data_offset :: u64
  sn_timestamp :: u64
  sn_id :: u32
  sn_is_used :: u8
  sn_name :: bytes

definition snapshot_wf :: "snapshot_raw \<Rightarrow> bool" where
  "snapshot_wf n \<longleftrightarrow> length (sn_name n) = 208"

definition snapshot_empty :: snapshot_raw where
  "snapshot_empty = \<lparr>sn_magic = 0, sn_ino = 0, sn_size = 0, sn_data_offset = 0,
     sn_timestamp = 0, sn_id = 0, sn_is_used = 0, sn_name = zeros 208\<rparr>"

definition snapshot_to_bytes :: "(bytes \<Rightarrow> u32) \<Rightarrow> snapshot_raw \<Rightarrow> bytes" where
  "snapshot_to_bytes crc n =
     (let b = zeros SNAPSHOT_BYTES;
          b = put b 0 (u64_to_le (sn_magic n));
          b = put b 8 (u64_to_le (sn_ino n));
          b = put b 16 (u64_to_le (sn_size n));
          b = put b 24 (u64_to_le (sn_data_offset n));
          b = put b 32 (u64_to_le (sn_timestamp n));
          b = put b 40 (u32_to_le (sn_id n));
          b = put b 44 [sn_is_used n];
          checksum = crc (sub b 0 45);
          b = put b 45 (u32_to_le checksum)
      in put b 49 (sn_name n))"

definition snapshot_from_bytes :: "(bytes \<Rightarrow> u32) \<Rightarrow> bytes \<Rightarrow> snapshot_raw disk_result" where
  "snapshot_from_bytes crc b =
     (let stored = le_to_u32 (sub b 45 49) in
      case verify_crc32 crc (sub b 0 45) stored of
        Inl e \<Rightarrow> Inl e
      | Inr _ \<Rightarrow> Inr \<lparr>
          sn_magic = le_to_u64 (sub b 0 8),
          sn_ino = le_to_u64 (sub b 8 16),
          sn_size = le_to_u64 (sub b 16 24),
          sn_data_offset = le_to_u64 (sub b 24 32),
          sn_timestamp = le_to_u64 (sub b 32 40),
          sn_id = le_to_u32 (sub b 40 44),
          sn_is_used = b ! 44,
          sn_name = sub b 49 257\<rparr>)"

definition snapshot_is_valid :: "u64 \<Rightarrow> snapshot_raw \<Rightarrow> bool" where
  "snapshot_is_valid magic n \<longleftrightarrow> sn_magic n = magic \<and> sn_is_used n = 1"

definition snapshot_get_name :: "snapshot_raw \<Rightarrow> rstring" where
  "snapshot_get_name n = decode_name (sn_name n)"

definition snapshot_set_name :: "rstring \<Rightarrow> snapshot_raw \<Rightarrow> snapshot_raw" where
  "snapshot_set_name name n = n\<lparr>sn_name := encode_name 208 name\<rparr>"

definition snapshot_body :: "snapshot_raw \<Rightarrow> bytes" where
  "snapshot_body n =
     u64_to_le (sn_magic n) @ u64_to_le (sn_ino n) @ u64_to_le (sn_size n)
     @ u64_to_le (sn_data_offset n) @ u64_to_le (sn_timestamp n) @ u32_to_le (sn_id n)
     @ [sn_is_used n]"

lemma length_snapshot_body [simp]: "length (snapshot_body n) = 45"
  by (simp add: snapshot_body_def)

lemma snapshot_layout:
  "snapshot_wf n \<Longrightarrow> snapshot_to_bytes crc n
     = snapshot_body n @ u32_to_le (crc (snapshot_body n)) @ sn_name n @ zeros 255"
  by (simp add: snapshot_to_bytes_def snapshot_body_def SNAPSHOT_BYTES_def Let_def snapshot_wf_def
      put_simps sub_simps put_zeros_gap)

lemma snapshot_decode:
  "snapshot_wf n \<Longrightarrow>
     snapshot_from_bytes crc (snapshot_body n @ u32_to_le c @ sn_name n @ zeros 255)
     = (if crc (snapshot_body n) = c then Inr n else Inl (BadChecksum c (crc (snapshot_body n))))"
  by (simp add: snapshot_from_bytes_def snapshot_body_def Let_def sub_simps verify_crc32_def
      snapshot_wf_def nth_append)

interpretation snapshot: record_codec
  "snapshot_to_bytes crc" "snapshot_from_bytes crc" "\<lambda>n. n" 512 snapshot_wf
  for crc
  by unfold_locales (simp_all add: snapshot_layout snapshot_decode, simp add: snapshot_wf_def)

section \<open>Facts the other components use\<close>

lemma inode_wf_empty [simp]: "inode_wf inode_empty"
  by (simp add: inode_wf_def inode_empty_def)

lemma inode_wf_set_name [simp]: "inode_wf (inode_set_name name n)"
  by (simp add: inode_wf_def inode_set_name_def)

lemma snapshot_wf_empty [simp]: "snapshot_wf snapshot_empty"
  by (simp add: snapshot_wf_def snapshot_empty_def)

lemma snapshot_wf_set_name [simp]: "snapshot_wf (snapshot_set_name name n)"
  by (simp add: snapshot_wf_def snapshot_set_name_def)

lemma inode_from_bytes_wf:
  "length b = INODE_BYTES \<Longrightarrow> inode_from_bytes crc b = Inr n \<Longrightarrow> inode_wf n"
  by (auto simp: inode_from_bytes_def Let_def inode_wf_def INODE_BYTES_def split: sum.splits)

text \<open>
  A block of zeros (a slot never written) decodes to an unused inode, or is rejected; either
  way \<open>is_used\<close> is 0 for the caller, who replaces a rejected record by the empty one.
\<close>

lemma inode_from_zeros:
  "inode_from_bytes crc (zeros INODE_BYTES) = Inr n \<Longrightarrow> in_is_used n = 0"
  by (auto simp: inode_from_bytes_def INODE_BYTES_def Let_def sub_zeros verify_crc32_def zeros_def
      split: if_splits sum.splits)

section \<open>Properties\<close>

text \<open>The superblock survives encoding and decoding (its checksum field is recomputed), and a block is
  accepted exactly when the stored checksum is that of its first 56 bytes.\<close>

theorem superblock_roundtrip:
  "superblock_from_bytes crc (superblock_to_bytes crc s) = Inr (s\<lparr>sb_crc32 := crc (superblock_body s)\<rparr>)
    \<and> ((\<exists>x. superblock_from_bytes crc b = Inr x) \<longleftrightarrow> crc (sub b 0 56) = le_to_u32 (sub b 56 60))"
proof -
  have "superblock_from_bytes crc (superblock_to_bytes crc s) = Inr (s\<lparr>sb_crc32 := crc (superblock_body s)\<rparr>)"
    by (rule superblock.dec_enc) simp
  then show ?thesis
    by (simp add: superblock_from_bytes_def verify_crc32_def Let_def)
qed

text \<open>An inode survives encoding and decoding. The checksum covers the first 50 bytes only: a
  record whose name area was altered decodes without complaint, with the altered name.\<close>

theorem inode_roundtrip:
  assumes "inode_wf n" and "length other = 200"
  shows "inode_from_bytes crc (inode_to_bytes crc n) = Inr n
    \<and> inode_from_bytes crc (put (inode_to_bytes crc n) 56 other) = Inr (n\<lparr>in_name := other\<rparr>)"
proof -
  let ?m = "n\<lparr>in_name := other\<rparr>"
  have wf: "inode_wf ?m" using assms(2) by (simp add: inode_wf_def)
  have "put (inode_to_bytes crc n) 56 other = inode_to_bytes crc ?m"
  proof -
    have "inode_body ?m = inode_body n" by (simp add: inode_body_def)
    moreover have "put (in_name n) 0 other = other"
      using assms by (simp add: put_def inode_wf_def)
    ultimately show ?thesis
      by (simp add: inode_layout [OF assms(1)] inode_layout [OF wf] put_append_right)
  qed
  then show ?thesis
    using inode.dec_enc [OF assms(1), of crc] inode.dec_enc [OF wf, of crc] by simp
qed

theorem inode_roundtrip_witness:
  "inode_from_bytes (\<lambda>_. 7) (inode_to_bytes (\<lambda>_. 7) inode_empty) = Inr inode_empty
    \<and> inode_from_bytes (\<lambda>_. 7) (put (inode_to_bytes (\<lambda>_. 7) inode_empty) 56 (zeros 200))
      = Inr (inode_empty\<lparr>in_name := zeros 200\<rparr>)"
  by (rule inode_roundtrip) simp_all

text \<open>A stored name reads back cut to 199 bytes if these are all letters, digits or one of \<open>._- \<close>;
  any other name, for example one with a parenthesis or a non-ASCII letter, reads back empty.\<close>

theorem inode_name_roundtrip:
  assumes "0 \<notin> set name"
  shows "inode_get_name (inode_set_name name n)
    = (if list_all name_char (take 199 name) then take 199 name else [])"
  using decode_encode_name [OF assms, of 200] by (simp add: inode_get_name_def inode_set_name_def)

theorem inode_name_roundtrip_witness:
  "inode_get_name (inode_set_name [0x61, 0x28] inode_empty) = []"
  using inode_name_roundtrip [of "[0x61, 0x28]" inode_empty]
  by (simp add: name_char_def is_ascii_alphanumeric_def)

end
