(* ===== verification/Journal.thy ===== *)
theory Journal
  imports Disk
begin

text \<open>
  \<open>src/fs/journal.rs\<close>: the write-ahead journal. Every operation takes the journal and the image
  and returns its result with both, because an operation that fails may have changed them. The
  region starts at \<open>JOURNAL_OFFSET\<close>: a header of 64 bytes, then 512 slots of 512 bytes.
\<close>

section \<open>Layout\<close>

definition JOURNAL_OFFSET :: nat where "JOURNAL_OFFSET = 4096 + 1024 * 256 + 256 * 512"
definition JOURNAL_HEADER_SIZE :: nat where "JOURNAL_HEADER_SIZE = 64"
definition JOURNAL_ENTRY_SIZE :: nat where "JOURNAL_ENTRY_SIZE = 512"
definition MAX_JOURNAL_ENTRIES :: nat where "MAX_JOURNAL_ENTRIES = 512"
definition JOURNAL_MAGIC :: u64 where "JOURNAL_MAGIC = 0x4A524E4C00000001"
definition JOURNAL_REGION_SIZE :: nat where
  "JOURNAL_REGION_SIZE = JOURNAL_HEADER_SIZE + MAX_JOURNAL_ENTRIES * JOURNAL_ENTRY_SIZE"
definition JOURNAL_PAYLOAD_SIZE :: nat where "JOURNAL_PAYLOAD_SIZE = 490"

definition ENTRY_FREE :: u8 where "ENTRY_FREE = 0"
definition ENTRY_WRITE_INODE :: u8 where "ENTRY_WRITE_INODE = 1"
definition ENTRY_WRITE_DATA :: u8 where "ENTRY_WRITE_DATA = 2"
definition ENTRY_FREE_EXTENT :: u8 where "ENTRY_FREE_EXTENT = 3"
definition ENTRY_COMMIT :: u8 where "ENTRY_COMMIT = 4"

definition STATE_FREE :: u8 where "STATE_FREE = 0"
definition STATE_WRITTEN :: u8 where "STATE_WRITTEN = 1"
definition STATE_COMMITTED :: u8 where "STATE_COMMITTED = 2"
definition STATE_REPLAYED :: u8 where "STATE_REPLAYED = 3"

lemmas journal_layout_defs = JOURNAL_OFFSET_def JOURNAL_HEADER_SIZE_def JOURNAL_ENTRY_SIZE_def
  MAX_JOURNAL_ENTRIES_def JOURNAL_REGION_SIZE_def

lemmas entry_kind_defs = ENTRY_FREE_def ENTRY_WRITE_INODE_def ENTRY_WRITE_DATA_def
  ENTRY_FREE_EXTENT_def ENTRY_COMMIT_def STATE_FREE_def STATE_WRITTEN_def

section \<open>The header\<close>

record journal_header =
  jh_magic :: u64
  jh_version :: u32
  jh_next_tx_id :: u32
  jh_entry_count :: u32

definition header_new :: journal_header where
  "header_new = \<lparr>jh_magic = JOURNAL_MAGIC, jh_version = 1, jh_next_tx_id = 1, jh_entry_count = 0\<rparr>"

definition header_to_bytes :: "(bytes \<Rightarrow> u32) \<Rightarrow> journal_header \<Rightarrow> bytes" where
  "header_to_bytes crc h =
     (let b = zeros JOURNAL_HEADER_SIZE;
          b = put b 0 (u64_to_le (jh_magic h));
          b = put b 8 (u32_to_le (jh_version h));
          b = put b 12 (u32_to_le (jh_next_tx_id h));
          b = put b 16 (u32_to_le (jh_entry_count h));
          cksum = crc (sub b 0 20)
      in put b 20 (u32_to_le cksum))"

definition header_from_bytes :: "(bytes \<Rightarrow> u32) \<Rightarrow> bytes \<Rightarrow> journal_header disk_result" where
  "header_from_bytes crc b =
     (let stored = le_to_u32 (sub b 20 24) in
      case verify_crc32 crc (sub b 0 20) stored of
        Inl e \<Rightarrow> Inl e
      | Inr _ \<Rightarrow> Inr \<lparr>
          jh_magic = le_to_u64 (sub b 0 8),
          jh_version = le_to_u32 (sub b 8 12),
          jh_next_tx_id = le_to_u32 (sub b 12 16),
          jh_entry_count = le_to_u32 (sub b 16 20)\<rparr>)"

definition header_is_valid :: "journal_header \<Rightarrow> bool" where
  "header_is_valid h \<longleftrightarrow> jh_magic h = JOURNAL_MAGIC"

definition header_body :: "journal_header \<Rightarrow> bytes" where
  "header_body h = u64_to_le (jh_magic h) @ u32_to_le (jh_version h) @ u32_to_le (jh_next_tx_id h)
     @ u32_to_le (jh_entry_count h)"

lemma length_header_body [simp]: "length (header_body h) = 20"
  by (simp add: header_body_def)

lemma header_layout:
  "header_to_bytes crc h = header_body h @ u32_to_le (crc (header_body h)) @ zeros 40"
  by (simp add: header_to_bytes_def header_body_def JOURNAL_HEADER_SIZE_def Let_def put_simps sub_simps)

lemma header_decode:
  "header_from_bytes crc (header_body h @ u32_to_le c @ zeros 40)
     = (if crc (header_body h) = c then Inr h else Inl (BadChecksum c (crc (header_body h))))"
  by (simp add: header_from_bytes_def header_body_def Let_def sub_simps verify_crc32_def)

interpretation header: record_codec
  "header_to_bytes crc" "header_from_bytes crc" "\<lambda>h. h" 64 "\<lambda>_. True"
  for crc
  by unfold_locales (simp_all add: header_layout header_decode)

section \<open>Entries\<close>

record journal_entry =
  je_type :: u8
  je_state :: u8
  je_tx_id :: u32
  je_payload_len :: u32
  je_disk_offset :: u64
  je_payload :: bytes

definition entry_empty :: journal_entry where
  "entry_empty = \<lparr>je_type = ENTRY_FREE, je_state = STATE_FREE, je_tx_id = 0, je_payload_len = 0,
     je_disk_offset = 0, je_payload = zeros JOURNAL_PAYLOAD_SIZE\<rparr>"

definition entry_plen :: "u32 \<Rightarrow> nat" where
  "entry_plen payload_len = min (unat payload_len) JOURNAL_PAYLOAD_SIZE"

definition entry_to_bytes :: "(bytes \<Rightarrow> u32) \<Rightarrow> journal_entry \<Rightarrow> bytes" where
  "entry_to_bytes crc e =
     (let b = zeros JOURNAL_ENTRY_SIZE;
          b = put b 0 [je_type e];
          b = put b 1 [je_state e];
          b = put b 2 (u32_to_le (je_tx_id e));
          b = put b 6 (u32_to_le (je_payload_len e));
          b = put b 10 (u32_to_le (ucast (je_disk_offset e)));
          b = put b 14 (u32_to_le (ucast (drop_bit 32 (je_disk_offset e))));
          plen = entry_plen (je_payload_len e);
          cksum_data = sub b 0 18 @ sub (je_payload e) 0 plen;
          b = put b 18 (u32_to_le (crc cksum_data))
      in put b 22 (je_payload e))"

definition entry_from_bytes :: "(bytes \<Rightarrow> u32) \<Rightarrow> bytes \<Rightarrow> journal_entry disk_result" where
  "entry_from_bytes crc b =
     (let entry_type = b ! 0;
          state = b ! 1;
          tx_id = le_to_u32 (sub b 2 6);
          payload_len = le_to_u32 (sub b 6 10);
          offset_lo = ucast (le_to_u32 (sub b 10 14)) :: u64;
          offset_hi = ucast (le_to_u32 (sub b 14 18)) :: u64;
          disk_offset = push_bit 32 offset_hi OR offset_lo;
          stored_cksum = le_to_u32 (sub b 18 22);
          entry = \<lparr>je_type = entry_type, je_state = state, je_tx_id = tx_id, je_payload_len = payload_len,
            je_disk_offset = disk_offset, je_payload = sub b 22 (22 + JOURNAL_PAYLOAD_SIZE)\<rparr>
      in if entry_type \<noteq> ENTRY_FREE
         then (case verify_crc32 crc (sub b 0 18 @ sub b 22 (22 + entry_plen payload_len)) stored_cksum of
                 Inl e \<Rightarrow> Inl e | Inr _ \<Rightarrow> Inr entry)
         else Inr entry)"

definition entry_is_free :: "journal_entry \<Rightarrow> bool" where
  "entry_is_free e \<longleftrightarrow> je_type e = ENTRY_FREE"

text \<open>The array type \<open>[u8; 490]\<close> of the payload.\<close>

definition entry_wf :: "journal_entry \<Rightarrow> bool" where
  "entry_wf e \<longleftrightarrow> length (je_payload e) = JOURNAL_PAYLOAD_SIZE"

definition entry_body :: "journal_entry \<Rightarrow> bytes" where
  "entry_body e = [je_type e, je_state e] @ u32_to_le (je_tx_id e) @ u32_to_le (je_payload_len e)
     @ u32_to_le (ucast (je_disk_offset e)) @ u32_to_le (ucast (drop_bit 32 (je_disk_offset e)))"

definition entry_crc_data :: "journal_entry \<Rightarrow> bytes" where
  "entry_crc_data e = entry_body e @ take (entry_plen (je_payload_len e)) (je_payload e)"

lemma length_entry_body [simp]: "length (entry_body e) = 18"
  by (simp add: entry_body_def)

lemma entry_plen_le: "entry_plen n \<le> 490"
  by (simp add: entry_plen_def JOURNAL_PAYLOAD_SIZE_def)

lemma offset_halves:
  "push_bit 32 (ucast (ucast (drop_bit 32 w) :: u32)) OR ucast (ucast w :: u32) = (w :: u64)"
  by (rule bit_word_eqI)
    (auto simp: bit_or_iff bit_push_bit_iff bit_ucast_iff bit_drop_bit_eq dest: bit_imp_le_length)

lemma entry_layout:
  "entry_wf e \<Longrightarrow> entry_to_bytes crc e
     = entry_body e @ u32_to_le (crc (entry_crc_data e)) @ je_payload e"
  using entry_plen_le [of "je_payload_len e"]
  by (simp add: entry_to_bytes_def entry_body_def entry_crc_data_def JOURNAL_ENTRY_SIZE_def Let_def
      entry_wf_def JOURNAL_PAYLOAD_SIZE_def put_simps sub_simps sub_def)

lemma entry_decode:
  assumes "entry_wf e"
  shows "entry_from_bytes crc (entry_body e @ u32_to_le c @ je_payload e)
     = (if je_type e \<noteq> ENTRY_FREE \<and> crc (entry_crc_data e) \<noteq> c
        then Inl (BadChecksum c (crc (entry_crc_data e))) else Inr e)"
proof -
  have "sub (entry_body e @ u32_to_le c @ je_payload e) 0 18 = entry_body e"
    by (simp add: sub_simps)
  moreover have "sub (entry_body e @ u32_to_le c @ je_payload e) 22 (22 + n) = take n (je_payload e)" for n
    by (simp add: sub_append_right) (simp add: sub_def)
  ultimately show ?thesis
    using assms
    by (simp add: entry_from_bytes_def entry_body_def entry_crc_data_def Let_def sub_simps
        verify_crc32_def entry_wf_def JOURNAL_PAYLOAD_SIZE_def offset_halves)
qed

definition entry_base :: nat where "entry_base = JOURNAL_OFFSET + JOURNAL_HEADER_SIZE"

interpretation entry: slot_table
  "entry_to_bytes crc" "entry_from_bytes crc" "\<lambda>e. e" 512 entry_wf entry_base
  for crc
  by unfold_locales
    (simp_all add: entry_layout entry_decode, simp add: entry_wf_def JOURNAL_PAYLOAD_SIZE_def)

section \<open>The journal\<close>

record journal =
  j_header :: journal_header
  j_next_slot :: nat

type_synonym 'a journal_result = "'a disk_result \<times> journal \<times> image"

definition entry_offset :: "nat \<Rightarrow> nat" where
  "entry_offset i = JOURNAL_OFFSET + JOURNAL_HEADER_SIZE + i * JOURNAL_ENTRY_SIZE"

text \<open>The loop that follows the header with one empty entry after the other.\<close>

definition zero_entries :: "nat \<Rightarrow> image \<Rightarrow> image" where
  "zero_entries n f = fold (\<lambda>i f. fwrite f (entry_offset i) (zeros JOURNAL_ENTRY_SIZE)) [0..<n] f"

definition journal_format :: "(bytes \<Rightarrow> u32) \<Rightarrow> image \<Rightarrow> journal \<times> image" where
  "journal_format crc f =
     (let header = header_new;
          f = fwrite f JOURNAL_OFFSET (header_to_bytes crc header);
          f = zero_entries MAX_JOURNAL_ENTRIES f
      in (\<lparr>j_header = header, j_next_slot = 0\<rparr>, f))"

fun scan_entries :: "(bytes \<Rightarrow> u32) \<Rightarrow> image \<Rightarrow> nat list \<Rightarrow> journal_entry list \<Rightarrow> nat
    \<Rightarrow> (journal_entry list \<times> nat) disk_result" where
  "scan_entries crc f [] entries next_slot = Inr (entries, next_slot)"
| "scan_entries crc f (i # is) entries next_slot =
     (case read_bytes f (entry_offset i) JOURNAL_ENTRY_SIZE of
        Inl e \<Rightarrow> Inl e
      | Inr buf \<Rightarrow>
          (let stop = Inr (entries, if next_slot = 0 then i else next_slot) in
           case entry_from_bytes crc buf of
             Inr entry \<Rightarrow>
               if \<not> entry_is_free entry then scan_entries crc f is (entries @ [entry]) (i + 1) else stop
           | Inl _ \<Rightarrow> stop))"

definition committed_txs :: "journal_entry list \<Rightarrow> u32 set" where
  "committed_txs entries =
     set (map je_tx_id (filter (\<lambda>e. je_type e = ENTRY_COMMIT \<and> je_state e = STATE_WRITTEN) entries))"

definition entries_to_replay :: "journal_entry list \<Rightarrow> journal_entry list" where
  "entries_to_replay entries =
     filter (\<lambda>e. je_tx_id e \<in> committed_txs entries \<and> je_state e = STATE_WRITTEN
       \<and> (je_type e = ENTRY_WRITE_INODE \<or> je_type e = ENTRY_WRITE_DATA)) entries"

definition journal_open :: "(bytes \<Rightarrow> u32) \<Rightarrow> image \<Rightarrow> (journal \<times> journal_entry list) disk_result" where
  "journal_open crc f =
     (let fresh = Inr (\<lparr>j_header = header_new, j_next_slot = 0\<rparr>, []) in
      case read_bytes f JOURNAL_OFFSET JOURNAL_HEADER_SIZE of
        Inl e \<Rightarrow> Inl e
      | Inr hdr_buf \<Rightarrow>
          (case header_from_bytes crc hdr_buf of
             Inl _ \<Rightarrow> fresh
           | Inr header \<Rightarrow>
               if header_is_valid header
               then (case scan_entries crc f [0..<MAX_JOURNAL_ENTRIES] [] 0 of
                       Inl e \<Rightarrow> Inl e
                     | Inr (entries, next_slot) \<Rightarrow>
                         Inr (\<lparr>j_header = header, j_next_slot = next_slot\<rparr>, entries_to_replay entries))
               else fresh))"

definition journal_begin :: "journal \<Rightarrow> u32 \<times> journal" where
  "journal_begin j =
     (let i = jh_next_tx_id (j_header j) in (i, j\<lparr>j_header := (j_header j)\<lparr>jh_next_tx_id := i + 1\<rparr>\<rparr>))"

definition write_entry :: "(bytes \<Rightarrow> u32) \<Rightarrow> journal_entry \<Rightarrow> journal \<Rightarrow> image \<Rightarrow> unit journal_result" where
  "write_entry crc entry j f =
     (if MAX_JOURNAL_ENTRIES \<le> j_next_slot j then (Inl (Io OtherIo), j, f)
      else
        (let offset = JOURNAL_OFFSET + JOURNAL_HEADER_SIZE + j_next_slot j * JOURNAL_ENTRY_SIZE;
             f = fwrite f offset (entry_to_bytes crc entry);
             next_slot = j_next_slot j + 1;
             header = (j_header j)\<lparr>jh_entry_count := of_nat next_slot\<rparr>;
             f = fwrite f JOURNAL_OFFSET (header_to_bytes crc header)
         in (Inr (), \<lparr>j_header = header, j_next_slot = next_slot\<rparr>, f)))"

text \<open>
  The entry that the logging functions build: \<open>payload[..len].copy_from_slice\<close> on a zeroed payload.
\<close>

definition entry_with :: "u8 \<Rightarrow> u32 \<Rightarrow> u64 \<Rightarrow> bytes \<Rightarrow> journal_entry" where
  "entry_with kind tx_id disk_offset xs = entry_empty\<lparr>je_type := kind, je_state := STATE_WRITTEN,
     je_tx_id := tx_id, je_disk_offset := disk_offset, je_payload_len := of_nat (length xs),
     je_payload := put (zeros JOURNAL_PAYLOAD_SIZE) 0 xs\<rparr>"

definition log_inode_write ::
    "(bytes \<Rightarrow> u32) \<Rightarrow> u32 \<Rightarrow> nat \<Rightarrow> bytes \<Rightarrow> journal \<Rightarrow> image \<Rightarrow> unit journal_result" where
  "log_inode_write crc tx_id inode_slot inode_bytes j f =
     (if \<not> length inode_bytes \<le> JOURNAL_PAYLOAD_SIZE then (Inl Panic, j, f)
      else write_entry crc (entry_with ENTRY_WRITE_INODE tx_id (of_nat inode_slot) inode_bytes) j f)"

definition log_inode_write_at ::
    "(bytes \<Rightarrow> u32) \<Rightarrow> u32 \<Rightarrow> u64 \<Rightarrow> bytes \<Rightarrow> journal \<Rightarrow> image \<Rightarrow> unit journal_result" where
  "log_inode_write_at crc tx_id disk_offset inode_bytes j f =
     (if \<not> length inode_bytes \<le> JOURNAL_PAYLOAD_SIZE then (Inl Panic, j, f)
      else write_entry crc (entry_with ENTRY_WRITE_INODE tx_id disk_offset inode_bytes) j f)"

definition log_data_write_chunk ::
    "(bytes \<Rightarrow> u32) \<Rightarrow> u32 \<Rightarrow> u64 \<Rightarrow> bytes \<Rightarrow> journal \<Rightarrow> image \<Rightarrow> unit journal_result" where
  "log_data_write_chunk crc tx_id disk_offset chunk j f =
     (if \<not> length chunk \<le> JOURNAL_PAYLOAD_SIZE then (Inl Panic, j, f)
      else write_entry crc (entry_with ENTRY_WRITE_DATA tx_id disk_offset chunk) j f)"

fun log_chunks :: "(bytes \<Rightarrow> u32) \<Rightarrow> u32 \<Rightarrow> u64 \<Rightarrow> bytes list \<Rightarrow> nat \<Rightarrow> journal \<Rightarrow> image \<Rightarrow> nat journal_result" where
  "log_chunks crc tx_id offset [] written j f = (Inr written, j, f)"
| "log_chunks crc tx_id offset (chunk # cs) written j f =
     (case log_data_write_chunk crc tx_id offset chunk j f of
        (Inl e, j, f) \<Rightarrow> (Inl e, j, f)
      | (Inr _, j, f) \<Rightarrow> log_chunks crc tx_id (offset + of_nat (length chunk)) cs (written + 1) j f)"

definition log_data_write_all ::
    "(bytes \<Rightarrow> u32) \<Rightarrow> u32 \<Rightarrow> u64 \<Rightarrow> bytes \<Rightarrow> journal \<Rightarrow> image \<Rightarrow> nat journal_result" where
  "log_data_write_all crc tx_id disk_offset data j f =
     (if data = [] then (Inr 0, j, f)
      else
        (let chunks_needed = (length data + JOURNAL_PAYLOAD_SIZE - 1) div JOURNAL_PAYLOAD_SIZE;
             slots_available = MAX_JOURNAL_ENTRIES - j_next_slot j
         in if chunks_needed + 1 > slots_available then (Inl (Io OtherIo), j, f)
            else log_chunks crc tx_id disk_offset (chunks JOURNAL_PAYLOAD_SIZE data) 0 j f))"

definition log_data_write ::
    "(bytes \<Rightarrow> u32) \<Rightarrow> u32 \<Rightarrow> u64 \<Rightarrow> bytes \<Rightarrow> journal \<Rightarrow> image \<Rightarrow> unit journal_result" where
  "log_data_write crc tx_id disk_offset data j f =
     log_data_write_chunk crc tx_id disk_offset (take (min (length data) JOURNAL_PAYLOAD_SIZE) data) j f"

definition journal_commit :: "(bytes \<Rightarrow> u32) \<Rightarrow> u32 \<Rightarrow> journal \<Rightarrow> image \<Rightarrow> unit journal_result" where
  "journal_commit crc tx_id j f =
     write_entry crc (entry_empty\<lparr>je_type := ENTRY_COMMIT, je_state := STATE_WRITTEN,
       je_tx_id := tx_id, je_payload_len := 0\<rparr>) j f"

definition journal_clear :: "(bytes \<Rightarrow> u32) \<Rightarrow> journal \<Rightarrow> image \<Rightarrow> journal \<times> image" where
  "journal_clear crc j f =
     (let header = (j_header j)\<lparr>jh_entry_count := 0\<rparr>;
          f = fwrite f JOURNAL_OFFSET (header_to_bytes crc header);
          f = zero_entries MAX_JOURNAL_ENTRIES f
      in (\<lparr>j_header = header, j_next_slot = 0\<rparr>, f))"

definition needs_checkpoint :: "journal \<Rightarrow> bool" where
  "needs_checkpoint j \<longleftrightarrow> MAX_JOURNAL_ENTRIES - 16 \<le> j_next_slot j"

section \<open>The log an image holds\<close>

text \<open>
  The abstract state of the journal: the list of entries its slots hold. \<open>journal_log crc f es\<close>
  says that the image carries a valid header and the log \<open>es\<close>; \<open>journal_holds\<close> adds that the
  in-memory journal agrees with it.
\<close>

definition journal_log :: "(bytes \<Rightarrow> u32) \<Rightarrow> image \<Rightarrow> journal_header \<Rightarrow> journal_entry list \<Rightarrow> bool" where
  "journal_log crc f h es \<longleftrightarrow>
     header_is_valid h \<and> fread f JOURNAL_OFFSET JOURNAL_HEADER_SIZE = Some (header_to_bytes crc h)
     \<and> length es \<le> MAX_JOURNAL_ENTRIES
     \<and> (\<forall>e \<in> set es. entry_wf e \<and> \<not> entry_is_free e)
     \<and> (\<forall>i < length es. fread f (entry_offset i) JOURNAL_ENTRY_SIZE = Some (entry_to_bytes crc (es ! i)))
     \<and> (\<forall>i < MAX_JOURNAL_ENTRIES. length es \<le> i
          \<longrightarrow> fread f (entry_offset i) JOURNAL_ENTRY_SIZE = Some (zeros JOURNAL_ENTRY_SIZE))"

definition journal_holds :: "(bytes \<Rightarrow> u32) \<Rightarrow> image \<Rightarrow> journal \<Rightarrow> journal_entry list \<Rightarrow> bool" where
  "journal_holds crc f j es \<longleftrightarrow>
     (\<exists>h. journal_log crc f h es) \<and> header_is_valid (j_header j) \<and> j_next_slot j = length es"

definition JOURNAL_END :: nat where "JOURNAL_END = JOURNAL_OFFSET + JOURNAL_REGION_SIZE"

lemma entry_offset_base: "entry_offset i = entry_base + i * 512"
  by (simp add: entry_offset_def entry_base_def JOURNAL_ENTRY_SIZE_def)

lemma entry_offset_region:
  "i < MAX_JOURNAL_ENTRIES \<Longrightarrow> JOURNAL_OFFSET + 64 \<le> entry_offset i \<and> entry_offset i + 512 \<le> JOURNAL_END"
  by (simp add: entry_offset_def JOURNAL_END_def journal_layout_defs)

lemma length_header_bytes [simp]: "length (header_to_bytes crc h) = 64"
  by (simp add: header.enc_width)

lemma length_entry_bytes: "entry_wf e \<Longrightarrow> length (entry_to_bytes crc e) = 512"
  by (rule entry.enc_width)

lemma entry_from_zeros: "\<exists>e. entry_from_bytes crc (zeros 512) = Inr e \<and> entry_is_free e"
  by (simp add: entry_from_bytes_def Let_def ENTRY_FREE_def entry_is_free_def)

lemma entry_wf_with [simp]: "length xs \<le> JOURNAL_PAYLOAD_SIZE \<Longrightarrow> entry_wf (entry_with k t d xs)"
  by (simp add: entry_wf_def entry_with_def JOURNAL_PAYLOAD_SIZE_def)

lemma zero_entries_get:
  "fget (zero_entries n f) i = (if entry_offset 0 \<le> i \<and> i < entry_offset n then 0 else fget f i)"
proof (induction n arbitrary: i)
  case 0
  then show ?case by (simp add: zero_entries_def)
next
  case (Suc n)
  have "zero_entries (Suc n) f = fwrite (zero_entries n f) (entry_offset n) (zeros JOURNAL_ENTRY_SIZE)"
    by (simp add: zero_entries_def)
  then show ?case
    by (auto simp: fget_fwrite Suc.IH entry_offset_def JOURNAL_ENTRY_SIZE_def zeros_def)
qed

lemma zero_entries_flen: "flen (zero_entries n f) = (if n = 0 then flen f else max (flen f) (entry_offset n))"
proof (induction n)
  case 0
  then show ?case by (simp add: zero_entries_def)
next
  case (Suc n)
  have "zero_entries (Suc n) f = fwrite (zero_entries n f) (entry_offset n) (zeros JOURNAL_ENTRY_SIZE)"
    by (simp add: zero_entries_def)
  then show ?case
    using Suc.IH by (auto simp: flen_fwrite entry_offset_def JOURNAL_ENTRY_SIZE_def zeros_def)
qed

text \<open>A reset of the region leaves a valid header and an empty log, and touches nothing else.\<close>

lemma reset_log:
  fixes crc :: "bytes \<Rightarrow> u32" and f :: image
  assumes "header_is_valid h"
  defines "g \<equiv> zero_entries MAX_JOURNAL_ENTRIES (fwrite f JOURNAL_OFFSET (header_to_bytes crc h))"
  shows "journal_log crc g h []" and "agree_outside JOURNAL_OFFSET JOURNAL_END f g"
proof -
  have end512: "entry_offset MAX_JOURNAL_ENTRIES = JOURNAL_END" and start: "entry_offset 0 = JOURNAL_OFFSET + 64"
    by (simp_all add: entry_offset_def JOURNAL_END_def journal_layout_defs)
  have len: "flen g = max (flen f) JOURNAL_END"
  proof -
    have "header_to_bytes crc h \<noteq> []" by (simp flip: length_0_conv)
    then show ?thesis
      by (simp add: g_def zero_entries_flen flen_fwrite end512) (simp add: JOURNAL_END_def journal_layout_defs)
  qed
  have get: "fget g i = (if JOURNAL_OFFSET + 64 \<le> i \<and> i < JOURNAL_END then 0
      else fget (fwrite f JOURNAL_OFFSET (header_to_bytes crc h)) i)" for i
    by (simp add: g_def zero_entries_get end512 start)
  have "fread g JOURNAL_OFFSET 64 = Some (map (fget g) [JOURNAL_OFFSET..<JOURNAL_OFFSET + 64])"
    by (rule fread_Some) (simp add: len JOURNAL_END_def journal_layout_defs)
  also have "map (fget g) [JOURNAL_OFFSET..<JOURNAL_OFFSET + 64] = header_to_bytes crc h"
    by (rule nth_equalityI) (auto simp: get fget_fwrite)
  finally have hdr: "fread g JOURNAL_OFFSET JOURNAL_HEADER_SIZE = Some (header_to_bytes crc h)"
    by (simp add: JOURNAL_HEADER_SIZE_def)
  have slots: "fread g (entry_offset i) JOURNAL_ENTRY_SIZE = Some (zeros JOURNAL_ENTRY_SIZE)"
    if i: "i < MAX_JOURNAL_ENTRIES" for i
  proof -
    note r = entry_offset_region [OF i]
    have "fread g (entry_offset i) 512 = Some (map (fget g) [entry_offset i..<entry_offset i + 512])"
      using r by (intro fread_Some) (simp add: len le_max_iff_disj)
    also have "map (fget g) [entry_offset i..<entry_offset i + 512] = zeros 512"
      using r by (intro nth_equalityI) (auto simp: get zeros_def)
    finally show ?thesis by (simp add: JOURNAL_ENTRY_SIZE_def)
  qed
  from assms(1) hdr slots show "journal_log crc g h []"
    by (simp add: journal_log_def)
  show "agree_outside JOURNAL_OFFSET JOURNAL_END f g"
    using len by (auto simp: agree_outside_def get fget_fwrite JOURNAL_END_def journal_layout_defs)
qed

lemma header_new_valid [simp]: "header_is_valid header_new"
  by (simp add: header_is_valid_def header_new_def)

lemma journal_format_holds:
  assumes "journal_format crc f = (j, g)"
  shows "journal_holds crc g j []" and "agree_outside JOURNAL_OFFSET JOURNAL_END f g"
  using assms reset_log [OF header_new_valid, where crc = crc and f = f]
  by (auto simp: journal_format_def journal_holds_def Let_def)

lemma journal_clear_holds:
  assumes "journal_holds crc f j es" and "journal_clear crc j f = (j', g)"
  shows "journal_holds crc g j' []" and "agree_outside JOURNAL_OFFSET JOURNAL_END f g"
proof -
  have "header_is_valid ((j_header j)\<lparr>jh_entry_count := 0\<rparr>)"
    using assms(1) by (simp add: journal_holds_def header_is_valid_def)
  from reset_log [OF this, where crc = crc and f = f] assms(2) this show
    "journal_holds crc g j' []" "agree_outside JOURNAL_OFFSET JOURNAL_END f g"
    by (auto simp: journal_clear_def journal_holds_def Let_def)
qed

section \<open>Opening\<close>

lemma scan_log:
  assumes "journal_log crc f h es" and "n \<le> length es"
  shows "scan_entries crc f [n..<MAX_JOURNAL_ENTRIES] (take n es) n = Inr (es, length es)"
  using assms(2)
proof (induction "length es - n" arbitrary: n)
  case 0
  then have n: "n = length es" by simp
  show ?case
  proof (cases "n < MAX_JOURNAL_ENTRIES")
    case True
    then have "fread f (entry_offset n) 512 = Some (zeros 512)"
      using assms(1) n by (simp add: journal_log_def JOURNAL_ENTRY_SIZE_def)
    moreover obtain e where "entry_from_bytes crc (zeros 512) = Inr e" "entry_is_free e"
      using entry_from_zeros by blast
    ultimately show ?thesis
      using True n by (simp add: upt_conv_Cons read_bytes_def JOURNAL_ENTRY_SIZE_def)
  next
    case False
    with assms(1) n show ?thesis by (simp add: journal_log_def)
  qed
next
  case (Suc k)
  then have n: "n < length es" by simp
  with assms(1) have max: "n < MAX_JOURNAL_ENTRIES" and wf: "entry_wf (es ! n)" "\<not> entry_is_free (es ! n)"
    and rd: "fread f (entry_offset n) JOURNAL_ENTRY_SIZE = Some (entry_to_bytes crc (es ! n))"
    by (auto simp: journal_log_def)
  have "scan_entries crc f [Suc n..<MAX_JOURNAL_ENTRIES] (take (Suc n) es) (Suc n) = Inr (es, length es)"
    using Suc.hyps(1) [of "Suc n"] Suc.hyps(2) n by simp
  then show ?case
    using max rd wf n by (simp add: upt_conv_Cons read_bytes_def entry.dec_enc take_Suc_conv_app_nth)
qed

lemma journal_open_log:
  assumes "journal_log crc f h es"
  shows "journal_open crc f = Inr (\<lparr>j_header = h, j_next_slot = length es\<rparr>, entries_to_replay es)"
  using scan_log [OF assms, of 0] assms
  by (simp add: journal_open_def journal_log_def read_bytes_def header.dec_enc)

text \<open>A slot that fails its checksum ends the scan: nothing at or after it is replayed.\<close>

lemma scan_torn:
  assumes "journal_log crc f h es" and "length es < MAX_JOURNAL_ENTRIES"
    and "\<forall>i \<le> length es. fread g (entry_offset i) 512 = (if i < length es then fread f (entry_offset i) 512 else Some buf)"
    and "\<forall>e. entry_from_bytes crc buf = Inr e \<longrightarrow> entry_is_free e"
    and "n \<le> length es"
  shows "scan_entries crc g [n..<MAX_JOURNAL_ENTRIES] (take n es) n = Inr (es, length es)"
  using assms(5)
proof (induction "length es - n" arbitrary: n)
  case 0
  with assms(2,3,4) show ?case
    by (auto simp: upt_conv_Cons read_bytes_def JOURNAL_ENTRY_SIZE_def Let_def split: sum.split)
next
  case (Suc k)
  then have n: "n < length es" by simp
  with assms(1) have max: "n < MAX_JOURNAL_ENTRIES" and wf: "entry_wf (es ! n)" "\<not> entry_is_free (es ! n)"
    and rd: "fread f (entry_offset n) JOURNAL_ENTRY_SIZE = Some (entry_to_bytes crc (es ! n))"
    by (auto simp: journal_log_def)
  have "scan_entries crc g [Suc n..<MAX_JOURNAL_ENTRIES] (take (Suc n) es) (Suc n) = Inr (es, length es)"
    using Suc.hyps(1) [of "Suc n"] Suc.hyps(2) n by simp
  then show ?case
    using max rd wf n assms(3)
    by (simp add: upt_conv_Cons read_bytes_def entry.dec_enc take_Suc_conv_app_nth JOURNAL_ENTRY_SIZE_def)
qed

section \<open>Appending\<close>

lemma journal_log_flen: "journal_log crc f h es \<Longrightarrow> JOURNAL_END \<le> flen f"
proof -
  assume log: "journal_log crc f h es"
  have "\<exists>b. fread f (entry_offset 511) JOURNAL_ENTRY_SIZE = Some b"
    using log by (cases "511 < length es") (auto simp: journal_log_def MAX_JOURNAL_ENTRIES_def)
  then have "entry_offset 511 + JOURNAL_ENTRY_SIZE \<le> flen f"
    by (auto simp: fread_def split: if_splits)
  then show ?thesis
    by (simp add: entry_offset_def JOURNAL_END_def journal_layout_defs)
qed

text \<open>The two writes of \<open>write_entry\<close>, each of which may be the last one before a crash.\<close>

lemma append_slot_log:
  assumes "journal_log crc f h es" and "length es < MAX_JOURNAL_ENTRIES" and "entry_wf e" and "\<not> entry_is_free e"
  shows "journal_log crc (fwrite f (entry_offset (length es)) (entry_to_bytes crc e)) h (es @ [e])"
proof -
  let ?n = "length es"
  let ?g = "fwrite f (entry_offset ?n) (entry_to_bytes crc e)"
  note len = journal_log_flen [OF assms(1)]
  have hdr: "fread ?g JOURNAL_OFFSET JOURNAL_HEADER_SIZE = fread f JOURNAL_OFFSET JOURNAL_HEADER_SIZE"
    using len by (intro fread_fwrite_other)
      (auto simp: length_entry_bytes [OF assms(3)] entry_offset_def JOURNAL_END_def journal_layout_defs)
  have same: "fread ?g (entry_offset ?n) JOURNAL_ENTRY_SIZE = Some (entry_to_bytes crc e)"
    using entry.load_store [OF assms(3), of f "entry_offset ?n" crc] by (simp add: JOURNAL_ENTRY_SIZE_def)
  have other: "fread ?g (entry_offset i) JOURNAL_ENTRY_SIZE = fread f (entry_offset i) JOURNAL_ENTRY_SIZE"
    if "i < MAX_JOURNAL_ENTRIES" "i \<noteq> ?n" for i
    using entry.slot_other [OF assms(3), of ?n i f crc] entry_offset_region [OF that(1)] that(2) len
    by (simp add: entry_offset_base JOURNAL_ENTRY_SIZE_def)
  have slots: "fread ?g (entry_offset i) JOURNAL_ENTRY_SIZE = Some (entry_to_bytes crc ((es @ [e]) ! i))"
    if "i < length (es @ [e])" for i
    using that same other [of i] assms(1,2) by (cases "i = ?n") (auto simp: journal_log_def nth_append)
  have rest: "fread ?g (entry_offset i) JOURNAL_ENTRY_SIZE = Some (zeros JOURNAL_ENTRY_SIZE)"
    if "i < MAX_JOURNAL_ENTRIES" "length (es @ [e]) \<le> i" for i
    using that other [of i] assms(1) by (auto simp: journal_log_def)
  show ?thesis
    using hdr slots rest assms unfolding journal_log_def by simp
qed

lemma write_header_log:
  assumes "journal_log crc f h es" and "header_is_valid h'"
  shows "journal_log crc (fwrite f JOURNAL_OFFSET (header_to_bytes crc h')) h' es"
proof -
  let ?g = "fwrite f JOURNAL_OFFSET (header_to_bytes crc h')"
  note len = journal_log_flen [OF assms(1)]
  have "fread ?g JOURNAL_OFFSET JOURNAL_HEADER_SIZE = Some (header_to_bytes crc h')"
    using header.load_store [of f JOURNAL_OFFSET crc h'] by (simp add: JOURNAL_HEADER_SIZE_def)
  moreover have "fread ?g (entry_offset i) JOURNAL_ENTRY_SIZE = fread f (entry_offset i) JOURNAL_ENTRY_SIZE"
    if "i < MAX_JOURNAL_ENTRIES" for i
    using entry_offset_region [OF that] len
    by (intro fread_fwrite_other) (auto simp: JOURNAL_ENTRY_SIZE_def)
  ultimately show ?thesis
    using assms unfolding journal_log_def by auto
qed

lemma write_entry_holds:
  assumes "journal_holds crc f j es" and "length es < MAX_JOURNAL_ENTRIES" and "entry_wf e" and "\<not> entry_is_free e"
  obtains j' g where "write_entry crc e j f = (Inr (), j', g)" and "journal_holds crc g j' (es @ [e])"
    and "jh_next_tx_id (j_header j') = jh_next_tx_id (j_header j)"
    and "agree_outside JOURNAL_OFFSET JOURNAL_END f g"
proof -
  from assms(1) obtain h where log: "journal_log crc f h es" and valid: "header_is_valid (j_header j)"
    and n: "j_next_slot j = length es" by (auto simp: journal_holds_def)
  let ?h = "(j_header j)\<lparr>jh_entry_count := of_nat (length es + 1)\<rparr>"
  let ?f1 = "fwrite f (entry_offset (length es)) (entry_to_bytes crc e)"
  let ?g = "fwrite ?f1 JOURNAL_OFFSET (header_to_bytes crc ?h)"
  let ?j = "\<lparr>j_header = ?h, j_next_slot = length es + 1\<rparr>"
  have "header_is_valid ?h" using valid by (simp add: header_is_valid_def)
  then have "journal_log crc ?g ?h (es @ [e])"
    using write_header_log [OF append_slot_log [OF log assms(2-4)]] by blast
  then have "journal_holds crc ?g ?j (es @ [e])"
    using \<open>header_is_valid ?h\<close> by (auto simp: journal_holds_def)
  moreover have "write_entry crc e j f = (Inr (), ?j, ?g)"
    using n assms(2) by (simp add: write_entry_def Let_def entry_offset_def)
  moreover have "agree_outside JOURNAL_OFFSET JOURNAL_END f ?f1"
    using entry_offset_region [OF assms(2)]
    by (intro agree_outside_fwrite) (simp_all add: length_entry_bytes [OF assms(3)])
  moreover have "agree_outside JOURNAL_OFFSET JOURNAL_END ?f1 ?g"
    by (intro agree_outside_fwrite) (simp_all add: JOURNAL_END_def journal_layout_defs)
  ultimately show thesis
    by (intro that [of ?j ?g]) (auto intro: agree_outside_trans)
qed

lemma write_entry_full:
  "MAX_JOURNAL_ENTRIES \<le> j_next_slot j \<Longrightarrow> write_entry crc e j f = (Inl (Io OtherIo), j, f)"
  by (simp add: write_entry_def)

section \<open>Transactions\<close>

fun data_entries :: "u32 \<Rightarrow> u64 \<Rightarrow> bytes list \<Rightarrow> journal_entry list" where
  "data_entries tx offset [] = []"
| "data_entries tx offset (c # cs) =
     entry_with ENTRY_WRITE_DATA tx offset c # data_entries tx (offset + of_nat (length c)) cs"

definition commit_entry :: "u32 \<Rightarrow> journal_entry" where
  "commit_entry tx = entry_empty\<lparr>je_type := ENTRY_COMMIT, je_state := STATE_WRITTEN, je_tx_id := tx, je_payload_len := 0\<rparr>"

lemma length_data_entries [simp]: "length (data_entries tx off cs) = length cs"
  by (induction cs arbitrary: off) simp_all

lemma entry_with_fields [simp]:
  "je_type (entry_with k t d xs) = k" "je_state (entry_with k t d xs) = STATE_WRITTEN"
  "je_tx_id (entry_with k t d xs) = t" "je_disk_offset (entry_with k t d xs) = d"
  "je_payload_len (entry_with k t d xs) = of_nat (length xs)"
  by (simp_all add: entry_with_def)

lemma commit_entry_fields [simp]:
  "je_type (commit_entry t) = ENTRY_COMMIT" "je_state (commit_entry t) = STATE_WRITTEN"
  "je_tx_id (commit_entry t) = t" "entry_wf (commit_entry t)" "\<not> entry_is_free (commit_entry t)"
  by (simp_all add: commit_entry_def entry_wf_def entry_is_free_def entry_empty_def entry_kind_defs JOURNAL_PAYLOAD_SIZE_def)

lemma data_entries_fields:
  "e \<in> set (data_entries tx off cs) \<Longrightarrow>
     je_type e = ENTRY_WRITE_DATA \<and> je_state e = STATE_WRITTEN \<and> je_tx_id e = tx"
  by (induction cs arbitrary: off) auto

lemma data_entries_wf:
  "\<forall>c \<in> set cs. length c \<le> JOURNAL_PAYLOAD_SIZE \<Longrightarrow> e \<in> set (data_entries tx off cs)
     \<Longrightarrow> entry_wf e \<and> \<not> entry_is_free e"
  by (induction cs arbitrary: off) (auto simp: entry_is_free_def entry_kind_defs)

lemma log_chunks_holds:
  assumes "journal_holds crc f j es" and "length es + length cs \<le> MAX_JOURNAL_ENTRIES"
    and "\<forall>c \<in> set cs. length c \<le> JOURNAL_PAYLOAD_SIZE"
  shows "\<exists>j' g. log_chunks crc tx off cs w j f = (Inr (w + length cs), j', g)
    \<and> journal_holds crc g j' (es @ data_entries tx off cs)
    \<and> jh_next_tx_id (j_header j') = jh_next_tx_id (j_header j)
    \<and> agree_outside JOURNAL_OFFSET JOURNAL_END f g"
  using assms
proof (induction cs arbitrary: off w j f es)
  case Nil
  then show ?case by simp
next
  case (Cons c cs)
  let ?e = "entry_with ENTRY_WRITE_DATA tx off c"
  have e: "length es < MAX_JOURNAL_ENTRIES" "entry_wf ?e" "\<not> entry_is_free ?e"
    using Cons.prems by (simp_all add: entry_is_free_def entry_kind_defs)
  obtain j1 f1 where w: "write_entry crc ?e j f = (Inr (), j1, f1)"
    and h: "journal_holds crc f1 j1 (es @ [?e])"
    and t: "jh_next_tx_id (j_header j1) = jh_next_tx_id (j_header j)"
    and a: "agree_outside JOURNAL_OFFSET JOURNAL_END f f1"
    by (rule write_entry_holds [OF Cons.prems(1) e])
  obtain j' g where rest: "log_chunks crc tx (off + of_nat (length c)) cs (w + 1) j1 f1 = (Inr (w + 1 + length cs), j', g)"
    "journal_holds crc g j' ((es @ [?e]) @ data_entries tx (off + of_nat (length c)) cs)"
    "jh_next_tx_id (j_header j') = jh_next_tx_id (j_header j1)" "agree_outside JOURNAL_OFFSET JOURNAL_END f1 g"
    using Cons.IH [OF h, of "off + of_nat (length c)" "w + 1"] Cons.prems(2,3) by auto
  have "log_chunks crc tx off (c # cs) w j f = (Inr (w + length (c # cs)), j', g)"
    using w rest(1) Cons.prems(3) by (simp add: log_data_write_chunk_def)
  moreover have "journal_holds crc g j' (es @ data_entries tx off (c # cs))"
    using rest(2) by simp
  ultimately show ?case
    using t rest(3) agree_outside_trans [OF a rest(4)] by auto
qed

lemma committed_txs_append [simp]: "committed_txs (xs @ ys) = committed_txs xs \<union> committed_txs ys"
  by (auto simp: committed_txs_def)

lemma committed_txs_data: "\<forall>e \<in> set es. je_type e = ENTRY_WRITE_DATA \<or> je_type e = ENTRY_WRITE_INODE
    \<Longrightarrow> committed_txs es = {}"
  by (auto simp: committed_txs_def filter_empty_conv entry_kind_defs)

lemma committed_txs_subset: "committed_txs es \<subseteq> je_tx_id ` set es"
  by (auto simp: committed_txs_def)

text \<open>Entries of a transaction whose number the log does not use yet.\<close>

definition txn_entries :: "u32 \<Rightarrow> journal_entry list \<Rightarrow> bool" where
  "txn_entries tx ts \<longleftrightarrow> (\<forall>e \<in> set ts. je_tx_id e = tx \<and> je_state e = STATE_WRITTEN
     \<and> (je_type e = ENTRY_WRITE_DATA \<or> je_type e = ENTRY_WRITE_INODE))"

lemma txn_entries_data [simp]: "txn_entries tx (data_entries tx off cs)"
  using data_entries_fields by (auto simp: txn_entries_def)

lemma txn_entries_take: "txn_entries tx ts \<Longrightarrow> txn_entries tx (take n ts)"
  by (auto simp: txn_entries_def dest: in_set_takeD)

lemma replay_uncommitted:
  assumes "tx \<notin> je_tx_id ` set es" and "txn_entries tx ts"
  shows "entries_to_replay (es @ ts) = entries_to_replay es"
proof -
  have none: "committed_txs ts = {}"
    using assms(2) by (intro committed_txs_data) (auto simp: txn_entries_def)
  have "tx \<notin> committed_txs es"
    using assms(1) committed_txs_subset by blast
  then have "filter (\<lambda>e. je_tx_id e \<in> committed_txs es \<and> je_state e = STATE_WRITTEN
      \<and> (je_type e = ENTRY_WRITE_INODE \<or> je_type e = ENTRY_WRITE_DATA)) ts = []"
    using assms(2) by (auto simp: filter_empty_conv txn_entries_def)
  then show ?thesis
    by (simp add: entries_to_replay_def none)
qed

lemma replay_committed:
  assumes "tx \<notin> je_tx_id ` set es" and "txn_entries tx ts"
  shows "entries_to_replay (es @ ts @ [commit_entry tx]) = entries_to_replay es @ ts"
proof -
  have none: "committed_txs ts = {}"
    using assms(2) by (intro committed_txs_data) (auto simp: txn_entries_def)
  have c: "committed_txs [commit_entry tx] = {tx}"
    by (simp add: committed_txs_def)
  have "filter (\<lambda>e. je_tx_id e \<in> committed_txs es \<union> {tx} \<and> je_state e = STATE_WRITTEN
      \<and> (je_type e = ENTRY_WRITE_INODE \<or> je_type e = ENTRY_WRITE_DATA)) ts = ts"
    using assms(2) by (auto simp: filter_id_conv txn_entries_def)
  moreover have "filter (\<lambda>e. je_tx_id e \<in> committed_txs es \<union> {tx} \<and> je_state e = STATE_WRITTEN
      \<and> (je_type e = ENTRY_WRITE_INODE \<or> je_type e = ENTRY_WRITE_DATA)) es = entries_to_replay es"
    unfolding entries_to_replay_def using assms(1) by (intro filter_cong) auto
  ultimately show ?thesis
    unfolding entries_to_replay_def by (simp add: none c entry_kind_defs)
qed

lemma begin_holds:
  "journal_holds crc f j es \<Longrightarrow> journal_begin j = (tx, j') \<Longrightarrow> journal_holds crc f j' es"
  by (auto simp: journal_begin_def journal_holds_def header_is_valid_def Let_def)

lemma commit_holds:
  assumes "journal_holds crc f j es" and "length es < MAX_JOURNAL_ENTRIES"
  obtains j' g where "journal_commit crc tx j f = (Inr (), j', g)" and "journal_holds crc g j' (es @ [commit_entry tx])"
    and "agree_outside JOURNAL_OFFSET JOURNAL_END f g"
proof -
  obtain j' g where "write_entry crc (commit_entry tx) j f = (Inr (), j', g)"
    "journal_holds crc g j' (es @ [commit_entry tx])" "agree_outside JOURNAL_OFFSET JOURNAL_END f g"
    by (rule write_entry_holds [OF assms, of "commit_entry tx"]) simp_all
  then show thesis
    by (intro that [of j' g]) (simp_all add: journal_commit_def commit_entry_def)
qed

lemma data_txn_holds:
  assumes "journal_holds crc f j es" and "length es + length (chunks JOURNAL_PAYLOAD_SIZE data) + 1 \<le> MAX_JOURNAL_ENTRIES"
    and "data \<noteq> []"
  obtains j1 f1 j2 f2 n where "log_data_write_all crc tx off data j f = (Inr n, j1, f1)"
    and "journal_commit crc tx j1 f1 = (Inr (), j2, f2)"
    and "journal_holds crc f2 j2 (es @ data_entries tx off (chunks JOURNAL_PAYLOAD_SIZE data) @ [commit_entry tx])"
    and "agree_outside JOURNAL_OFFSET JOURNAL_END f f2"
proof -
  let ?cs = "chunks JOURNAL_PAYLOAD_SIZE data"
  have small: "\<forall>c \<in> set ?cs. length c \<le> JOURNAL_PAYLOAD_SIZE"
    using chunks_bounds [of JOURNAL_PAYLOAD_SIZE] by (auto simp: JOURNAL_PAYLOAD_SIZE_def)
  have n: "(length data + JOURNAL_PAYLOAD_SIZE - 1) div JOURNAL_PAYLOAD_SIZE = length ?cs"
    by (simp add: length_chunks JOURNAL_PAYLOAD_SIZE_def)
  obtain j1 f1 where log: "log_chunks crc tx off ?cs 0 j f = (Inr (0 + length ?cs), j1, f1)"
    "journal_holds crc f1 j1 (es @ data_entries tx off ?cs)" "agree_outside JOURNAL_OFFSET JOURNAL_END f f1"
    using log_chunks_holds [OF assms(1) _ small, of tx off 0] assms(2) by auto
  have next_slot: "j_next_slot j = length es" using assms(1) by (simp add: journal_holds_def)
  have "log_data_write_all crc tx off data j f = (Inr (length ?cs), j1, f1)"
    using assms(2,3) log(1) next_slot n by (simp add: log_data_write_all_def Let_def)
  moreover have "length (es @ data_entries tx off ?cs) < MAX_JOURNAL_ENTRIES" using assms(2) by simp
  then obtain j2 f2 where c: "journal_commit crc tx j1 f1 = (Inr (), j2, f2)"
    "journal_holds crc f2 j2 ((es @ data_entries tx off ?cs) @ [commit_entry tx])"
    "agree_outside JOURNAL_OFFSET JOURNAL_END f1 f2"
    by (rule commit_holds [OF log(2)])
  ultimately show thesis
    using agree_outside_trans [OF log(3) c(3)] by (intro that [of "length ?cs" j1 f1 j2 f2]) auto
qed

section \<open>Crashes\<close>

text \<open>
  The images a crash can leave while a list of entries is appended: before each write and after
  the write of a slot but before that of the header.
\<close>

fun crash_images :: "(bytes \<Rightarrow> u32) \<Rightarrow> journal_entry list \<Rightarrow> journal \<Rightarrow> image \<Rightarrow> image list" where
  "crash_images crc [] j f = [f]"
| "crash_images crc (e # es) j f =
     (let (_, j', f') = write_entry crc e j f
      in f # fwrite f (entry_offset (j_next_slot j)) (entry_to_bytes crc e) # crash_images crc es j' f')"

lemma crash_images_log:
  assumes "journal_holds crc f j es" and "length es + length ts \<le> MAX_JOURNAL_ENTRIES"
    and "\<forall>e \<in> set ts. entry_wf e \<and> \<not> entry_is_free e" and "g \<in> set (crash_images crc ts j f)"
  shows "\<exists>h n. n \<le> length ts \<and> journal_log crc g h (es @ take n ts)"
    and "agree_outside JOURNAL_OFFSET JOURNAL_END f g"
proof -
  have "(\<exists>h n. n \<le> length ts \<and> journal_log crc g h (es @ take n ts))
      \<and> agree_outside JOURNAL_OFFSET JOURNAL_END f g"
    using assms
  proof (induction ts arbitrary: j f es)
    case Nil
    then show ?case by (auto simp: journal_holds_def)
  next
    case (Cons e ts)
    let ?f1 = "fwrite f (entry_offset (length es)) (entry_to_bytes crc e)"
    have e: "length es < MAX_JOURNAL_ENTRIES" "entry_wf e" "\<not> entry_is_free e"
      using Cons.prems(2,3) by auto
    obtain h where log: "journal_log crc f h es" and n: "j_next_slot j = length es"
      using Cons.prems(1) by (auto simp: journal_holds_def)
    obtain j' f' where w: "write_entry crc e j f = (Inr (), j', f')" and h': "journal_holds crc f' j' (es @ [e])"
      and a: "agree_outside JOURNAL_OFFSET JOURNAL_END f f'"
      by (rule write_entry_holds [OF Cons.prems(1) e])
    consider "g = f" | "g = ?f1" | "g \<in> set (crash_images crc ts j' f')"
      using Cons.prems(4) w n by auto
    then show ?case
    proof cases
      case 1
      then show ?thesis using log by (intro conjI exI [of _ h] exI [of _ 0]) auto
    next
      case 2
      have "agree_outside JOURNAL_OFFSET JOURNAL_END f ?f1"
        using entry_offset_region [OF e(1)]
        by (intro agree_outside_fwrite) (simp_all add: length_entry_bytes [OF e(2)])
      with 2 show ?thesis
        using append_slot_log [OF log e] by (intro conjI exI [of _ h] exI [of _ 1]) auto
    next
      case 3
      have "(\<exists>h n. n \<le> length ts \<and> journal_log crc g h ((es @ [e]) @ take n ts))
          \<and> agree_outside JOURNAL_OFFSET JOURNAL_END f' g"
        using Cons.prems(2,3) 3 by (intro Cons.IH [OF h']) auto
      then obtain h n where "n \<le> length ts" "journal_log crc g h ((es @ [e]) @ take n ts)"
        "agree_outside JOURNAL_OFFSET JOURNAL_END f' g" by blast
      then show ?thesis
        using agree_outside_trans [OF a] by (intro conjI exI [of _ h] exI [of _ "Suc n"]) auto
    qed
  qed
  then show "\<exists>h n. n \<le> length ts \<and> journal_log crc g h (es @ take n ts)"
    and "agree_outside JOURNAL_OFFSET JOURNAL_END f g" by blast+
qed

lemma crash_replay:
  assumes "journal_holds crc f j es" and "length es + length ts + 1 \<le> MAX_JOURNAL_ENTRIES"
    and "\<forall>e \<in> set ts. entry_wf e" and "txn_entries tx ts" and "tx \<notin> je_tx_id ` set es"
    and "g \<in> set (crash_images crc (ts @ [commit_entry tx]) j f)"
  shows "\<exists>j' r. journal_open crc g = Inr (j', r)
    \<and> (r = entries_to_replay es \<or> r = entries_to_replay es @ ts)"
proof -
  have "\<forall>e \<in> set (ts @ [commit_entry tx]). entry_wf e \<and> \<not> entry_is_free e"
    using assms(3,4) by (auto simp: txn_entries_def entry_is_free_def entry_kind_defs)
  then obtain h n where n: "n \<le> Suc (length ts)" "journal_log crc g h (es @ take n (ts @ [commit_entry tx]))"
    using crash_images_log(1) [OF assms(1) _ _ assms(6)] assms(2) by auto
  show ?thesis
  proof (cases "n = Suc (length ts)")
    case True
    then show ?thesis
      using journal_open_log [OF n(2)] replay_committed [OF assms(5,4)] by simp
  next
    case False
    then have "take n (ts @ [commit_entry tx]) = take n ts" using n(1) by simp
    then show ?thesis
      using journal_open_log [OF n(2)] replay_uncommitted [OF assms(5) txn_entries_take [OF assms(4)]] by simp
  qed
qed

lemma crash_images_nonempty [simp]: "crash_images crc ts j f \<noteq> []"
  by (cases ts) (simp_all add: case_prod_unfold Let_def)

text \<open>The last of the images is the one the logging calls themselves end with.\<close>

lemma crash_images_run:
  "log_chunks crc tx off cs w j f = (Inr n, j', g) \<Longrightarrow> journal_commit crc tx j' g = (r, j2, h)
    \<Longrightarrow> last (crash_images crc (data_entries tx off cs @ [commit_entry tx]) j f) = h"
proof (induction cs arbitrary: off w j f)
  case Nil
  then show ?case by (simp add: journal_commit_def commit_entry_def)
next
  case (Cons c cs)
  obtain j1 f1 where c: "log_data_write_chunk crc tx off c j f = (Inr (), j1, f1)"
      "log_chunks crc tx (off + of_nat (length c)) cs (w + 1) j1 f1 = (Inr n, j', g)"
    using Cons.prems(1) by (auto split: prod.splits sum.splits)
  then have "write_entry crc (entry_with ENTRY_WRITE_DATA tx off c) j f = (Inr (), j1, f1)"
    by (auto simp: log_data_write_chunk_def split: if_splits)
  with Cons.IH [OF c(2) Cons.prems(2)] show ?case by simp
qed

lemma crash_images_calls:
  assumes "log_data_write_all crc tx off data j f = (Inr n, j1, f1)" and "journal_commit crc tx j1 f1 = (r, j2, f2)"
    and "data \<noteq> []"
  shows "last (crash_images crc (data_entries tx off (chunks JOURNAL_PAYLOAD_SIZE data) @ [commit_entry tx]) j f) = f2"
  using assms by (intro crash_images_run [where w = 0 and n = n and j' = j1 and g = f1])
    (auto simp: log_data_write_all_def Let_def split: if_splits)

section \<open>Properties\<close>

text \<open>A journal on a fresh image, for the witnesses; the checksum is a simple sum of the bytes.\<close>

definition sum_crc :: "bytes \<Rightarrow> u32" where
  "sum_crc b = sum_list (map ucast b)"

definition sample_journal :: "journal \<times> image" where
  "sample_journal = journal_format sum_crc (blank_file 1000000)"

lemma sample_journal_holds: "journal_holds sum_crc (snd sample_journal) (fst sample_journal) []"
  by (rule journal_format_holds(1)) (simp add: sample_journal_def)





text \<open>A data write that needs more than 511 slots (more than 250,390 bytes) is refused by every
  journal, also an empty one, and changes nothing.\<close>

theorem journal_refuses_large_writes:
  assumes "511 * JOURNAL_PAYLOAD_SIZE < length data"
  shows "log_data_write_all crc tx offset data j f = (Inl (Io OtherIo), j, f)"
proof -
  have "511 < (length data + JOURNAL_PAYLOAD_SIZE - 1) div JOURNAL_PAYLOAD_SIZE"
    using assms by (simp add: JOURNAL_PAYLOAD_SIZE_def)
  moreover have "data \<noteq> []"
    using assms by auto
  moreover have "512 - j_next_slot j < n + 1" if "511 < n" for n
    using that by simp
  ultimately show ?thesis
    by (simp only: log_data_write_all_def MAX_JOURNAL_ENTRIES_def Let_def if_False if_True)
qed

theorem journal_refuses_large_writes_witness:
  "log_data_write_all sum_crc 1 700000 (zeros 250391) (fst sample_journal) (snd sample_journal)
     = (Inl (Io OtherIo), fst sample_journal, snd sample_journal)"
  by (rule journal_refuses_large_writes) (simp add: JOURNAL_PAYLOAD_SIZE_def)

end
