(* ===== verification/Free_List.thy ===== *)
theory Free_List
  imports Disk
begin

text \<open>
  \<open>src/fs/free_list.rs\<close>: the in-memory list of free extents, best-fit allocation, merging,
  rebuilding from the inode table, and its persistence in block 0.
\<close>

section \<open>Extents\<close>

definition FREE_LIST_MAGIC :: u64 where "FREE_LIST_MAGIC = 0x4652454C49535400"
definition FREE_LIST_OFFSET :: nat where "FREE_LIST_OFFSET = 512"
definition FREE_LIST_HEADER :: nat where "FREE_LIST_HEADER = 32"
definition FREE_EXTENT_SIZE :: nat where "FREE_EXTENT_SIZE = 16"
definition MAX_PERSISTED_EXTENTS :: nat where "MAX_PERSISTED_EXTENTS = 200"

record free_extent =
  fe_offset :: u64
  fe_length :: u64

definition extent_new :: "u64 \<Rightarrow> u64 \<Rightarrow> free_extent" where
  "extent_new offset len = \<lparr>fe_offset = offset, fe_length = len\<rparr>"

definition extent_to_bytes :: "free_extent \<Rightarrow> bytes" where
  "extent_to_bytes e =
     (let b = zeros FREE_EXTENT_SIZE;
          b = put b 0 (u64_to_le (fe_offset e))
      in put b 8 (u64_to_le (fe_length e)))"

definition extent_from_bytes :: "bytes \<Rightarrow> free_extent" where
  "extent_from_bytes b = \<lparr>fe_offset = le_to_u64 (sub b 0 8), fe_length = le_to_u64 (sub b 8 16)\<rparr>"

section \<open>The free list\<close>

type_synonym free_list = "free_extent list"

definition fl_new :: free_list where "fl_new = []"

text \<open>One iteration of the merge loop; \<open>merged\<close> is kept with its last element first.\<close>

definition merge_step :: "free_list \<Rightarrow> free_extent \<Rightarrow> free_list" where
  "merge_step merged extent =
     (case merged of
        [] \<Rightarrow> [extent]
      | prev # rest \<Rightarrow>
          (let last_end = fe_offset prev + fe_length prev in
           if fe_offset extent \<le> last_end
           then (let new_end = max (fe_offset extent + fe_length extent) last_end
                 in prev\<lparr>fe_length := new_end - fe_offset prev\<rparr> # rest)
           else extent # prev # rest))"

definition merge_adjacent :: "free_list \<Rightarrow> free_list" where
  "merge_adjacent extents =
     (if length extents < 2 then extents
      else rev (foldl merge_step [] (sort_key fe_offset extents)))"

definition fl_free :: "u64 \<Rightarrow> u64 \<Rightarrow> free_list \<Rightarrow> free_list" where
  "fl_free offset len fl =
     (if offset = 0 \<or> len = 0 then fl
      else if MAX_PERSISTED_EXTENTS \<le> length fl then fl
      else merge_adjacent (fl @ [extent_new offset len]))"

definition fl_alloc :: "u64 \<Rightarrow> free_list \<Rightarrow> u64 option \<times> free_list" where
  "fl_alloc min_size fl =
     (case min_by_key (\<lambda>(i, e). fe_length e)
             (filter (\<lambda>(i, e). min_size \<le> fe_length e) (enumerate 0 fl)) of
        None \<Rightarrow> (None, fl)
      | Some (idx, _) \<Rightarrow>
          (let extent = fl ! idx;
               rest = remove_nth idx fl;
               remainder = fe_length extent - min_size;
               rest' = (if 512 \<le> remainder
                        then rest @ [extent_new (fe_offset extent + min_size) remainder]
                        else rest)
           in (Some (fe_offset extent), rest')))"

definition fl_len :: "free_list \<Rightarrow> nat" where "fl_len fl = length fl"
definition fl_is_empty :: "free_list \<Rightarrow> bool" where "fl_is_empty fl \<longleftrightarrow> fl = []"

definition total_free_bytes :: "free_list \<Rightarrow> u64" where
  "total_free_bytes fl = sum_list (map fe_length fl)"

text \<open>Rebuild from the extents in use.\<close>

definition rebuild_step :: "free_list \<times> u64 \<Rightarrow> u64 \<times> u64 \<Rightarrow> free_list \<times> u64" where
  "rebuild_step st ext =
     (let (fl, cursor) = st; (offset, len) = ext;
          fl' = (if cursor < offset then fl_free cursor (offset - cursor) fl else fl)
      in (fl', max (offset + len) cursor))"

definition rebuild_from_inodes :: "(u64 \<times> u64) list \<Rightarrow> u64 \<Rightarrow> u64 \<Rightarrow> free_list" where
  "rebuild_from_inodes used_extents disk_size data_start =
     (if used_extents = [] then [extent_new data_start (sat_sub disk_size data_start)]
      else
        (let sorted_used = sort_key fst used_extents;
             (fl, cursor) = foldl rebuild_step (fl_new, data_start) sorted_used
         in if cursor < disk_size then fl_free cursor (disk_size - cursor) fl else fl))"

section \<open>Persistence\<close>

definition fl_header :: "(bytes \<Rightarrow> u32) \<Rightarrow> nat \<Rightarrow> bytes \<Rightarrow> bytes" where
  "fl_header crc count extents_bytes =
     (let hdr = zeros FREE_LIST_HEADER;
          hdr = put hdr 0 (u64_to_le FREE_LIST_MAGIC);
          hdr = put hdr 8 (u32_to_le (of_nat count));
          cksum = crc (sub hdr 0 12 @ extents_bytes)
      in put hdr 12 (u32_to_le cksum))"

definition fl_save :: "(bytes \<Rightarrow> u32) \<Rightarrow> free_list \<Rightarrow> image \<Rightarrow> image" where
  "fl_save crc fl f =
     (let count = min (length fl) MAX_PERSISTED_EXTENTS;
          extents_bytes = concat (map extent_to_bytes (take count fl));
          f = fwrite f FREE_LIST_OFFSET (fl_header crc count extents_bytes)
      in fwrite f (FREE_LIST_OFFSET + FREE_LIST_HEADER) extents_bytes)"

text \<open>\<open>chunks_exact(n)\<close>: the full chunks, in order.\<close>

fun chunks_exact :: "nat \<Rightarrow> 'a list \<Rightarrow> 'a list list" where
  "chunks_exact n xs =
     (if n = 0 \<or> length xs < n then [] else take n xs # chunks_exact n (drop n xs))"

declare chunks_exact.simps [simp del]

definition fl_load :: "(bytes \<Rightarrow> u32) \<Rightarrow> image \<Rightarrow> free_list disk_result" where
  "fl_load crc f =
     (case read_bytes f FREE_LIST_OFFSET FREE_LIST_HEADER of
        Inl e \<Rightarrow> Inl e
      | Inr hdr \<Rightarrow>
          (let magic = le_to_u64 (sub hdr 0 8) in
           if magic \<noteq> FREE_LIST_MAGIC then Inr fl_new
           else
             (let count = unat (le_to_u32 (sub hdr 8 12));
                  stored_cksum = le_to_u32 (sub hdr 12 16) in
              if MAX_PERSISTED_EXTENTS < count then Inr fl_new
              else
                (case read_vec f (FREE_LIST_OFFSET + FREE_LIST_HEADER) (count * FREE_EXTENT_SIZE) of
                   Inl e \<Rightarrow> Inl e
                 | Inr ext_bytes \<Rightarrow>
                     (case verify_crc32 crc (sub hdr 0 12 @ ext_bytes) stored_cksum of
                        Inl _ \<Rightarrow> Inr fl_new
                      | Inr _ \<Rightarrow>
                          Inr (map extent_from_bytes (chunks_exact FREE_EXTENT_SIZE ext_bytes)))))))"

section \<open>What an extent list covers\<close>

definition extent_ok :: "free_extent \<Rightarrow> bool" where
  "extent_ok e \<longleftrightarrow> 0 < unat (fe_length e) \<and> unat (fe_offset e) + unat (fe_length e) < 2 ^ 64"

abbreviation extent_end :: "free_extent \<Rightarrow> nat" where
  "extent_end e \<equiv> unat (fe_offset e) + unat (fe_length e)"

definition extent_bytes :: "free_extent \<Rightarrow> nat set" where
  "extent_bytes e = {unat (fe_offset e) ..< extent_end e}"

definition fl_space :: "free_list \<Rightarrow> nat set" where
  "fl_space fl = (\<Union>e \<in> set fl. extent_bytes e)"

text \<open>The extents do not overlap and none wraps around.\<close>

primrec fl_inv :: "free_list \<Rightarrow> bool" where
  "fl_inv [] = True"
| "fl_inv (e # es) \<longleftrightarrow> extent_ok e \<and> extent_bytes e \<inter> fl_space es = {} \<and> fl_inv es"

text \<open>Each extent ends strictly before the next one (the list is kept last element first).\<close>

abbreviation gapped :: "free_list \<Rightarrow> bool" where
  "gapped \<equiv> sorted_wrt (\<lambda>a b. extent_end b < unat (fe_offset a))"

lemma fl_space_simps [simp]:
  "fl_space [] = {}"
  "fl_space (e # es) = extent_bytes e \<union> fl_space es"
  "fl_space (xs @ ys) = fl_space xs \<union> fl_space ys"
  "fl_space (rev xs) = fl_space xs"
  by (auto simp: fl_space_def)

lemma fl_inv_append:
  "fl_inv (xs @ ys) \<longleftrightarrow> fl_inv xs \<and> fl_inv ys \<and> fl_space xs \<inter> fl_space ys = {}"
  by (induction xs) auto

lemma fl_inv_rev [simp]: "fl_inv (rev xs) = fl_inv xs"
  by (induction xs) (auto simp: fl_inv_append)

lemma fl_inv_ok: "fl_inv fl \<Longrightarrow> e \<in> set fl \<Longrightarrow> extent_ok e"
  by (induction fl) auto

lemma extent_end_word:
  "extent_ok e \<Longrightarrow> unat (fe_offset e + fe_length e) = extent_end e"
  by (simp add: extent_ok_def unat_add_lem [THEN iffD1])

lemma gapped_disjoint:
  assumes "gapped (e # es)"
  shows "extent_bytes e \<inter> fl_space es = {}"
proof -
  have "extent_bytes e \<inter> extent_bytes d = {}" if "d \<in> set es" for d
  proof -
    have "extent_end d < unat (fe_offset e)"
      using assms that by simp
    then show ?thesis
      by (auto simp: extent_bytes_def)
  qed
  then show ?thesis
    by (auto simp: fl_space_def)
qed

lemma gapped_inv: "gapped es \<Longrightarrow> list_all extent_ok es \<Longrightarrow> fl_inv es"
  by (induction es) (simp_all add: gapped_disjoint)

section \<open>Merging\<close>

lemma merge_extends:
  assumes ok: "extent_ok prev" "extent_ok e"
    and le: "fe_offset prev \<le> fe_offset e" "fe_offset e \<le> fe_offset prev + fe_length prev"
  defines "m \<equiv> prev\<lparr>fe_length := max (fe_offset e + fe_length e) (fe_offset prev + fe_length prev)
      - fe_offset prev\<rparr>"
  shows "extent_ok m" and "extent_bytes m = extent_bytes prev \<union> extent_bytes e"
    and "fe_offset m = fe_offset prev"
proof -
  let ?ne = "max (fe_offset e + fe_length e) (fe_offset prev + fe_length prev)"
  have ne: "unat ?ne = max (extent_end e) (extent_end prev)"
    using ok by (auto simp: max_def extent_end_word word_le_nat_alt)
  have le': "unat (fe_offset prev) \<le> unat (fe_offset e)" "unat (fe_offset e) \<le> extent_end prev"
    using le ok by (simp_all add: word_le_nat_alt extent_end_word)
  have "unat (fe_length m) = max (extent_end e) (extent_end prev) - unat (fe_offset prev)"
    using ne le' by (simp add: m_def unat_sub word_le_nat_alt)
  then have end_m: "extent_end m = max (extent_end e) (extent_end prev)"
    by (simp add: m_def)
  show "fe_offset m = fe_offset prev"
    by (simp add: m_def)
  show "extent_ok m"
    using end_m ok le' by (auto simp: extent_ok_def m_def)
  show "extent_bytes m = extent_bytes prev \<union> extent_bytes e"
    using end_m le' by (auto simp: extent_bytes_def m_def)
qed

lemma merge_step_correct:
  assumes "gapped acc" and "list_all extent_ok acc" and "extent_ok e"
    and "\<forall>a \<in> set acc. fe_offset a \<le> fe_offset e"
  shows "gapped (merge_step acc e)" and "list_all extent_ok (merge_step acc e)"
    and "fl_space (merge_step acc e) = fl_space acc \<union> extent_bytes e"
    and "\<forall>a \<in> set (merge_step acc e). fe_offset a \<le> fe_offset e"
    and "length (merge_step acc e) \<le> Suc (length acc)"
proof -
  have *: "gapped (merge_step acc e) \<and> list_all extent_ok (merge_step acc e)
    \<and> fl_space (merge_step acc e) = fl_space acc \<union> extent_bytes e
    \<and> (\<forall>a \<in> set (merge_step acc e). fe_offset a \<le> fe_offset e)
    \<and> length (merge_step acc e) \<le> Suc (length acc)"
  proof (cases acc)
    case Nil
    then show ?thesis using assms by (simp add: merge_step_def)
  next
    case (Cons prev rest)
    show ?thesis
    proof (cases "fe_offset e \<le> fe_offset prev + fe_length prev")
      case True
      have "fe_offset prev \<le> fe_offset e" "extent_ok prev"
        using assms Cons by auto
      note m = merge_extends [OF this(2) assms(3) this(1) True]
      show ?thesis
        using assms Cons True m by (auto simp: merge_step_def Let_def)
    next
      case False
      have "extent_ok prev"
        using assms Cons by simp
      then have "extent_end prev < unat (fe_offset e)"
        using False by (simp add: word_le_nat_alt extent_end_word)
      then show ?thesis
        using assms Cons False by (fastforce simp: merge_step_def)
    qed
  qed
  from * show "gapped (merge_step acc e)" and "list_all extent_ok (merge_step acc e)"
    and "fl_space (merge_step acc e) = fl_space acc \<union> extent_bytes e"
    and "\<forall>a \<in> set (merge_step acc e). fe_offset a \<le> fe_offset e"
    and "length (merge_step acc e) \<le> Suc (length acc)"
    by blast+
qed

lemma merge_fold_correct:
  assumes "gapped acc" and "list_all extent_ok acc" and "list_all extent_ok xs"
    and "sorted (map fe_offset xs)" and "\<forall>a \<in> set acc. \<forall>x \<in> set xs. fe_offset a \<le> fe_offset x"
  shows "gapped (foldl merge_step acc xs) \<and> list_all extent_ok (foldl merge_step acc xs)
    \<and> fl_space (foldl merge_step acc xs) = fl_space acc \<union> fl_space xs
    \<and> length (foldl merge_step acc xs) \<le> length acc + length xs"
  using assms
proof (induction xs arbitrary: acc)
  case Nil
  then show ?case by simp
next
  case (Cons x xs)
  note step = merge_step_correct [of acc x]
  have "\<forall>a \<in> set acc. fe_offset a \<le> fe_offset x" "extent_ok x"
    using Cons.prems by simp_all
  with Cons.prems(1,2) step have s: "gapped (merge_step acc x)" "list_all extent_ok (merge_step acc x)"
    "fl_space (merge_step acc x) = fl_space acc \<union> extent_bytes x"
    "\<forall>a \<in> set (merge_step acc x). fe_offset a \<le> fe_offset x"
    "length (merge_step acc x) \<le> Suc (length acc)"
    by blast+
  have "\<forall>a \<in> set (merge_step acc x). \<forall>y \<in> set xs. fe_offset a \<le> fe_offset y"
    using s(4) Cons.prems(4) by fastforce
  moreover have "list_all extent_ok xs" "sorted (map fe_offset xs)"
    using Cons.prems by simp_all
  ultimately have "gapped (foldl merge_step (merge_step acc x) xs)
    \<and> list_all extent_ok (foldl merge_step (merge_step acc x) xs)
    \<and> fl_space (foldl merge_step (merge_step acc x) xs) = fl_space (merge_step acc x) \<union> fl_space xs
    \<and> length (foldl merge_step (merge_step acc x) xs) \<le> length (merge_step acc x) + length xs"
    using Cons.IH s(1,2) by blast
  then show ?case
    using s(3,5) by (simp add: Un_assoc)
qed

lemma merge_adjacent_correct:
  assumes "list_all extent_ok fl"
  shows "fl_space (merge_adjacent fl) = fl_space fl" and "fl_inv (merge_adjacent fl)"
    and "length (merge_adjacent fl) \<le> length fl"
    and "2 \<le> length fl \<Longrightarrow> gapped (rev (merge_adjacent fl))"
proof -
  let ?s = "sort_key fe_offset fl"
  have "gapped (foldl merge_step [] ?s) \<and> list_all extent_ok (foldl merge_step [] ?s)
    \<and> fl_space (foldl merge_step [] ?s) = fl_space ?s
    \<and> length (foldl merge_step [] ?s) \<le> length ?s"
    using merge_fold_correct [of "[]" ?s] assms by (simp add: list_all_iff)
  moreover have "fl_space ?s = fl_space fl"
    by (simp add: fl_space_def)
  moreover have "fl_inv fl" if "length fl < 2"
    using that assms by (cases fl; cases "tl fl") auto
  ultimately show "fl_space (merge_adjacent fl) = fl_space fl" and "fl_inv (merge_adjacent fl)"
    and "length (merge_adjacent fl) \<le> length fl"
    and "2 \<le> length fl \<Longrightarrow> gapped (rev (merge_adjacent fl))"
    by (auto simp: merge_adjacent_def gapped_inv)
qed

section \<open>Freeing and allocating\<close>

definition range_of :: "u64 \<Rightarrow> u64 \<Rightarrow> nat set" where
  "range_of offset len = {unat offset ..< unat offset + unat len}"

lemma extent_bytes_new [simp]: "extent_bytes (extent_new o' l) = range_of o' l"
  by (simp add: extent_bytes_def extent_new_def range_of_def)

lemma extent_bytes_range: "extent_bytes e = range_of (fe_offset e) (fe_length e)"
  by (simp add: extent_bytes_def range_of_def)

lemma extent_ok_new: "extent_ok (extent_new o' l) \<longleftrightarrow> 0 < unat l \<and> unat o' + unat l < 2 ^ 64"
  by (simp add: extent_ok_def extent_new_def)

lemma fl_inv_all_ok: "fl_inv fl \<Longrightarrow> list_all extent_ok fl"
  by (simp add: list_all_iff fl_inv_ok)

lemma unat_pos [simp]: "0 < unat w \<longleftrightarrow> w \<noteq> 0"
  by (simp add: unat_gt_0)

lemma fl_free_inv:
  assumes "fl_inv fl" and "unat offset + unat len < 2 ^ 64"
  shows "fl_inv (fl_free offset len fl)"
    and "fl_space (fl_free offset len fl) \<subseteq> fl_space fl \<union> range_of offset len"
proof -
  have "list_all extent_ok (fl @ [extent_new offset len])" if "len \<noteq> 0"
    using assms that by (simp add: fl_inv_all_ok extent_ok_new)
  note m = merge_adjacent_correct [OF this]
  show "fl_inv (fl_free offset len fl)"
    and "fl_space (fl_free offset len fl) \<subseteq> fl_space fl \<union> range_of offset len"
    using assms m by (auto simp: fl_free_def)
qed

lemma fl_free_space:
  assumes "fl_inv fl" and "unat offset + unat len < 2 ^ 64"
    and "offset \<noteq> 0" and "length fl < MAX_PERSISTED_EXTENTS"
  shows "fl_space (fl_free offset len fl) = fl_space fl \<union> range_of offset len"
proof (cases "len = 0")
  case True
  then show ?thesis by (simp add: fl_free_def range_of_def)
next
  case False
  then have "list_all extent_ok (fl @ [extent_new offset len])"
    using assms by (simp add: fl_inv_all_ok extent_ok_new)
  from merge_adjacent_correct(1) [OF this] show ?thesis
    using assms False by (simp add: fl_free_def not_le)
qed

lemma fl_free_length:
  assumes "length fl \<le> MAX_PERSISTED_EXTENTS" and "fl_inv fl" and "unat offset + unat len < 2 ^ 64"
  shows "length (fl_free offset len fl) \<le> MAX_PERSISTED_EXTENTS"
proof -
  have "list_all extent_ok (fl @ [extent_new offset len])" if "len \<noteq> 0"
    using assms that by (simp add: fl_inv_all_ok extent_ok_new)
  then show ?thesis
    using assms(1) merge_adjacent_correct(3) [of "fl @ [extent_new offset len]"]
    by (auto simp: fl_free_def not_le)
qed

lemma fl_inv_remove_nth:
  assumes "fl_inv fl" and "i < length fl"
  shows "fl_inv (remove_nth i fl)" and "extent_bytes (fl ! i) \<inter> fl_space (remove_nth i fl) = {}"
    and "fl_space fl = extent_bytes (fl ! i) \<union> fl_space (remove_nth i fl)"
proof -
  have split: "fl = take i fl @ fl ! i # drop (Suc i) fl"
    using assms(2) by (rule id_take_nth_drop)
  have inv: "fl_inv (take i fl @ fl ! i # drop (Suc i) fl)"
    using assms(1) split by simp
  then show "fl_inv (remove_nth i fl)" and "extent_bytes (fl ! i) \<inter> fl_space (remove_nth i fl) = {}"
    by (auto simp: fl_inv_append remove_nth_def)
  have "fl_space fl = fl_space (take i fl @ fl ! i # drop (Suc i) fl)"
    using split by simp
  then show "fl_space fl = extent_bytes (fl ! i) \<union> fl_space (remove_nth i fl)"
    by (auto simp: remove_nth_def)
qed

text \<open>Everything \<open>alloc\<close> promises when it succeeds.\<close>

lemma fl_alloc_None:
  assumes "fl_alloc n fl = (None, fl')"
  shows "fl' = fl" and "\<forall>e \<in> set fl. fe_length e < n"
proof -
  have none: "min_by_key (\<lambda>(i, e). fe_length e)
      (filter (\<lambda>(i, e). n \<le> fe_length e) (enumerate 0 fl)) = None"
    and "fl' = fl"
    using assms by (auto simp: fl_alloc_def Let_def split: option.splits)
  then show "fl' = fl" by simp
  show "\<forall>e \<in> set fl. fe_length e < n"
  proof
    fix e assume "e \<in> set fl"
    then obtain j where "j < length fl" "fl ! j = e"
      by (auto simp: in_set_conv_nth)
    then have "(j, e) \<in> set (enumerate 0 fl)"
      by (simp add: in_set_enumerate_eq)
    moreover have "\<forall>x \<in> set (enumerate 0 fl). \<not> (case x of (i, e) \<Rightarrow> n \<le> fe_length e)"
      using none by (simp add: min_by_key_None filter_empty_conv)
    ultimately show "fe_length e < n"
      by fastforce
  qed
qed

lemma fl_alloc_pick:
  assumes "fl_alloc n fl = (Some a, fl')"
  obtains i where "i < length fl" and "a = fe_offset (fl ! i)" and "n \<le> fe_length (fl ! i)"
    and "\<forall>e \<in> set fl. n \<le> fe_length e \<longrightarrow> fe_length (fl ! i) \<le> fe_length e"
    and "fl' = (let r = fe_length (fl ! i) - n in
      if 512 \<le> r then remove_nth i fl @ [extent_new (a + n) r] else remove_nth i fl)"
proof -
  let ?c = "filter (\<lambda>(i, e). n \<le> fe_length e) (enumerate 0 fl)"
  obtain i e where pick: "min_by_key (\<lambda>(i, e). fe_length e) ?c = Some (i, e)"
    and res: "a = fe_offset (fl ! i)" "fl' = (let r = fe_length (fl ! i) - n in
      if 512 \<le> r then remove_nth i fl @ [extent_new (a + n) r] else remove_nth i fl)"
    using assms by (auto simp: fl_alloc_def Let_def split: option.splits if_splits)
  have in_c: "(i, e) \<in> set ?c"
    using min_by_key_Some(1) [OF pick] .
  then have i: "i < length fl" "fl ! i = e" "n \<le> fe_length e"
    by (auto simp: in_set_enumerate_eq)
  have "fe_length (fl ! i) \<le> fe_length d" if d: "d \<in> set fl" "n \<le> fe_length d" for d
  proof -
    obtain j where "j < length fl" "fl ! j = d"
      using d(1) by (auto simp: in_set_conv_nth)
    then have "(j, d) \<in> set ?c"
      using d(2) by (auto simp: in_set_enumerate_eq)
    from min_by_key_Some(2) [OF pick this] i show ?thesis
      by simp
  qed
  with i res that [of i] show thesis
    by simp
qed

lemma fl_alloc_Some:
  assumes inv: "fl_inv fl" and alloc: "fl_alloc n fl = (Some a, fl')"
  shows "range_of a n \<subseteq> fl_space fl" and "fl_inv fl'"
    and "fl_space fl' \<subseteq> fl_space fl - range_of a n"
    and "length fl' \<le> length fl"
    and "\<exists>e \<in> set fl. fe_offset e = a \<and> n \<le> fe_length e
      \<and> (\<forall>d \<in> set fl. n \<le> fe_length d \<longrightarrow> fe_length e \<le> fe_length d)
      \<and> (fe_length e - n = 0 \<or> 512 \<le> fe_length e - n \<longrightarrow> fl_space fl' = fl_space fl - range_of a n)"
proof -
  obtain i where i: "i < length fl" "a = fe_offset (fl ! i)" "n \<le> fe_length (fl ! i)"
    and best: "\<forall>e \<in> set fl. n \<le> fe_length e \<longrightarrow> fe_length (fl ! i) \<le> fe_length e"
    and fl': "fl' = (let r = fe_length (fl ! i) - n in
      if 512 \<le> r then remove_nth i fl @ [extent_new (a + n) r] else remove_nth i fl)"
    using alloc by (rule fl_alloc_pick)
  let ?e = "fl ! i"
  let ?r = "fe_length ?e - n"
  note rem = fl_inv_remove_nth [OF inv i(1)]
  have ok: "extent_ok ?e"
    using fl_inv_ok inv i(1) by simp
  have r: "unat ?r = unat (fe_length ?e) - unat n" "unat n \<le> unat (fe_length ?e)"
    using i(3) by (simp_all add: unat_sub word_le_nat_alt)
  have an: "unat (a + n) = unat a + unat n"
    using ok r(2) i(2) by (simp add: extent_ok_def unat_add_lem [THEN iffD1])
  have split: "extent_bytes ?e = range_of a n \<union> range_of (a + n) ?r"
    "range_of a n \<inter> range_of (a + n) ?r = {}"
    using r an i(2) by (auto simp: extent_bytes_def range_of_def)
  have rok: "extent_ok (extent_new (a + n) ?r)" if "512 \<le> ?r"
    unfolding extent_ok_new using that ok an r i(2) by (auto simp: extent_ok_def word_le_nat_alt)
  show "range_of a n \<subseteq> fl_space fl"
    using rem(3) split(1) by blast
  show "fl_inv fl'"
    using rem split rok by (auto simp: fl' Let_def fl_inv_append)
  show "fl_space fl' \<subseteq> fl_space fl - range_of a n"
    using rem split by (auto simp: fl' Let_def)
  show "length fl' \<le> length fl"
    using i(1) length_remove_nth [of i fl] by (auto simp: fl' Let_def)
  have "fl_space fl' = fl_space fl - range_of a n" if "?r = 0 \<or> 512 \<le> ?r"
    using rem split that by (auto simp: fl' Let_def range_of_def)
  with i best show "\<exists>e \<in> set fl. fe_offset e = a \<and> n \<le> fe_length e
      \<and> (\<forall>d \<in> set fl. n \<le> fe_length d \<longrightarrow> fe_length e \<le> fe_length d)
      \<and> (fe_length e - n = 0 \<or> 512 \<le> fe_length e - n \<longrightarrow> fl_space fl' = fl_space fl - range_of a n)"
    by (intro bexI [of _ ?e]) auto
qed

section \<open>The allocator contract\<close>

text \<open>
  What the disk manager relies on: an allocation comes out of the free space and leaves it,
  and nothing but the freed range is ever added. Runs of allocations are proved disjoint
  once, over this interface.
\<close>

primrec alloc_all :: "('n \<Rightarrow> 's \<Rightarrow> 'a option \<times> 's) \<Rightarrow> 'n list \<Rightarrow> 's \<Rightarrow> ('a option \<times> 'n) list \<times> 's" where
  "alloc_all al [] s = ([], s)"
| "alloc_all al (n # ns) s =
     (let (a, s1) = al n s; (r, s2) = alloc_all al ns s1 in ((a, n) # r, s2))"

definition handed_out :: "(u64 option \<times> u64) list \<Rightarrow> nat set" where
  "handed_out r = (\<Union>(a, n) \<in> set r. case a of None \<Rightarrow> {} | Some o' \<Rightarrow> range_of o' n)"

primrec no_overlap :: "(u64 option \<times> u64) list \<Rightarrow> bool" where
  "no_overlap [] = True"
| "no_overlap (x # xs) \<longleftrightarrow> handed_out [x] \<inter> handed_out xs = {} \<and> no_overlap xs"

lemma handed_out_Cons: "handed_out (x # xs) = handed_out [x] \<union> handed_out xs"
  by (simp add: handed_out_def)

lemma handed_out_single: "handed_out [(a, n)] = (case a of None \<Rightarrow> {} | Some o' \<Rightarrow> range_of o' n)"
  by (simp add: handed_out_def)

locale extent_allocator =
  fixes alloc :: "u64 \<Rightarrow> 's \<Rightarrow> u64 option \<times> 's"
    and release :: "u64 \<Rightarrow> u64 \<Rightarrow> 's \<Rightarrow> 's"
    and space :: "'s \<Rightarrow> nat set"
    and inv :: "'s \<Rightarrow> bool"
  assumes alloc_inv: "inv s \<Longrightarrow> alloc n s = (r, s') \<Longrightarrow> inv s'"
    and alloc_from: "inv s \<Longrightarrow> alloc n s = (Some a, s') \<Longrightarrow> range_of a n \<subseteq> space s"
    and alloc_removes: "inv s \<Longrightarrow> alloc n s = (Some a, s') \<Longrightarrow> space s' \<subseteq> space s - range_of a n"
    and alloc_fails: "alloc n s = (None, s') \<Longrightarrow> s' = s"
    and release_inv: "inv s \<Longrightarrow> unat a + unat n < 2 ^ 64 \<Longrightarrow> inv (release a n s)"
    and release_adds: "inv s \<Longrightarrow> unat a + unat n < 2 ^ 64 \<Longrightarrow>
      space (release a n s) \<subseteq> space s \<union> range_of a n"
begin

lemma alloc_handed:
  assumes "inv s" and "alloc n s = (a, s')"
  shows "handed_out [(a, n)] \<subseteq> space s" and "space s' \<subseteq> space s - handed_out [(a, n)]"
  using assms alloc_from alloc_removes alloc_fails
  by (auto simp: handed_out_single split: option.splits) blast+

lemma alloc_all_disjoint:
  assumes "inv s" and "alloc_all alloc ns s = (r, s')"
  shows "no_overlap r \<and> handed_out r \<subseteq> space s \<and> space s' \<subseteq> space s - handed_out r \<and> inv s'"
  using assms
proof (induction ns arbitrary: s r)
  case Nil
  then show ?case by (simp add: handed_out_def)
next
  case (Cons n ns)
  obtain a s1 where one: "alloc n s = (a, s1)" by fastforce
  obtain q where rest: "alloc_all alloc ns s1 = (q, s')" and r: "r = (a, n) # q"
    using Cons.prems(2) one by (auto simp: Let_def split: prod.splits)
  have inv1: "inv s1"
    using alloc_inv Cons.prems(1) one .
  note ih = Cons.IH [OF inv1 rest] and h = alloc_handed [OF Cons.prems(1) one]
  show ?case
    unfolding r handed_out_Cons [of "(a, n)" q] no_overlap.simps using ih h by blast
qed

text \<open>What is in use and not free is never handed out, even after a release of other ranges.\<close>

lemma live_untouched:
  assumes "inv s" and "live \<inter> space s = {}" and "unat b + unat k < 2 ^ 64"
    and "live \<inter> range_of b k = {}" and "alloc n (release b k s) = (Some a, s')"
  shows "live \<inter> range_of a n = {}"
  using assms alloc_from [OF release_inv] release_adds by blast

end

interpretation free_list: extent_allocator fl_alloc fl_free fl_space fl_inv
proof unfold_locales
  fix s n a s' assume *: "fl_inv s" "fl_alloc n s = (a, s')"
  show "fl_inv s'"
  proof (cases a)
    case None
    then show ?thesis using * fl_alloc_None by metis
  next
    case (Some x)
    then show ?thesis using * fl_alloc_Some(2) by metis
  qed
qed (use fl_alloc_Some(1,3) fl_alloc_None(1) fl_free_inv in blast)+

section \<open>Rebuilding from the extents in use\<close>

lemma rebuild_step_correct:
  assumes "fl_inv fl" and "unat o' + unat l < 2 ^ 64" and "\<forall>x \<in> fl_space fl. x < unat o'"
    and "rebuild_step (fl, cursor) (o', l) = (fl1, cursor1)"
  shows "fl_inv fl1" and "fl_space fl1 \<subseteq> fl_space fl \<union> {unat cursor ..< unat o'}"
    and "\<forall>x \<in> fl_space fl1. x < unat o'" and "cursor \<le> cursor1"
    and "unat o' + unat l \<le> unat cursor1"
proof -
  have sum: "unat (o' + l) = unat o' + unat l"
    using assms(2) by (simp add: unat_add_lem [THEN iffD1])
  have gap: "unat cursor + unat (o' - cursor) = unat o'" if "cursor < o'"
    using that by (simp add: unat_sub word_less_nat_alt word_le_nat_alt)
  have bound: "unat cursor + unat (o' - cursor) < 2 ^ 64" if "cursor < o'"
    using gap [OF that] unat_lt64 [of o'] by simp
  have eqs: "fl1 = (if cursor < o' then fl_free cursor (o' - cursor) fl else fl)"
    "cursor1 = max (o' + l) cursor"
    using assms(4) by (auto simp: rebuild_step_def Let_def)
  show "fl_inv fl1"
    using assms(1) fl_free_inv(1) bound by (simp add: eqs)
  show sub: "fl_space fl1 \<subseteq> fl_space fl \<union> {unat cursor ..< unat o'}"
  proof (cases "cursor < o'")
    case True
    then show ?thesis
      using fl_free_inv(2) [OF assms(1) bound] gap by (auto simp: eqs range_of_def)
  next
    case False
    then show ?thesis by (auto simp: eqs)
  qed
  show "\<forall>x \<in> fl_space fl1. x < unat o'"
    using sub assms(3) by auto
  show "cursor \<le> cursor1" and "unat o' + unat l \<le> unat cursor1"
    using sum by (auto simp: eqs max_def word_le_nat_alt)
qed

definition used_space :: "(u64 \<times> u64) list \<Rightarrow> nat set" where
  "used_space used = (\<Union>(o', l) \<in> set used. range_of o' l)"

lemma rebuild_fold_correct:
  assumes "sorted (map fst xs)" and "\<forall>(o', l) \<in> set xs. unat o' + unat l < 2 ^ 64"
    and "fl_inv fl" and "\<forall>x \<in> fl_space fl. \<forall>(o', l) \<in> set xs. x < unat o'"
    and "foldl rebuild_step (fl, cursor) xs = (fl', cursor')"
  shows "fl_inv fl' \<and> fl_space fl' \<inter> used_space xs = {} \<and> cursor \<le> cursor'
    \<and> fl_space fl' \<subseteq> fl_space fl \<union> {unat cursor..}
    \<and> (\<forall>(o', l) \<in> set xs. unat o' + unat l \<le> unat cursor')"
  using assms
proof (induction xs arbitrary: fl cursor)
  case Nil
  then show ?case by (simp add: used_space_def)
next
  case (Cons x xs)
  obtain o' l where x: "x = (o', l)" by fastforce
  obtain fl1 c1 where one: "rebuild_step (fl, cursor) (o', l) = (fl1, c1)" by fastforce
  have pre: "unat o' + unat l < 2 ^ 64" "\<forall>y \<in> fl_space fl. y < unat o'"
    using Cons.prems(2,4) x by auto
  note st = rebuild_step_correct [OF Cons.prems(3) pre one]
  have later: "\<forall>(p, k) \<in> set xs. unat o' \<le> unat p"
    using Cons.prems(1) x by (auto simp: word_le_nat_alt)
  have "foldl rebuild_step (fl1, c1) xs = (fl', cursor')"
    using Cons.prems(5) x one by simp
  moreover have "\<forall>y \<in> fl_space fl1. \<forall>(p, k) \<in> set xs. y < unat p"
    using st(3) later by fastforce
  ultimately have ih: "fl_inv fl'" "fl_space fl' \<inter> used_space xs = {}" "c1 \<le> cursor'"
    "fl_space fl' \<subseteq> fl_space fl1 \<union> {unat c1..}"
    "\<forall>(p, k) \<in> set xs. unat p + unat k \<le> unat cursor'"
    using Cons.IH [of fl1 c1] Cons.prems(1,2) st(1) by auto
  have "range_of o' l \<inter> fl_space fl' = {}"
    using ih(4) st(3,5) by (fastforce simp: range_of_def)
  moreover have "used_space (x # xs) = range_of o' l \<union> used_space xs"
    by (simp add: used_space_def x)
  moreover have "fl_space fl' \<subseteq> fl_space fl \<union> {unat cursor..}"
    using ih(4) st(2,4) by (fastforce simp: word_le_nat_alt)
  moreover have "unat o' + unat l \<le> unat cursor'"
    using st(5) ih(3) by (simp add: word_le_nat_alt)
  ultimately show ?case
    using ih st(4) x by auto
qed

lemma rebuild_correct:
  assumes "\<forall>(o', l) \<in> set used. unat o' + unat l < 2 ^ 64" and "used \<noteq> []"
  shows "fl_inv (rebuild_from_inodes used disk_size data_start)"
    and "fl_space (rebuild_from_inodes used disk_size data_start) \<inter> used_space used = {}"
    and "fl_space (rebuild_from_inodes used disk_size data_start) \<subseteq> {unat data_start..}"
proof -
  let ?s = "sort_key fst used"
  obtain fl c where fold: "foldl rebuild_step (fl_new, data_start) ?s = (fl, c)" by fastforce
  have us: "used_space ?s = used_space used"
    by (simp add: used_space_def)
  have f: "fl_inv fl" "fl_space fl \<inter> used_space used = {}" "data_start \<le> c"
    "fl_space fl \<subseteq> {unat data_start..}" "\<forall>(o', l) \<in> set used. unat o' + unat l \<le> unat c"
    using rebuild_fold_correct [OF _ _ _ _ fold] assms(1) us by (auto simp: fl_new_def)
  have gap: "unat c + unat (disk_size - c) = unat disk_size" if "c < disk_size"
    using that by (simp add: unat_sub word_less_nat_alt word_le_nat_alt)
  have bound: "unat c + unat (disk_size - c) < 2 ^ 64" if "c < disk_size"
    using gap [OF that] unat_lt64 [of disk_size] by simp
  have res: "rebuild_from_inodes used disk_size data_start
    = (if c < disk_size then fl_free c (disk_size - c) fl else fl)"
    using assms(2) fold by (simp add: rebuild_from_inodes_def)
  note fr = fl_free_inv [OF f(1) bound]
  have "range_of c (disk_size - c) \<inter> used_space used = {}"
    using f(5) by (fastforce simp: range_of_def used_space_def)
  moreover have "range_of c (disk_size - c) \<subseteq> {unat data_start..}"
    using f(3) by (auto simp: range_of_def word_le_nat_alt)
  ultimately have "fl_inv (rebuild_from_inodes used disk_size data_start)
    \<and> fl_space (rebuild_from_inodes used disk_size data_start) \<inter> used_space used = {}
    \<and> fl_space (rebuild_from_inodes used disk_size data_start) \<subseteq> {unat data_start..}"
    using f fr unfolding res by (cases "c < disk_size") (simp, blast, simp)
  then show "fl_inv (rebuild_from_inodes used disk_size data_start)"
    and "fl_space (rebuild_from_inodes used disk_size data_start) \<inter> used_space used = {}"
    and "fl_space (rebuild_from_inodes used disk_size data_start) \<subseteq> {unat data_start..}"
    by simp_all
qed

text \<open>With fewer extents than can be kept, the rebuilt list has every other byte up to the end of the disk.\<close>

lemma fl_free_length_Suc:
  assumes "fl_inv fl" and "unat o' + unat l < 2 ^ 64"
  shows "length (fl_free o' l fl) \<le> Suc (length fl)"
proof (cases "l = 0")
  case False
  then have "list_all extent_ok (fl @ [extent_new o' l])"
    using assms by (simp add: fl_inv_all_ok extent_ok_new)
  from merge_adjacent_correct(3) [OF this] show ?thesis by (simp add: fl_free_def)
qed (simp add: fl_free_def)

lemma rebuild_step_exact:
  assumes "fl_inv fl" and "unat o' + unat l < 2 ^ 64" and "length fl < MAX_PERSISTED_EXTENTS" and "cursor \<noteq> 0"
    and "rebuild_step (fl, cursor) (o', l) = (fl1, cursor1)"
  shows "fl_space fl1 = fl_space fl \<union> {unat cursor ..< unat o'}" and "length fl1 \<le> Suc (length fl)"
    and "unat cursor1 = max (unat o' + unat l) (unat cursor)"
proof -
  have sum: "unat (o' + l) = unat o' + unat l"
    using assms(2) by (simp add: unat_add_lem [THEN iffD1])
  have gap: "unat cursor + unat (o' - cursor) = unat o'" if "cursor < o'"
    using that by (simp add: unat_sub word_less_nat_alt word_le_nat_alt)
  have bound: "unat cursor + unat (o' - cursor) < 2 ^ 64" if "cursor < o'"
    using gap [OF that] unat_lt64 [of o'] by simp
  have eqs: "fl1 = (if cursor < o' then fl_free cursor (o' - cursor) fl else fl)"
    "cursor1 = max (o' + l) cursor"
    using assms(5) by (auto simp: rebuild_step_def Let_def)
  show "length fl1 \<le> Suc (length fl)"
    using fl_free_length_Suc [OF assms(1) bound] by (simp add: eqs)
  show "fl_space fl1 = fl_space fl \<union> {unat cursor ..< unat o'}"
    using fl_free_space [OF assms(1) bound assms(4,3)] gap
    by (cases "cursor < o'") (auto simp: eqs range_of_def word_less_nat_alt)
  show "unat cursor1 = max (unat o' + unat l) (unat cursor)"
    by (auto simp: eqs max_def word_le_nat_alt sum)
qed

lemma rebuild_fold_exact:
  assumes "sorted (map fst xs)" and "\<forall>(o', l) \<in> set xs. unat o' + unat l < 2 ^ 64"
    and "fl_inv fl" and "\<forall>x \<in> fl_space fl. \<forall>(o', l) \<in> set xs. x < unat o'"
    and "length fl + length xs \<le> MAX_PERSISTED_EXTENTS" and "cursor \<noteq> 0"
    and "foldl rebuild_step (fl, cursor) xs = (fl', cursor')"
  shows "fl_space fl' = fl_space fl \<union> ({unat cursor ..< unat cursor'} - used_space xs)
    \<and> length fl' \<le> length fl + length xs"
  using assms
proof (induction xs arbitrary: fl cursor)
  case Nil
  then show ?case by simp
next
  case (Cons x xs)
  obtain o' l where x: "x = (o', l)" by fastforce
  obtain fl1 c1 where one: "rebuild_step (fl, cursor) (o', l) = (fl1, c1)" by fastforce
  have pre: "unat o' + unat l < 2 ^ 64" "\<forall>y \<in> fl_space fl. y < unat o'" "length fl < MAX_PERSISTED_EXTENTS"
    using Cons.prems(2,4,5) x by auto
  note st = rebuild_step_correct [OF Cons.prems(3) pre(1,2) one]
  note ex = rebuild_step_exact [OF Cons.prems(3) pre(1,3) Cons.prems(6) one]
  have later: "\<forall>(p, k) \<in> set xs. unat o' \<le> unat p"
    using Cons.prems(1) x by (auto simp: word_le_nat_alt)
  have fold: "foldl rebuild_step (fl1, c1) xs = (fl', cursor')" using Cons.prems(7) x one by simp
  have "\<forall>y \<in> fl_space fl1. \<forall>(p, k) \<in> set xs. y < unat p" using st(3) later by fastforce
  moreover have "c1 \<noteq> 0" using ex(3) Cons.prems(6) by (metis max_def not_le unat_eq_zero unat_gt_0 zero_le)
  ultimately have ih: "fl_space fl' = fl_space fl1 \<union> ({unat c1 ..< unat cursor'} - used_space xs)"
      "length fl' \<le> length fl1 + length xs"
    and up: "c1 \<le> cursor'"
    using Cons.IH [of fl1 c1] rebuild_fold_correct [of xs fl1 c1 fl' cursor'] Cons.prems(1,2,5) st(1) ex(2) fold x
    by auto
  have "used_space (x # xs) = range_of o' l \<union> used_space xs"
    by (simp add: used_space_def x)
  moreover have "used_space xs \<subseteq> {unat o'..}"
    using later by (fastforce simp: used_space_def range_of_def)
  ultimately have "{unat cursor ..< unat o'} \<union> ({unat c1 ..< unat cursor'} - used_space xs)
      = {unat cursor ..< unat cursor'} - used_space (x # xs)"
    using ex(3) up by (auto simp: range_of_def word_le_nat_alt)
  then show ?case using ih ex(1,2) by auto
qed

lemma rebuild_cursor:
  assumes "foldl rebuild_step (fl, cursor) xs = (fl', cursor')" and "\<forall>(o', l) \<in> set xs. unat o' + unat l \<le> m"
    and "m < 2 ^ 64"
  shows "unat cursor' \<le> max (unat cursor) m"
  using assms(1,2)
proof (induction xs arbitrary: fl cursor)
  case (Cons x xs)
  obtain o' l where x: "x = (o', l)" by fastforce
  obtain fl1 c1 where one: "rebuild_step (fl, cursor) (o', l) = (fl1, c1)" by fastforce
  have "unat (o' + l) = unat o' + unat l"
    using Cons.prems(2) assms(3) x by (intro unat_add_lem [THEN iffD1]) auto
  then have "unat c1 \<le> max (unat cursor) m"
    using one Cons.prems(2) x by (auto simp: rebuild_step_def Let_def max_def word_le_nat_alt)
  with Cons.IH [of fl1 c1] Cons.prems one x show ?case by auto
qed simp

lemma rebuild_exact:
  assumes "\<forall>(o', l) \<in> set used. unat o' + unat l \<le> unat disk_size" and "length used < MAX_PERSISTED_EXTENTS"
    and "data_start \<noteq> 0" and "data_start \<le> disk_size"
  shows "fl_space (rebuild_from_inodes used disk_size data_start) = {unat data_start ..< unat disk_size} - used_space used"
proof (cases "used = []")
  case True
  have "unat data_start + unat (disk_size - data_start) = unat disk_size"
    using assms(4) by (simp add: unat_sub word_le_nat_alt)
  then show ?thesis
    using assms(4) True
    by (simp add: rebuild_from_inodes_def used_space_def range_of_def sat_sub_def)
next
  case False
  let ?s = "sort_key fst used"
  obtain fl c where fold: "foldl rebuild_step (fl_new, data_start) ?s = (fl, c)" by fastforce
  have us: "used_space ?s = used_space used" by (simp add: used_space_def)
  have w: "\<forall>(o', l) \<in> set used. unat o' + unat l < 2 ^ 64"
    using assms(1) unat_lt64 [of disk_size] by fastforce
  have f: "fl_inv fl" "fl_space fl = {unat data_start ..< unat c} - used_space used" "length fl < MAX_PERSISTED_EXTENTS"
    "data_start \<le> c" "used_space used \<subseteq> {..< unat c}"
  proof -
    have c: "fl_inv fl \<and> data_start \<le> c \<and> (\<forall>(o', l) \<in> set used. unat o' + unat l \<le> unat c)"
      using rebuild_fold_correct [OF _ _ _ _ fold] w by (auto simp: fl_new_def)
    then show "fl_inv fl" "data_start \<le> c" "used_space used \<subseteq> {..< unat c}"
      by (fastforce simp: used_space_def range_of_def)+
    show "fl_space fl = {unat data_start ..< unat c} - used_space used" "length fl < MAX_PERSISTED_EXTENTS"
      using rebuild_fold_exact [OF _ _ _ _ _ assms(3) fold] w assms(2) us by (auto simp: fl_new_def)
  qed
  have gap: "unat c + unat (disk_size - c) = unat disk_size" if "c < disk_size"
    using that by (simp add: unat_sub word_less_nat_alt word_le_nat_alt)
  have res: "rebuild_from_inodes used disk_size data_start
    = (if c < disk_size then fl_free c (disk_size - c) fl else fl)"
    using False fold by (simp add: rebuild_from_inodes_def)
  show ?thesis
  proof (cases "c < disk_size")
    case True
    have "unat c + unat (disk_size - c) < 2 ^ 64" using gap [OF True] unat_lt64 [of disk_size] by simp
    moreover have "c \<noteq> 0" using f(4) assms(3) by (auto simp: word_le_nat_alt unat_eq_zero)
    ultimately have "fl_space (rebuild_from_inodes used disk_size data_start)
        = ({unat data_start ..< unat c} - used_space used) \<union> range_of c (disk_size - c)"
      using True f by (simp add: res fl_free_space)
    then show ?thesis
      using gap [OF True] f(4,5) by (fastforce simp: range_of_def word_le_nat_alt)
  next
    case False
    have "unat c \<le> unat disk_size"
    proof -
      have "unat c \<le> max (unat data_start) (unat disk_size)"
        by (rule rebuild_cursor [OF fold]) (use assms(1) unat_lt64 [of disk_size] in auto)
      then show ?thesis using assms(4) by (simp add: word_le_nat_alt)
    qed
    then show ?thesis using False f(2) by (auto simp: res word_less_nat_alt)
  qed
qed

lemma rebuild_length:
  assumes "\<forall>(o', l) \<in> set used. unat o' + unat l < 2 ^ 64" and "length used < MAX_PERSISTED_EXTENTS" and "data_start \<noteq> 0"
  shows "length (rebuild_from_inodes used disk_size data_start) \<le> Suc (length used)"
proof (cases "used = []")
  case False
  let ?s = "sort_key fst used"
  obtain fl c where fold: "foldl rebuild_step (fl_new, data_start) ?s = (fl, c)" by fastforce
  have f: "length fl \<le> length used" "fl_inv fl"
    using rebuild_fold_exact [OF _ _ _ _ _ assms(3) fold] rebuild_fold_correct [OF _ _ _ _ fold] assms(1,2)
    by (auto simp: fl_new_def)
  have "unat c + unat (disk_size - c) < 2 ^ 64" if "c < disk_size"
    using that unat_lt64 [of disk_size] by (simp add: unat_sub word_less_nat_alt word_le_nat_alt)
  then show ?thesis
    using f fl_free_length_Suc [OF f(2)] False fold by (fastforce simp: rebuild_from_inodes_def)
qed (simp add: rebuild_from_inodes_def)

section \<open>Saving and loading\<close>

lemma length_extent_to_bytes [simp]: "length (extent_to_bytes e) = 16"
  by (simp add: extent_to_bytes_def FREE_EXTENT_SIZE_def Let_def)

lemma extent_roundtrip [simp]: "extent_from_bytes (extent_to_bytes e) = e"
  by (simp add: extent_from_bytes_def extent_to_bytes_def FREE_EXTENT_SIZE_def Let_def
      put_simps sub_simps)

interpretation extent: record_codec
  extent_to_bytes "\<lambda>b. Inr (extent_from_bytes b) :: free_extent disk_result" "\<lambda>e. e" 16 "\<lambda>_. True"
  by unfold_locales simp_all

lemma length_concat_extents: "length (concat (map extent_to_bytes fl)) = 16 * length fl"
  by (induction fl) simp_all

lemma chunks_exact_extents: "chunks_exact 16 (concat (map extent_to_bytes fl)) = map extent_to_bytes fl"
  by (induction fl) (simp_all add: chunks_exact.simps)

lemma map_extent_roundtrip: "map extent_from_bytes (map extent_to_bytes fl) = fl"
  by (simp add: comp_def)

lemma fl_header_layout:
  "fl_header crc n x = u64_to_le FREE_LIST_MAGIC @ u32_to_le (of_nat n)
     @ u32_to_le (crc (u64_to_le FREE_LIST_MAGIC @ u32_to_le (of_nat n) @ x)) @ zeros 16"
  by (simp add: fl_header_def FREE_LIST_HEADER_def Let_def put_simps sub_simps)

lemma length_fl_header [simp]: "length (fl_header crc n x) = 32"
  by (simp add: fl_header_layout)

lemma fl_load_save:
  assumes "length fl \<le> MAX_PERSISTED_EXTENTS"
  shows "fl_load crc (fl_save crc fl f) = Inr fl"
proof -
  let ?x = "concat (map extent_to_bytes fl)"
  let ?h = "fl_header crc (length fl) ?x"
  let ?g = "fwrite f FREE_LIST_OFFSET ?h"
  have len: "length ?x = 16 * length fl"
    by (rule length_concat_extents)
  have save: "fl_save crc fl f = fwrite ?g 544 ?x"
    using assms by (simp add: fl_save_def FREE_LIST_OFFSET_def FREE_LIST_HEADER_def Let_def)
  have "?h \<noteq> []"
    by (metis length_fl_header length_0_conv zero_neq_numeral)
  have hdr: "fread (fl_save crc fl f) 512 32 = Some ?h"
    using \<open>?h \<noteq> []\<close> unfolding save
    by (subst fread_fwrite_other)
      (auto simp: FREE_LIST_OFFSET_def flen_fwrite intro!: fread_fwrite_same)
  have ext: "read_vec (fl_save crc fl f) 544 (16 * length fl) = Inr ?x"
    unfolding save by (rule read_vec_fwrite) (simp add: len)
  have cnt: "unat (of_nat (length fl) :: u32) = length fl"
    using assms by (simp add: MAX_PERSISTED_EXTENTS_def unat_of_nat)
  show ?thesis
    using assms hdr ext
    by (simp add: fl_load_def read_bytes_def FREE_LIST_OFFSET_def FREE_LIST_HEADER_def
        FREE_EXTENT_SIZE_def Let_def fl_header_layout sub_simps cnt mult.commute
        chunks_exact_extents comp_def fl_new_def)
qed

section \<open>Properties\<close>

text \<open>An allocation takes a smallest extent that is large enough, hands out free bytes only, and no
  byte it hands out stays free.\<close>

theorem fl_alloc_best_fit:
  assumes "fl_inv fl" and "fl_alloc n fl = (Some a, fl')"
  shows "range_of a n \<subseteq> fl_space fl \<and> fl_inv fl' \<and> fl_space fl' \<subseteq> fl_space fl - range_of a n
    \<and> (\<exists>e \<in> set fl. fe_offset e = a \<and> n \<le> fe_length e
         \<and> (\<forall>d \<in> set fl. n \<le> fe_length d \<longrightarrow> fe_length e \<le> fe_length d))"
  using fl_alloc_Some [OF assms] by blast

theorem fl_alloc_best_fit_witness:
  "let fl = [extent_new 4096 2048, extent_new 8192 1024] in
   case fl_alloc 512 fl of (r, fl') \<Rightarrow> r = Some 8192 \<and> range_of 8192 512 \<subseteq> fl_space fl \<and> fl_inv fl'"
proof -
  let ?fl = "[extent_new 4096 2048, extent_new 8192 1024]"
  have inv: "fl_inv ?fl" by (simp add: extent_ok_def extent_new_def extent_bytes_def)
  obtain r fl' where run: "fl_alloc 512 ?fl = (r, fl')" by fastforce
  have "r = Some 8192"
    using run by (simp add: fl_alloc_def min_by_key_def extent_new_def upt_conv_Cons Let_def split: if_splits)
  with fl_alloc_best_fit [OF inv] run show ?thesis by simp
qed

text \<open>A sequence of allocations from one free list hands out pairwise disjoint ranges, all of them free
  before and none of them free afterwards.\<close>

theorem fl_allocations_disjoint:
  assumes "fl_inv fl" and "alloc_all fl_alloc ns fl = (rs, fl')"
  shows "no_overlap rs \<and> handed_out rs \<subseteq> fl_space fl \<and> fl_space fl' \<subseteq> fl_space fl - handed_out rs \<and> fl_inv fl'"
  by (rule free_list.alloc_all_disjoint [OF assms])

theorem fl_allocations_disjoint_witness:
  "let fl = [extent_new 4096 2048, extent_new 8192 1024] in
   case alloc_all fl_alloc [512, 512, 2048] fl of (rs, fl') \<Rightarrow> no_overlap rs \<and> fl_inv fl'"
proof -
  let ?fl = "[extent_new 4096 2048, extent_new 8192 1024]"
  have inv: "fl_inv ?fl" by (simp add: extent_ok_def extent_new_def extent_bytes_def)
  obtain rs fl' where run: "alloc_all fl_alloc [512, 512, 2048] ?fl = (rs, fl')" by fastforce
  from fl_allocations_disjoint [OF inv run] show ?thesis unfolding Let_def run by simp
qed

text \<open>The free list rebuilt from the extents in use is well formed and contains no byte in use and
  none before the data region.\<close>

theorem fl_rebuild_avoids_used:
  assumes "\<forall>(o', l) \<in> set used. unat o' + unat l < 2 ^ 64" and "used \<noteq> []"
  shows "fl_inv (rebuild_from_inodes used disk_size data_start)
    \<and> fl_space (rebuild_from_inodes used disk_size data_start) \<inter> used_space used = {}
    \<and> fl_space (rebuild_from_inodes used disk_size data_start) \<subseteq> {unat data_start..}"
  using rebuild_correct [OF assms] by blast

theorem fl_rebuild_avoids_used_witness:
  "fl_inv (rebuild_from_inodes [(8192, 512), (4096, 1024)] 16384 4096)
    \<and> fl_space (rebuild_from_inodes [(8192, 512), (4096, 1024)] 16384 4096) \<inter> used_space [(8192, 512), (4096, 1024)] = {}
    \<and> fl_space (rebuild_from_inodes [(8192, 512), (4096, 1024)] 16384 4096) \<subseteq> {unat (4096 :: u64)..}"
  by (rule fl_rebuild_avoids_used) simp_all

text \<open>A list of at most 200 extents survives saving and loading.\<close>

theorem fl_save_load:
  assumes "length fl \<le> MAX_PERSISTED_EXTENTS"
  shows "fl_load crc (fl_save crc fl f) = Inr fl"
  by (rule fl_load_save [OF assms])

theorem fl_save_load_witness:
  "fl_load (\<lambda>_. 7) (fl_save (\<lambda>_. 7) [extent_new 4096 2048] (blank_file 4096)) = Inr [extent_new 4096 2048]"
  by (rule fl_save_load) (simp add: MAX_PERSISTED_EXTENTS_def)

end
