(* ===== verification/Inode_Table.thy ===== *)
theory Inode_Table
  imports Disk
begin

text \<open>
  \<open>src/fs/inode_table.rs\<close>: the growable inode table. A table has up to 64 blocks of 1024 slots of
  256 bytes; the directory of block offsets is kept in block 0 of the image. The operations
  take the image and return it with their result when they may write.
\<close>

section \<open>State and operations\<close>

definition INODES_PER_BLOCK :: nat where "INODES_PER_BLOCK = 1024"
definition MAX_INODE_BLOCKS :: nat where "MAX_INODE_BLOCKS = 64"
definition MAX_INODES_TOTAL :: nat where "MAX_INODES_TOTAL = INODES_PER_BLOCK * MAX_INODE_BLOCKS"
definition INODE_BLOCK_SIZE :: nat where "INODE_BLOCK_SIZE = INODES_PER_BLOCK * INODE_BYTES"
definition BLOCK_DIR_BYTES :: nat where "BLOCK_DIR_BYTES = MAX_INODE_BLOCKS * 8"
definition INODE_BLOCK_DIR_OFFSET :: nat where "INODE_BLOCK_DIR_OFFSET = 3584"

lemmas inode_layout_defs = INODES_PER_BLOCK_def MAX_INODE_BLOCKS_def MAX_INODES_TOTAL_def
  INODE_BLOCK_SIZE_def BLOCK_DIR_BYTES_def INODE_BLOCK_DIR_OFFSET_def INODE_BYTES_def

record inode_table =
  it_blocks :: "u64 list"
  it_used :: nat
  it_next_end :: u64

definition it_new :: "u64 \<Rightarrow> u64 \<Rightarrow> inode_table" where
  "it_new original_offset next_disk_end =
     \<lparr>it_blocks = (replicate MAX_INODE_BLOCKS 0)[0 := original_offset], it_used = 0, it_next_end = next_disk_end\<rparr>"

definition it_open :: "image \<Rightarrow> u64 \<Rightarrow> u64 \<Rightarrow> inode_table disk_result" where
  "it_open f original_offset next_disk_end =
     (case read_bytes f INODE_BLOCK_DIR_OFFSET BLOCK_DIR_BYTES of
        Inl e \<Rightarrow> Inl e
      | Inr dir_buf \<Rightarrow>
          Inr \<lparr>it_blocks = original_offset
                 # map (\<lambda>i. le_to_u64 (sub dir_buf (i * 8) (i * 8 + 8))) [1..<MAX_INODE_BLOCKS],
               it_used = 0, it_next_end = next_disk_end\<rparr>)"

definition save_directory :: "inode_table \<Rightarrow> image \<Rightarrow> image" where
  "save_directory t f =
     (let dir_buf = fold (\<lambda>i b. put b (i * 8) (u64_to_le (it_blocks t ! i))) [0..<MAX_INODE_BLOCKS]
                      (zeros BLOCK_DIR_BYTES)
      in fwrite f INODE_BLOCK_DIR_OFFSET dir_buf)"

definition block_for :: "nat \<Rightarrow> nat" where "block_for index = index div INODES_PER_BLOCK"
definition slot_in_block :: "nat \<Rightarrow> nat" where "slot_in_block index = index mod INODES_PER_BLOCK"

definition inode_offset :: "inode_table \<Rightarrow> nat \<Rightarrow> u64 option" where
  "inode_offset t index =
     (let block = block_for index;
          slot = slot_in_block index;
          base = (if block < length (it_blocks t) then it_blocks t ! block else 0)
      in if base = 0 then None else Some (base + of_nat (slot * INODE_BYTES)))"

definition block_count :: "inode_table \<Rightarrow> nat" where
  "block_count t = length (filter (\<lambda>o'. o' \<noteq> 0) (it_blocks t))"

definition it_capacity :: "inode_table \<Rightarrow> nat" where
  "it_capacity t = block_count t * INODES_PER_BLOCK"

text \<open>\<open>iter().skip(1).position(|&o| o == 0)\<close>.\<close>

definition first_empty_block :: "u64 list \<Rightarrow> nat option" where
  "first_empty_block offsets =
     (let rest = drop 1 offsets; i = length (takeWhile (\<lambda>o'. o' \<noteq> 0) rest)
      in if i < length rest then Some (i + 1) else None)"

definition alloc_block :: "inode_table \<Rightarrow> image \<Rightarrow> nat option \<times> inode_table \<times> image" where
  "alloc_block t f =
     (case first_empty_block (it_blocks t) of
        None \<Rightarrow> (None, t, f)
      | Some slot \<Rightarrow>
          (let new_offset = it_next_end t;
               f = fwrite f (unat new_offset) (zeros INODE_BLOCK_SIZE);
               t = t\<lparr>it_next_end := it_next_end t + of_nat INODE_BLOCK_SIZE,
                     it_blocks := (it_blocks t)[slot := new_offset]\<rparr>
           in (Some slot, t, save_directory t f)))"

definition it_read_inode :: "(bytes \<Rightarrow> u32) \<Rightarrow> inode_table \<Rightarrow> image \<Rightarrow> nat \<Rightarrow> inode_raw disk_result" where
  "it_read_inode crc t f index =
     (case inode_offset t index of
        None \<Rightarrow> Inr inode_empty
      | Some offset \<Rightarrow>
          (case read_bytes f (unat offset) INODE_BYTES of
             Inl e \<Rightarrow> Inl e
           | Inr buf \<Rightarrow>
               (case inode_from_bytes crc buf of Inr inode \<Rightarrow> Inr inode | Inl _ \<Rightarrow> Inr inode_empty)))"

definition it_write_inode ::
    "(bytes \<Rightarrow> u32) \<Rightarrow> inode_table \<Rightarrow> image \<Rightarrow> nat \<Rightarrow> inode_raw \<Rightarrow> unit disk_result \<times> image" where
  "it_write_inode crc t f index inode =
     (case inode_offset t index of
        None \<Rightarrow> (Inl (Io InvalidInput), f)
      | Some offset \<Rightarrow> (Inr (), write_bytes f (unat offset) (inode_to_bytes crc inode)))"

fun scan_free :: "(bytes \<Rightarrow> u32) \<Rightarrow> inode_table \<Rightarrow> image \<Rightarrow> nat list \<Rightarrow> nat option disk_result" where
  "scan_free crc t f [] = Inr None"
| "scan_free crc t f (index # rest) =
     (case it_read_inode crc t f index of
        Inl e \<Rightarrow> Inl e
      | Inr inode \<Rightarrow> if in_is_used inode = 0 then Inr (Some index) else scan_free crc t f rest)"

definition it_alloc_inode :: "(bytes \<Rightarrow> u32) \<Rightarrow> inode_table \<Rightarrow> image
    \<Rightarrow> (nat \<times> bool) option disk_result \<times> inode_table \<times> image" where
  "it_alloc_inode crc t f =
     (let current_capacity = it_capacity t in
      case scan_free crc t f [0..<current_capacity] of
        Inl e \<Rightarrow> (Inl e, t, f)
      | Inr (Some index) \<Rightarrow> (Inr (Some (index, False)), t, f)
      | Inr None \<Rightarrow>
          (case alloc_block t f of
             (None, t, f) \<Rightarrow> (Inr None, t, f)
           | (Some _, t, f) \<Rightarrow> (Inr (Some (current_capacity, True)), t, f)))"

definition it_free_inode :: "(bytes \<Rightarrow> u32) \<Rightarrow> inode_table \<Rightarrow> image \<Rightarrow> nat \<Rightarrow> unit disk_result \<times> image" where
  "it_free_inode crc t f index =
     (case it_read_inode crc t f index of
        Inl e \<Rightarrow> (Inl e, f)
      | Inr inode \<Rightarrow> it_write_inode crc t f index (inode\<lparr>in_is_used := 0\<rparr>))"

text \<open>The closure's state is threaded as an accumulator; \<open>False\<close> stops the loop.\<close>

fun for_each_loop :: "(bytes \<Rightarrow> u32) \<Rightarrow> inode_table \<Rightarrow> image \<Rightarrow> (nat \<Rightarrow> inode_raw \<Rightarrow> 'a \<Rightarrow> bool \<times> 'a)
    \<Rightarrow> nat list \<Rightarrow> 'a \<Rightarrow> unit disk_result \<times> 'a" where
  "for_each_loop crc t f g [] a = (Inr (), a)"
| "for_each_loop crc t f g (index # rest) a =
     (case it_read_inode crc t f index of
        Inl e \<Rightarrow> (Inl e, a)
      | Inr inode \<Rightarrow>
          if in_is_used inode = 1 \<and> inode_is_valid inode
          then (case g index inode a of
                  (False, a) \<Rightarrow> (Inr (), a)
                | (True, a) \<Rightarrow> for_each_loop crc t f g rest a)
          else for_each_loop crc t f g rest a)"

definition for_each_used :: "(bytes \<Rightarrow> u32) \<Rightarrow> inode_table \<Rightarrow> image \<Rightarrow> (nat \<Rightarrow> inode_raw \<Rightarrow> 'a \<Rightarrow> bool \<times> 'a)
    \<Rightarrow> 'a \<Rightarrow> unit disk_result \<times> 'a" where
  "for_each_used crc t f g a = for_each_loop crc t f g [0..<it_capacity t] a"

definition it_used_count :: "(bytes \<Rightarrow> u32) \<Rightarrow> inode_table \<Rightarrow> image \<Rightarrow> nat" where
  "it_used_count crc t f =
     foldl (\<lambda>count index. case it_read_inode crc t f index of
         Inr inode \<Rightarrow> if in_is_used inode = 1 then count + 1 else count
       | Inl _ \<Rightarrow> count) 0 [0..<it_capacity t]"

section \<open>Invariant\<close>

text \<open>
  The allocated blocks are a prefix of the directory, lie inside the image behind block 0 and do
  not overlap. \<open>it_next_end\<close> is behind all of them, so that a new block cannot overlap either.
\<close>

definition block_start :: "inode_table \<Rightarrow> nat \<Rightarrow> nat" where
  "block_start t i = unat (it_blocks t ! i)"

definition it_inv :: "inode_table \<Rightarrow> image \<Rightarrow> bool" where
  "it_inv t f \<longleftrightarrow>
     length (it_blocks t) = MAX_INODE_BLOCKS \<and> 0 < block_count t
     \<and> (\<forall>i < MAX_INODE_BLOCKS. it_blocks t ! i \<noteq> 0 \<longleftrightarrow> i < block_count t)
     \<and> (\<forall>i < block_count t. 4096 \<le> block_start t i \<and> block_start t i + INODE_BLOCK_SIZE \<le> flen f)
     \<and> (\<forall>i < block_count t. block_start t i + INODE_BLOCK_SIZE < 2 ^ 64)
     \<and> (\<forall>i < block_count t. \<forall>j < i. block_start t i + INODE_BLOCK_SIZE \<le> block_start t j
          \<or> block_start t j + INODE_BLOCK_SIZE \<le> block_start t i)"

text \<open>Where the slots of indices below the capacity are.\<close>

definition slot_pos :: "inode_table \<Rightarrow> nat \<Rightarrow> nat" where
  "slot_pos t index = block_start t (block_for index) + slot_in_block index * INODE_BYTES"

lemma block_for_lt: "index < it_capacity t \<Longrightarrow> block_for index < block_count t"
  by (simp add: it_capacity_def block_for_def less_mult_imp_div_less)

lemma slot_in_block_lt: "slot_in_block index < 1024"
  by (simp add: slot_in_block_def INODES_PER_BLOCK_def)

lemma block_count_le: "it_inv t f \<Longrightarrow> block_count t \<le> MAX_INODE_BLOCKS"
  unfolding it_inv_def block_count_def by (metis length_filter_le)

lemma inode_offset_inside:
  assumes "it_inv t f" and "index < it_capacity t"
  shows "\<exists>off. inode_offset t index = Some off \<and> unat off = slot_pos t index"
    and "4096 \<le> slot_pos t index" and "slot_pos t index + INODE_BYTES \<le> flen f"
proof -
  let ?b = "block_for index"
  have b: "?b < block_count t" "?b < MAX_INODE_BLOCKS"
    using block_for_lt [OF assms(2)] block_count_le [OF assms(1)] by auto
  then have inv: "it_blocks t ! ?b \<noteq> 0" "length (it_blocks t) = MAX_INODE_BLOCKS"
    "4096 \<le> block_start t ?b" "block_start t ?b + INODE_BLOCK_SIZE \<le> flen f"
    "block_start t ?b + INODE_BLOCK_SIZE < 2 ^ 64"
    using assms(1) by (auto simp: it_inv_def)
  note s = slot_in_block_lt [of index]
  then have fits: "slot_in_block index * INODE_BYTES + INODE_BYTES \<le> INODE_BLOCK_SIZE"
    by (simp add: inode_layout_defs)
  let ?d = "slot_in_block index * INODE_BYTES"
  have d: "unat (of_nat ?d :: u64) = ?d"
    using s by (intro unat64_of_nat) (simp add: INODE_BYTES_def)
  have "unat (it_blocks t ! ?b + of_nat ?d) = unat (it_blocks t ! ?b) + ?d"
    using inv(5) fits d by (subst unat64_add) (auto simp: block_start_def)
  then show "\<exists>off. inode_offset t index = Some off \<and> unat off = slot_pos t index"
    using inv(1,2) b by (simp add: inode_offset_def Let_def slot_pos_def block_start_def)
  show "4096 \<le> slot_pos t index" "slot_pos t index + INODE_BYTES \<le> flen f"
    using inv fits by (simp_all add: slot_pos_def)
qed

lemma inode_offset_beyond:
  assumes "it_inv t f" and "it_capacity t \<le> index"
  shows "inode_offset t index = None"
proof -
  have "block_count t \<le> block_for index"
    using assms(2) by (simp add: block_for_def it_capacity_def INODES_PER_BLOCK_def less_eq_div_iff_mult_less_eq)
  then have "block_for index < MAX_INODE_BLOCKS \<longrightarrow> it_blocks t ! block_for index = 0"
    using assms(1) unfolding it_inv_def by (meson leD)
  moreover have "length (it_blocks t) = MAX_INODE_BLOCKS" using assms(1) by (simp add: it_inv_def)
  ultimately show ?thesis by (simp add: inode_offset_def Let_def)
qed

lemma slot_pos_disjoint:
  assumes "it_inv t f" and "i < it_capacity t" and "j < it_capacity t" and "i \<noteq> j"
  shows "slot_pos t i + INODE_BYTES \<le> slot_pos t j \<or> slot_pos t j + INODE_BYTES \<le> slot_pos t i"
proof (cases "block_for i = block_for j")
  case True
  then have "slot_in_block i \<noteq> slot_in_block j"
    using assms(4) by (metis block_for_def slot_in_block_def div_mult_mod_eq)
  then have "slot_in_block i < slot_in_block j \<or> slot_in_block j < slot_in_block i"
    by linarith
  then have "Suc (slot_in_block i) \<le> slot_in_block j \<or> Suc (slot_in_block j) \<le> slot_in_block i"
    by linarith
  then have "Suc (slot_in_block i) * INODE_BYTES \<le> slot_in_block j * INODE_BYTES
      \<or> Suc (slot_in_block j) * INODE_BYTES \<le> slot_in_block i * INODE_BYTES"
    using mult_le_mono1 by blast
  with True show ?thesis by (auto simp: slot_pos_def)
next
  case False
  have bound: "slot_pos t k + INODE_BYTES \<le> block_start t (block_for k) + INODE_BLOCK_SIZE" for k
    using slot_in_block_lt [of k] by (simp add: slot_pos_def inode_layout_defs)
  have "block_start t (block_for i) + INODE_BLOCK_SIZE \<le> block_start t (block_for j)
      \<or> block_start t (block_for j) + INODE_BLOCK_SIZE \<le> block_start t (block_for i)"
    using assms(1) block_for_lt [OF assms(2)] block_for_lt [OF assms(3)] False
    unfolding it_inv_def by (metis linorder_neqE_nat)
  then show ?thesis
    using bound [of i] bound [of j] by (auto simp: slot_pos_def)
qed

text \<open>An inode table is a table of inode records at these positions.\<close>

lemma it_read_pos:
  assumes "it_inv t f" and "index < it_capacity t"
  shows "it_read_inode crc t f index =
    (case inode_from_bytes crc (map (fget f) [slot_pos t index..<slot_pos t index + INODE_BYTES]) of
       Inr inode \<Rightarrow> Inr inode | Inl _ \<Rightarrow> Inr inode_empty)"
  using inode_offset_inside [OF assms] by (auto simp: it_read_inode_def read_bytes_def fread_Some)

lemma it_read_cong:
  assumes "it_inv t f" and "it_inv u g" and "index < it_capacity t" and "index < it_capacity u"
    and "slot_pos t index = slot_pos u index"
    and "\<And>i. slot_pos t index \<le> i \<Longrightarrow> i < slot_pos t index + INODE_BYTES \<Longrightarrow> fget f i = fget g i"
  shows "it_read_inode crc t f index = it_read_inode crc u g index"
proof -
  have "map (fget f) [slot_pos t index..<slot_pos t index + INODE_BYTES]
      = map (fget g) [slot_pos t index..<slot_pos t index + INODE_BYTES]"
    using assms(6) by (intro map_cong) auto
  with assms(5) show ?thesis
    unfolding it_read_pos [OF assms(1,3)] it_read_pos [OF assms(2,4)] by (simp only:)
qed

lemma it_inv_flen: "it_inv t f \<Longrightarrow> flen f \<le> flen g \<Longrightarrow> it_inv t g"
  by (fastforce simp: it_inv_def)

lemma length_inode_bytes: "inode_wf n \<Longrightarrow> length (inode_to_bytes crc n) = 256"
  by (rule inode.enc_width)

lemma it_write_read:
  assumes "it_inv t f" and "i < it_capacity t" and "inode_wf n" and "it_write_inode crc t f i n = (r, g)"
  shows "r = Inr ()" and "it_inv t g" and "flen g = flen f" and "it_read_inode crc t g i = Inr n"
    and "\<And>j. j < it_capacity t \<Longrightarrow> j \<noteq> i \<Longrightarrow> it_read_inode crc t g j = it_read_inode crc t f j"
    and "agree_outside (slot_pos t i) (slot_pos t i + INODE_BYTES) f g"
proof -
  note pos = inode_offset_inside [OF assms(1,2)]
  have g: "g = fwrite f (slot_pos t i) (inode_to_bytes crc n)" and r: "r = Inr ()"
    using pos(1) assms(4) by (auto simp: it_write_inode_def write_bytes_def)
  show "r = Inr ()" by (rule r)
  show "flen g = flen f"
    using pos(3) by (simp add: g length_inode_bytes [OF assms(3)] INODE_BYTES_def)
  with assms(1) show inv: "it_inv t g"
    by (auto elim: it_inv_flen)
  obtain off where off: "inode_offset t i = Some off" "unat off = slot_pos t i"
    using pos(1) by blast
  have "read_bytes g (unat off) INODE_BYTES = Inr (inode_to_bytes crc n)"
    using inode.load_store [OF assms(3)] by (simp add: read_bytes_def g off INODE_BYTES_def)
  then show "it_read_inode crc t g i = Inr n"
    using off(1) assms(3) by (simp add: it_read_inode_def inode.dec_enc)
  show "it_read_inode crc t g j = it_read_inode crc t f j" if "j < it_capacity t" "j \<noteq> i" for j
    using slot_pos_disjoint [OF assms(1) that(1) assms(2)] that
    by (intro it_read_cong [OF inv assms(1) that(1) that(1) refl])
      (auto simp: g fget_fwrite length_inode_bytes [OF assms(3)] INODE_BYTES_def)
  show "agree_outside (slot_pos t i) (slot_pos t i + INODE_BYTES) f g"
    unfolding g by (rule agree_outside_fwrite) (simp_all add: length_inode_bytes [OF assms(3)] INODE_BYTES_def)
qed

section \<open>The block directory\<close>

lemma directory_bytes:
  assumes "n \<le> m" and "n \<le> length xs"
  shows "fold (\<lambda>i b. put b (i * 8) (u64_to_le (xs ! i))) [0..<n] (zeros (m * 8))
    = concat (map u64_to_le (take n xs)) @ zeros ((m - n) * 8)"
  using assms
proof (induction n)
  case 0
  then show ?case by simp
next
  case (Suc n)
  have len: "length (concat (map u64_to_le (take n xs))) = n * 8"
    using Suc.prems by (simp add: length_concat o_def sum_list_triv)
  have rest: "(m - n) * 8 - 8 = (m - Suc n) * 8" using Suc.prems by simp
  have "put (concat (map u64_to_le (take n xs)) @ zeros ((m - n) * 8)) (n * 8) (u64_to_le (xs ! n))
      = concat (map u64_to_le (take n xs)) @ put (zeros ((m - n) * 8)) 0 (u64_to_le (xs ! n))"
    using len by (simp add: put_append_right)
  also have "put (zeros ((m - n) * 8)) 0 (u64_to_le (xs ! n)) = u64_to_le (xs ! n) @ zeros ((m - Suc n) * 8)"
    using Suc.prems rest by (subst put_zeros_start) auto
  finally show ?case
    using Suc by (simp add: take_Suc_conv_app_nth)
qed

lemma save_directory_fwrite:
  "length (it_blocks t) = MAX_INODE_BLOCKS
    \<Longrightarrow> save_directory t f = fwrite f INODE_BLOCK_DIR_OFFSET (concat (map u64_to_le (it_blocks t)))"
  using directory_bytes [of MAX_INODE_BLOCKS MAX_INODE_BLOCKS "it_blocks t"]
  by (simp add: save_directory_def BLOCK_DIR_BYTES_def)

lemma length_dir_bytes:
  "length (it_blocks t) = MAX_INODE_BLOCKS \<Longrightarrow> length (concat (map u64_to_le (it_blocks t))) = 512"
  by (simp add: length_concat o_def sum_list_triv MAX_INODE_BLOCKS_def)

lemma directory_entry:
  "i < length xs \<Longrightarrow> le_to_u64 (sub (concat (map u64_to_le xs)) (i * 8) (i * 8 + 8)) = xs ! i"
proof (induction xs arbitrary: i)
  case Nil
  then show ?case by simp
next
  case (Cons x xs)
  show ?case
  proof (cases i)
    case 0
    then show ?thesis by (simp add: sub_def)
  next
    case (Suc j)
    have "sub (u64_to_le x @ concat (map u64_to_le xs)) (8 + j * 8) (8 + (j * 8 + 8)) = sub (concat (map u64_to_le xs)) (j * 8) (j * 8 + 8)"
      by (simp add: sub_append_right ac_simps)
    with Cons Suc show ?thesis by (simp add: ac_simps)
  qed
qed

lemma open_save_directory:
  assumes "length (it_blocks t) = MAX_INODE_BLOCKS" and "hd (it_blocks t) = o1"
  shows "it_open (save_directory t f) o1 e = Inr \<lparr>it_blocks = it_blocks t, it_used = 0, it_next_end = e\<rparr>"
proof -
  let ?d = "concat (map u64_to_le (it_blocks t))"
  have "read_bytes (save_directory t f) INODE_BLOCK_DIR_OFFSET BLOCK_DIR_BYTES = Inr ?d"
    using length_dir_bytes [OF assms(1)]
    by (subst save_directory_fwrite [OF assms(1)], subst read_bytes_def, subst fread_fwrite_same)
      (use length_greater_0_conv [of ?d] in \<open>auto simp: inode_layout_defs simp del: length_greater_0_conv\<close>)
  moreover have "o1 # map (\<lambda>i. le_to_u64 (sub ?d (i * 8) (i * 8 + 8))) [1..<MAX_INODE_BLOCKS] = it_blocks t"
  proof -
    have "map (\<lambda>i. le_to_u64 (sub ?d (i * 8) (i * 8 + 8))) [1..<MAX_INODE_BLOCKS] = map ((!) (it_blocks t)) [1..<MAX_INODE_BLOCKS]"
      using assms(1) by (intro map_cong refl directory_entry) auto
    also have "\<dots> = tl (it_blocks t)"
      using assms(1) by (intro nth_equalityI) (auto simp: nth_tl)
    finally show ?thesis
      using assms by (cases "it_blocks t") (auto simp: MAX_INODE_BLOCKS_def)
  qed
  ultimately show ?thesis by (simp add: it_open_def)
qed

section \<open>Growing the table\<close>

lemma filter_prefix_length:
  assumes "\<forall>i < length xs. P (xs ! i) \<longleftrightarrow> i < k" and "k \<le> length xs"
  shows "length (filter P xs) = k"
proof -
  have "{i. i < length xs \<and> P (xs ! i)} = {i. i < k}" using assms by auto
  then show ?thesis by (simp add: length_filter_conv_card)
qed

lemma first_empty_inv:
  assumes "it_inv t f"
  shows "first_empty_block (it_blocks t) = (if block_count t < MAX_INODE_BLOCKS then Some (block_count t) else None)"
proof -
  let ?xs = "drop 1 (it_blocks t)" and ?k = "block_count t - 1"
  have inv: "length (it_blocks t) = MAX_INODE_BLOCKS" "0 < block_count t"
    "\<forall>i < MAX_INODE_BLOCKS. it_blocks t ! i \<noteq> 0 \<longleftrightarrow> i < block_count t"
    using assms by (auto simp: it_inv_def)
  note le = block_count_le [OF assms]
  have "takeWhile (\<lambda>o'. o' \<noteq> 0) ?xs = take ?k ?xs"
    using inv le by (intro takeWhile_eq_take_P_nth) auto
  then show ?thesis
    using inv le by (auto simp: first_empty_block_def Let_def MAX_INODE_BLOCKS_def)
qed

text \<open>\<open>room\<close>: the end of the data region is behind every block and a block still fits.\<close>

definition it_room :: "inode_table \<Rightarrow> bool" where
  "it_room t \<longleftrightarrow> 4096 \<le> unat (it_next_end t) \<and> unat (it_next_end t) + INODE_BLOCK_SIZE < 2 ^ 64
     \<and> (\<forall>i < block_count t. block_start t i + INODE_BLOCK_SIZE \<le> unat (it_next_end t))"

lemma alloc_block_image:
  assumes "it_inv t f" and "it_room t" and "block_count t < MAX_INODE_BLOCKS"
  obtains t' g where "alloc_block t f = (Some (block_count t), t', g)"
    and "\<And>i. i < MAX_INODE_BLOCKS \<Longrightarrow>
           block_start t' i = (if i = block_count t then unat (it_next_end t) else block_start t i)"
    and "length (it_blocks t') = MAX_INODE_BLOCKS"
    and "\<forall>i < MAX_INODE_BLOCKS. it_blocks t' ! i \<noteq> 0 \<longleftrightarrow> i < Suc (block_count t)"
    and "block_count t' = Suc (block_count t)"
    and "\<And>i. fget g i = (if 3584 \<le> i \<and> i < 4096 then concat (map u64_to_le (it_blocks t')) ! (i - 3584)
       else if unat (it_next_end t) \<le> i \<and> i < unat (it_next_end t) + INODE_BLOCK_SIZE then 0 else fget f i)"
    and "flen f \<le> flen g" and "unat (it_next_end t) + INODE_BLOCK_SIZE \<le> flen g"
    and "unat (it_next_end t') = unat (it_next_end t) + INODE_BLOCK_SIZE"
    and "it_blocks t' = (it_blocks t)[block_count t := it_next_end t]"
    and "it_open g (hd (it_blocks t')) e = Inr \<lparr>it_blocks = it_blocks t', it_used = 0, it_next_end = e\<rparr>"
proof -
  let ?k = "block_count t" and ?e = "it_next_end t"
  define t' where "t' = t\<lparr>it_next_end := ?e + of_nat INODE_BLOCK_SIZE, it_blocks := (it_blocks t)[?k := ?e]\<rparr>"
  define f1 where "f1 = fwrite f (unat ?e) (zeros INODE_BLOCK_SIZE)"
  define g where "g = save_directory t' f1"
  have inv: "length (it_blocks t) = MAX_INODE_BLOCKS" "\<forall>i < MAX_INODE_BLOCKS. it_blocks t ! i \<noteq> 0 \<longleftrightarrow> i < ?k"
    using assms(1) unfolding it_inv_def by blast+
  have room: "4096 \<le> unat ?e" "unat ?e + INODE_BLOCK_SIZE < 2 ^ 64" using assms(2) by (auto simp: it_room_def)
  have e0: "?e \<noteq> 0" using room(1) by auto
  have start: "block_start t' i = (if i = ?k then unat ?e else block_start t i)" if "i < MAX_INODE_BLOCKS" for i
    using that inv(1) by (simp add: t'_def block_start_def nth_list_update)
  have len': "length (it_blocks t') = MAX_INODE_BLOCKS" using inv(1) by (simp add: t'_def)
  have nz: "\<forall>i < MAX_INODE_BLOCKS. it_blocks t' ! i \<noteq> 0 \<longleftrightarrow> i < Suc ?k"
    using inv(1,2) e0 assms(3) by (auto simp: t'_def nth_list_update)
  have count: "block_count t' = Suc ?k"
    unfolding block_count_def [of t'] using nz len' assms(3) by (intro filter_prefix_length) auto
  have run: "alloc_block t f = (Some ?k, t', g)"
    using first_empty_inv [OF assms(1)] assms(3)
    by (simp add: alloc_block_def Let_def g_def f1_def t'_def)
  have get: "fget g i = (if 3584 \<le> i \<and> i < 4096 then concat (map u64_to_le (it_blocks t')) ! (i - 3584)
      else if unat ?e \<le> i \<and> i < unat ?e + INODE_BLOCK_SIZE then 0 else fget f i)" for i
    using length_dir_bytes [OF len']
    by (auto simp: g_def save_directory_fwrite [OF len'] fget_fwrite f1_def INODE_BLOCK_DIR_OFFSET_def)
  have flen1: "flen f1 = max (flen f) (unat ?e + INODE_BLOCK_SIZE)"
    by (simp add: f1_def flen_fwrite inode_layout_defs flip: length_0_conv)
  then have flen: "flen f \<le> flen g" "unat ?e + INODE_BLOCK_SIZE \<le> flen g"
    using flen_fwrite_mono [of f1] by (auto simp: g_def save_directory_fwrite [OF len'] intro: order.trans)
  show thesis
  proof (rule that [OF run start len' nz count get flen])
    show "unat (it_next_end t') = unat ?e + INODE_BLOCK_SIZE"
      using room(2) by (simp add: t'_def unat64_add INODE_BLOCK_SIZE_def INODES_PER_BLOCK_def INODE_BYTES_def)
    show "it_blocks t' = (it_blocks t)[?k := ?e]" by (simp add: t'_def)
    show "it_open g (hd (it_blocks t')) e = Inr \<lparr>it_blocks = it_blocks t', it_used = 0, it_next_end = e\<rparr>"
      unfolding g_def by (rule open_save_directory [OF len' refl])
  qed
qed

lemma grown_table_inv:
  assumes "it_inv t f" and "it_room t" and "block_count t < MAX_INODE_BLOCKS"
    and start: "\<And>i. i < MAX_INODE_BLOCKS \<Longrightarrow>
           block_start t' i = (if i = block_count t then unat (it_next_end t) else block_start t i)"
    and len': "length (it_blocks t') = MAX_INODE_BLOCKS"
    and nz: "\<forall>i < MAX_INODE_BLOCKS. it_blocks t' ! i \<noteq> 0 \<longleftrightarrow> i < Suc (block_count t)"
    and count: "block_count t' = Suc (block_count t)"
    and flen: "flen f \<le> flen g" "unat (it_next_end t) + INODE_BLOCK_SIZE \<le> flen g"
  shows "it_inv t' g"
  unfolding it_inv_def
proof (intro conjI allI impI)
  let ?k = "block_count t" and ?e = "it_next_end t"
  have inv: "\<forall>i < ?k. 4096 \<le> block_start t i \<and> block_start t i + INODE_BLOCK_SIZE \<le> flen f"
    "\<forall>i < ?k. block_start t i + INODE_BLOCK_SIZE < 2 ^ 64"
    "\<forall>i < ?k. \<forall>j < i. block_start t i + INODE_BLOCK_SIZE \<le> block_start t j
          \<or> block_start t j + INODE_BLOCK_SIZE \<le> block_start t i"
    using assms(1) unfolding it_inv_def by blast+
  have room: "4096 \<le> unat ?e" "unat ?e + INODE_BLOCK_SIZE < 2 ^ 64"
    "\<forall>i < ?k. block_start t i + INODE_BLOCK_SIZE \<le> unat ?e"
    using assms(2) by (auto simp: it_room_def)
  show "length (it_blocks t') = MAX_INODE_BLOCKS" by (rule len')
  show "0 < block_count t'" by (simp add: count)
  show "(it_blocks t' ! i \<noteq> 0) = (i < block_count t')" if "i < MAX_INODE_BLOCKS" for i
    using nz that by (simp add: count)
  fix i assume i: "i < block_count t'"
  then have i': "i < MAX_INODE_BLOCKS" "i = ?k \<or> i < ?k" using assms(3) by (auto simp: count)
  show "4096 \<le> block_start t' i" "block_start t' i + INODE_BLOCK_SIZE \<le> flen g"
    "block_start t' i + INODE_BLOCK_SIZE < 2 ^ 64"
    using i' start inv(1,2) room(1,2) flen by auto
  fix j assume "j < i"
  then show "block_start t' i + INODE_BLOCK_SIZE \<le> block_start t' j
      \<or> block_start t' j + INODE_BLOCK_SIZE \<le> block_start t' i"
    using i' start inv(3) room(3) by auto
qed

lemma alloc_block_ok:
  assumes "it_inv t f" and "it_room t" and "block_count t < MAX_INODE_BLOCKS"
  obtains t' g where "alloc_block t f = (Some (block_count t), t', g)" and "it_inv t' g"
    and "block_count t' = Suc (block_count t)"
    and "\<And>i. i < it_capacity t \<Longrightarrow> it_read_inode crc t' g i = it_read_inode crc t f i"
    and "\<And>i. it_capacity t \<le> i \<Longrightarrow> i < it_capacity t' \<Longrightarrow>
           \<exists>n. it_read_inode crc t' g i = Inr n \<and> in_is_used n = 0"
    and "unat (it_next_end t') = unat (it_next_end t) + INODE_BLOCK_SIZE"
    and "it_open g (hd (it_blocks t')) e = Inr \<lparr>it_blocks = it_blocks t', it_used = 0, it_next_end = e\<rparr>"
    and "it_blocks t' = (it_blocks t)[block_count t := it_next_end t]"
    and "\<And>i. i < 3584 \<or> 4096 \<le> i \<and> i < unat (it_next_end t) \<or> unat (it_next_end t) + INODE_BLOCK_SIZE \<le> i
           \<Longrightarrow> fget g i = fget f i"
proof -
  let ?k = "block_count t" and ?e = "it_next_end t"
  obtain t' g where run: "alloc_block t f = (Some ?k, t', g)"
    and start: "\<And>i. i < MAX_INODE_BLOCKS \<Longrightarrow> block_start t' i = (if i = ?k then unat ?e else block_start t i)"
    and len': "length (it_blocks t') = MAX_INODE_BLOCKS"
    and nz: "\<forall>i < MAX_INODE_BLOCKS. it_blocks t' ! i \<noteq> 0 \<longleftrightarrow> i < Suc ?k"
    and count: "block_count t' = Suc ?k"
    and get: "\<And>i. fget g i = (if 3584 \<le> i \<and> i < 4096 then concat (map u64_to_le (it_blocks t')) ! (i - 3584)
       else if unat ?e \<le> i \<and> i < unat ?e + INODE_BLOCK_SIZE then 0 else fget f i)"
    and flen: "flen f \<le> flen g" "unat ?e + INODE_BLOCK_SIZE \<le> flen g"
    and next_end: "unat (it_next_end t') = unat ?e + INODE_BLOCK_SIZE"
    and blocks: "it_blocks t' = (it_blocks t)[?k := ?e]"
    and reopen: "it_open g (hd (it_blocks t')) e = Inr \<lparr>it_blocks = it_blocks t', it_used = 0, it_next_end = e\<rparr>"
    using alloc_block_image [OF assms] by blast
  have room: "4096 \<le> unat ?e" "\<forall>i < ?k. block_start t i + INODE_BLOCK_SIZE \<le> unat ?e"
    using assms(2) by (auto simp: it_room_def)
  have inv': "it_inv t' g" by (rule grown_table_inv [OF assms start len' nz count flen])
  have cap: "it_capacity t \<le> it_capacity t'" by (simp add: it_capacity_def count)
  have old: "it_read_inode crc t' g i = it_read_inode crc t f i" if i: "i < it_capacity t" for i
  proof (rule it_read_cong [OF inv' assms(1) order.strict_trans2 [OF i cap] i])
    note b = block_for_lt [OF i]
    then show pos: "slot_pos t' i = slot_pos t i"
      using start [of "block_for i"] assms(3) by (simp add: slot_pos_def)
    have "slot_pos t i + INODE_BYTES \<le> unat ?e"
    proof -
      have "block_start t (block_for i) + INODE_BLOCK_SIZE \<le> unat ?e" using room(2) b by blast
      then show ?thesis using slot_in_block_lt [of i] by (simp add: slot_pos_def inode_layout_defs)
    qed
    moreover have "4096 \<le> slot_pos t i" using inode_offset_inside(2) [OF assms(1) i] .
    ultimately show "fget g x = fget f x" if "slot_pos t' i \<le> x" "x < slot_pos t' i + INODE_BYTES" for x
      using that by (simp add: pos get)
  qed
  have new: "\<exists>n. it_read_inode crc t' g i = Inr n \<and> in_is_used n = 0"
    if i: "it_capacity t \<le> i" "i < it_capacity t'" for i
  proof -
    have "block_for i = ?k"
      using i by (auto simp: it_capacity_def count block_for_def INODES_PER_BLOCK_def)
    then have pos: "slot_pos t' i = unat ?e + slot_in_block i * INODE_BYTES"
      using start [of ?k] assms(3) by (simp add: slot_pos_def)
    have "map (fget g) [slot_pos t' i..<slot_pos t' i + INODE_BYTES] = zeros INODE_BYTES"
      using slot_in_block_lt [of i] room(1)
      by (intro nth_equalityI) (auto simp: pos get zeros_def inode_layout_defs)
    then show ?thesis
      unfolding it_read_pos [OF inv' i(2)] using inode_from_zeros [of crc]
      by (auto simp: inode_empty_def split: sum.split)
  qed
  show thesis
    by (rule that [OF run inv' count old new next_end reopen blocks]) (use room(1) in \<open>auto simp: get\<close>)
qed

section \<open>Allocating and freeing inodes\<close>

lemma it_read_total:
  assumes "it_inv t f" and "i < it_capacity t"
  shows "\<exists>n. it_read_inode crc t f i = Inr n \<and> inode_wf n"
  unfolding it_read_pos [OF assms]
  by (auto split: sum.split intro!: inode_from_bytes_wf simp: INODE_BYTES_def)

text \<open>The inode an index holds, once reads cannot fail.\<close>

definition inode_at :: "(bytes \<Rightarrow> u32) \<Rightarrow> inode_table \<Rightarrow> image \<Rightarrow> nat \<Rightarrow> inode_raw" where
  "inode_at crc t f i = (case it_read_inode crc t f i of Inr n \<Rightarrow> n | Inl _ \<Rightarrow> inode_empty)"

definition slot_used :: "(bytes \<Rightarrow> u32) \<Rightarrow> inode_table \<Rightarrow> image \<Rightarrow> nat \<Rightarrow> bool" where
  "slot_used crc t f i \<longleftrightarrow> in_is_used (inode_at crc t f i) \<noteq> 0"

lemma it_read_at: "it_inv t f \<Longrightarrow> i < it_capacity t \<Longrightarrow> it_read_inode crc t f i = Inr (inode_at crc t f i)"
  using it_read_total [of t f i crc] by (auto simp: inode_at_def)

lemma scan_free_spec:
  assumes "it_inv t f" and "m \<le> it_capacity t"
  shows "scan_free crc t f [k..<m] = Inr (if \<exists>i. k \<le> i \<and> i < m \<and> \<not> slot_used crc t f i
    then Some (LEAST i. k \<le> i \<and> i < m \<and> \<not> slot_used crc t f i) else None)"
proof (induction "m - k" arbitrary: k)
  case 0
  then show ?case by auto
next
  case (Suc d)
  then have k: "k < m" by simp
  then have rd: "it_read_inode crc t f k = Inr (inode_at crc t f k)"
    using assms by (intro it_read_at) auto
  show ?case
  proof (cases "slot_used crc t f k")
    case False
    have "(LEAST i. k \<le> i \<and> i < m \<and> \<not> slot_used crc t f i) = k"
      using False k by (intro Least_equality) auto
    with False k rd show ?thesis
      by (auto simp: upt_conv_Cons slot_used_def)
  next
    case True
    have eq: "(\<lambda>i. k \<le> i \<and> i < m \<and> \<not> slot_used crc t f i) = (\<lambda>i. Suc k \<le> i \<and> i < m \<and> \<not> slot_used crc t f i)"
      using True by (auto simp: fun_eq_iff Suc_le_eq le_less)
    have "scan_free crc t f [k..<m] = scan_free crc t f [Suc k..<m]"
      using True k rd by (simp add: upt_conv_Cons slot_used_def)
    then show ?thesis
      unfolding eq using Suc.hyps(1) [of "Suc k"] Suc.hyps(2) by simp
  qed
qed

lemma it_free_inode_ok:
  assumes "it_inv t f" and "i < it_capacity t" and "it_free_inode crc t f i = (r, g)"
  shows "r = Inr ()" and "it_inv t g" and "flen g = flen f"
    and "inode_at crc t g i = (inode_at crc t f i)\<lparr>in_is_used := 0\<rparr>"
    and "\<And>j. j < it_capacity t \<Longrightarrow> j \<noteq> i \<Longrightarrow> inode_at crc t g j = inode_at crc t f j"
    and "agree_outside (slot_pos t i) (slot_pos t i + INODE_BYTES) f g"
proof -
  let ?n = "(inode_at crc t f i)\<lparr>in_is_used := 0\<rparr>"
  have wf: "inode_wf ?n"
    using it_read_total [OF assms(1,2), of crc] by (auto simp: inode_at_def inode_wf_def)
  have "it_write_inode crc t f i ?n = (r, g)"
    using assms(3) it_read_at [OF assms(1,2), of crc] by (simp add: it_free_inode_def)
  note w = it_write_read [OF assms(1,2) wf this]
  show "r = Inr ()" "it_inv t g" "flen g = flen f" by (rule w)+
  show "inode_at crc t g i = ?n" using w(4) by (simp add: inode_at_def)
  show "inode_at crc t g j = inode_at crc t f j" if "j < it_capacity t" "j \<noteq> i" for j
    using w(5) [OF that] by (simp add: inode_at_def)
  show "agree_outside (slot_pos t i) (slot_pos t i + INODE_BYTES) f g" by (rule w(6))
qed

lemma it_new_inv:
  assumes "unat base = 4096" and "4096 + INODE_BLOCK_SIZE \<le> flen f"
  shows "it_inv (it_new base e) f" and "block_count (it_new base e) = 1"
proof -
  let ?t = "it_new base e"
  have base: "base \<noteq> 0" using assms(1) by auto
  have nth: "it_blocks ?t ! i = (if i = 0 then base else 0)" if "i < MAX_INODE_BLOCKS" for i
    using that by (simp add: it_new_def nth_list_update)
  have len: "length (it_blocks ?t) = MAX_INODE_BLOCKS" by (simp add: it_new_def)
  show count: "block_count ?t = 1"
    unfolding block_count_def using nth len base
    by (intro filter_prefix_length) (auto simp: MAX_INODE_BLOCKS_def)
  have "block_start ?t 0 = 4096"
    using nth [of 0] assms(1) by (simp add: block_start_def MAX_INODE_BLOCKS_def)
  with nth len base count assms(2) show "it_inv ?t f"
    by (auto simp: it_inv_def INODE_BLOCK_SIZE_def INODES_PER_BLOCK_def INODE_BYTES_def)
qed

section \<open>Properties\<close>

text \<open>Allocation returns the first unused index, growing the table by one block when all are
  used; it never disturbs an inode already there, and it fails only when 64 blocks are full.\<close>

theorem inode_alloc_first_free:
  assumes "it_inv t f" and "it_room t" and "it_alloc_inode crc t f = (r, t', g)"
  shows "it_inv t' g
    \<and> (\<forall>j < it_capacity t. it_read_inode crc t' g j = it_read_inode crc t f j)
    \<and> (case r of
         Inr (Some (i, grown)) \<Rightarrow> i < it_capacity t' \<and> \<not> slot_used crc t' g i \<and> (\<forall>j < i. slot_used crc t' g j)
           \<and> grown = (it_capacity t \<le> i)
       | Inr None \<Rightarrow> block_count t = MAX_INODE_BLOCKS \<and> (\<forall>j < it_capacity t. slot_used crc t f j)
       | Inl _ \<Rightarrow> False)"
proof (cases "\<exists>i < it_capacity t. \<not> slot_used crc t f i")
  case True
  let ?P = "\<lambda>i. i < it_capacity t \<and> \<not> slot_used crc t f i"
  have run: "it_alloc_inode crc t f = (Inr (Some (LEAST i. ?P i, False)), t, f)"
    using True scan_free_spec [OF assms(1), of "it_capacity t" crc 0] by (auto simp: it_alloc_inode_def Let_def)
  have least: "?P (LEAST i. ?P i)" using True by (rule LeastI_ex)
  have below: "slot_used crc t f j" if "j < (LEAST i. ?P i)" for j
    using not_less_Least [OF that] least that by auto
  define k where "k = (LEAST i. ?P i)"
  have "r = Inr (Some (k, False))" "t' = t" "g = f"
    using trans [OF sym [OF run] assms(3), folded k_def] by blast+
  with assms(1) least below show ?thesis by (simp flip: k_def)
next
  case False
  have scan: "scan_free crc t f [0..<it_capacity t] = Inr None"
    using False scan_free_spec [OF assms(1), of "it_capacity t" crc 0] by auto
  show ?thesis
  proof (cases "block_count t < MAX_INODE_BLOCKS")
    case True
    obtain t1 g1 where g: "alloc_block t f = (Some (block_count t), t1, g1)" "it_inv t1 g1"
      and count: "block_count t1 = Suc (block_count t)"
      and old: "\<And>i. i < it_capacity t \<Longrightarrow> it_read_inode crc t1 g1 i = it_read_inode crc t f i"
      and new: "\<And>i. it_capacity t \<le> i \<Longrightarrow> i < it_capacity t1 \<Longrightarrow>
           \<exists>n. it_read_inode crc t1 g1 i = Inr n \<and> in_is_used n = 0"
      by (rule alloc_block_ok [OF assms(1,2) True, where crc = crc]) blast
    have eq: "r = Inr (Some (it_capacity t, True))" "t' = t1" "g = g1"
      using assms(3) scan g(1) by (auto simp: it_alloc_inode_def Let_def)
    have cap: "it_capacity t < it_capacity t1"
      by (simp add: it_capacity_def count INODES_PER_BLOCK_def)
    have "\<not> slot_used crc t1 g1 (it_capacity t)"
      using new [OF order_refl cap] by (auto simp: slot_used_def inode_at_def)
    moreover have "slot_used crc t1 g1 j" if "j < it_capacity t" for j
      using False old [OF that] that by (auto simp: slot_used_def inode_at_def)
    ultimately show ?thesis using eq g(2) old cap by auto
  next
    case full: False
    then have "first_empty_block (it_blocks t) = None"
      using first_empty_inv [OF assms(1)] by simp
    then have "it_alloc_inode crc t f = (Inr None, t, f)"
      using scan by (simp add: it_alloc_inode_def alloc_block_def Let_def)
    with assms(1,3) False full block_count_le [OF assms(1)] show ?thesis by auto
  qed
qed

definition sample_table :: inode_table where
  "sample_table = it_new 4096 659520"

lemma sample_table_inv: "it_inv sample_table (blank_file 1000000)" "it_capacity sample_table = 1024"
  "it_room sample_table"
proof -
  show "it_inv sample_table (blank_file 1000000)"
    unfolding sample_table_def by (rule it_new_inv) (simp_all add: blank_file_def inode_layout_defs)
  have count: "block_count sample_table = 1"
    unfolding sample_table_def
    by (rule it_new_inv(2) [where f = "blank_file 1000000"]) (simp_all add: blank_file_def inode_layout_defs)
  then show "it_capacity sample_table = 1024"
    by (simp add: it_capacity_def INODES_PER_BLOCK_def)
  have "block_start sample_table 0 = 4096"
    by (simp add: sample_table_def it_new_def block_start_def MAX_INODE_BLOCKS_def)
  with count show "it_room sample_table"
    by (simp add: it_room_def sample_table_def it_new_def INODE_BLOCK_SIZE_def INODES_PER_BLOCK_def INODE_BYTES_def)
qed

theorem inode_alloc_first_free_witness:
  "case it_alloc_inode (\<lambda>_. 0) sample_table (blank_file 1000000) of
     (r, t', g) \<Rightarrow> it_inv t' g \<and> (\<forall>j < 1024. it_read_inode (\<lambda>_. 0) t' g j
       = it_read_inode (\<lambda>_. 0) sample_table (blank_file 1000000) j)"
proof -
  obtain r t' g where run: "it_alloc_inode (\<lambda>_. 0) sample_table (blank_file 1000000) = (r, t', g)"
    by (cases "it_alloc_inode (\<lambda>_. 0) sample_table (blank_file 1000000)") auto
  show ?thesis
    using inode_alloc_first_free [OF sample_table_inv(1,3) run] by (simp add: run sample_table_inv(2))
qed

text \<open>Writing an inode makes it readable at its index, and changes no other inode and no byte
  outside its slot.\<close>

theorem inode_write_read:
  assumes "it_inv t f" and "i < it_capacity t" and "inode_wf n" and "it_write_inode crc t f i n = (r, g)"
  shows "r = Inr () \<and> it_read_inode crc t g i = Inr n
    \<and> (\<forall>j < it_capacity t. j \<noteq> i \<longrightarrow> it_read_inode crc t g j = it_read_inode crc t f j)
    \<and> agree_outside (slot_pos t i) (slot_pos t i + INODE_BYTES) f g"
  using it_write_read [OF assms] by blast

theorem inode_write_read_witness:
  "let (r, g) = it_write_inode (\<lambda>_. 0) sample_table (blank_file 1000000) 7 (inode_empty\<lparr>in_is_used := 1\<rparr>)
   in r = Inr () \<and> it_read_inode (\<lambda>_. 0) sample_table g 7 = Inr (inode_empty\<lparr>in_is_used := 1\<rparr>)"
proof -
  let ?n = "inode_empty\<lparr>in_is_used := 1\<rparr>"
  obtain r g where run: "it_write_inode (\<lambda>_. 0) sample_table (blank_file 1000000) 7 ?n = (r, g)"
    by (cases "it_write_inode (\<lambda>_. 0) sample_table (blank_file 1000000) 7 ?n") auto
  have "inode_wf ?n" by (simp add: inode_wf_def inode_empty_def)
  from inode_write_read [OF sample_table_inv(1) _ this run] show ?thesis
    by (simp add: run sample_table_inv(2))
qed

text \<open>Growing the table appends a block whose slots all read as unused, keeps every inode, and
  leaves a directory from which opening the image restores the same blocks.\<close>

theorem inode_block_growth:
  assumes "it_inv t f" and "it_room t" and "block_count t < MAX_INODE_BLOCKS"
    and "alloc_block t f = (slot, t', g)"
  shows "slot = Some (block_count t) \<and> it_capacity t' = it_capacity t + 1024
    \<and> (\<forall>i < it_capacity t. it_read_inode crc t' g i = it_read_inode crc t f i)
    \<and> (\<forall>i. it_capacity t \<le> i \<and> i < it_capacity t' \<longrightarrow> \<not> slot_used crc t' g i)
    \<and> it_open g (hd (it_blocks t')) e = Inr \<lparr>it_blocks = it_blocks t', it_used = 0, it_next_end = e\<rparr>"
proof (rule alloc_block_ok [OF assms(1-3), where crc = crc and e = e])
  fix u h
  assume a: "alloc_block t f = (Some (block_count t), u, h)" "it_inv u h" "block_count u = Suc (block_count t)"
    and old: "\<And>i. i < it_capacity t \<Longrightarrow> it_read_inode crc u h i = it_read_inode crc t f i"
    and new: "\<And>i. it_capacity t \<le> i \<Longrightarrow> i < it_capacity u \<Longrightarrow>
           \<exists>n. it_read_inode crc u h i = Inr n \<and> in_is_used n = 0"
    and dir: "it_open h (hd (it_blocks u)) e = Inr \<lparr>it_blocks = it_blocks u, it_used = 0, it_next_end = e\<rparr>"
  have eq: "slot = Some (block_count t)" "t' = u" "g = h" using a(1) assms(4) by auto
  have "it_capacity u = it_capacity t + 1024"
    by (simp add: it_capacity_def a(3) INODES_PER_BLOCK_def)
  moreover have "\<not> slot_used crc u h i" if "it_capacity t \<le> i" "i < it_capacity u" for i
    using new [OF that] by (auto simp: slot_used_def inode_at_def)
  ultimately show ?thesis using eq old dir by blast
qed

theorem inode_block_growth_witness:
  "case alloc_block sample_table (blank_file 1000000) of
     (slot, t', g) \<Rightarrow> slot = Some 1 \<and> it_capacity t' = 2048
       \<and> (\<forall>i. 1024 \<le> i \<and> i < 2048 \<longrightarrow> \<not> slot_used (\<lambda>_. 0) t' g i)"
proof -
  obtain slot t' g where run: "alloc_block sample_table (blank_file 1000000) = (slot, t', g)"
    by (cases "alloc_block sample_table (blank_file 1000000)") auto
  have count: "block_count sample_table = 1"
    using sample_table_inv(2) by (simp add: it_capacity_def INODES_PER_BLOCK_def)
  from inode_block_growth [OF sample_table_inv(1,3) _ run, where crc = "\<lambda>_. 0"] show ?thesis
    by (simp add: run count sample_table_inv(2) MAX_INODE_BLOCKS_def)
qed

end
