(* ===== verification/Disk_Manager.thy ===== *)
theory Disk_Manager
  imports Journal Free_List Inode_Table
begin

text \<open>
  \<open>src/fs/mod.rs\<close>: the disk manager, which owns the image and composes the superblock, the journal,
  the free list and the inode table. Every operation returns its result with the updated manager,
  also when it fails. \<open>file.flush()\<close> on an unbuffered \<open>std::fs::File\<close> does nothing and is left out.
\<close>

section \<open>Layout and state\<close>

definition MAGIC :: u64 where "MAGIC = 0x5645584653000001"
definition BLOCK_SIZE :: nat where "BLOCK_SIZE = 4096"
definition MAX_FILES :: nat where "MAX_FILES = MAX_INODES_TOTAL"
definition SUPERBLOCK_OFFSET :: nat where "SUPERBLOCK_OFFSET = 0"
definition INODE_TABLE_OFFSET :: nat where "INODE_TABLE_OFFSET = 4096"
definition INODE_SIZE :: nat where "INODE_SIZE = 256"
definition INODE_TABLE_SIZE :: nat where "INODE_TABLE_SIZE = INODE_BLOCK_SIZE"
definition SNAPSHOT_TABLE_OFFSET :: nat where "SNAPSHOT_TABLE_OFFSET = INODE_TABLE_OFFSET + INODE_TABLE_SIZE"
definition SNAPSHOT_TABLE_SIZE :: nat where "SNAPSHOT_TABLE_SIZE = 256 * 512"
definition JOURNAL_START :: nat where "JOURNAL_START = SNAPSHOT_TABLE_OFFSET + SNAPSHOT_TABLE_SIZE"
definition DATA_OFFSET :: nat where "DATA_OFFSET = JOURNAL_START + JOURNAL_REGION_SIZE"
definition MAX_SNAPSHOT_SLOTS :: nat where "MAX_SNAPSHOT_SLOTS = 256"
definition SNAPSHOT_RECORD_SIZE :: nat where "SNAPSHOT_RECORD_SIZE = 512"

lemmas disk_layout_defs = SUPERBLOCK_OFFSET_def INODE_TABLE_OFFSET_def INODE_SIZE_def INODE_TABLE_SIZE_def
  SNAPSHOT_TABLE_OFFSET_def SNAPSHOT_TABLE_SIZE_def JOURNAL_START_def DATA_OFFSET_def MAX_SNAPSHOT_SLOTS_def
  SNAPSHOT_RECORD_SIZE_def BLOCK_SIZE_def

text \<open>The compile-time assertion of the source, and the regions in order.\<close>

lemma JOURNAL_OFFSET_START: "JOURNAL_OFFSET = JOURNAL_START"
  by (simp add: disk_layout_defs inode_layout_defs journal_layout_defs)

lemma DATA_OFFSET_value: "DATA_OFFSET = 659520" "JOURNAL_END = DATA_OFFSET"
  by (simp_all add: disk_layout_defs inode_layout_defs journal_layout_defs JOURNAL_END_def)

record disk_manager =
  dm_file :: image
  dm_superblock :: superblock_raw
  dm_journal :: journal
  dm_free_list :: free_list
  dm_inode_table :: inode_table

type_synonym 'a disk_op = "disk_manager \<Rightarrow> 'a disk_result \<times> disk_manager"

section \<open>Lifecycle\<close>

definition replay_entry :: "journal_entry \<Rightarrow> image \<Rightarrow> unit disk_result \<times> image" where
  "replay_entry entry f =
     (if je_type entry = ENTRY_WRITE_INODE \<or> je_type entry = ENTRY_WRITE_DATA
      then (let plen = unat (je_payload_len entry) in
            if length (je_payload entry) < plen then (Inl Panic, f)
            else (Inr (), fwrite f (unat (je_disk_offset entry)) (take plen (je_payload entry))))
      else (Inr (), f))"

fun replay_all :: "journal_entry list \<Rightarrow> image \<Rightarrow> unit disk_result \<times> image" where
  "replay_all [] f = (Inr (), f)"
| "replay_all (e # es) f =
     (case replay_entry e f of (Inl err, f) \<Rightarrow> (Inl err, f) | (Inr _, f) \<Rightarrow> replay_all es f)"

definition dm_open :: "(bytes \<Rightarrow> u32) \<Rightarrow> image \<Rightarrow> disk_manager disk_result \<times> image" where
  "dm_open crc f =
     (case read_bytes f SUPERBLOCK_OFFSET SUPERBLOCK_BYTES of
        Inl e \<Rightarrow> (Inl e, f)
      | Inr sb_bytes \<Rightarrow>
     (case superblock_from_bytes crc sb_bytes of
        Inl e \<Rightarrow> (Inl e, f)
      | Inr superblock \<Rightarrow>
     (if sb_magic superblock \<noteq> MAGIC then (Inl (BadMagic MAGIC (sb_magic superblock)), f)
      else
     (case journal_open crc f of
        Inl e \<Rightarrow> (Inl e, f)
      | Inr (journal, to_replay) \<Rightarrow>
     (case replay_all to_replay f of
        (Inl e, f) \<Rightarrow> (Inl e, f)
      | (Inr _, f) \<Rightarrow>
          (let (journal, f) = (if 0 < length to_replay then journal_clear crc journal f else (journal, f));
               free_list = (case fl_load crc f of Inr fl \<Rightarrow> fl | Inl _ \<Rightarrow> fl_new)
           in case it_open f (of_nat INODE_TABLE_OFFSET) (sb_next_data_offset superblock) of
                Inl e \<Rightarrow> (Inl e, f)
              | Inr inode_table \<Rightarrow>
                  (Inr \<lparr>dm_file = f, dm_superblock = superblock, dm_journal = journal,
                        dm_free_list = free_list, dm_inode_table = inode_table\<rparr>, f)))))))"

definition dm_format :: "(bytes \<Rightarrow> u32) \<Rightarrow> u64 \<Rightarrow> u64 \<Rightarrow> image \<Rightarrow> disk_manager" where
  "dm_format crc now size_bytes f =
     (let total_blocks = size_bytes div of_nat BLOCK_SIZE;
          superblock = \<lparr>sb_magic = MAGIC, sb_version = 1, sb_block_size = of_nat BLOCK_SIZE,
            sb_total_blocks = total_blocks, sb_free_blocks = total_blocks, sb_inode_count = 0,
            sb_next_data_offset = of_nat DATA_OFFSET, sb_created_at = now, sb_crc32 = 0\<rparr>;
          f = write_bytes f SUPERBLOCK_OFFSET (superblock_to_bytes crc superblock);
          f = write_bytes f INODE_TABLE_OFFSET (zeros (INODES_PER_BLOCK * INODE_SIZE));
          f = write_bytes f SNAPSHOT_TABLE_OFFSET (zeros (MAX_SNAPSHOT_SLOTS * SNAPSHOT_RECORD_SIZE));
          (journal, f) = journal_format crc f;
          free_list = fl_new;
          inode_table = it_new (of_nat INODE_TABLE_OFFSET) (of_nat DATA_OFFSET);
          f = save_directory inode_table f
      in \<lparr>dm_file = f, dm_superblock = superblock, dm_journal = journal, dm_free_list = free_list,
          dm_inode_table = inode_table\<rparr>)"

section \<open>Operations\<close>

definition write_superblock :: "(bytes \<Rightarrow> u32) \<Rightarrow> disk_manager \<Rightarrow> disk_manager" where
  "write_superblock crc d =
     d\<lparr>dm_file := write_bytes (dm_file d) SUPERBLOCK_OFFSET (superblock_to_bytes crc (dm_superblock d))\<rparr>"

text \<open>The end of both journaled writes: a checkpoint when the journal is nearly full.\<close>

definition checkpoint :: "(bytes \<Rightarrow> u32) \<Rightarrow> disk_manager \<Rightarrow> disk_manager" where
  "checkpoint crc d =
     (if needs_checkpoint (dm_journal d)
      then (let (j, f) = journal_clear crc (dm_journal d) (dm_file d) in d\<lparr>dm_journal := j, dm_file := f\<rparr>)
      else d)"

definition dm_write_inode :: "(bytes \<Rightarrow> u32) \<Rightarrow> nat \<Rightarrow> inode_raw \<Rightarrow> unit disk_op" where
  "dm_write_inode crc index inode d =
     (if \<not> index < MAX_FILES then (Inl Panic, d)
      else
        (let bytes = inode_to_bytes crc inode in
         case inode_offset (dm_inode_table d) index of
           None \<Rightarrow> (Inl (Io InvalidInput), d)
         | Some disk_offset \<Rightarrow>
             (let (tx, j) = journal_begin (dm_journal d) in
              case log_inode_write_at crc tx disk_offset bytes j (dm_file d) of
                (Inl e, j, f) \<Rightarrow> (Inl e, d\<lparr>dm_journal := j, dm_file := f\<rparr>)
              | (Inr _, j, f) \<Rightarrow>
                  (case journal_commit crc tx j f of
                     (Inl e, j, f) \<Rightarrow> (Inl e, d\<lparr>dm_journal := j, dm_file := f\<rparr>)
                   | (Inr _, j, f) \<Rightarrow>
                       (case it_write_inode crc (dm_inode_table d) f index inode of
                          (Inl e, f) \<Rightarrow> (Inl e, d\<lparr>dm_journal := j, dm_file := f\<rparr>)
                        | (Inr _, f) \<Rightarrow> (Inr (), checkpoint crc (d\<lparr>dm_journal := j, dm_file := f\<rparr>)))))))"

definition dm_read_inode :: "(bytes \<Rightarrow> u32) \<Rightarrow> nat \<Rightarrow> disk_manager \<Rightarrow> inode_raw disk_result" where
  "dm_read_inode crc index d =
     (if \<not> index < MAX_FILES then Inl Panic else it_read_inode crc (dm_inode_table d) (dm_file d) index)"

definition inode_capacity :: "disk_manager \<Rightarrow> nat" where
  "inode_capacity d = it_capacity (dm_inode_table d)"

definition alloc_data :: "nat \<Rightarrow> disk_manager \<Rightarrow> u64 \<times> disk_manager" where
  "alloc_data size_bytes d =
     (case fl_alloc (of_nat size_bytes) (dm_free_list d) of
        (Some offset, fl) \<Rightarrow> (offset, d\<lparr>dm_free_list := fl\<rparr>)
      | (None, fl) \<Rightarrow>
          (let sb = dm_superblock d; t = dm_inode_table d;
               offset = sb_next_data_offset sb;
               next = offset + of_nat size_bytes;
               t = (if it_next_end t < next then t\<lparr>it_next_end := next\<rparr> else t);
               rem = next mod 512;
               next = (if rem \<noteq> 0 then next + (512 - rem) else next)
           in (offset, d\<lparr>dm_free_list := fl, dm_superblock := sb\<lparr>sb_next_data_offset := next\<rparr>,
                         dm_inode_table := t\<rparr>)))"

definition free_data :: "u64 \<Rightarrow> u64 \<Rightarrow> disk_manager \<Rightarrow> disk_manager" where
  "free_data offset len d = d\<lparr>dm_free_list := fl_free offset len (dm_free_list d)\<rparr>"

definition write_file_data :: "(bytes \<Rightarrow> u32) \<Rightarrow> u64 \<Rightarrow> bytes \<Rightarrow> unit disk_op" where
  "write_file_data crc offset data d =
     (if data = [] then (Inr (), d)
      else
        (let (tx, j) = journal_begin (dm_journal d) in
         case log_data_write_all crc tx offset data j (dm_file d) of
           (Inl e, j, f) \<Rightarrow> (Inl e, d\<lparr>dm_journal := j, dm_file := f\<rparr>)
         | (Inr _, j, f) \<Rightarrow>
             (case journal_commit crc tx j f of
                (Inl e, j, f) \<Rightarrow> (Inl e, d\<lparr>dm_journal := j, dm_file := f\<rparr>)
              | (Inr _, j, f) \<Rightarrow>
                  (let f = write_bytes f (unat offset) data
                   in (Inr (), checkpoint crc (d\<lparr>dm_journal := j, dm_file := f\<rparr>))))))"

definition read_file_data :: "u64 \<Rightarrow> nat \<Rightarrow> disk_manager \<Rightarrow> bytes disk_result" where
  "read_file_data offset size_bytes d = read_vec (dm_file d) (unat offset) size_bytes"

definition snapshot_slot_offset :: "nat \<Rightarrow> nat" where
  "snapshot_slot_offset index = SNAPSHOT_TABLE_OFFSET + index * SNAPSHOT_RECORD_SIZE"

definition write_snapshot :: "(bytes \<Rightarrow> u32) \<Rightarrow> nat \<Rightarrow> snapshot_raw \<Rightarrow> unit disk_op" where
  "write_snapshot crc index snap d =
     (if \<not> index < MAX_SNAPSHOT_SLOTS then (Inl Panic, d)
      else (Inr (), d\<lparr>dm_file := write_bytes (dm_file d) (snapshot_slot_offset index) (snapshot_to_bytes crc snap)\<rparr>))"

definition read_snapshot :: "(bytes \<Rightarrow> u32) \<Rightarrow> nat \<Rightarrow> disk_manager \<Rightarrow> snapshot_raw disk_result" where
  "read_snapshot crc index d =
     (if \<not> index < MAX_SNAPSHOT_SLOTS then Inl Panic
      else case read_bytes (dm_file d) (snapshot_slot_offset index) SNAPSHOT_BYTES of
             Inl e \<Rightarrow> Inl e
           | Inr buf \<Rightarrow>
               (case snapshot_from_bytes crc buf of Inr snap \<Rightarrow> Inr snap | Inl _ \<Rightarrow> Inr snapshot_empty))"

definition zero_snapshot_slot :: "nat \<Rightarrow> unit disk_op" where
  "zero_snapshot_slot index d =
     (if \<not> index < MAX_SNAPSHOT_SLOTS then (Inl Panic, d)
      else (Inr (), d\<lparr>dm_file := write_bytes (dm_file d) (snapshot_slot_offset index) (zeros SNAPSHOT_RECORD_SIZE)\<rparr>))"

definition dm_alloc_inode :: "(bytes \<Rightarrow> u32) \<Rightarrow> disk_manager \<Rightarrow> nat option \<times> disk_manager" where
  "dm_alloc_inode crc d =
     (let t = (dm_inode_table d)\<lparr>it_next_end := sb_next_data_offset (dm_superblock d)\<rparr> in
      case it_alloc_inode crc t (dm_file d) of
        (Inr (Some (index, new_block)), t, f) \<Rightarrow>
          (let d = d\<lparr>dm_inode_table := t, dm_file := f\<rparr>
           in (Some index,
               if new_block
               then write_superblock crc
                      (d\<lparr>dm_superblock := (dm_superblock d)\<lparr>sb_next_data_offset := it_next_end t\<rparr>\<rparr>)
               else d))
      | (Inr None, t, f) \<Rightarrow> (None, d\<lparr>dm_inode_table := t, dm_file := f\<rparr>)
      | (Inl _, t, f) \<Rightarrow> (None, d\<lparr>dm_inode_table := t, dm_file := f\<rparr>))"

definition find_free_slot :: "(bytes \<Rightarrow> u32) \<Rightarrow> disk_manager \<Rightarrow> nat option \<times> disk_manager" where
  "find_free_slot crc d = dm_alloc_inode crc d"

definition dm_free_inode :: "(bytes \<Rightarrow> u32) \<Rightarrow> nat \<Rightarrow> unit disk_op" where
  "dm_free_inode crc index d =
     (let (r, f) = it_free_inode crc (dm_inode_table d) (dm_file d) index in (r, d\<lparr>dm_file := f\<rparr>))"

definition free_block_count :: "disk_manager \<Rightarrow> u64 disk_result" where
  "free_block_count d = Inr (sb_free_blocks (dm_superblock d))"

definition find_free_snapshot_slot :: "(bytes \<Rightarrow> u32) \<Rightarrow> disk_manager \<Rightarrow> nat option" where
  "find_free_snapshot_slot crc d =
     find (\<lambda>i. case read_snapshot crc i d of Inr snap \<Rightarrow> sn_is_used snap = 0 | Inl _ \<Rightarrow> False)
       [0..<MAX_SNAPSHOT_SLOTS]"

definition used_inodes :: "(bytes \<Rightarrow> u32) \<Rightarrow> disk_manager \<Rightarrow> nat" where
  "used_inodes crc d = it_used_count crc (dm_inode_table d) (dm_file d)"

definition dm_flush :: "(bytes \<Rightarrow> u32) \<Rightarrow> disk_manager \<Rightarrow> disk_manager" where
  "dm_flush crc d =
     (let d = write_superblock crc d;
          d = d\<lparr>dm_file := fl_save crc (dm_free_list d) (dm_file d)\<rparr>
      in d\<lparr>dm_file := save_directory (dm_inode_table d) (dm_file d)\<rparr>)"

section \<open>Replaying\<close>

text \<open>The effect of replaying an entry whose payload length is in range, as a plain write.\<close>

definition entry_ok :: "journal_entry \<Rightarrow> bool" where
  "entry_ok e \<longleftrightarrow> entry_wf e \<and> unat (je_payload_len e) \<le> JOURNAL_PAYLOAD_SIZE
     \<and> (je_type e = ENTRY_WRITE_INODE \<or> je_type e = ENTRY_WRITE_DATA)"

definition entry_at :: "journal_entry \<Rightarrow> nat" where "entry_at e = unat (je_disk_offset e)"
definition entry_data :: "journal_entry \<Rightarrow> bytes" where
  "entry_data e = take (unat (je_payload_len e)) (je_payload e)"

definition apply_entry :: "journal_entry \<Rightarrow> image \<Rightarrow> image" where
  "apply_entry e f = fwrite f (entry_at e) (entry_data e)"

lemma length_entry_data: "entry_ok e \<Longrightarrow> length (entry_data e) = unat (je_payload_len e)"
  by (simp add: entry_ok_def entry_data_def entry_wf_def)

lemma replay_entry_apply: "entry_ok e \<Longrightarrow> replay_entry e f = (Inr (), apply_entry e f)"
  by (simp add: replay_entry_def entry_ok_def entry_wf_def apply_entry_def entry_at_def entry_data_def Let_def not_less)

lemma replay_all_apply: "\<forall>e \<in> set es. entry_ok e \<Longrightarrow> replay_all es f = (Inr (), fold apply_entry es f)"
  by (induction es arbitrary: f) (simp_all add: replay_entry_apply)

text \<open>The result at a byte depends on the entries and on that byte alone.\<close>

lemma apply_cong: "fget f i = fget g i \<Longrightarrow> fget (fold apply_entry es f) i = fget (fold apply_entry es g) i"
  by (induction es arbitrary: f g) (simp_all add: apply_entry_def fget_fwrite)

lemma apply_untouched:
  "\<forall>e \<in> set es. i < entry_at e \<or> entry_at e + length (entry_data e) \<le> i
    \<Longrightarrow> fget (fold apply_entry es f) i = fget f i"
  by (induction es arbitrary: f) (auto simp: apply_entry_def fget_fwrite)

lemma apply_flen_mono: "flen f \<le> flen (fold apply_entry es f)"
proof (induction es arbitrary: f)
  case (Cons e es)
  have "flen f \<le> flen (apply_entry e f)" by (simp add: apply_entry_def flen_fwrite_mono)
  with Cons show ?case by (auto intro: order.trans)
qed simp

text \<open>Replaying the chunks of a data write is that write.\<close>

lemma apply_data_entries:
  assumes "\<forall>c \<in> set cs. length c \<le> JOURNAL_PAYLOAD_SIZE" and "unat off + length (concat cs) < 2 ^ 64"
  shows "fget (fold apply_entry (data_entries tx off cs) f) i = fget (fwrite f (unat off) (concat cs)) i"
  using assms
proof (induction cs arbitrary: off f)
  case Nil
  then show ?case by (simp add: fwrite_def)
next
  case (Cons c cs)
  have c: "length c \<le> JOURNAL_PAYLOAD_SIZE" using Cons.prems(1) by simp
  then have len: "unat (of_nat (length c) :: u32) = length c"
    by (simp add: unat_of_nat JOURNAL_PAYLOAD_SIZE_def)
  have off: "unat (off + of_nat (length c)) = unat off + length c"
    using Cons.prems(2) by (subst unat64_add) (auto simp: unat64_of_nat)
  have e: "apply_entry (entry_with ENTRY_WRITE_DATA tx off c) f = fwrite f (unat off) c"
  proof -
    have "take (length c) (put (zeros JOURNAL_PAYLOAD_SIZE) 0 c) = c" by (simp add: put_def)
    then show ?thesis
      by (simp add: apply_entry_def entry_at_def entry_data_def len) (simp add: entry_with_def)
  qed
  have "fget (fold apply_entry (data_entries tx (off + of_nat (length c)) cs) (fwrite f (unat off) c)) i
      = fget (fwrite (fwrite f (unat off) c) (unat off + length c) (concat cs)) i"
    using Cons.IH [of "off + of_nat (length c)" "fwrite f (unat off) c"] Cons.prems off by auto
  also have "\<dots> = fget (fwrite f (unat off) (c @ concat cs)) i"
    by (auto simp: fget_fwrite nth_append)
  finally show ?case by (simp add: e)
qed

lemma data_entries_ok:
  "\<forall>c \<in> set cs. length c \<le> JOURNAL_PAYLOAD_SIZE \<Longrightarrow> \<forall>e \<in> set (data_entries tx off cs). entry_ok e"
proof (induction cs arbitrary: off)
  case (Cons c cs)
  then have "unat (of_nat (length c) :: u32) = length c"
    by (simp add: unat_of_nat JOURNAL_PAYLOAD_SIZE_def)
  with Cons show ?case by (simp add: entry_ok_def)
qed simp

section \<open>Transactions of the manager\<close>

text \<open>Replay stays clear of block 0 and of the journal.\<close>

definition log_ok :: "journal_entry list \<Rightarrow> bool" where
  "log_ok es \<longleftrightarrow> (\<forall>e \<in> set (entries_to_replay es). entry_ok e \<and> 4096 \<le> entry_at e
     \<and> (entry_at e + length (entry_data e) \<le> JOURNAL_OFFSET \<or> JOURNAL_END \<le> entry_at e))"

lemma entries_to_replay_Nil [simp]: "entries_to_replay [] = []"
  by (simp add: entries_to_replay_def)

lemma log_ok_Nil [simp]: "log_ok []"
  by (simp add: log_ok_def)

text \<open>The journal does not notice writes elsewhere.\<close>

lemma journal_log_elsewhere:
  assumes "journal_log crc f h es"
    and "\<And>i. JOURNAL_OFFSET \<le> i \<Longrightarrow> i < JOURNAL_END \<Longrightarrow> fget g i = fget f i" and "flen f \<le> flen g"
  shows "journal_log crc g h es"
proof -
  note len = journal_log_flen [OF assms(1)]
  have rd: "fread g off n = fread f off n" if "JOURNAL_OFFSET \<le> off" "off + n \<le> JOURNAL_END" for off n
    using that assms(2,3) len by (auto simp: fread_def)
  have "fread g JOURNAL_OFFSET JOURNAL_HEADER_SIZE = fread f JOURNAL_OFFSET JOURNAL_HEADER_SIZE"
    by (rule rd) (simp_all add: JOURNAL_END_def journal_layout_defs)
  moreover have "fread g (entry_offset i) JOURNAL_ENTRY_SIZE = fread f (entry_offset i) JOURNAL_ENTRY_SIZE"
    if "i < MAX_JOURNAL_ENTRIES" for i
    using entry_offset_region [OF that] by (intro rd) (auto simp: JOURNAL_ENTRY_SIZE_def)
  ultimately show ?thesis
    using assms(1) unfolding journal_log_def by (metis order.strict_trans2)
qed

lemma journal_holds_elsewhere:
  assumes "journal_holds crc f j es"
    and "\<And>i. JOURNAL_OFFSET \<le> i \<Longrightarrow> i < JOURNAL_END \<Longrightarrow> fget g i = fget f i" and "flen f \<le> flen g"
  shows "journal_holds crc g j es"
  using assms journal_log_elsewhere [OF _ assms(2,3)] unfolding journal_holds_def by blast

section \<open>Writing file data\<close>

lemma checkpoint_ok:
  assumes "journal_holds crc (dm_file d) (dm_journal d) es"
  shows "journal_holds crc (dm_file (checkpoint crc d)) (dm_journal (checkpoint crc d))
      (if needs_checkpoint (dm_journal d) then [] else es)"
    and "agree_outside JOURNAL_OFFSET JOURNAL_END (dm_file d) (dm_file (checkpoint crc d))"
    and "\<not> needs_checkpoint (dm_journal (checkpoint crc d))"
    and "dm_superblock (checkpoint crc d) = dm_superblock d" "dm_free_list (checkpoint crc d) = dm_free_list d"
      "dm_inode_table (checkpoint crc d) = dm_inode_table d"
proof -
  obtain j f where c: "journal_clear crc (dm_journal d) (dm_file d) = (j, f)" by fastforce
  have eq: "checkpoint crc d = (if needs_checkpoint (dm_journal d) then d\<lparr>dm_journal := j, dm_file := f\<rparr> else d)"
    by (simp add: checkpoint_def c)
  note h = journal_clear_holds [OF assms c]
  show "journal_holds crc (dm_file (checkpoint crc d)) (dm_journal (checkpoint crc d))
      (if needs_checkpoint (dm_journal d) then [] else es)"
    using h(1) assms by (simp add: eq)
  show "agree_outside JOURNAL_OFFSET JOURNAL_END (dm_file d) (dm_file (checkpoint crc d))"
    using h(2) by (simp add: eq)
  have "j_next_slot j = 0" using h(1) by (simp add: journal_holds_def)
  then show "\<not> needs_checkpoint (dm_journal (checkpoint crc d))"
    by (simp add: eq needs_checkpoint_def MAX_JOURNAL_ENTRIES_def)
  show "dm_superblock (checkpoint crc d) = dm_superblock d" "dm_free_list (checkpoint crc d) = dm_free_list d"
      "dm_inode_table (checkpoint crc d) = dm_inode_table d"
    by (simp_all add: eq)
qed

lemma write_file_data_ok:
  assumes "journal_holds crc (dm_file d) (dm_journal d) es" and "data \<noteq> []"
    and "length es + length (chunks JOURNAL_PAYLOAD_SIZE data) + 1 \<le> MAX_JOURNAL_ENTRIES"
    and "JOURNAL_END \<le> unat off"
  obtains d' es' where "write_file_data crc off data d = (Inr (), d')"
    and "journal_holds crc (dm_file d') (dm_journal d') es'" and "\<not> needs_checkpoint (dm_journal d')"
    and "\<forall>i. i < JOURNAL_OFFSET \<or> JOURNAL_END \<le> i \<longrightarrow> fget (dm_file d') i = fget (fwrite (dm_file d) (unat off) data) i"
    and "flen (dm_file d') = flen (fwrite (dm_file d) (unat off) data)"
    and "dm_superblock d' = dm_superblock d" and "dm_free_list d' = dm_free_list d"
    and "dm_inode_table d' = dm_inode_table d"
proof -
  obtain tx j where b: "journal_begin (dm_journal d) = (tx, j)" by fastforce
  note h0 = begin_holds [OF assms(1) b]
  obtain j1 f1 j2 f2 n where log: "log_data_write_all crc tx off data j (dm_file d) = (Inr n, j1, f1)"
    "journal_commit crc tx j1 f1 = (Inr (), j2, f2)"
    and h2: "journal_holds crc f2 j2 (es @ data_entries tx off (chunks JOURNAL_PAYLOAD_SIZE data) @ [commit_entry tx])"
    and a2: "agree_outside JOURNAL_OFFSET JOURNAL_END (dm_file d) f2"
    by (rule data_txn_holds [OF h0 assms(3,2)])
  let ?f3 = "fwrite f2 (unat off) data"
  let ?d3 = "d\<lparr>dm_journal := j2, dm_file := ?f3\<rparr>"
  have h3: "journal_holds crc (dm_file ?d3) (dm_journal ?d3)
      (es @ data_entries tx off (chunks JOURNAL_PAYLOAD_SIZE data) @ [commit_entry tx])"
    using assms(4) flen_fwrite_mono by (auto intro!: journal_holds_elsewhere [OF h2] simp: fget_fwrite)
  note c = checkpoint_ok [OF h3]
  have run: "write_file_data crc off data d = (Inr (), checkpoint crc ?d3)"
    using assms(2) b log by (simp add: write_file_data_def write_bytes_def Let_def)
  have len: "JOURNAL_END \<le> flen (dm_file d)"
    using assms(1) journal_log_flen by (auto simp: journal_holds_def)
  show thesis
  proof (rule that [OF run c(1,3)])
    show "\<forall>i. i < JOURNAL_OFFSET \<or> JOURNAL_END \<le> i
        \<longrightarrow> fget (dm_file (checkpoint crc ?d3)) i = fget (fwrite (dm_file d) (unat off) data) i"
      using c(2) a2 by (auto simp: agree_outside_def fget_fwrite)
    have "flen f2 = flen (dm_file d)" using agree_outside_flen [OF a2 len] .
    moreover have "flen (dm_file (checkpoint crc ?d3)) = flen ?f3"
      using agree_outside_flen [OF c(2)] len \<open>flen f2 = flen (dm_file d)\<close> flen_fwrite_mono [of f2 "unat off" data] by simp
    ultimately show "flen (dm_file (checkpoint crc ?d3)) = flen (fwrite (dm_file d) (unat off) data)"
      by (simp add: flen_fwrite)
  qed (simp_all add: c(4-6))
qed

section \<open>Writing and freeing inodes\<close>

text \<open>The inode blocks avoid the journal.\<close>

definition blocks_ok :: "inode_table \<Rightarrow> bool" where
  "blocks_ok t \<longleftrightarrow> (\<forall>i < block_count t. block_start t i + INODE_BLOCK_SIZE \<le> JOURNAL_OFFSET \<or> JOURNAL_END \<le> block_start t i)"

lemma slot_outside_journal:
  assumes "blocks_ok t" and "i < it_capacity t"
  shows "slot_pos t i + INODE_BYTES \<le> JOURNAL_OFFSET \<or> JOURNAL_END \<le> slot_pos t i"
proof -
  have "slot_pos t i + INODE_BYTES \<le> block_start t (block_for i) + INODE_BLOCK_SIZE"
    using slot_in_block_lt [of i] by (simp add: slot_pos_def inode_layout_defs)
  moreover have "block_start t (block_for i) \<le> slot_pos t i"
    by (simp add: slot_pos_def)
  moreover have "block_start t (block_for i) + INODE_BLOCK_SIZE \<le> JOURNAL_OFFSET \<or> JOURNAL_END \<le> block_start t (block_for i)"
    using assms block_for_lt [OF assms(2)] by (simp add: blocks_ok_def)
  ultimately show ?thesis by linarith
qed

lemma capacity_max: "it_inv t f \<Longrightarrow> it_capacity t \<le> MAX_FILES"
  using block_count_le [of t f] by (simp add: it_capacity_def MAX_FILES_def inode_layout_defs)

lemma inode_entry:
  fixes crc :: "bytes \<Rightarrow> u32" and tx :: u32
  assumes "inode_wf n" and "unat off = pos"
  defines "e \<equiv> entry_with ENTRY_WRITE_INODE tx off (inode_to_bytes crc n)"
  shows "entry_ok e" and "\<not> entry_is_free e" and "entry_at e = pos" and "entry_data e = inode_to_bytes crc n"
    and "txn_entries tx [e]"
proof -
  have len: "length (inode_to_bytes crc n) = 256" by (rule length_inode_bytes [OF assms(1)])
  have "take 256 (put (zeros JOURNAL_PAYLOAD_SIZE) 0 (inode_to_bytes crc n)) = inode_to_bytes crc n"
    using len by (simp add: put_def)
  then show "entry_data e = inode_to_bytes crc n"
    by (simp add: e_def entry_data_def len) (simp add: entry_with_def)
  show "entry_ok e" "\<not> entry_is_free e" "entry_at e = pos" "txn_entries tx [e]"
    using assms(2) len by (simp_all add: e_def entry_ok_def JOURNAL_PAYLOAD_SIZE_def entry_is_free_def
        entry_kind_defs entry_at_def txn_entries_def)
qed

lemma write_inode_ok:
  assumes "journal_holds crc (dm_file d) (dm_journal d) es" and "length es + 2 \<le> MAX_JOURNAL_ENTRIES"
    and "it_inv (dm_inode_table d) (dm_file d)" and "blocks_ok (dm_inode_table d)"
    and "i < inode_capacity d" and "inode_wf n"
  obtains d' tx off e where "dm_write_inode crc i n d = (Inr (), d')"
    and "e = entry_with ENTRY_WRITE_INODE tx off (inode_to_bytes crc n)" and "unat off = slot_pos (dm_inode_table d) i"
    and "journal_holds crc (dm_file d') (dm_journal d') (if MAX_JOURNAL_ENTRIES - 16 \<le> length es + 2 then [] else es @ [e, commit_entry tx])"
    and "\<forall>k. k < JOURNAL_OFFSET \<or> JOURNAL_END \<le> k \<longrightarrow> fget (dm_file d') k
           = fget (fwrite (dm_file d) (slot_pos (dm_inode_table d) i) (inode_to_bytes crc n)) k"
    and "flen (dm_file d') = flen (dm_file d)"
    and "dm_superblock d' = dm_superblock d" and "dm_free_list d' = dm_free_list d"
    and "dm_inode_table d' = dm_inode_table d" and "tx = jh_next_tx_id (j_header (dm_journal d))"
proof -
  let ?t = "dm_inode_table d"
  have i: "i < it_capacity ?t" using assms(5) by (simp add: inode_capacity_def)
  note pos = inode_offset_inside [OF assms(3) i]
  obtain off where off: "inode_offset ?t i = Some off" "unat off = slot_pos ?t i" using pos(1) by blast
  obtain tx j where b: "journal_begin (dm_journal d) = (tx, j)" by fastforce
  note h0 = begin_holds [OF assms(1) b]
  let ?e = "entry_with ENTRY_WRITE_INODE tx off (inode_to_bytes crc n)"
  note e = inode_entry [OF assms(6) off(2), where tx = tx and crc = crc]
  have len: "length (inode_to_bytes crc n) = 256" by (rule length_inode_bytes [OF assms(6)])
  have ewf: "entry_wf ?e" using e(1) by (simp add: entry_ok_def)
  have room: "length es < MAX_JOURNAL_ENTRIES" "length (es @ [?e]) < MAX_JOURNAL_ENTRIES"
    using assms(2) by auto
  obtain j1 f1 where w: "write_entry crc ?e j (dm_file d) = (Inr (), j1, f1)"
    "journal_holds crc f1 j1 (es @ [?e])" "agree_outside JOURNAL_OFFSET JOURNAL_END (dm_file d) f1"
    by (rule write_entry_holds [OF h0 room(1) ewf e(2)])
  obtain j2 f2 where c: "journal_commit crc tx j1 f1 = (Inr (), j2, f2)"
    "journal_holds crc f2 j2 ((es @ [?e]) @ [commit_entry tx])" "agree_outside JOURNAL_OFFSET JOURNAL_END f1 f2"
    by (rule commit_holds [OF w(2) room(2)])
  have flen: "JOURNAL_END \<le> flen (dm_file d)" "JOURNAL_END \<le> flen f1"
    using assms(1) w(2) journal_log_flen by (auto simp: journal_holds_def)
  have f2: "flen f2 = flen (dm_file d)"
    using agree_outside_flen [OF w(3) flen(1)] agree_outside_flen [OF c(3) flen(2)] by simp
  let ?f3 = "fwrite f2 (slot_pos ?t i) (inode_to_bytes crc n)"
  let ?d3 = "d\<lparr>dm_journal := j2, dm_file := ?f3\<rparr>"
  have f3: "flen ?f3 = flen (dm_file d)"
    using pos(3) f2 len by (simp add: INODE_BYTES_def)
  have h3: "journal_holds crc (dm_file ?d3) (dm_journal ?d3) (es @ [?e, commit_entry tx])"
  proof (rule journal_holds_elsewhere [where f = f2])
    show "journal_holds crc f2 (dm_journal ?d3) (es @ [?e, commit_entry tx])" using c(2) by simp
    show "fget (dm_file ?d3) k = fget f2 k" if "JOURNAL_OFFSET \<le> k" "k < JOURNAL_END" for k
      using slot_outside_journal [OF assms(4) i] that len by (auto simp: fget_fwrite INODE_BYTES_def)
    show "flen f2 \<le> flen (dm_file ?d3)" using f2 f3 by simp
  qed
  note ck = checkpoint_ok [OF h3]
  have run: "dm_write_inode crc i n d = (Inr (), checkpoint crc ?d3)"
    using i capacity_max [OF assms(3)] off b w(1) c(1) len
    by (simp add: dm_write_inode_def log_inode_write_at_def it_write_inode_def write_bytes_def JOURNAL_PAYLOAD_SIZE_def Let_def)
  have nc: "needs_checkpoint (dm_journal ?d3) \<longleftrightarrow> MAX_JOURNAL_ENTRIES - 16 \<le> length es + 2"
    using h3 by (simp add: needs_checkpoint_def journal_holds_def)
  show thesis
  proof (rule that [OF run refl off(2)])
    show "journal_holds crc (dm_file (checkpoint crc ?d3)) (dm_journal (checkpoint crc ?d3))
        (if MAX_JOURNAL_ENTRIES - 16 \<le> length es + 2 then [] else es @ [?e, commit_entry tx])"
      using ck(1) unfolding nc .
    show "\<forall>k. k < JOURNAL_OFFSET \<or> JOURNAL_END \<le> k \<longrightarrow> fget (dm_file (checkpoint crc ?d3)) k
        = fget (fwrite (dm_file d) (slot_pos ?t i) (inode_to_bytes crc n)) k"
      using ck(2) w(3) c(3) by (auto simp: agree_outside_def fget_fwrite)
    have "JOURNAL_END \<le> flen (dm_file ?d3)" using flen(1) f3 by simp
    from agree_outside_flen [OF ck(2) this] f3
    show "flen (dm_file (checkpoint crc ?d3)) = flen (dm_file d)" by simp
    show "tx = jh_next_tx_id (j_header (dm_journal d))" using b by (simp add: journal_begin_def Let_def)
  qed (simp_all add: ck(4-6))
qed

section \<open>Opening an image\<close>

text \<open>What \<open>open\<close> reads of block 0.\<close>

lemma block0_cong:
  assumes "\<And>i. i < 4096 \<Longrightarrow> fget g i = fget f i" and "4096 \<le> flen f" and "4096 \<le> flen g"
  shows "fl_load crc g = fl_load crc f" and "it_open g o1 e = it_open f o1 e"
    and "read_bytes g SUPERBLOCK_OFFSET SUPERBLOCK_BYTES = read_bytes f SUPERBLOCK_OFFSET SUPERBLOCK_BYTES"
proof -
  have rd: "fread g off n = fread f off n" if "off + n \<le> 4096" for off n
    using that assms by (auto simp: fread_def)
  have hdr: "read_bytes g FREE_LIST_OFFSET FREE_LIST_HEADER = read_bytes f FREE_LIST_OFFSET FREE_LIST_HEADER"
    by (simp add: read_bytes_def rd FREE_LIST_OFFSET_def FREE_LIST_HEADER_def)
  have vec: "read_vec g (FREE_LIST_OFFSET + FREE_LIST_HEADER) (n * FREE_EXTENT_SIZE)
      = read_vec f (FREE_LIST_OFFSET + FREE_LIST_HEADER) (n * FREE_EXTENT_SIZE)" if "\<not> MAX_PERSISTED_EXTENTS < n" for n
    using that by (simp add: read_vec_def rd FREE_LIST_OFFSET_def FREE_LIST_HEADER_def FREE_EXTENT_SIZE_def MAX_PERSISTED_EXTENTS_def)
  show "fl_load crc g = fl_load crc f"
    unfolding fl_load_def hdr Let_def by (simp add: vec split: sum.split)
  show "it_open g o1 e = it_open f o1 e"
    by (simp add: it_open_def read_bytes_def rd inode_layout_defs)
  show "read_bytes g SUPERBLOCK_OFFSET SUPERBLOCK_BYTES = read_bytes f SUPERBLOCK_OFFSET SUPERBLOCK_BYTES"
    by (simp add: read_bytes_def rd SUPERBLOCK_OFFSET_def SUPERBLOCK_BYTES_def)
qed

lemma log_ok_apply:
  assumes "log_ok es"
  shows "replay_all (entries_to_replay es) f = (Inr (), fold apply_entry (entries_to_replay es) f)"
    and "i < 4096 \<or> JOURNAL_OFFSET \<le> i \<and> i < JOURNAL_END
      \<Longrightarrow> fget (fold apply_entry (entries_to_replay es) f) i = fget f i"
  using assms by (auto simp: log_ok_def intro!: replay_all_apply apply_untouched)

lemma dm_open_ok:
  assumes "read_bytes f SUPERBLOCK_OFFSET SUPERBLOCK_BYTES = Inr (superblock_to_bytes crc sb)" and "sb_magic sb = MAGIC"
    and "journal_log crc f h es" and "log_ok es"
    and "it_open f (of_nat INODE_TABLE_OFFSET) (sb_next_data_offset sb) = Inr t"
  obtains d where "dm_open crc f = (Inr d, dm_file d)"
    and "dm_superblock d = sb\<lparr>sb_crc32 := crc (superblock_body sb)\<rparr>"
    and "dm_free_list d = (case fl_load crc f of Inr fl \<Rightarrow> fl | Inl _ \<Rightarrow> fl_new)" and "dm_inode_table d = t"
    and "journal_holds crc (dm_file d) (dm_journal d) (if entries_to_replay es = [] then es else [])"
    and "\<forall>i. i < JOURNAL_OFFSET \<or> JOURNAL_END \<le> i
           \<longrightarrow> fget (dm_file d) i = fget (fold apply_entry (entries_to_replay es) f) i"
    and "flen f \<le> flen (dm_file d)"
proof -
  let ?r = "entries_to_replay es" and ?sb = "sb\<lparr>sb_crc32 := crc (superblock_body sb)\<rparr>"
  let ?g = "fold apply_entry ?r f" and ?j = "\<lparr>j_header = h, j_next_slot = length es\<rparr>"
  obtain j' g' where cl: "(if 0 < length ?r then journal_clear crc ?j ?g else (?j, ?g)) = (j', g')" by fastforce
  have lenf: "JOURNAL_END \<le> flen f" by (rule journal_log_flen [OF assms(3)])
  have leng: "flen f \<le> flen ?g" by (rule apply_flen_mono)
  have log_g: "journal_log crc ?g h es"
    by (rule journal_log_elsewhere [OF assms(3) _ leng]) (use log_ok_apply(2) [OF assms(4)] in auto)
  then have hold_g: "journal_holds crc ?g ?j es"
    by (auto simp: journal_holds_def journal_log_def)
  have jg: "journal_holds crc g' j' (if ?r = [] then es else [])" and ag: "agree_outside JOURNAL_OFFSET JOURNAL_END ?g g'"
    using journal_clear_holds [OF hold_g, of j' g'] hold_g cl by (auto split: if_splits)
  have big: "(4096 :: nat) \<le> JOURNAL_OFFSET" "(4096 :: nat) \<le> JOURNAL_END"
    by (simp_all add: JOURNAL_END_def journal_layout_defs)
  have b0: "fget g' i = fget f i" if "i < 4096" for i
    using that ag log_ok_apply(2) [OF assms(4), of i f] big by (auto simp: agree_outside_def)
  have leng': "flen f \<le> flen g'" using leng ag by (auto simp: agree_outside_def)
  have "4096 \<le> flen f" "4096 \<le> flen g'" using lenf leng' big by auto
  note cong = block0_cong [OF b0 this]
  let ?d = "\<lparr>dm_file = g', dm_superblock = ?sb, dm_journal = j',
      dm_free_list = (case fl_load crc f of Inr fl \<Rightarrow> fl | Inl _ \<Rightarrow> fl_new), dm_inode_table = t\<rparr>"
  have run: "dm_open crc f = (Inr ?d, dm_file ?d)"
  proof -
    have "superblock_from_bytes crc (superblock_to_bytes crc sb) = Inr ?sb"
      by (simp add: superblock.dec_enc)
    then show ?thesis
      unfolding dm_open_def assms(1) using assms(2,5)
      by (simp only: sum.case journal_open_log [OF assms(3)] log_ok_apply(1) [OF assms(4)] prod.case Let_def cl
          cong(1,2) if_False simp_thms not_True_eq_False superblock_raw.simps disk_manager.simps)
        simp
  qed
  show thesis
  proof (rule that [OF run])
    show "journal_holds crc (dm_file ?d) (dm_journal ?d) (if ?r = [] then es else [])" using jg by simp
    show "\<forall>i. i < JOURNAL_OFFSET \<or> JOURNAL_END \<le> i \<longrightarrow> fget (dm_file ?d) i = fget ?g i"
      using ag by (auto simp: agree_outside_def)
    show "flen f \<le> flen (dm_file ?d)" using leng' by simp
  qed simp_all
qed

section \<open>Flushing\<close>

lemma dm_open_shape:
  assumes "dm_open crc f = (Inr d, g)"
  shows "length (it_blocks (dm_inode_table d)) = MAX_INODE_BLOCKS" and "4096 \<le> flen (dm_file d)" and "dm_file d = g"
proof -
  obtain h o' e where t: "it_open h o' e = Inr (dm_inode_table d)" "dm_file d = h" "h = g"
    using assms by (auto simp: dm_open_def Let_def split: sum.splits if_splits prod.splits)
  then obtain b where "fread h 3584 512 = Some b"
    by (auto simp: it_open_def read_bytes_def inode_layout_defs split: sum.splits option.splits)
  then show "4096 \<le> flen (dm_file d)" using t by (simp add: fread_def split: if_splits)
  show "length (it_blocks (dm_inode_table d)) = MAX_INODE_BLOCKS"
    using t by (auto simp: it_open_def MAX_INODE_BLOCKS_def split: sum.splits dest!: sym [where t = "dm_inode_table d"])
  show "dm_file d = g" using t by simp
qed

lemma flush_ok:
  fixes crc :: "bytes \<Rightarrow> u32"
  assumes "length (it_blocks (dm_inode_table d)) = MAX_INODE_BLOCKS" and "4096 \<le> flen (dm_file d)"
  defines "g \<equiv> dm_file (dm_flush crc d)"
  shows "read_bytes g SUPERBLOCK_OFFSET SUPERBLOCK_BYTES = Inr (superblock_to_bytes crc (dm_superblock d))"
    and "length (dm_free_list d) \<le> 190 \<Longrightarrow> fl_load crc g = Inr (dm_free_list d)"
    and "hd (it_blocks (dm_inode_table d)) = o1
      \<Longrightarrow> it_open g o1 e = Inr \<lparr>it_blocks = it_blocks (dm_inode_table d), it_used = 0, it_next_end = e\<rparr>"
    and "\<And>i. 4096 \<le> i \<Longrightarrow> fget g i = fget (dm_file d) i" and "flen g = flen (dm_file d)"
    and "sub (concat (map u64_to_le (it_blocks (dm_inode_table d)))) 0 n = map (fget g) [3584..<3584 + min n 512]"
proof -
  let ?t = "dm_inode_table d" and ?fl = "dm_free_list d"
  let ?dir = "concat (map u64_to_le (it_blocks ?t))"
  let ?f1 = "fwrite (dm_file d) 0 (superblock_to_bytes crc (dm_superblock d))"
  let ?f2 = "fl_save crc ?fl ?f1"
  have g: "g = fwrite ?f2 3584 ?dir"
    by (simp add: g_def dm_flush_def write_superblock_def write_bytes_def SUPERBLOCK_OFFSET_def Let_def
        save_directory_fwrite [OF assms(1)] INODE_BLOCK_DIR_OFFSET_def)
  have dir: "length ?dir = 512" by (rule length_dir_bytes [OF assms(1)])
  have sbl: "length (superblock_to_bytes crc (dm_superblock d)) = 64" by (simp add: superblock.enc_width)
  let ?n = "min (length ?fl) MAX_PERSISTED_EXTENTS"
  let ?x = "concat (map extent_to_bytes (take ?n ?fl))"
  have x: "length ?x = 16 * ?n" by (simp add: length_concat_extents)
  have f2: "?f2 = fwrite (fwrite ?f1 512 (fl_header crc ?n ?x)) 544 ?x"
    by (simp add: fl_save_def FREE_LIST_OFFSET_def FREE_LIST_HEADER_def Let_def)
  have n200: "16 * ?n \<le> 3200" by (simp add: MAX_PERSISTED_EXTENTS_def)
  have get2: "fget ?f2 i = fget ?f1 i" if "i < 512 \<or> 3744 \<le> i" for i
    using that x n200 by (auto simp: f2 fget_fwrite)
  have len1: "flen ?f1 = flen (dm_file d)" using assms(2) sbl by simp
  have len2: "flen ?f2 = flen (dm_file d)"
    unfolding f2 using assms(2) len1 x n200 by simp
  show leng: "flen g = flen (dm_file d)" using assms(2) len2 dir by (simp add: g)
  show "fget g i = fget (dm_file d) i" if "4096 \<le> i" for i
    using that get2 [of i] dir sbl by (simp add: g fget_fwrite)
  have "fread g 0 64 = Some (superblock_to_bytes crc (dm_superblock d))"
  proof -
    have "fread g 0 64 = fread ?f1 0 64"
      using assms(2) leng len1 dir get2 by (auto simp: fread_def g fget_fwrite)
    also have "\<dots> = Some (superblock_to_bytes crc (dm_superblock d))"
      by (rule superblock.load_store) simp
    finally show ?thesis .
  qed
  then show "read_bytes g SUPERBLOCK_OFFSET SUPERBLOCK_BYTES = Inr (superblock_to_bytes crc (dm_superblock d))"
    by (simp add: read_bytes_def SUPERBLOCK_OFFSET_def SUPERBLOCK_BYTES_def)
  show "it_open g o1 e = Inr \<lparr>it_blocks = it_blocks ?t, it_used = 0, it_next_end = e\<rparr>" if "hd (it_blocks ?t) = o1"
  proof -
    have "g = save_directory ?t ?f2"
      by (simp add: g save_directory_fwrite [OF assms(1)] INODE_BLOCK_DIR_OFFSET_def)
    then show ?thesis using open_save_directory [OF assms(1) that] by simp
  qed
  show "fl_load crc g = Inr ?fl" if small: "length ?fl \<le> 190"
  proof -
    have "fl_load crc g = fl_load crc ?f2"
    proof -
      have cnt: "unat (of_nat (length ?fl) :: u32) = length ?fl" using small by (simp add: unat_of_nat)
      have rd: "fread g off k = fread ?f2 off k" if "off + k \<le> 3584" for off k
        using that leng len2 by (auto simp: fread_def g fget_fwrite)
      have n: "?n = length ?fl" using small by (simp add: MAX_PERSISTED_EXTENTS_def)
      have h: "fread ?f2 512 32 = Some (fl_header crc ?n ?x)"
        unfolding f2 using assms(2) len1
        by (subst fread_fwrite_other) (auto simp: flen_fwrite intro!: fread_fwrite_same simp flip: length_0_conv)
      then have hg: "fread g 512 32 = Some (fl_header crc ?n ?x)" using rd [of 512 32] by simp
      have "read_vec g 544 (16 * length ?fl) = read_vec ?f2 544 (16 * length ?fl)"
        using small by (simp add: read_vec_def rd)
      then show ?thesis
        using h hg n
        by (simp add: fl_load_def read_bytes_def FREE_LIST_OFFSET_def FREE_LIST_HEADER_def FREE_EXTENT_SIZE_def
            Let_def fl_header_layout sub_simps cnt mult.commute)
    qed
    also have "\<dots> = Inr ?fl"
      using small by (intro fl_load_save) (simp add: MAX_PERSISTED_EXTENTS_def)
    finally show ?thesis .
  qed
  show "sub ?dir 0 n = map (fget g) [3584..<3584 + min n 512]"
    using dir by (intro nth_equalityI) (auto simp: g fget_fwrite sub_def)
qed

section \<open>Formatting\<close>

lemma dm_format_ok:
  fixes crc :: "bytes \<Rightarrow> u32" and now sz :: u64 and f :: image
  defines "d \<equiv> dm_format crc now sz f"
  shows "journal_holds crc (dm_file d) (dm_journal d) []" and "it_inv (dm_inode_table d) (dm_file d)"
    and "blocks_ok (dm_inode_table d)" and "inode_capacity d = 1024" and "dm_free_list d = []"
    and "it_blocks (dm_inode_table d) = 4096 # replicate 63 0"
    and "sb_magic (dm_superblock d) = MAGIC" and "sb_next_data_offset (dm_superblock d) = of_nat DATA_OFFSET"
    and "it_next_end (dm_inode_table d) = of_nat DATA_OFFSET"
    and "jh_next_tx_id (j_header (dm_journal d)) = 1"
proof -
  let ?t = "it_new (of_nat INODE_TABLE_OFFSET) (of_nat DATA_OFFSET)"
  obtain f0 j f1 where j: "journal_format crc f0 = (j, f1)" and d: "dm_file d = save_directory ?t f1" "dm_journal d = j"
    "dm_inode_table d = ?t" "dm_free_list d = []" "sb_magic (dm_superblock d) = MAGIC"
    "sb_next_data_offset (dm_superblock d) = of_nat DATA_OFFSET"
    by (cases "journal_format crc (write_bytes (write_bytes (write_bytes f SUPERBLOCK_OFFSET (superblock_to_bytes crc
        \<lparr>sb_magic = MAGIC, sb_version = 1, sb_block_size = of_nat BLOCK_SIZE,
            sb_total_blocks = sz div of_nat BLOCK_SIZE, sb_free_blocks = sz div of_nat BLOCK_SIZE, sb_inode_count = 0,
            sb_next_data_offset = of_nat DATA_OFFSET, sb_created_at = now, sb_crc32 = 0\<rparr>))
        INODE_TABLE_OFFSET (zeros (INODES_PER_BLOCK * INODE_SIZE)))
        SNAPSHOT_TABLE_OFFSET (zeros (MAX_SNAPSHOT_SLOTS * SNAPSHOT_RECORD_SIZE)))")
      (simp add: d_def dm_format_def Let_def fl_new_def)
  note h = journal_format_holds(1) [OF j]
  have blocks: "length (it_blocks ?t) = MAX_INODE_BLOCKS" by (simp add: it_new_def)
  have end1: "JOURNAL_END \<le> flen f1" using h journal_log_flen by (auto simp: journal_holds_def)
  have flen: "flen f1 \<le> flen (dm_file d)"
    unfolding d(1) save_directory_fwrite [OF blocks] by (rule flen_fwrite_mono)
  show "journal_holds crc (dm_file d) (dm_journal d) []"
    unfolding d(2)
    by (rule journal_holds_elsewhere [OF h _ flen])
      (simp add: d(1) save_directory_fwrite [OF blocks] fget_fwrite length_dir_bytes [OF blocks]
        INODE_BLOCK_DIR_OFFSET_def journal_layout_defs)
  have base: "unat (of_nat INODE_TABLE_OFFSET :: u64) = 4096"
    by (simp add: INODE_TABLE_OFFSET_def)
  have big: "4096 + INODE_BLOCK_SIZE \<le> flen (dm_file d)"
    using end1 flen by (simp add: DATA_OFFSET_value inode_layout_defs)
  show inv: "it_inv (dm_inode_table d) (dm_file d)"
    unfolding d(3) by (rule it_new_inv(1) [OF base big])
  have count: "block_count ?t = 1"
    by (rule it_new_inv(2) [OF base big])
  then show "inode_capacity d = 1024"
    by (simp add: inode_capacity_def d(3) it_capacity_def INODES_PER_BLOCK_def)
  show eq: "it_blocks (dm_inode_table d) = 4096 # replicate 63 0"
    by (simp add: d(3) it_new_def MAX_INODE_BLOCKS_def INODE_TABLE_OFFSET_def numeral_eq_Suc)
  show "blocks_ok (dm_inode_table d)"
    using count base by (simp add: blocks_ok_def d(3) block_start_def it_new_def MAX_INODE_BLOCKS_def
        INODE_TABLE_OFFSET_def inode_layout_defs journal_layout_defs)
  show "dm_free_list d = []" "sb_magic (dm_superblock d) = MAGIC"
    "sb_next_data_offset (dm_superblock d) = of_nat DATA_OFFSET" "it_next_end (dm_inode_table d) = of_nat DATA_OFFSET"
    by (simp_all add: d it_new_def)
  show "jh_next_tx_id (j_header (dm_journal d)) = 1"
    using j by (auto simp: d(2) journal_format_def header_new_def Let_def)
qed

definition sample_disk :: disk_manager where
  "sample_disk = dm_format sum_crc 0 1000000 (blank_file 1000000)"

lemmas sample_disk_ok = dm_format_ok [where crc = sum_crc and now = 0 and sz = 1000000 and f = "blank_file 1000000",
  folded sample_disk_def]

section \<open>Properties\<close>

text \<open>Data written to the data region through the journal is read back unchanged, and no byte outside
  the written range and the journal changes.\<close>

theorem write_then_read_data:
  assumes "journal_holds crc (dm_file d) (dm_journal d) es" and "data \<noteq> []"
    and "length es + length (chunks JOURNAL_PAYLOAD_SIZE data) + 1 \<le> MAX_JOURNAL_ENTRIES"
    and "DATA_OFFSET \<le> unat off" and "write_file_data crc off data d = (r, d')"
  shows "r = Inr () \<and> read_file_data off (length data) d' = Inr data
    \<and> (\<forall>i. (i < JOURNAL_OFFSET \<or> JOURNAL_END \<le> i) \<and> (i < unat off \<or> unat off + length data \<le> i)
         \<longrightarrow> fget (dm_file d') i = fget (dm_file d) i)"
proof -
  have "JOURNAL_END \<le> unat off" using assms(4) by (simp add: DATA_OFFSET_value)
  obtain d1 es1 where w: "write_file_data crc off data d = (Inr (), d1)"
    and get: "\<forall>i. i < JOURNAL_OFFSET \<or> JOURNAL_END \<le> i \<longrightarrow> fget (dm_file d1) i = fget (fwrite (dm_file d) (unat off) data) i"
    and len: "flen (dm_file d1) = flen (fwrite (dm_file d) (unat off) data)"
    by (rule write_file_data_ok [OF assms(1-3) \<open>JOURNAL_END \<le> unat off\<close>])
  have eq: "r = Inr ()" "d' = d1" using w assms(5) by auto
  have "read_vec (dm_file d1) (unat off) (length data) = read_vec (fwrite (dm_file d) (unat off) data) (unat off) (length data)"
    using get \<open>JOURNAL_END \<le> unat off\<close> len
    by (simp add: read_vec_def fread_cong [of "dm_file d1" "fwrite (dm_file d) (unat off) data"])
  with eq get show ?thesis
    by (auto simp: read_file_data_def read_vec_fwrite fget_fwrite)
qed

theorem write_then_read_data_witness:
  "let (r, d) = write_file_data sum_crc 700000 [1, 2, 3] sample_disk
   in r = Inr () \<and> read_file_data 700000 (length [1 :: u8, 2, 3]) d = Inr [1, 2, 3]"
proof -
  obtain r d where run: "write_file_data sum_crc 700000 [1, 2, 3] sample_disk = (r, d)" by fastforce
  have "chunks JOURNAL_PAYLOAD_SIZE [1, 2, 3 :: u8] = [[1, 2, 3]]"
    by (simp add: chunks.simps JOURNAL_PAYLOAD_SIZE_def)
  with write_then_read_data [OF sample_disk_ok(1) _ _ _ run] show ?thesis
    by (simp add: run MAX_JOURNAL_ENTRIES_def DATA_OFFSET_value)
qed

text \<open>The images a crash can leave while \<open>write_file_data\<close> runs: any image of the logging phase, or
  one whose data range holds anything at all, because the write in place may be torn.\<close>

definition write_crash :: "(bytes \<Rightarrow> u32) \<Rightarrow> u64 \<Rightarrow> bytes \<Rightarrow> disk_manager \<Rightarrow> image \<Rightarrow> bool" where
  "write_crash crc off data d g \<longleftrightarrow>
     (let (tx, j) = journal_begin (dm_journal d);
          ts = data_entries tx off (chunks JOURNAL_PAYLOAD_SIZE data);
          imgs = crash_images crc (ts @ [commit_entry tx]) j (dm_file d)
      in g \<in> set imgs
         \<or> (flen (last imgs) \<le> flen g \<and> (\<forall>i. i < unat off \<or> unat off + length data \<le> i \<longrightarrow> fget g i = fget (last imgs) i)))"

text \<open>Replaying the log changes nothing outside the journal: every entry is already in place.\<close>

definition settled :: "image \<Rightarrow> journal_entry list \<Rightarrow> bool" where
  "settled f es \<longleftrightarrow> log_ok es \<and> (\<forall>i. i < JOURNAL_OFFSET \<or> JOURNAL_END \<le> i
     \<longrightarrow> fget (fold apply_entry (entries_to_replay es) f) i = fget f i)"

lemma crash_images_last:
  assumes "journal_holds crc f j es" and "length es + length ts \<le> MAX_JOURNAL_ENTRIES"
    and "\<forall>e \<in> set ts. entry_wf e \<and> \<not> entry_is_free e"
  shows "\<exists>h. journal_log crc (last (crash_images crc ts j f)) h (es @ ts)"
    and "crash_images crc ts j f \<noteq> []"
  using assms
proof (induction ts arbitrary: j f es)
  case Nil
  {
    case 1
    then show ?case by (auto simp: journal_holds_def)
  next
    case 2
    then show ?case by simp
  }
next
  case (Cons e ts)
  {
    case 1
    have e: "length es < MAX_JOURNAL_ENTRIES" "entry_wf e" "\<not> entry_is_free e" using 1 by auto
    obtain j' f' where w: "write_entry crc e j f = (Inr (), j', f')" and h: "journal_holds crc f' j' (es @ [e])"
      by (rule write_entry_holds [OF 1(1) e])
    have "\<exists>h. journal_log crc (last (crash_images crc ts j' f')) h ((es @ [e]) @ ts)"
      and ne: "crash_images crc ts j' f' \<noteq> []"
      using Cons.IH [OF h] 1(2,3) by auto
    with w show ?case by simp
  next
    case 2
    then show ?case by (simp add: case_prod_unfold Let_def)
  }
qed

lemma write_crash_recovers:
  assumes "journal_holds crc (dm_file d) (dm_journal d) es" and "settled (dm_file d) es"
    and "jh_next_tx_id (j_header (dm_journal d)) \<notin> je_tx_id ` set es"
    and "length es + length (chunks JOURNAL_PAYLOAD_SIZE data) + 1 \<le> MAX_JOURNAL_ENTRIES"
    and "DATA_OFFSET \<le> unat off" and "unat off + length data < 2 ^ 64"
    and "write_crash crc off data d g"
  shows "\<exists>j r h. journal_open crc g = Inr (j, r) \<and> replay_all r g = (Inr (), h)
    \<and> ((\<forall>i. i < JOURNAL_OFFSET \<or> JOURNAL_END \<le> i \<longrightarrow> fget h i = fget (dm_file d) i)
       \<or> (\<forall>i. i < JOURNAL_OFFSET \<or> JOURNAL_END \<le> i \<longrightarrow> fget h i = fget (fwrite (dm_file d) (unat off) data) i))"
proof -
  let ?f = "dm_file d" and ?cs = "chunks JOURNAL_PAYLOAD_SIZE data" and ?r = "entries_to_replay es"
  obtain tx j where b: "journal_begin (dm_journal d) = (tx, j)" by fastforce
  have tx: "tx \<notin> je_tx_id ` set es" using b assms(3) by (auto simp: journal_begin_def Let_def)
  note h0 = begin_holds [OF assms(1) b]
  let ?ts = "data_entries tx off ?cs" and ?c = "commit_entry tx"
  let ?imgs = "crash_images crc (?ts @ [?c]) j ?f"
  have small: "\<forall>c \<in> set ?cs. length c \<le> JOURNAL_PAYLOAD_SIZE"
    using chunks_bounds [of JOURNAL_PAYLOAD_SIZE] by (auto simp: JOURNAL_PAYLOAD_SIZE_def)
  have cat: "concat ?cs = data" by (rule concat_chunks) (simp add: JOURNAL_PAYLOAD_SIZE_def)
  have wf: "\<forall>e \<in> set (?ts @ [?c]). entry_wf e \<and> \<not> entry_is_free e"
    using data_entries_wf [OF small] by auto
  have room: "length es + length (?ts @ [?c]) \<le> MAX_JOURNAL_ENTRIES" using assms(4) by simp
  have ok: "\<forall>e \<in> set ?r. entry_ok e" "\<forall>e \<in> set ?ts. entry_ok e"
    using assms(2) data_entries_ok [OF small] by (auto simp: settled_def log_ok_def)
  have new: "fget (fold apply_entry ?ts x) i = fget (fwrite x (unat off) data) i" for x i
    using apply_data_entries [OF small, of off tx x i] assms(6) cat by simp
  have old: "fget (fold apply_entry ?r x) i = fget ?f i"
    if "fget x i = fget ?f i" "i < JOURNAL_OFFSET \<or> JOURNAL_END \<le> i" for x i
    using apply_cong [OF that(1), of ?r] assms(2) that(2) by (auto simp: settled_def)
  have lenj: "JOURNAL_END \<le> flen ?f" using assms(1) journal_log_flen by (auto simp: journal_holds_def)
  consider "g \<in> set ?imgs"
    | "flen (last ?imgs) \<le> flen g" "\<forall>i. i < unat off \<or> unat off + length data \<le> i \<longrightarrow> fget g i = fget (last ?imgs) i"
    using assms(7) b by (auto simp: write_crash_def Let_def)
  then show ?thesis
  proof cases
    case 1
    have wf': "\<forall>e \<in> set ?ts. entry_wf e" using wf by auto
    obtain k r where r: "journal_open crc g = Inr (k, r)" "r = ?r \<or> r = ?r @ ?ts"
      using crash_replay [OF h0 _ wf' _ tx 1] assms(4) by auto
    have g: "fget g i = fget ?f i" if "i < JOURNAL_OFFSET \<or> JOURNAL_END \<le> i" for i
      using crash_images_log(2) [OF h0 room wf 1] that by (auto simp: agree_outside_def)
    have run: "replay_all r g = (Inr (), fold apply_entry r g)"
      using r(2) ok by (intro replay_all_apply) auto
    show ?thesis
      using r(2)
    proof
      assume "r = ?r"
      with r(1) run old [OF g] show ?thesis by blast
    next
      assume eq: "r = ?r @ ?ts"
      have "fget (fold apply_entry r g) i = fget (fwrite ?f (unat off) data) i"
        if "i < JOURNAL_OFFSET \<or> JOURNAL_END \<le> i" for i
        using old [OF g [OF that] that] by (simp add: eq new fget_fwrite)
      with r(1) run show ?thesis by blast
    qed
  next
    case 2
    obtain h where log: "journal_log crc (last ?imgs) h (es @ ?ts @ [?c])" and "?imgs \<noteq> []"
      using crash_images_last [OF h0 room wf] by auto
    then have last: "last ?imgs \<in> set ?imgs" by simp
    have "journal_log crc g h (es @ ?ts @ [?c])"
      using 2 assms(5) by (intro journal_log_elsewhere [OF log]) (auto simp: DATA_OFFSET_value)
    then have open_g: "journal_open crc g = Inr (\<lparr>j_header = h, j_next_slot = length (es @ ?ts @ [?c])\<rparr>, ?r @ ?ts)"
      using journal_open_log replay_committed [OF tx, of ?ts] by simp
    have run: "replay_all (?r @ ?ts) g = (Inr (), fold apply_entry (?r @ ?ts) g)"
      using ok by (intro replay_all_apply) auto
    have "fget (fold apply_entry (?r @ ?ts) g) i = fget (fwrite ?f (unat off) data) i"
      if i: "i < JOURNAL_OFFSET \<or> JOURNAL_END \<le> i" for i
    proof (cases "unat off \<le> i \<and> i < unat off + length data")
      case True
      then show ?thesis by (simp add: new fget_fwrite)
    next
      case False
      then have "fget g i = fget ?f i"
        using 2(2) crash_images_log(2) [OF h0 room wf last] i by (auto simp: agree_outside_def)
      from old [OF this i] False show ?thesis by (auto simp: new fget_fwrite)
    qed
    with open_g run show ?thesis by blast
  qed
qed

lemma write_crash_final:
  assumes "journal_holds crc (dm_file d) (dm_journal d) es" and "data \<noteq> []"
    and "length es + length (chunks JOURNAL_PAYLOAD_SIZE data) + 1 \<le> MAX_JOURNAL_ENTRIES"
  shows "\<exists>d1. write_file_data crc off data d = (Inr (), checkpoint crc d1) \<and> write_crash crc off data d (dm_file d1)"
proof -
  obtain tx j where b: "journal_begin (dm_journal d) = (tx, j)" by fastforce
  obtain j1 f1 j2 f2 n where log: "log_data_write_all crc tx off data j (dm_file d) = (Inr n, j1, f1)"
    "journal_commit crc tx j1 f1 = (Inr (), j2, f2)"
    by (rule data_txn_holds [OF begin_holds [OF assms(1) b] assms(3,2)])
  let ?d1 = "d\<lparr>dm_journal := j2, dm_file := fwrite f2 (unat off) data\<rparr>"
  have "write_file_data crc off data d = (Inr (), checkpoint crc ?d1)"
    using assms(2) b log by (simp add: write_file_data_def write_bytes_def Let_def)
  moreover have "write_crash crc off data d (dm_file ?d1)"
    using b crash_images_calls [OF log assms(2)] flen_fwrite_mono
    by (auto simp: write_crash_def fget_fwrite)
  ultimately show ?thesis by blast
qed



text \<open>Opening an image after a flush, with nothing left to replay.\<close>

lemma reopen_flushed:
  assumes "journal_holds crc (dm_file d) (dm_journal d) es" and "entries_to_replay es = []"
    and "it_inv (dm_inode_table d) (dm_file d)" and "hd (it_blocks (dm_inode_table d)) = of_nat INODE_TABLE_OFFSET"
    and "sb_magic (dm_superblock d) = MAGIC" and "length (dm_free_list d) \<le> 190"
  obtains d' where "dm_open crc (dm_file (dm_flush crc d)) = (Inr d', dm_file d')"
    and "dm_superblock d' = (dm_superblock d)\<lparr>sb_crc32 := crc (superblock_body (dm_superblock d))\<rparr>"
    and "dm_free_list d' = dm_free_list d"
    and "dm_inode_table d' = \<lparr>it_blocks = it_blocks (dm_inode_table d), it_used = 0,
      it_next_end = sb_next_data_offset (dm_superblock d)\<rparr>"
    and "journal_holds crc (dm_file d') (dm_journal d') es" and "flen (dm_file d) \<le> flen (dm_file d')"
    and "\<forall>i. 4096 \<le> i \<and> (i < JOURNAL_OFFSET \<or> JOURNAL_END \<le> i) \<longrightarrow> fget (dm_file d') i = fget (dm_file d) i"
proof -
  let ?g = "dm_file (dm_flush crc d)" and ?t = "dm_inode_table d" and ?sb = "dm_superblock d"
  obtain h where log: "journal_log crc (dm_file d) h es" using assms(1) by (auto simp: journal_holds_def)
  have big: "(4096 :: nat) \<le> JOURNAL_OFFSET" "(4096 :: nat) \<le> JOURNAL_END"
    by (simp_all add: JOURNAL_END_def journal_layout_defs)
  have len: "4096 \<le> flen (dm_file d)" using journal_log_flen [OF log] big by simp
  have blocks: "length (it_blocks ?t) = MAX_INODE_BLOCKS" using assms(3) by (simp add: it_inv_def)
  note fl = flush_ok [OF blocks len, where crc = crc]
  have log_g: "journal_log crc ?g h es"
    by (rule journal_log_elsewhere [OF log]) (use fl(4,5) big in auto)
  have log_ok: "log_ok es" using assms(2) by (simp add: log_ok_def)
  obtain d' where o': "dm_open crc ?g = (Inr d', dm_file d')"
    "dm_superblock d' = ?sb\<lparr>sb_crc32 := crc (superblock_body ?sb)\<rparr>"
    "dm_free_list d' = (case fl_load crc ?g of Inr fl \<Rightarrow> fl | Inl _ \<Rightarrow> fl_new)"
    "dm_inode_table d' = \<lparr>it_blocks = it_blocks ?t, it_used = 0, it_next_end = sb_next_data_offset ?sb\<rparr>"
    "journal_holds crc (dm_file d') (dm_journal d') (if entries_to_replay es = [] then es else [])"
    "\<forall>i. i < JOURNAL_OFFSET \<or> JOURNAL_END \<le> i
           \<longrightarrow> fget (dm_file d') i = fget (fold apply_entry (entries_to_replay es) ?g) i"
    "flen ?g \<le> flen (dm_file d')"
    by (rule dm_open_ok [OF fl(1) assms(5) log_g log_ok fl(3) [OF assms(4)]])
  show thesis
    by (rule that [of d']) (use o' fl assms(2,6) in auto)
qed





lemma it_inv_blocks: "it_blocks u = it_blocks t \<Longrightarrow> it_inv u f = it_inv t f"
  by (simp add: it_inv_def block_count_def block_start_def)

lemma slot_pos_blocks: "it_blocks u = it_blocks t \<Longrightarrow> slot_pos u = slot_pos t \<and> it_capacity u = it_capacity t"
  by (auto simp: slot_pos_def block_start_def it_capacity_def block_count_def fun_eq_iff)

text \<open>C24: The journal is not cleared when an image is flushed and closed, and freeing an inode is not
  journaled: opening the image again replays the earlier write of the inode, which is in use again.\<close>

theorem replay_resurrects_freed_inode:
  assumes "journal_holds crc (dm_file d) (dm_journal d) es" and "log_ok es"
    and "jh_next_tx_id (j_header (dm_journal d)) \<notin> je_tx_id ` set es" and "length es + 2 < MAX_JOURNAL_ENTRIES - 16"
    and "it_inv (dm_inode_table d) (dm_file d)" and "blocks_ok (dm_inode_table d)"
    and "hd (it_blocks (dm_inode_table d)) = of_nat INODE_TABLE_OFFSET" and "sb_magic (dm_superblock d) = MAGIC"
    and "i < inode_capacity d" and "inode_wf n"
    and "dm_write_inode crc i n d = (r1, d1)" and "dm_free_inode crc i d1 = (r2, d2)"
  shows "dm_read_inode crc i d2 = Inr (n\<lparr>in_is_used := 0\<rparr>)
    \<and> (\<exists>d3. dm_open crc (dm_file (dm_flush crc d2)) = (Inr d3, dm_file d3) \<and> dm_read_inode crc i d3 = Inr n)"
proof -
  let ?t = "dm_inode_table d" and ?pos = "slot_pos (dm_inode_table d) i" and ?b = "inode_to_bytes crc n"
  have i: "i < it_capacity ?t" "i < MAX_FILES"
    using assms(9) capacity_max [OF assms(5)] by (auto simp: inode_capacity_def)
  have room: "length es + 2 \<le> MAX_JOURNAL_ENTRIES" "\<not> MAX_JOURNAL_ENTRIES - 16 \<le> length es + 2"
    using assms(4) by auto
  obtain D tx off e where run: "dm_write_inode crc i n d = (Inr (), D)"
    and e: "e = entry_with ENTRY_WRITE_INODE tx off ?b" "unat off = ?pos"
    and h: "journal_holds crc (dm_file D) (dm_journal D) (if MAX_JOURNAL_ENTRIES - 16 \<le> length es + 2 then [] else es @ [e, commit_entry tx])"
    and get: "\<forall>k. k < JOURNAL_OFFSET \<or> JOURNAL_END \<le> k \<longrightarrow> fget (dm_file D) k = fget (fwrite (dm_file d) ?pos ?b) k"
    and len: "flen (dm_file D) = flen (dm_file d)" and sb: "dm_superblock D = dm_superblock d" and "dm_free_list D = dm_free_list d"
    and t: "dm_inode_table D = ?t" and tx: "tx = jh_next_tx_id (j_header (dm_journal d))"
    by (rule write_inode_ok [OF assms(1) room(1) assms(5,6,9,10)])
  have D: "D = d1" using run assms(11) by simp
  have h1: "journal_holds crc (dm_file d1) (dm_journal d1) (es @ [e, commit_entry tx])"
    using h room(2) by (simp add: D)
  note get1 = get [unfolded D] and len1 = len [unfolded D] and sb1 = sb [unfolded D] and t1 = t [unfolded D]
  have lenb: "length ?b = 256" by (rule length_inode_bytes [OF assms(10)])
  have inv1: "it_inv ?t (dm_file d1)" using assms(5) len1 by (auto elim: it_inv_flen)
  note outside = slot_outside_journal [OF assms(6) i(1)]
  have bytes: "map (fget f) [?pos..<?pos + INODE_BYTES] = ?b"
    if "\<forall>k. ?pos \<le> k \<and> k < ?pos + INODE_BYTES \<longrightarrow> fget f k = fget (fwrite (dm_file d) ?pos ?b) k" for f
    using that lenb by (intro nth_equalityI) (auto simp: fget_fwrite INODE_BYTES_def)
  have read1: "it_read_inode crc ?t (dm_file d1) i = Inr n"
    unfolding it_read_pos [OF inv1 i(1)] using get1 outside assms(10)
    by (subst bytes) (auto simp: inode.dec_enc)
  obtain f2 where fr: "it_free_inode crc ?t (dm_file d1) i = (r2, f2)" and d2: "d2 = d1\<lparr>dm_file := f2\<rparr>"
    using assms(12) t1 by (auto simp: dm_free_inode_def split: prod.splits)
  note free = it_free_inode_ok [OF inv1 i(1) fr]
  have "inode_at crc ?t (dm_file d1) i = n" using read1 by (simp add: inode_at_def)
  then have read2: "dm_read_inode crc i d2 = Inr (n\<lparr>in_is_used := 0\<rparr>)"
    using it_read_at [OF free(2) i(1), of crc] free(4) i(2) by (simp add: dm_read_inode_def d2 t1)
  have h2: "journal_holds crc f2 (dm_journal d1) (es @ [e, commit_entry tx])"
    using free(3,6) outside by (intro journal_holds_elsewhere [OF h1]) (auto simp: agree_outside_def)
  then obtain h where log2: "journal_log crc f2 h (es @ [e, commit_entry tx])" by (auto simp: journal_holds_def)
  have big: "(4096 :: nat) \<le> JOURNAL_OFFSET" "(4096 :: nat) \<le> JOURNAL_END"
    by (simp_all add: JOURNAL_END_def journal_layout_defs)
  have lenf2: "4096 \<le> flen (dm_file d2)" using journal_log_flen [OF log2] big by (simp add: d2)
  have blocks: "length (it_blocks (dm_inode_table d2)) = MAX_INODE_BLOCKS"
    using assms(5) by (simp add: d2 t1 it_inv_def)
  note fl = flush_ok [OF blocks lenf2, where crc = crc]
  let ?g = "dm_file (dm_flush crc d2)"
  have log3: "journal_log crc ?g h (es @ [e, commit_entry tx])"
    by (rule journal_log_elsewhere [OF log2]) (use fl(4,5) big in \<open>auto simp: d2\<close>)
  note ent = inode_entry [OF assms(10) e(2), where tx = tx and crc = crc, folded e(1)]
  have replay: "entries_to_replay (es @ [e, commit_entry tx]) = entries_to_replay es @ [e]"
    using replay_committed [OF _ ent(5), of es] assms(3) tx by simp
  have log_ok3: "log_ok (es @ [e, commit_entry tx])"
    using assms(2) ent inode_offset_inside(2) [OF assms(5) i(1)] outside lenb
    unfolding log_ok_def replay by (auto simp: INODE_BYTES_def)
  have hd2: "hd (it_blocks (dm_inode_table d2)) = of_nat INODE_TABLE_OFFSET" and magic: "sb_magic (dm_superblock d2) = MAGIC"
    using assms(7,8) sb1 by (simp_all add: d2 t1)
  obtain d3 where op: "dm_open crc ?g = (Inr d3, dm_file d3)"
    and t3: "dm_inode_table d3 = \<lparr>it_blocks = it_blocks (dm_inode_table d2), it_used = 0,
        it_next_end = sb_next_data_offset (dm_superblock d2)\<rparr>"
    and get3: "\<forall>k. k < JOURNAL_OFFSET \<or> JOURNAL_END \<le> k
           \<longrightarrow> fget (dm_file d3) k = fget (fold apply_entry (entries_to_replay (es @ [e, commit_entry tx])) ?g) k"
    and len3: "flen ?g \<le> flen (dm_file d3)"
    by (rule dm_open_ok [OF fl(1) magic log3 log_ok3 fl(3) [OF hd2]])
  have same: "it_blocks (dm_inode_table d3) = it_blocks ?t" by (simp add: t3 d2 t1)
  have "flen (dm_file d) \<le> flen (dm_file d3)" using len3 fl(5) free(3) len1 by (simp add: d2)
  then have inv3: "it_inv (dm_inode_table d3) (dm_file d3)"
    using it_inv_blocks [OF same] it_inv_flen [OF assms(5)] by simp
  note same' = slot_pos_blocks [OF same]
  have last: "fget (dm_file d3) k = fget (fwrite (dm_file d) ?pos ?b) k" if "?pos \<le> k" "k < ?pos + INODE_BYTES" for k
    using get3 that outside lenb ent(3,4) by (auto simp: replay apply_entry_def fget_fwrite INODE_BYTES_def)
  have "it_read_inode crc (dm_inode_table d3) (dm_file d3) i = Inr n"
    using i(1) same' assms(10) last by (subst it_read_pos [OF inv3]) (auto simp: bytes inode.dec_enc)
  with op read2 i(2) show ?thesis by (auto simp: dm_read_inode_def)
qed

theorem replay_resurrects_freed_inode_witness:
  "let n = inode_empty\<lparr>in_ino := 2, in_is_used := 1\<rparr>;
       (r1, d1) = dm_write_inode sum_crc 0 n sample_disk; (r2, d2) = dm_free_inode sum_crc 0 d1
   in dm_read_inode sum_crc 0 d2 = Inr (n\<lparr>in_is_used := 0\<rparr>)
    \<and> (\<exists>d3. dm_open sum_crc (dm_file (dm_flush sum_crc d2)) = (Inr d3, dm_file d3) \<and> dm_read_inode sum_crc 0 d3 = Inr n)"
proof -
  let ?n = "inode_empty\<lparr>in_ino := 2, in_is_used := 1\<rparr>"
  obtain r1 d1 where w: "dm_write_inode sum_crc 0 ?n sample_disk = (r1, d1)" by fastforce
  obtain r2 d2 where f: "dm_free_inode sum_crc 0 d1 = (r2, d2)" by fastforce
  have "inode_wf ?n" by (simp add: inode_wf_def inode_empty_def)
  with replay_resurrects_freed_inode [OF sample_disk_ok(1) _ _ _ sample_disk_ok(2,3) _ sample_disk_ok(7) _ _ w f]
  show ?thesis
    by (simp add: w f sample_disk_ok(4,6) MAX_JOURNAL_ENTRIES_def INODE_TABLE_OFFSET_def)
qed

definition space_inv :: "disk_manager \<Rightarrow> nat set \<Rightarrow> bool" where
  "space_inv d live \<longleftrightarrow> fl_inv (dm_free_list d)
     \<and> fl_space (dm_free_list d) \<subseteq> {..<unat (sb_next_data_offset (dm_superblock d))}
     \<and> live \<subseteq> {..<unat (sb_next_data_offset (dm_superblock d))}
     \<and> live \<inter> fl_space (dm_free_list d) = {}"

lemma align_512:
  assumes "unat (w :: u64) + 512 < 2 ^ 64"
  shows "unat w \<le> unat (if w mod 512 \<noteq> 0 then w + (512 - w mod 512) else w)"
proof (cases "w mod 512 = 0")
  case False
  have "w mod 512 < 512" by (simp add: word_mod_less_divisor)
  then have "unat (512 - w mod 512) \<le> 512"
    by (simp add: unat_sub word_le_nat_alt word_less_nat_alt less_imp_le)
  then have "unat (w + (512 - w mod 512)) = unat w + unat (512 - w mod 512)"
    using assms by (intro unat64_add) simp
  with False show ?thesis by simp
qed simp

lemma alloc_data_space:
  assumes "space_inv d live" and "unat (sb_next_data_offset (dm_superblock d)) + n + 512 < 2 ^ 64"
    and "alloc_data n d = (off, d')"
  shows "live \<inter> range_of off (of_nat n) = {} \<and> space_inv d' (live \<union> range_of off (of_nat n))"
proof -
  let ?next = "sb_next_data_offset (dm_superblock d)" and ?fl = "dm_free_list d"
  have inv: "fl_inv ?fl" "fl_space ?fl \<subseteq> {..<unat ?next}" "live \<subseteq> {..<unat ?next}" "live \<inter> fl_space ?fl = {}"
    using assms(1) by (auto simp: space_inv_def)
  obtain r fl where al: "fl_alloc (of_nat n) ?fl = (r, fl)" by fastforce
  show ?thesis
  proof (cases r)
    case (Some a)
    then have eq: "off = a" "d' = d\<lparr>dm_free_list := fl\<rparr>"
      using assms(3) al by (auto simp: alloc_data_def)
    have "range_of a (of_nat n) \<subseteq> fl_space ?fl" "fl_space fl \<subseteq> fl_space ?fl - range_of a (of_nat n)" "fl_inv fl"
      using free_list.alloc_from [OF inv(1)] free_list.alloc_removes [OF inv(1)] free_list.alloc_inv [OF inv(1)] al Some
      by blast+
    with inv show ?thesis by (auto simp: eq space_inv_def)
  next
    case None
    then have fl: "fl = ?fl" using free_list.alloc_fails al by blast
    let ?w = "?next + of_nat n"
    let ?next' = "if ?w mod 512 \<noteq> 0 then ?w + (512 - ?w mod 512) else ?w"
    have eq: "off = ?next" "dm_free_list d' = ?fl" "sb_next_data_offset (dm_superblock d') = ?next'"
      using assms(3) al None fl
      by (cases "?w mod 512 = 0"; auto simp: alloc_data_def Let_def)+
    have n: "unat (of_nat n :: u64) = n" using assms(2) by (intro unat64_of_nat) simp
    then have w: "unat ?w = unat ?next + n"
      using assms(2) by (subst unat64_add) auto
    then have le: "unat ?next + n \<le> unat (sb_next_data_offset (dm_superblock d'))"
      unfolding eq(3) using align_512 [of ?w] assms(2) by linarith
    then have below: "{..<unat ?next} \<subseteq> {..<unat (sb_next_data_offset (dm_superblock d'))}" by auto
    have rng: "range_of off (of_nat n) = {unat ?next..<unat ?next + n}"
      by (simp add: range_of_def eq(1) n)
    have fresh: "{..<unat ?next} \<inter> range_of off (of_nat n) = {}" unfolding rng by auto
    have rng_le: "range_of off (of_nat n) \<subseteq> {..<unat (sb_next_data_offset (dm_superblock d'))}"
      unfolding rng using le by auto
    have live: "live \<inter> range_of off (of_nat n) = {}" using inv(3) fresh by blast
    have "(live \<union> range_of off (of_nat n)) \<inter> fl_space ?fl = {}" using inv(2,4) fresh by blast
    with live rng_le inv(1) subset_trans [OF inv(2) below] subset_trans [OF inv(3) below]
    show ?thesis
      unfolding space_inv_def eq(2) by (simp only: Un_least simp_thms)
  qed
qed

text \<open>C8: Space accounting. As long as the live bytes are below the end of the data region and not in the
  free list, an allocation overlaps none of them, and releasing live bytes never makes other live
  bytes available.\<close>

theorem alloc_data_never_overlaps:
  assumes "space_inv d live" and "unat (sb_next_data_offset (dm_superblock d)) + n + 512 < 2 ^ 64"
    and "alloc_data n d = (off, d')"
  shows "live \<inter> range_of off (of_nat n) = {} \<and> space_inv d' (live \<union> range_of off (of_nat n))"
  by (rule alloc_data_space [OF assms])

lemma sample_space: "space_inv sample_disk {4096..<10000}"
  using sample_disk_ok(5,8) by (auto simp: space_inv_def fl_space_def DATA_OFFSET_value)

theorem alloc_data_never_overlaps_witness:
  "let (off, d') = alloc_data 1000 sample_disk
   in {4096..<10000} \<inter> range_of off (of_nat 1000) = {} \<and> space_inv d' ({4096..<10000} \<union> range_of off (of_nat 1000))"
proof -
  obtain off d' where run: "alloc_data 1000 sample_disk = (off, d')" by fastforce
  have "unat (sb_next_data_offset (dm_superblock sample_disk)) + 1000 + 512 < 2 ^ 64"
    by (simp add: sample_disk_ok(8) DATA_OFFSET_value)
  from alloc_data_never_overlaps [OF sample_space this run] show ?thesis
    unfolding run Let_def prod.case .
qed

text \<open>Releasing bytes that are live makes at most those available again.\<close>

theorem free_data_releases_only:
  assumes "space_inv d live" and "range_of off len \<subseteq> live" and "unat off + unat len < 2 ^ 64"
  shows "space_inv (free_data off len d) (live - range_of off len)"
proof -
  have inv: "fl_inv (dm_free_list d)" using assms(1) by (simp add: space_inv_def)
  have "fl_inv (fl_free off len (dm_free_list d))"
    and "fl_space (fl_free off len (dm_free_list d)) \<subseteq> fl_space (dm_free_list d) \<union> range_of off len"
    using free_list.release_inv [OF inv assms(3)] free_list.release_adds [OF inv assms(3)] by blast+
  with assms(1,2) show ?thesis by (auto simp: space_inv_def free_data_def)
qed

theorem free_data_releases_only_witness:
  "space_inv (free_data 5000 100 sample_disk) ({4096..<10000} - range_of 5000 100)"
  by (rule free_data_releases_only [OF sample_space]) (auto simp: range_of_def)

end
