(* ===== verification/Utf8.thy ===== *)
theory Utf8
  imports Prelude
begin

text \<open>
  The string functions of the Rust standard library the file system uses: \<open>String::from_utf8_lossy\<close>
  (also \<open>OsStr::to_string_lossy\<close>), \<open>str::trim\<close> and \<open>str::contains\<close>, on UTF-8 bytes.
\<close>

section \<open>Lossy decoding\<close>

definition between :: "u8 \<Rightarrow> u8 \<Rightarrow> u8 \<Rightarrow> bool" where
  "between lo hi b \<longleftrightarrow> lo \<le> b \<and> b \<le> hi"

definition continuation :: "bytes \<Rightarrow> nat \<Rightarrow> bool" where
  "continuation bs i \<longleftrightarrow> i < length bs \<and> between 0x80 0xBF (bs ! i)"

text \<open>The bytes allowed after a first byte of a three or four byte sequence.\<close>

definition second_ok :: "u8 \<Rightarrow> bytes \<Rightarrow> bool" where
  "second_ok b bs \<longleftrightarrow> 1 < length bs \<and>
     (let c = bs ! 1 in
      if b = 0xE0 then between 0xA0 0xBF c
      else if b = 0xED then between 0x80 0x9F c
      else if b = 0xF0 then between 0x90 0xBF c
      else if b = 0xF4 then between 0x80 0x8F c
      else between 0x80 0xBF c)"

text \<open>The length of the first character, or of the first maximal invalid part.\<close>

definition utf8_first :: "bytes \<Rightarrow> nat \<times> bool" where
  "utf8_first bs =
     (let b = hd bs in
      if b < 0x80 then (1, True)
      else if between 0xC2 0xDF b then (if continuation bs 1 then (2, True) else (1, False))
      else if between 0xE0 0xEF b
      then (if \<not> second_ok b bs then (1, False) else if continuation bs 2 then (3, True) else (2, False))
      else if between 0xF0 0xF4 b
      then (if \<not> second_ok b bs then (1, False) else if \<not> continuation bs 2 then (2, False)
            else if continuation bs 3 then (4, True) else (3, False))
      else (1, False))"

definition REPLACEMENT :: rstring where "REPLACEMENT = [0xEF, 0xBF, 0xBD]"

fun utf8_lossy :: "bytes \<Rightarrow> rstring" where
  "utf8_lossy [] = []"
| "utf8_lossy (b # bs) =
     (case utf8_first (b # bs) of (n, ok) \<Rightarrow>
        (if ok then take n (b # bs) else REPLACEMENT) @ utf8_lossy (drop (n - 1) bs))"

section \<open>Trimming and searching\<close>

definition is_whitespace :: "bytes \<Rightarrow> bool" where
  "is_whitespace c \<longleftrightarrow>
     (case c of
        [b] \<Rightarrow> between 9 13 b \<or> b = 32
      | [b1, b2] \<Rightarrow> b1 = 0xC2 \<and> (b2 = 0x85 \<or> b2 = 0xA0)
      | [b1, b2, b3] \<Rightarrow>
          [b1, b2, b3] = [0xE1, 0x9A, 0x80] \<or> [b1, b2, b3] = [0xE3, 0x80, 0x80] \<or> [b1, b2, b3] = [0xE2, 0x81, 0x9F]
          \<or> b1 = 0xE2 \<and> b2 = 0x80 \<and> (between 0x80 0x8A b3 \<or> b3 = 0xA8 \<or> b3 = 0xA9 \<or> b3 = 0xAF)
      | _ \<Rightarrow> False)"

definition ws_front :: "bytes \<Rightarrow> nat" where
  "ws_front s = (case find (\<lambda>n. is_whitespace (take n s)) [1, 2, 3] of Some n \<Rightarrow> n | None \<Rightarrow> 0)"

definition ws_back :: "bytes \<Rightarrow> nat" where
  "ws_back s = (case find (\<lambda>n. is_whitespace (drop (length s - n) s)) [1, 2, 3] of Some n \<Rightarrow> n | None \<Rightarrow> 0)"

function trim_start :: "rstring \<Rightarrow> rstring" where
  "trim_start s = (if s \<noteq> [] \<and> 0 < ws_front s then trim_start (drop (ws_front s) s) else s)"
  by pat_completeness auto
termination by (relation "measure length") auto

function trim_end :: "rstring \<Rightarrow> rstring" where
  "trim_end s = (if s \<noteq> [] \<and> 0 < ws_back s then trim_end (take (length s - ws_back s) s) else s)"
  by pat_completeness auto
termination by (relation "measure length") auto

declare trim_start.simps [simp del] trim_end.simps [simp del]

definition str_trim :: "rstring \<Rightarrow> rstring" where
  "str_trim s = trim_end (trim_start s)"

fun str_contains :: "rstring \<Rightarrow> rstring \<Rightarrow> bool" where
  "str_contains pat [] \<longleftrightarrow> pat = []"
| "str_contains pat (c # s) \<longleftrightarrow> take (length pat) (c # s) = pat \<or> str_contains pat s"

section \<open>ASCII text is unchanged\<close>

lemma utf8_lossy_ascii: "\<forall>b \<in> set bs. b < 0x80 \<Longrightarrow> utf8_lossy bs = bs"
  by (induction bs) (simp_all add: utf8_first_def)

declare utf8_lossy.simps [simp del]

lemma str_contains_iff: "str_contains pat s \<longleftrightarrow> (\<exists>a b. s = a @ pat @ b)"
proof (induction s)
  case (Cons c s)
  show ?case
  proof
    assume "str_contains pat (c # s)"
    then consider "take (length pat) (c # s) = pat" | "str_contains pat s" by auto
    then show "\<exists>a b. c # s = a @ pat @ b"
    proof cases
      case 1
      then have "c # s = [] @ pat @ drop (length pat) (c # s)" by (metis append_Nil append_take_drop_id)
      then show ?thesis by blast
    next
      case 2
      then obtain a b where "s = a @ pat @ b" using Cons by blast
      then have "c # s = (c # a) @ pat @ b" by simp
      then show ?thesis by blast
    qed
  next
    assume "\<exists>a b. c # s = a @ pat @ b"
    then obtain a b where ab: "c # s = a @ pat @ b" by blast
    show "str_contains pat (c # s)"
    proof (cases a)
      case Nil
      with ab have "take (length pat) (c # s) = pat" by (metis append_Nil append_eq_conv_conj)
      then show ?thesis by simp
    next
      case (Cons x xs)
      with ab Cons.IH show ?thesis by auto
    qed
  qed
qed simp

end
