(* ===== verification/Vex_State.thy ===== *)
theory Vex_State
  imports BTree Cache Compress Write_Buffer Snapshots Disk_Manager Utf8 "HOL-Library.Monad_Syntax"
begin

text \<open>
  \<open>src/fuse/mod.rs\<close>, first part: the state of the mounted file system, mount-time loading, and the
  helpers that move file data between cache, write buffer and disk.

  What a call takes from its surroundings is the record \<open>world\<close>: the CRC and the \<open>zstd\<close> codec (crates
  outside the repository), the clock, and the state the AI thread shares. Every operation is a
  function to an \<open>option\<close>: \<open>None\<close> is a call that does not come back, by a panic or by an eviction loop
  that does not end. Console output is left out, and so is the saving of the AI state on unmount.
\<close>

section \<open>Data\<close>

definition SNAPSHOT_MAGIC :: u64 where "SNAPSHOT_MAGIC = 0x534E415000000001"

definition SEARCH_INO :: u64 where "SEARCH_INO = 0xFFFFFFFE"
definition TELEMETRY_INO :: u64 where "TELEMETRY_INO = 0xFFFFFFFD"
definition ASK_INO :: u64 where "ASK_INO = 0xFFFFFFFC"
definition CONTEXT_INO :: u64 where "CONTEXT_INO = 0xFFFFFFFB"
definition JARVIS_INO :: u64 where "JARVIS_INO = 0xFFFFFFFA"
definition SEARCH_FILENAME :: rstring where "SEARCH_FILENAME = ascii ''.vexfs-search''"
definition TELEMETRY_FILENAME :: rstring where "TELEMETRY_FILENAME = ascii ''.vexfs-telemetry.json''"
definition ASK_FILENAME :: rstring where "ASK_FILENAME = ascii ''.vexfs-ask''"
definition CONTEXT_FILENAME :: rstring where "CONTEXT_FILENAME = ascii ''.vexfs-context''"
definition JARVIS_FILENAME :: rstring where "JARVIS_FILENAME = ascii ''.vexfs-jarvis''"

definition ROOT_INO :: u64 where "ROOT_INO = 1"
definition SNAPSHOT_GC_THRESHOLD :: nat where "SNAPSHOT_GC_THRESHOLD = 200"
definition SNAPSHOT_GC_KEEP :: nat where "SNAPSHOT_GC_KEEP = 3"

lemmas ino_defs = SEARCH_INO_def TELEMETRY_INO_def ASK_INO_def CONTEXT_INO_def JARVIS_INO_def ROOT_INO_def

datatype file_kind = Directory | RegularFile

text \<open>\<open>fuser::FileAttr\<close>; times are seconds since \<open>UNIX_EPOCH\<close>.\<close>

record file_attr =
  fa_ino :: u64
  fa_size :: u64
  fa_blocks :: u64
  fa_atime :: u64
  fa_mtime :: u64
  fa_ctime :: u64
  fa_crtime :: u64
  fa_kind :: file_kind
  fa_perm :: nat
  fa_nlink :: nat
  fa_uid :: nat
  fa_gid :: nat
  fa_rdev :: nat
  fa_blksize :: nat
  fa_flags :: nat

record vex_file =
  vf_name :: rstring
  vf_attr :: file_attr
  vf_disk_index :: nat
  vf_dirty :: bool
  vf_open_since :: "u64 option"
  vf_parent_ino :: u64
  vf_data_offset :: u64

text \<open>The messages to the AI thread (\<open>FsEvent\<close>).\<close>

datatype fs_event =
    EvOpen u64 rstring u64
  | EvWrite u64 rstring bytes
  | EvClose u64 rstring u64
  | EvDelete u64 rstring
  | EvSyncCacheSize u64 u64
  | EvSearchQuery rstring
  | EvAskQuery rstring "rstring list"
  | EvSyncAI
  | EvEndSession

text \<open>The parts of \<open>SharedAIState\<close> the file system reads; a ranked file has its name, its score as
  printed, and its tier label.\<close>

record ai_state =
  sa_markov_entries :: nat
  sa_search_indexed :: nat
  sa_entropy_threats :: nat
  sa_ranked_files :: "(rstring \<times> rstring \<times> rstring) list"
  sa_search_result :: bytes
  sa_ask_result :: bytes
  sa_context_result :: bytes
  sa_jarvis_result :: bytes
  sa_memory_total_sessions :: nat
  sa_memory_tracked_files :: nat
  sa_memory_active_streaks :: nat
  sa_memory_trending_count :: nat

record world =
  w_crc :: "bytes \<Rightarrow> u32"
  w_zenc :: "bytes \<Rightarrow> bytes option"
  w_zdec :: "bytes \<Rightarrow> bytes"
  w_now :: u64
  w_ai :: ai_state

text \<open>
  \<open>VexFS\<close>. \<open>fs_events\<close> holds the messages sent, oldest first; \<open>fs_search_docs\<close> the documents
  \<open>load\<close> handed to the search index (inode, name, data, modification time).
\<close>

record vexfs =
  fs_index :: bplus_tree
  fs_files :: "(u64, vex_file) hmap"
  fs_next_inode :: u64
  fs_disk :: disk_manager
  fs_snapshots :: snapshot_manager
  fs_write_buffer :: write_buffer
  fs_cache :: arc_cache
  fs_events :: "fs_event list"
  fs_search_docs :: "(u64 \<times> rstring \<times> bytes \<times> u64) list"
  fs_search_query :: rstring
  fs_ask_query :: rstring

definition vex_new :: "disk_manager \<Rightarrow> vexfs" where
  "vex_new disk =
     \<lparr>fs_index = bt_new, fs_files = [], fs_next_inode = 2, fs_disk = disk, fs_snapshots = sm_new 10,
      fs_write_buffer = wb_new 32 5, fs_cache = arc_new (64 * 1024 * 1024), fs_events = [],
      fs_search_docs = [], fs_search_query = [], fs_ask_query = []\<rparr>"

definition send :: "fs_event \<Rightarrow> vexfs \<Rightarrow> vexfs" where
  "send e s = s\<lparr>fs_events := fs_events s @ [e]\<rparr>"

text \<open>\<open>self.files.get_mut(&ino)\<close> followed by an update of the entry, if there is one.\<close>

definition update_file :: "u64 \<Rightarrow> (vex_file \<Rightarrow> vex_file) \<Rightarrow> vexfs \<Rightarrow> vexfs" where
  "update_file ino g s =
     (case hm_get (fs_files s) ino of
        Some f \<Rightarrow> s\<lparr>fs_files := hm_insert ino (g f) (fs_files s)\<rparr>
      | None \<Rightarrow> s)"

text \<open>\<open>let _ = self.disk.op(...)\<close>: the error is dropped, a panic is not.\<close>

definition ignore_error :: "'a disk_result \<times> disk_manager \<Rightarrow> disk_manager option" where
  "ignore_error r = (case r of (Inl Panic, _) \<Rightarrow> None | (_, d) \<Rightarrow> Some d)"

section \<open>Attributes\<close>

definition make_attr :: "u64 \<Rightarrow> u64 \<Rightarrow> bool \<Rightarrow> file_attr" where
  "make_attr ino sz is_dir =
     \<lparr>fa_ino = ino, fa_size = sz, fa_blocks = (sz + 511) div 512, fa_atime = 0, fa_mtime = 0,
      fa_ctime = 0, fa_crtime = 0, fa_kind = (if is_dir then Directory else RegularFile),
      fa_perm = (if is_dir then 493 else 420), fa_nlink = (if is_dir then 2 else 1),
      fa_uid = 1000, fa_gid = 1000, fa_rdev = 0, fa_blksize = 4096, fa_flags = 0\<rparr>"

definition root_attr :: file_attr where
  "root_attr =
     \<lparr>fa_ino = ROOT_INO, fa_size = 0, fa_blocks = 0, fa_atime = 0, fa_mtime = 0, fa_ctime = 0, fa_crtime = 0,
      fa_kind = Directory, fa_perm = 493, fa_nlink = 2, fa_uid = 1000, fa_gid = 1000, fa_rdev = 0,
      fa_blksize = 4096, fa_flags = 0\<rparr>"

definition search_file_attr :: "ai_state \<Rightarrow> file_attr" where
  "search_file_attr a =
     \<lparr>fa_ino = SEARCH_INO, fa_size = of_nat (length (sa_search_result a)), fa_blocks = 1,
      fa_atime = 0, fa_mtime = 0, fa_ctime = 0, fa_crtime = 0, fa_kind = RegularFile, fa_perm = 438,
      fa_nlink = 1, fa_uid = 1000, fa_gid = 1000, fa_rdev = 0, fa_blksize = 4096, fa_flags = 0\<rparr>"

definition telemetry_file_attr :: file_attr where
  "telemetry_file_attr =
     \<lparr>fa_ino = TELEMETRY_INO, fa_size = 4096, fa_blocks = 8,
      fa_atime = 0, fa_mtime = 0, fa_ctime = 0, fa_crtime = 0, fa_kind = RegularFile, fa_perm = 292,
      fa_nlink = 1, fa_uid = 1000, fa_gid = 1000, fa_rdev = 0, fa_blksize = 4096, fa_flags = 0\<rparr>"

definition ask_file_attr :: "ai_state \<Rightarrow> file_attr" where
  "ask_file_attr a =
     \<lparr>fa_ino = ASK_INO, fa_size = of_nat (length (sa_ask_result a)), fa_blocks = 1,
      fa_atime = 0, fa_mtime = 0, fa_ctime = 0, fa_crtime = 0, fa_kind = RegularFile, fa_perm = 438,
      fa_nlink = 1, fa_uid = 1000, fa_gid = 1000, fa_rdev = 0, fa_blksize = 4096, fa_flags = 0\<rparr>"

definition context_file_attr :: "ai_state \<Rightarrow> file_attr" where
  "context_file_attr a =
     \<lparr>fa_ino = CONTEXT_INO, fa_size = of_nat (length (sa_context_result a)), fa_blocks = 1,
      fa_atime = 0, fa_mtime = 0, fa_ctime = 0, fa_crtime = 0, fa_kind = RegularFile, fa_perm = 292,
      fa_nlink = 1, fa_uid = 1000, fa_gid = 1000, fa_rdev = 0, fa_blksize = 4096, fa_flags = 0\<rparr>"

definition jarvis_file_attr :: "ai_state \<Rightarrow> file_attr" where
  "jarvis_file_attr a =
     \<lparr>fa_ino = JARVIS_INO, fa_size = of_nat (length (sa_jarvis_result a)), fa_blocks = 1,
      fa_atime = 0, fa_mtime = 0, fa_ctime = 0, fa_crtime = 0, fa_kind = RegularFile, fa_perm = 292,
      fa_nlink = 1, fa_uid = 1000, fa_gid = 1000, fa_rdev = 0, fa_blksize = 4096, fa_flags = 0\<rparr>"

definition is_virtual :: "u64 \<Rightarrow> bool" where
  "is_virtual ino \<longleftrightarrow> ino = SEARCH_INO \<or> ino = TELEMETRY_INO \<or> ino = ASK_INO \<or> ino = CONTEXT_INO \<or> ino = JARVIS_INO"

section \<open>Writing files to disk\<close>

definition storage_tier :: "ai_state \<Rightarrow> rstring \<Rightarrow> rstring" where
  "storage_tier a name =
     (case find (\<lambda>(n, _, _). n = name) (sa_ranked_files a) of Some (_, _, t) \<Rightarrow> t | None \<Rightarrow> ascii ''COLD'')"

definition data_to_write :: "world \<Rightarrow> rstring \<Rightarrow> bytes \<Rightarrow> bytes" where
  "data_to_write w name data =
     (if str_contains (ascii ''COLD'') (storage_tier (w_ai w) name) \<and> 512 \<le> length data
      then (let c = compress (w_zenc w) data in if length c < length data then c else data)
      else data)"

definition persist_to_disk :: "world \<Rightarrow> u64 \<Rightarrow> rstring \<Rightarrow> bytes \<Rightarrow> nat \<Rightarrow> vexfs \<Rightarrow> vexfs option" where
  "persist_to_disk w ino name data disk_index s =
     (let disk = (case hm_get (fs_files s) ino of
                    Some f \<Rightarrow> if 0 < vf_data_offset f \<and> 0 < fa_size (vf_attr f)
                              then free_data (vf_data_offset f) (fa_size (vf_attr f)) (fs_disk s) else fs_disk s
                  | None \<Rightarrow> fs_disk s);
          out = data_to_write w name data;
          (data_offset, disk) = (if out \<noteq> [] then alloc_data (length out) disk else (of_nat DATA_OFFSET, disk));
          parent_ino = (case hm_get (fs_files s) ino of Some f \<Rightarrow> vf_parent_ino f | None \<Rightarrow> ROOT_INO);
          n = inode_set_name name (inode_empty
                \<lparr>in_ino := ino, in_size := of_nat (length data), in_data_offset := data_offset,
                 in_parent_ino := parent_ino, in_is_used := 1, in_is_dir := 0,
                 in_created_at := w_now w, in_modified_at := w_now w\<rparr>)
      in do {
        disk \<leftarrow> (if out \<noteq> [] then ignore_error (write_file_data (w_crc w) data_offset out disk) else Some disk);
        disk \<leftarrow> ignore_error (dm_write_inode (w_crc w) disk_index n disk);
        Some (update_file ino (\<lambda>f. f\<lparr>vf_data_offset := data_offset\<rparr>)
                (s\<lparr>fs_disk := dm_flush (w_crc w) disk\<rparr>))
      })"

text \<open>The loop over the inodes due for flushing.\<close>

fun flush_due :: "world \<Rightarrow> u64 list \<Rightarrow> vexfs \<Rightarrow> vexfs option" where
  "flush_due w [] s = Some s"
| "flush_due w (due_ino # rest) s =
     (case wb_take due_ino (fs_write_buffer s) of
        (Some (buf_data, buf_idx, buf_name), b) \<Rightarrow>
          do {
            s \<leftarrow> persist_to_disk w due_ino buf_name buf_data buf_idx (s\<lparr>fs_write_buffer := b\<rparr>);
            flush_due w rest s
          }
      | (None, b) \<Rightarrow> flush_due w rest (s\<lparr>fs_write_buffer := b\<rparr>))"

definition flush_file :: "world \<Rightarrow> u64 \<Rightarrow> vexfs \<Rightarrow> vexfs option" where
  "flush_file w ino s =
     (case hm_get (fs_files s) ino of
        None \<Rightarrow> Some s
      | Some f \<Rightarrow>
          if \<not> vf_dirty f then Some s
          else
            (let s = update_file ino (\<lambda>f. f\<lparr>vf_dirty := False\<rparr>) s;
                 (hit, c) = arc_get ino (fs_cache s);
                 s = s\<lparr>fs_cache := c\<rparr>
             in case hit of
                  None \<Rightarrow> Some s
                | Some data \<Rightarrow>
                    (let b = wb_write (w_now w) ino (vf_name f) data (vf_disk_index f) (fs_write_buffer s)
                     in flush_due w (due_for_flush (w_now w) b) (s\<lparr>fs_write_buffer := b\<rparr>))))"

definition pre_eviction_flush :: "world \<Rightarrow> vexfs \<Rightarrow> vexfs option" where
  "pre_eviction_flush w s =
     (if arc_used_bytes (fs_cache s) < arc_max_bytes (fs_cache s) then Some s
      else case arc_peek_eviction_candidate (fs_cache s) of
        None \<Rightarrow> Some s
      | Some candidate \<Rightarrow>
          (case hm_get (fs_files s) candidate of
             None \<Rightarrow> Some s
           | Some f \<Rightarrow>
               if \<not> vf_dirty f then Some s
               else do {
                 s \<leftarrow> (case wb_take candidate (fs_write_buffer s) of
                        (Some (buf_data, buf_idx, buf_name), b) \<Rightarrow>
                          persist_to_disk w candidate buf_name buf_data buf_idx (s\<lparr>fs_write_buffer := b\<rparr>)
                      | (None, b) \<Rightarrow>
                          (let (hit, c) = arc_get candidate (fs_cache s);
                               s = s\<lparr>fs_write_buffer := b, fs_cache := c\<rparr>
                           in case hit of
                                Some data \<Rightarrow> persist_to_disk w candidate (vf_name f) data (vf_disk_index f) s
                              | None \<Rightarrow> Some s));
                 Some (update_file candidate (\<lambda>f. f\<lparr>vf_dirty := False\<rparr>) s)
               }))"

definition flush_evicted :: "world \<Rightarrow> u64 \<Rightarrow> vexfs \<Rightarrow> vexfs option" where
  "flush_evicted w ino s =
     (case hm_get (fs_files s) ino of
        None \<Rightarrow> Some s
      | Some f \<Rightarrow>
          if \<not> vf_dirty f then Some s
          else do {
            s \<leftarrow> (case wb_take ino (fs_write_buffer s) of
                   (Some (buf_data, buf_idx, buf_name), b) \<Rightarrow>
                     persist_to_disk w ino buf_name buf_data buf_idx (s\<lparr>fs_write_buffer := b\<rparr>)
                 | (None, b) \<Rightarrow>
                     (let s = s\<lparr>fs_write_buffer := b\<rparr> in
                      if 0 < vf_data_offset f \<and> 0 < fa_size (vf_attr f)
                      then (case read_file_data (vf_data_offset f) (unat (fa_size (vf_attr f))) (fs_disk s) of
                              Inr raw \<Rightarrow> persist_to_disk w ino (vf_name f) (decompress (w_zdec w) raw) (vf_disk_index f) s
                            | Inl _ \<Rightarrow> Some s)
                      else Some s));
            Some (update_file ino (\<lambda>f. f\<lparr>vf_dirty := False\<rparr>) s)
          })"

fun flush_evictions :: "world \<Rightarrow> u64 list \<Rightarrow> vexfs \<Rightarrow> vexfs option" where
  "flush_evictions w [] s = Some s"
| "flush_evictions w (ino # rest) s = do { s \<leftarrow> flush_evicted w ino s; flush_evictions w rest s }"

definition flush_cache_evictions :: "world \<Rightarrow> vexfs \<Rightarrow> vexfs option" where
  "flush_cache_evictions w s =
     (let (evicted, c) = arc_drain_evicted (fs_cache s) in flush_evictions w evicted (s\<lparr>fs_cache := c\<rparr>))"

definition cache_insert :: "world \<Rightarrow> u64 \<Rightarrow> bytes \<Rightarrow> vexfs \<Rightarrow> vexfs option" where
  "cache_insert w ino data s = do {
     s \<leftarrow> pre_eviction_flush w s;
     c \<leftarrow> arc_insert ino data (fs_cache s);
     flush_cache_evictions w (s\<lparr>fs_cache := c\<rparr>)
   }"

text \<open>The file system's part of \<open>flush_all\<close>, called on unmount.\<close>

fun persist_all :: "world \<Rightarrow> (u64 \<times> bytes \<times> nat \<times> rstring) list \<Rightarrow> vexfs \<Rightarrow> vexfs option" where
  "persist_all w [] s = Some s"
| "persist_all w ((ino, data, idx, name) # rest) s = do {
     s \<leftarrow> persist_to_disk w ino name data idx s;
     persist_all w rest s
   }"

definition flush_all :: "world \<Rightarrow> vexfs \<Rightarrow> vexfs option" where
  "flush_all w s =
     (let s = send EvEndSession s;
          (all, b) = wb_take_all (fs_write_buffer s)
      in do {
        s \<leftarrow> persist_all w all (s\<lparr>fs_write_buffer := b\<rparr>);
        Some (send EvSyncAI s)
      })"

section \<open>Snapshots\<close>

fun release_slots :: "(nat \<times> u64 \<times> u64) list \<Rightarrow> disk_manager \<Rightarrow> disk_manager option" where
  "release_slots [] d = Some d"
| "release_slots ((slot, data_offset, sz) # rest) d =
     (case zero_snapshot_slot slot d of
        (Inl Panic, _) \<Rightarrow> None
      | (Inl _, d) \<Rightarrow> release_slots rest d
      | (Inr _, d) \<Rightarrow>
          release_slots rest (if 0 < data_offset \<and> 0 < sz then free_data data_offset sz d else d))"

definition maybe_gc_snapshots :: "vexfs \<Rightarrow> vexfs option" where
  "maybe_gc_snapshots s =
     (if total_snapshots (fs_snapshots s) < SNAPSHOT_GC_THRESHOLD then Some s
      else
        (let (freed, m) = gc_keep_per_file SNAPSHOT_GC_KEEP (fs_snapshots s)
         in do {
           d \<leftarrow> release_slots freed (fs_disk s);
           Some (s\<lparr>fs_snapshots := m, fs_disk := d\<rparr>)
         }))"

text \<open>\<open>v.last_mut()\<close> of the snapshots of an inode, if there is one.\<close>

definition update_last :: "('a \<Rightarrow> 'a) \<Rightarrow> 'a list \<Rightarrow> 'a list" where
  "update_last g v = (if v = [] then [] else butlast v @ [g (last v)])"

text \<open>The snapshot that \<open>write\<close> and \<open>setattr\<close> take of the old content.\<close>

definition take_snapshot :: "world \<Rightarrow> u64 \<Rightarrow> rstring \<Rightarrow> bytes \<Rightarrow> u64 \<Rightarrow> vexfs \<Rightarrow> vexfs option" where
  "take_snapshot w ino name old_data old_offset s =
     (let m = sm_snapshot (w_now w) ino name old_data old_offset (fs_snapshots s) in
      case find_free_snapshot_slot (w_crc w) (fs_disk s) of
        None \<Rightarrow> Some (s\<lparr>fs_snapshots := m\<rparr>)
      | Some slot \<Rightarrow>
          (let v = hm_get (sm_snapshots m) ino;
               snap_id = (case v of Some (x # xs) \<Rightarrow> ss_id (last (x # xs)) | _ \<Rightarrow> 1);
               ds = snapshot_set_name name (snapshot_empty
                      \<lparr>sn_magic := SNAPSHOT_MAGIC, sn_ino := ino, sn_size := of_nat (length old_data),
                       sn_data_offset := old_offset, sn_timestamp := w_now w, sn_id := snap_id, sn_is_used := 1\<rparr>);
               m = (case v of
                      Some v \<Rightarrow> m\<lparr>sm_snapshots := hm_insert ino (update_last (\<lambda>x. x\<lparr>ss_disk_slot := slot\<rparr>) v)
                                                    (sm_snapshots m)\<rparr>
                    | None \<Rightarrow> m)
           in do {
             d \<leftarrow> ignore_error (write_snapshot (w_crc w) slot ds (fs_disk s));
             Some (s\<lparr>fs_snapshots := m, fs_disk := d\<rparr>)
           }))"

section \<open>Mounting\<close>

text \<open>\<open>disk.read_file_data(...).unwrap_or_default()\<close>.\<close>

definition read_or_empty :: "disk_manager \<Rightarrow> u64 \<Rightarrow> u64 \<Rightarrow> bytes" where
  "read_or_empty d off sz = (case read_file_data off (unat sz) d of Inr raw \<Rightarrow> raw | Inl _ \<Rightarrow> [])"

definition load_inode :: "world \<Rightarrow> nat \<Rightarrow> inode_raw \<Rightarrow> vexfs \<Rightarrow> vexfs option" where
  "load_inode w i n s =
     (if \<not> inode_is_valid n \<or> inode_get_name n = [] then Some s
      else
        (let name = inode_get_name n;
             parent_ino = inode_get_parent_ino n;
             data = (if 0 < in_size n
                     then decompress (w_zdec w) (read_or_empty (fs_disk s) (in_data_offset n) (in_size n)) else [])
         in do {
           c \<leftarrow> arc_insert (in_ino n) data (fs_cache s);
           Some (s\<lparr>fs_search_docs := fs_search_docs s @ [(in_ino n, name, data, in_modified_at n)],
                   fs_cache := c,
                   fs_index := bt_insert parent_ino name
                     \<lparr>v_ino = in_ino n, v_size = in_size n, v_is_dir = (in_is_dir n = 1), v_disk_index = i\<rparr> (fs_index s),
                   fs_files := hm_insert (in_ino n)
                     \<lparr>vf_name = name, vf_attr = make_attr (in_ino n) (in_size n) (in_is_dir n = 1), vf_disk_index = i,
                      vf_dirty = False, vf_open_since = None, vf_parent_ino = parent_ino,
                      vf_data_offset = in_data_offset n\<rparr> (fs_files s),
                   fs_next_inode := (if fs_next_inode s \<le> in_ino n then in_ino n + 1 else fs_next_inode s)\<rparr>)
         }))"

fun load_inodes :: "world \<Rightarrow> nat list \<Rightarrow> vexfs \<Rightarrow> vexfs option" where
  "load_inodes w [] s = Some s"
| "load_inodes w (i # rest) s =
     (case dm_read_inode (w_crc w) i (fs_disk s) of
        Inl Panic \<Rightarrow> None
      | Inl _ \<Rightarrow> Some s
      | Inr n \<Rightarrow> do { s \<leftarrow> load_inode w i n s; load_inodes w rest s })"

definition load_snapshot :: "nat \<Rightarrow> snapshot_raw \<Rightarrow> vexfs \<Rightarrow> vexfs" where
  "load_snapshot i ds s =
     (if \<not> snapshot_is_valid SNAPSHOT_MAGIC ds \<or> snapshot_get_name ds = [] then s
      else
        (let data = (if 0 < sn_size ds then read_or_empty (fs_disk s) (sn_data_offset ds) (sn_size ds) else []);
             snap = \<lparr>ss_id = sn_id ds, ss_ino = sn_ino ds, ss_name = snapshot_get_name ds, ss_size = sn_size ds,
                     ss_data_offset = sn_data_offset ds, ss_timestamp = sn_timestamp ds, ss_data = data,
                     ss_disk_slot = i\<rparr>;
             m = fs_snapshots s
         in s\<lparr>fs_snapshots := m\<lparr>sm_snapshots :=
                hm_insert (sn_ino ds) (sm_list (sn_ino ds) m @ [snap]) (sm_snapshots m)\<rparr>\<rparr>))"

fun load_snapshots :: "world \<Rightarrow> nat list \<Rightarrow> vexfs \<Rightarrow> vexfs option" where
  "load_snapshots w [] s = Some s"
| "load_snapshots w (i # rest) s =
     (case read_snapshot (w_crc w) i (fs_disk s) of
        Inl Panic \<Rightarrow> None
      | Inl _ \<Rightarrow> Some s
      | Inr ds \<Rightarrow> load_snapshots w rest (load_snapshot i ds s))"

definition next_snapshot_id :: "snapshot_manager \<Rightarrow> u32" where
  "next_snapshot_id m =
     (let ids = map ss_id (concat (map snd (sm_snapshots m)))
      in if ids = [] then sm_next_id m else foldl max 0 ids + 1)"

definition vex_load :: "world \<Rightarrow> disk_manager \<Rightarrow> vexfs option" where
  "vex_load w disk = do {
     s \<leftarrow> load_inodes w [0..<inode_capacity disk] (vex_new disk);
     s \<leftarrow> load_snapshots w [0..<256] s;
     Some (s\<lparr>fs_snapshots := (fs_snapshots s)\<lparr>sm_next_id := next_snapshot_id (fs_snapshots s)\<rparr>\<rparr>)
   }"

end
