(* ===== verification/Vex_Fuse.thy ===== *)
theory Vex_Fuse
  imports Vex_State
begin

text \<open>
  \<open>src/fuse/mod.rs\<close>, second part: the handlers of the \<open>Filesystem\<close> trait, one definition each. A handler
  returns the reply with the new state; names arrive as the bytes of an \<open>OsStr\<close>. Request arguments that
  the code ignores are left out.
\<close>

section \<open>Replies\<close>

datatype errno = ENOENT | ENOSPC | EEXIST | ENOTDIR | ENOTEMPTY

datatype reply =
    ReplyEntry file_attr
  | ReplyAttr file_attr
  | ReplyData bytes
  | ReplyWritten u32
  | ReplyCreated file_attr
  | ReplyDirectory "(u64 \<times> nat \<times> file_kind \<times> rstring) list"
  | ReplyStatfs "u64 list"
  | ReplyOk
  | ReplyError errno

type_synonym handler = "vexfs \<Rightarrow> (reply \<times> vexfs) option"

text \<open>The code only casts an \<open>i64\<close> to \<open>usize\<close>, so the 64 bits are all that is kept of it.\<close>

type_synonym i64 = "64 word"

definition slice_bounds :: "i64 \<Rightarrow> u32 \<Rightarrow> nat \<Rightarrow> nat \<times> nat" where
  "slice_bounds offset sz data_len =
     (let start = min (unat offset) data_len;
          end = min (start + unat sz) data_len
      in (start, end))"

definition reply_slice :: "i64 \<Rightarrow> u32 \<Rightarrow> bytes \<Rightarrow> reply" where
  "reply_slice offset sz data = (case slice_bounds offset sz (length data) of (s, e) \<Rightarrow> ReplyData (sub data s e))"

section \<open>Reading attributes and data\<close>

definition virtual_entry :: "ai_state \<Rightarrow> rstring \<Rightarrow> file_attr option" where
  "virtual_entry a name =
     (if name = SEARCH_FILENAME then Some (search_file_attr a)
      else if name = TELEMETRY_FILENAME then Some telemetry_file_attr
      else if name = ASK_FILENAME then Some (ask_file_attr a)
      else if name = CONTEXT_FILENAME then Some (context_file_attr a)
      else if name = JARVIS_FILENAME then Some (jarvis_file_attr a)
      else None)"

definition vex_lookup :: "world \<Rightarrow> u64 \<Rightarrow> bytes \<Rightarrow> handler" where
  "vex_lookup w parent os_name s =
     (let name = utf8_lossy os_name in
      case (if parent = ROOT_INO then virtual_entry (w_ai w) name else None) of
        Some attr \<Rightarrow> Some (ReplyEntry attr, s)
      | None \<Rightarrow>
          (case bt_get parent name (fs_index s) of
             None \<Rightarrow> Some (ReplyError ENOENT, s)
           | Some v \<Rightarrow>
               (case hm_get (fs_files s) (v_ino v) of
                  None \<Rightarrow> Some (ReplyError ENOENT, s)
                | Some f \<Rightarrow>
                    Some (ReplyEntry (vf_attr f),
                          send (EvOpen (v_ino v) name (v_size v))
                            (update_file (v_ino v) (\<lambda>f. f\<lparr>vf_open_since := Some (w_now w)\<rparr>) s)))))"

definition vex_getattr :: "world \<Rightarrow> u64 \<Rightarrow> handler" where
  "vex_getattr w ino s =
     Some (if ino = ROOT_INO then ReplyAttr root_attr
           else if ino = SEARCH_INO then ReplyAttr (search_file_attr (w_ai w))
           else if ino = TELEMETRY_INO then ReplyAttr telemetry_file_attr
           else if ino = ASK_INO then ReplyAttr (ask_file_attr (w_ai w))
           else if ino = CONTEXT_INO then ReplyAttr (context_file_attr (w_ai w))
           else if ino = JARVIS_INO then ReplyAttr (jarvis_file_attr (w_ai w))
           else (case hm_get (fs_files s) ino of
                   Some f \<Rightarrow> ReplyAttr (vf_attr f) | None \<Rightarrow> ReplyError ENOENT), s)"

text \<open>The telemetry document.\<close>

definition json_string :: "rstring \<Rightarrow> rstring" where
  "json_string t = [34] @ t @ [34]"

definition json_field :: "string \<Rightarrow> rstring \<Rightarrow> rstring" where
  "json_field name v = json_string (ascii name) @ ascii '':'' @ v"

fun join_with :: "rstring \<Rightarrow> rstring list \<Rightarrow> rstring" where
  "join_with sep [] = []"
| "join_with sep [t] = t"
| "join_with sep (t # u # ts) = t @ sep @ join_with sep (u # ts)"

definition ranked_json :: "(rstring \<times> rstring \<times> rstring) list \<Rightarrow> rstring" where
  "ranked_json ranked =
     join_with (ascii '','')
       (map (\<lambda>(n, sc, t). ascii ''{'' @ join_with (ascii '','')
          [json_field ''name'' (json_string n), json_field ''score'' sc, json_field ''tier'' (json_string t)] @ ascii ''}'')
        (take 10 ranked))"

definition telemetry_json :: "ai_state \<Rightarrow> vexfs \<Rightarrow> rstring" where
  "telemetry_json a s =
     ascii ''{'' @ [10] @ join_with (ascii '','' @ [10])
       (map (\<lambda>(name, v). ascii ''  '' @ json_string (ascii name) @ ascii '': '' @ v)
         [(''cache_used'', decimal (arc_used_bytes (fs_cache s))),
          (''cache_max'', decimal (arc_max_bytes (fs_cache s))),
          (''markov_entries'', decimal (sa_markov_entries a)),
          (''search_indexed'', decimal (sa_search_indexed a)),
          (''snapshots_total'', decimal (total_snapshots (fs_snapshots s))),
          (''entropy_threats'', decimal (sa_entropy_threats a)),
          (''total_files'', decimal (bt_len (fs_index s))),
          (''memory_sessions'', decimal (sa_memory_total_sessions a)),
          (''memory_tracked_files'', decimal (sa_memory_tracked_files a)),
          (''memory_active_streaks'', decimal (sa_memory_active_streaks a)),
          (''memory_trending'', decimal (sa_memory_trending_count a)),
          (''ranked_files'', ascii ''['' @ ranked_json (sa_ranked_files a) @ ascii '']'')])
     @ [10] @ ascii ''}''"

definition vex_read :: "world \<Rightarrow> u64 \<Rightarrow> i64 \<Rightarrow> u32 \<Rightarrow> handler" where
  "vex_read w ino offset sz s =
     (if ino = CONTEXT_INO then Some (reply_slice offset sz (sa_context_result (w_ai w)), s)
      else if ino = JARVIS_INO then Some (reply_slice offset sz (sa_jarvis_result (w_ai w)), s)
      else if ino = ASK_INO then Some (reply_slice offset sz (sa_ask_result (w_ai w)), s)
      else if ino = SEARCH_INO then Some (reply_slice offset sz (sa_search_result (w_ai w)), s)
      else if ino = TELEMETRY_INO then Some (reply_slice offset sz (telemetry_json (w_ai w) s), s)
      else case hm_get (fs_files s) ino of
        None \<Rightarrow> Some (ReplyError ENOENT, s)
      | Some f \<Rightarrow>
          (case arc_get ino (fs_cache s) of
             (Some data, c) \<Rightarrow> Some (reply_slice offset sz data, s\<lparr>fs_cache := c\<rparr>)
           | (None, c) \<Rightarrow>
               (let s = s\<lparr>fs_cache := c\<rparr>;
                    sz_on_disk = fa_size (vf_attr f);
                    raw = (if 0 < sz_on_disk then read_or_empty (fs_disk s) (vf_data_offset f) sz_on_disk else []);
                    data = decompress (w_zdec w) raw
                in do {
                  s \<leftarrow> cache_insert w ino data s;
                  Some (reply_slice offset sz data, s)
                })))"

section \<open>Writing\<close>

text \<open>\<open>Vec::resize\<close> to a length beyond \<open>isize::MAX\<close> panics; a negative offset is such a length.\<close>

definition VEC_MAX :: nat where "VEC_MAX = 2 ^ 63 - 1"

definition splice_at :: "nat \<Rightarrow> bytes \<Rightarrow> bytes \<Rightarrow> bytes" where
  "splice_at off data old =
     (let grown = (if length old < off + length data then old @ zeros (off + length data - length old) else old)
      in put grown off data)"

definition resize_to :: "nat \<Rightarrow> bytes \<Rightarrow> bytes" where
  "resize_to n d = (if length d < n then d @ zeros (n - length d) else take n d)"

definition vex_write :: "world \<Rightarrow> u64 \<Rightarrow> i64 \<Rightarrow> bytes \<Rightarrow> handler" where
  "vex_write w ino offset data s =
     (if ino = SEARCH_INO then
        (let query = str_trim (utf8_lossy data)
         in Some (ReplyWritten (of_nat (length data)), send (EvSearchQuery query) (s\<lparr>fs_search_query := query\<rparr>)))
      else if ino = ASK_INO then
        (let question = str_trim (utf8_lossy data)
         in Some (ReplyWritten (of_nat (length data)),
                  send (EvAskQuery question (map (\<lambda>(_, f). vf_name f) (fs_files s))) (s\<lparr>fs_ask_query := question\<rparr>)))
      else case hm_get (fs_files s) ino of
        None \<Rightarrow> Some (ReplyError ENOENT, s)
      | Some f \<Rightarrow>
          (let (hit, c) = arc_get ino (fs_cache s);
               s = s\<lparr>fs_cache := c\<rparr>;
               file_data = (case hit of Some d \<Rightarrow> d | None \<Rightarrow> []);
               snap = (offset = 0 \<and> file_data \<noteq> []);
               off = unat offset
           in do {
             s \<leftarrow> (if snap then take_snapshot w ino (vf_name f) file_data (vf_data_offset f) s else Some s);
             new_data \<leftarrow> (if VEC_MAX < off + length data then None else Some (splice_at off data file_data));
             let s = update_file ino (\<lambda>f. f\<lparr>vf_attr := (vf_attr f)\<lparr>fa_size := of_nat (length new_data),
                                                              fa_mtime := w_now w\<rparr>, vf_dirty := True\<rparr>) s;
             s \<leftarrow> (if snap then maybe_gc_snapshots s else Some s);
             s \<leftarrow> cache_insert w ino new_data s;
             Some (ReplyWritten (of_nat (length data)), send (EvWrite ino (vf_name f) data) s)
           }))"

definition vex_flush :: "world \<Rightarrow> u64 \<Rightarrow> handler" where
  "vex_flush w ino s = do { s \<leftarrow> flush_file w ino s; Some (ReplyOk, s) }"

definition vex_fsync :: "world \<Rightarrow> u64 \<Rightarrow> handler" where
  "vex_fsync w ino s = do { s \<leftarrow> flush_file w ino s; Some (ReplyOk, s) }"

definition vex_setattr :: "world \<Rightarrow> u64 \<Rightarrow> u64 option \<Rightarrow> handler" where
  "vex_setattr w ino sz s =
     (if (ino = SEARCH_INO \<or> ino = ASK_INO) \<and> sz = Some 0
      then (if ino = SEARCH_INO
            then Some (ReplyAttr (search_file_attr (w_ai w)), s\<lparr>fs_search_query := []\<rparr>)
            else Some (ReplyAttr (ask_file_attr (w_ai w)), s\<lparr>fs_ask_query := []\<rparr>))
      else case hm_get (fs_files s) ino of
        None \<Rightarrow> Some (ReplyError ENOENT, s)
      | Some f \<Rightarrow>
          (case sz of
             None \<Rightarrow> Some (ReplyAttr (vf_attr f), s)
           | Some n \<Rightarrow>
               if n = fa_size (vf_attr f) then Some (ReplyAttr (vf_attr f), s)
               else
                 (let (hit, c) = arc_get ino (fs_cache s);
                      s = s\<lparr>fs_cache := c\<rparr>;
                      old_data = (case hit of Some d \<Rightarrow> d | None \<Rightarrow> []);
                      attr = (vf_attr f)\<lparr>fa_size := n\<rparr>
                  in do {
                    s \<leftarrow> take_snapshot w ino (vf_name f) old_data (vf_data_offset f) s;
                    let s = update_file ino (\<lambda>f. f\<lparr>vf_attr := attr, vf_dirty := True\<rparr>) s;
                    d \<leftarrow> (if VEC_MAX < unat n then None else Some (resize_to (unat n) old_data));
                    s \<leftarrow> maybe_gc_snapshots s;
                    s \<leftarrow> cache_insert w ino d s;
                    Some (ReplyAttr attr, s)
                  })))"

section \<open>Directories\<close>

definition dir_entries :: "u64 \<Rightarrow> vexfs \<Rightarrow> (u64 \<times> file_kind \<times> rstring) list" where
  "dir_entries ino s =
     (let parent_of_ino = (if ino = ROOT_INO then ROOT_INO
                           else case hm_get (fs_files s) ino of Some f \<Rightarrow> vf_parent_ino f | None \<Rightarrow> ROOT_INO)
      in [(ino, Directory, ascii ''.''), (parent_of_ino, Directory, ascii ''..'')]
         @ (if ino = ROOT_INO
            then [(SEARCH_INO, RegularFile, SEARCH_FILENAME), (TELEMETRY_INO, RegularFile, TELEMETRY_FILENAME),
                  (ASK_INO, RegularFile, ASK_FILENAME), (CONTEXT_INO, RegularFile, CONTEXT_FILENAME),
                  (JARVIS_INO, RegularFile, JARVIS_FILENAME)]
            else [])
         @ map (\<lambda>(k, v). (v_ino v, if v_is_dir v then Directory else RegularFile, key_name k))
             (bt_list_dir ino (fs_index s)))"

text \<open>
  \<open>reply.add\<close> belongs to the \<open>fuser\<close> crate: \<open>full\<close> tells whether the buffer, holding the entries
  added so far, refuses one more.
\<close>

fun add_entries ::
    "((u64 \<times> nat \<times> file_kind \<times> rstring) list \<Rightarrow> u64 \<times> nat \<times> file_kind \<times> rstring \<Rightarrow> bool)
      \<Rightarrow> (u64 \<times> nat \<times> file_kind \<times> rstring) list \<Rightarrow> (nat \<times> u64 \<times> file_kind \<times> rstring) list
      \<Rightarrow> (u64 \<times> nat \<times> file_kind \<times> rstring) list" where
  "add_entries full buf [] = buf"
| "add_entries full buf ((i, ino, kind, name) # rest) =
     (if full buf (ino, i + 1, kind, name) then buf
      else add_entries full (buf @ [(ino, i + 1, kind, name)]) rest)"

definition vex_readdir ::
    "((u64 \<times> nat \<times> file_kind \<times> rstring) list \<Rightarrow> u64 \<times> nat \<times> file_kind \<times> rstring \<Rightarrow> bool)
      \<Rightarrow> u64 \<Rightarrow> i64 \<Rightarrow> handler" where
  "vex_readdir full ino offset s =
     Some (ReplyDirectory (add_entries full [] (drop (unat offset) (enumerate 0 (dir_entries ino s)))), s)"

text \<open>The parent check of \<open>create\<close> and \<open>mkdir\<close>.\<close>

definition check_parent :: "u64 \<Rightarrow> vexfs \<Rightarrow> errno option" where
  "check_parent parent s =
     (if parent = ROOT_INO then None
      else case hm_get (fs_files s) parent of
        Some pf \<Rightarrow> if fa_kind (vf_attr pf) = Directory then None else Some ENOTDIR
      | None \<Rightarrow> Some ENOENT)"

text \<open>The inode both write for the new entry.\<close>

definition fresh_inode :: "world \<Rightarrow> u64 \<Rightarrow> u64 \<Rightarrow> bool \<Rightarrow> rstring \<Rightarrow> inode_raw" where
  "fresh_inode w ino parent is_dir name =
     inode_set_name name (inode_empty
       \<lparr>in_ino := ino, in_parent_ino := parent, in_is_used := 1, in_is_dir := (if is_dir then 1 else 0),
        in_created_at := w_now w, in_modified_at := w_now w\<rparr>)"

text \<open>The entry both add to the index and to the map of files.\<close>

definition add_file :: "u64 \<Rightarrow> rstring \<Rightarrow> bool \<Rightarrow> nat \<Rightarrow> u64 option \<Rightarrow> vexfs \<Rightarrow> vexfs" where
  "add_file parent name is_dir disk_index open_since s =
     (let ino = fs_next_inode s in
      s\<lparr>fs_next_inode := ino + 1,
        fs_index := bt_insert parent name
          \<lparr>v_ino = ino, v_size = 0, v_is_dir = is_dir, v_disk_index = disk_index\<rparr> (fs_index s),
        fs_files := hm_insert ino
          \<lparr>vf_name = name, vf_attr = make_attr ino 0 is_dir, vf_disk_index = disk_index, vf_dirty = (\<not> is_dir),
           vf_open_since = open_since, vf_parent_ino = parent, vf_data_offset = of_nat DATA_OFFSET\<rparr> (fs_files s)\<rparr>)"

definition vex_create :: "world \<Rightarrow> u64 \<Rightarrow> bytes \<Rightarrow> handler" where
  "vex_create w parent os_name s =
     (let name = utf8_lossy os_name in
      case check_parent parent s of
        Some e \<Rightarrow> Some (ReplyError e, s)
      | None \<Rightarrow>
      (if bt_get parent name (fs_index s) \<noteq> None then Some (ReplyError EEXIST, s)
       else case dm_alloc_inode (w_crc w) (fs_disk s) of
         (None, d) \<Rightarrow> Some (ReplyError ENOSPC, s\<lparr>fs_disk := d\<rparr>)
       | (Some disk_index, d) \<Rightarrow>
           (let ino = fs_next_inode s;
                s = add_file parent name False disk_index (Some (w_now w)) (s\<lparr>fs_disk := d\<rparr>)
            in do {
              s \<leftarrow> cache_insert w ino [] s;
              d \<leftarrow> ignore_error (dm_write_inode (w_crc w) disk_index (fresh_inode w ino parent False name) (fs_disk s));
              Some (ReplyCreated (make_attr ino 0 False), send (EvOpen ino name 0) (s\<lparr>fs_disk := d\<rparr>))
            })))"

definition vex_mkdir :: "world \<Rightarrow> u64 \<Rightarrow> bytes \<Rightarrow> handler" where
  "vex_mkdir w parent os_name s =
     (let name = utf8_lossy os_name in
      case check_parent parent s of
        Some e \<Rightarrow> Some (ReplyError e, s)
      | None \<Rightarrow>
      (if bt_get parent name (fs_index s) \<noteq> None then Some (ReplyError EEXIST, s)
       else case dm_alloc_inode (w_crc w) (fs_disk s) of
         (None, d) \<Rightarrow> Some (ReplyError ENOSPC, s\<lparr>fs_disk := d\<rparr>)
       | (Some disk_index, d) \<Rightarrow>
           (let ino = fs_next_inode s;
                s = add_file parent name True disk_index None (s\<lparr>fs_disk := d\<rparr>)
            in do {
              d \<leftarrow> ignore_error (dm_write_inode (w_crc w) disk_index (fresh_inode w ino parent True name) (fs_disk s));
              Some (ReplyEntry (make_attr ino 0 True), s\<lparr>fs_disk := dm_flush (w_crc w) d\<rparr>)
            })))"

definition vex_unlink :: "world \<Rightarrow> u64 \<Rightarrow> bytes \<Rightarrow> handler" where
  "vex_unlink w parent os_name s =
     (let name = utf8_lossy os_name; (t, removed) = bt_remove parent name (fs_index s); s = s\<lparr>fs_index := t\<rparr> in
      case removed of
        None \<Rightarrow> Some (ReplyError ENOENT, s)
      | Some v \<Rightarrow>
          (case hm_get (fs_files s) (v_ino v) of
             None \<Rightarrow> Some (ReplyError ENOENT, s)
           | Some f \<Rightarrow>
               (let disk = (if 0 < vf_data_offset f \<and> 0 < fa_size (vf_attr f)
                            then free_data (vf_data_offset f) (fa_size (vf_attr f)) (fs_disk s) else fs_disk s)
                in do {
                  disk \<leftarrow> ignore_error (dm_free_inode (w_crc w) (vf_disk_index f) disk);
                  Some (ReplyOk, send (EvDelete (v_ino v) name)
                    (s\<lparr>fs_files := hm_remove (v_ino v) (fs_files s), fs_disk := disk,
                       fs_cache := snd (arc_remove (v_ino v) (fs_cache s))\<rparr>))
                })))"

definition vex_rmdir :: "world \<Rightarrow> u64 \<Rightarrow> bytes \<Rightarrow> handler" where
  "vex_rmdir w parent os_name s =
     (let name = utf8_lossy os_name in
      case bt_get parent name (fs_index s) of
        None \<Rightarrow> Some (ReplyError ENOENT, s)
      | Some v \<Rightarrow>
          (if \<not> v_is_dir v then Some (ReplyError ENOTDIR, s)
           else if bt_list_dir (v_ino v) (fs_index s) \<noteq> [] then Some (ReplyError ENOTEMPTY, s)
           else
             (let s = s\<lparr>fs_index := fst (bt_remove parent name (fs_index s))\<rparr> in
              case hm_get (fs_files s) (v_ino v) of
                None \<Rightarrow> Some (ReplyError ENOENT, s)
              | Some f \<Rightarrow> do {
                  disk \<leftarrow> ignore_error (dm_free_inode (w_crc w) (vf_disk_index f) (fs_disk s));
                  Some (ReplyOk, s\<lparr>fs_files := hm_remove (v_ino v) (fs_files s),
                                   fs_disk := dm_flush (w_crc w) disk\<rparr>)
                })))"

definition vex_rename :: "world \<Rightarrow> u64 \<Rightarrow> bytes \<Rightarrow> u64 \<Rightarrow> bytes \<Rightarrow> handler" where
  "vex_rename w parent os_name newparent os_newname s =
     (let old_name = utf8_lossy os_name; new_name = utf8_lossy os_newname in
      if newparent \<noteq> ROOT_INO \<and> hm_get (fs_files s) newparent = None then Some (ReplyError ENOENT, s)
      else
        (let (t, removed) = bt_remove parent old_name (fs_index s); s = s\<lparr>fs_index := t\<rparr> in
         case removed of
           None \<Rightarrow> Some (ReplyError ENOENT, s)
         | Some v \<Rightarrow>
             (let s = s\<lparr>fs_index := bt_insert newparent new_name v (fs_index s)\<rparr>;
                  s = update_file (v_ino v)
                        (\<lambda>f. f\<lparr>vf_name := new_name, vf_parent_ino := newparent, vf_dirty := True\<rparr>) s
              in case dm_read_inode (w_crc w) (v_disk_index v) (fs_disk s) of
                   Inl Panic \<Rightarrow> None
                 | Inl _ \<Rightarrow> Some (ReplyOk, s)
                 | Inr n \<Rightarrow>
                     (let n = inode_set_name new_name (n\<lparr>in_parent_ino := newparent, in_modified_at := w_now w\<rparr>)
                      in do {
                        disk \<leftarrow> ignore_error (dm_write_inode (w_crc w) (v_disk_index v) n (fs_disk s));
                        Some (ReplyOk, s\<lparr>fs_disk := dm_flush (w_crc w) disk\<rparr>)
                      }))))"

section \<open>The rest\<close>

definition vex_statfs :: handler where
  "vex_statfs s =
     (let free_blocks = sb_free_blocks (dm_superblock (fs_disk s)); used = of_nat (length (fs_files s)) in
      Some (ReplyStatfs [1024 * 1024, free_blocks, free_blocks, 1024, sat_sub 1024 used, 512, 255, 512], s))"

definition vex_release :: "world \<Rightarrow> u64 \<Rightarrow> handler" where
  "vex_release w ino s =
     Some (ReplyOk,
       case hm_get (fs_files s) ino of
         Some f \<Rightarrow> send (EvClose ino (vf_name f)
                     (case vf_open_since f of Some t \<Rightarrow> sat_sub (w_now w) t | None \<Rightarrow> 0)) s
       | None \<Rightarrow> s)"

definition vex_destroy :: "world \<Rightarrow> vexfs \<Rightarrow> vexfs option" where
  "vex_destroy w s = flush_all w s"

end
