(* ===== verification/Vex_Safety.thy ===== *)
theory Vex_Safety
  imports Vex_Fuse
begin

text \<open>
  No handler panics or loops: the invariant \<open>vex_safe\<close>, its preservation by every operation, and the
  frame \<open>moves_data\<close> of the helpers that only move file data between cache, buffer and disk.
\<close>

section \<open>Calls that come back\<close>

text \<open>\<open>runs m P\<close>: the call comes back and its result satisfies \<open>P\<close>.\<close>

definition runs :: "'a option \<Rightarrow> ('a \<Rightarrow> bool) \<Rightarrow> bool" where
  "runs m P \<longleftrightarrow> (\<exists>x. m = Some x \<and> P x)"

named_theorems runs_intro

lemma runs_Some [simp]: "runs (Some x) P \<longleftrightarrow> P x"
  by (simp add: runs_def)

lemma runs_None [simp]: "\<not> runs None P"
  by (simp add: runs_def)

lemma runs_bind: "runs m P \<Longrightarrow> (\<And>x. P x \<Longrightarrow> runs (g x) Q) \<Longrightarrow> runs (m \<bind> g) Q"
  by (auto simp: runs_def)

lemma runs_mono: "runs m P \<Longrightarrow> (\<And>x. P x \<Longrightarrow> Q x) \<Longrightarrow> runs m Q"
  by (auto simp: runs_def)

lemma runs_conj: "runs m P \<Longrightarrow> runs m Q \<Longrightarrow> runs m (\<lambda>x. P x \<and> Q x)"
  by (auto simp: runs_def)

lemma runsE: "runs m P \<Longrightarrow> (\<And>x. m = Some x \<Longrightarrow> P x \<Longrightarrow> thesis) \<Longrightarrow> thesis"
  by (auto simp: runs_def)

section \<open>The disk\<close>

definition dir_length :: "disk_manager \<Rightarrow> bool" where
  "dir_length d \<longleftrightarrow> length (it_blocks (dm_inode_table d)) = MAX_INODE_BLOCKS"

lemma runs_ignore_error: "runs (ignore_error r) P \<longleftrightarrow> fst r \<noteq> Inl Panic \<and> P (snd r)"
  by (auto simp: ignore_error_def runs_def split: prod.splits sum.splits disk_error.splits)

lemma write_entry_no_panic: "write_entry crc e j f \<noteq> (Inl Panic, z)"
  by (simp add: write_entry_def Let_def)

lemma log_chunks_no_panic:
  "\<forall>c \<in> set cs. length c \<le> JOURNAL_PAYLOAD_SIZE \<Longrightarrow> log_chunks crc tx off cs n j f \<noteq> (Inl Panic, z)"
proof (induction cs arbitrary: off n j f)
  case (Cons c cs)
  obtain r j1 f1 where w: "write_entry crc (entry_with ENTRY_WRITE_DATA tx off c) j f = (r, j1, f1)"
    by (cases "write_entry crc (entry_with ENTRY_WRITE_DATA tx off c) j f") auto
  with write_entry_no_panic [of crc "entry_with ENTRY_WRITE_DATA tx off c" j f] Cons show ?case
    by (cases r) (auto simp: log_data_write_chunk_def)
qed simp

lemma log_data_no_panic: "log_data_write_all crc tx off data j f \<noteq> (Inl Panic, z)"
proof -
  have "\<forall>c \<in> set (chunks JOURNAL_PAYLOAD_SIZE data). length c \<le> JOURNAL_PAYLOAD_SIZE"
    using chunks_bounds [of JOURNAL_PAYLOAD_SIZE _ data] by (simp add: JOURNAL_PAYLOAD_SIZE_def)
  from log_chunks_no_panic [OF this] show ?thesis by (simp add: log_data_write_all_def Let_def)
qed

lemma log_inode_no_panic: "inode_wf n \<Longrightarrow> log_inode_write_at crc tx off (inode_to_bytes crc n) j f \<noteq> (Inl Panic, z)"
  by (simp add: log_inode_write_at_def write_entry_no_panic JOURNAL_PAYLOAD_SIZE_def length_inode_bytes)

lemma commit_no_panic: "journal_commit crc tx j f \<noteq> (Inl Panic, z)"
  by (simp add: journal_commit_def write_entry_no_panic)

lemma read_inode_no_panic: "it_read_inode crc t f i \<noteq> Inl Panic"
  by (simp add: it_read_inode_def read_bytes_def split: option.splits sum.splits)

lemma it_write_inode_no_panic: "it_write_inode crc t f i n \<noteq> (Inl Panic, z)"
  by (simp add: it_write_inode_def split: option.splits)

lemma it_free_inode_no_panic: "it_free_inode crc t f i \<noteq> (Inl Panic, z)"
  using read_inode_no_panic [of crc t f i]
  by (auto simp: it_free_inode_def it_write_inode_no_panic split: sum.splits)

lemma dm_read_inode_no_panic: "i < MAX_FILES \<Longrightarrow> dm_read_inode crc i d \<noteq> Inl Panic"
  by (simp add: dm_read_inode_def read_inode_no_panic)

lemma dir_length_file [simp]:
  "dir_length (d\<lparr>dm_journal := j\<rparr>) = dir_length d" "dir_length (d\<lparr>dm_file := f\<rparr>) = dir_length d"
  by (simp_all add: dir_length_def)

lemma checkpoint_dir [simp]: "dir_length (checkpoint crc d) = dir_length d"
  by (simp add: checkpoint_def dir_length_def split: prod.splits)

lemma write_file_data_runs: "dir_length d \<Longrightarrow> runs (ignore_error (write_file_data crc off data d)) dir_length"
proof -
  assume d: "dir_length d"
  obtain tx j where b: "journal_begin (dm_journal d) = (tx, j)" by fastforce
  obtain r j1 f1 where l: "log_data_write_all crc tx off data j (dm_file d) = (r, j1, f1)"
    by (cases "log_data_write_all crc tx off data j (dm_file d)") auto
  obtain q j2 f2 where c: "journal_commit crc tx j1 f1 = (q, j2, f2)"
    by (cases "journal_commit crc tx j1 f1") auto
  have "r \<noteq> Inl Panic" "q \<noteq> Inl Panic"
    using l c log_data_no_panic [of crc tx off data j "dm_file d"] commit_no_panic [of crc tx j1 f1] by auto
  with d b l c show ?thesis
    by (cases r; cases q) (simp_all add: write_file_data_def runs_ignore_error)
qed

lemma write_inode_runs:
  assumes "dir_length d" and "i < MAX_FILES" and "inode_wf n"
  shows "runs (ignore_error (dm_write_inode crc i n d)) dir_length"
proof (cases "inode_offset (dm_inode_table d) i")
  case None
  with assms(1,2) show ?thesis by (simp add: dm_write_inode_def runs_ignore_error)
next
  case (Some off)
  obtain tx j where b: "journal_begin (dm_journal d) = (tx, j)" by fastforce
  obtain r j1 f1 where l: "log_inode_write_at crc tx off (inode_to_bytes crc n) j (dm_file d) = (r, j1, f1)"
    by (cases "log_inode_write_at crc tx off (inode_to_bytes crc n) j (dm_file d)") auto
  obtain q j2 f2 where c: "journal_commit crc tx j1 f1 = (q, j2, f2)"
    by (cases "journal_commit crc tx j1 f1") auto
  obtain p f3 where w: "it_write_inode crc (dm_inode_table d) f2 i n = (p, f3)" by fastforce
  have "r \<noteq> Inl Panic" "q \<noteq> Inl Panic" "p \<noteq> Inl Panic"
    using l c w log_inode_no_panic [OF assms(3), of crc tx off j "dm_file d"] commit_no_panic [of crc tx j1 f1]
      it_write_inode_no_panic [of crc "dm_inode_table d" f2 i n f3] by auto
  with Some assms(1,2) b l c w show ?thesis
    by (cases r; cases q; cases p) (simp_all add: dm_write_inode_def runs_ignore_error Let_def)
qed

lemma free_inode_runs: "dir_length d \<Longrightarrow> runs (ignore_error (dm_free_inode crc i d)) dir_length"
  using it_free_inode_no_panic [of crc "dm_inode_table d" "dm_file d" i]
  by (cases "it_free_inode crc (dm_inode_table d) (dm_file d) i") (auto simp: dm_free_inode_def runs_ignore_error)

lemma write_snapshot_runs: "dir_length d \<Longrightarrow> i < MAX_SNAPSHOT_SLOTS \<Longrightarrow> runs (ignore_error (write_snapshot crc i n d)) dir_length"
  by (simp add: write_snapshot_def runs_ignore_error)

lemma alloc_data_dir: "alloc_data n d = (off, d') \<Longrightarrow> dir_length d' = dir_length d"
  by (auto simp: alloc_data_def dir_length_def Let_def split: option.splits prod.splits if_splits)

lemma free_data_dir [simp]: "dir_length (free_data off len d) = dir_length d"
  by (simp add: free_data_def dir_length_def)

lemma dm_flush_dir [simp]: "dir_length (dm_flush crc d) = dir_length d"
  by (simp add: dm_flush_def dir_length_def write_superblock_def Let_def)

lemma snapshot_slot_lt: "find_free_snapshot_slot crc d = Some i \<Longrightarrow> i < MAX_SNAPSHOT_SLOTS"
  by (auto simp: find_free_snapshot_slot_def find_Some_iff)

lemma scan_free_mem: "scan_free crc t f is = Inr (Some i) \<Longrightarrow> i \<in> set is"
  by (induction "is") (auto split: sum.splits if_splits)

lemma first_empty_blockD:
  assumes "first_empty_block bs = Some i"
  shows "i < length bs" and "bs ! i = 0"
proof -
  let ?r = "drop 1 bs" and ?n = "length (takeWhile (\<lambda>o'. o' \<noteq> 0) (drop 1 bs))"
  from assms have i: "i = ?n + 1" "?n < length ?r" by (simp_all add: first_empty_block_def Let_def split: if_splits)
  then show "i < length bs" by simp
  have "?r ! ?n = 0" using nth_length_takeWhile [OF i(2)] by simp
  then show "bs ! i = 0" using i by simp
qed

lemma alloc_inode_dir:
  assumes "dir_length d" and "dm_alloc_inode crc d = (r, d')"
  shows "dir_length d'" and "r = Some i \<Longrightarrow> i < MAX_FILES"
proof -
  let ?t = "(dm_inode_table d)\<lparr>it_next_end := sb_next_data_offset (dm_superblock d)\<rparr>"
  have len: "length (it_blocks ?t) = MAX_INODE_BLOCKS" using assms(1) by (simp add: dir_length_def)
  obtain q t f where run: "it_alloc_inode crc ?t (dm_file d) = (q, t, f)"
    by (cases "it_alloc_inode crc ?t (dm_file d)") auto
  have "length (it_blocks t) = MAX_INODE_BLOCKS"
    using run len by (auto simp: it_alloc_inode_def alloc_block_def Let_def split: sum.splits option.splits)
  moreover have "i < MAX_FILES" if "q = Inr (Some (i, b))" for i b
  proof -
    have "block_count ?t \<le> MAX_INODE_BLOCKS" using len by (metis block_count_def length_filter_le)
    moreover have "block_count ?t < MAX_INODE_BLOCKS" if "first_empty_block (it_blocks ?t) = Some k" for k
    proof -
      have "0 \<in> set (it_blocks ?t)" using first_empty_blockD [OF that] by (metis nth_mem)
      then have "length (filter (\<lambda>o'. o' \<noteq> 0) (it_blocks ?t)) < length (it_blocks ?t)"
        by (intro length_filter_less) auto
      then show ?thesis unfolding block_count_def len .
    qed
    moreover have "i < it_capacity ?t \<or> (i = it_capacity ?t \<and> (\<exists>k. first_empty_block (it_blocks ?t) = Some k))"
      using run \<open>q = Inr (Some (i, b))\<close>
      by (auto simp: it_alloc_inode_def alloc_block_def Let_def dest!: scan_free_mem split: sum.splits option.splits)
    ultimately show ?thesis
      by (auto simp: it_capacity_def MAX_FILES_def MAX_INODES_TOTAL_def INODES_PER_BLOCK_def MAX_INODE_BLOCKS_def)
  qed
  ultimately show "dir_length d'" and "r = Some i \<Longrightarrow> i < MAX_FILES"
    using assms(2) run
    by (auto simp: dm_alloc_inode_def dir_length_def write_superblock_def Let_def split: sum.splits option.splits if_splits)
qed

section \<open>The invariant\<close>

text \<open>A snapshot's slot is in the table, or marks it as not stored.\<close>

definition slots_ok :: "snapshot_manager \<Rightarrow> bool" where
  "slots_ok m \<longleftrightarrow> (\<forall>(ino, v) \<in> set (sm_snapshots m). \<forall>x \<in> set v.
     ss_disk_slot x < MAX_SNAPSHOT_SLOTS \<or> ss_disk_slot x = NOT_ON_DISK)"

definition vex_safe :: "vexfs \<Rightarrow> bool" where
  "vex_safe s \<longleftrightarrow> bt_inv (fs_index s) \<and> hm_wf (fs_files s) \<and> cache_inv (fs_cache s) \<and> wb_inv (fs_write_buffer s)
     \<and> dir_length (fs_disk s) \<and> slots_ok (fs_snapshots s)
     \<and> (\<forall>ino f. hm_get (fs_files s) ino = Some f \<longrightarrow> vf_disk_index f < MAX_FILES)
     \<and> (\<forall>ino p. hm_get (wb_pending (fs_write_buffer s)) ino = Some p \<longrightarrow> pw_disk_index p < MAX_FILES)
     \<and> (\<forall>p n v. bt_get p n (fs_index s) = Some v \<longrightarrow> v_disk_index v < MAX_FILES)"

lemma vex_safeD:
  assumes "vex_safe s"
  shows "bt_inv (fs_index s)" "hm_wf (fs_files s)" "cache_inv (fs_cache s)" "wb_inv (fs_write_buffer s)"
    "dir_length (fs_disk s)" "slots_ok (fs_snapshots s)"
    "hm_get (fs_files s) ino = Some f \<Longrightarrow> vf_disk_index f < MAX_FILES"
    "hm_get (wb_pending (fs_write_buffer s)) ino = Some q \<Longrightarrow> pw_disk_index q < MAX_FILES"
    "bt_get p n (fs_index s) = Some v \<Longrightarrow> v_disk_index v < MAX_FILES"
  using assms unfolding vex_safe_def by blast+

text \<open>A file without what a flush may change.\<close>

definition file_meta :: "vex_file \<Rightarrow> vex_file" where
  "file_meta f = f\<lparr>vf_dirty := False, vf_data_offset := 0\<rparr>"

definition moves_data :: "vexfs \<Rightarrow> vexfs \<Rightarrow> bool" where
  "moves_data s s' \<longleftrightarrow> fs_index s' = fs_index s \<and> fs_next_inode s' = fs_next_inode s
     \<and> fs_snapshots s' = fs_snapshots s \<and> fs_events s' = fs_events s \<and> fs_search_docs s' = fs_search_docs s
     \<and> fs_search_query s' = fs_search_query s \<and> fs_ask_query s' = fs_ask_query s
     \<and> arc_data (fs_cache s') = arc_data (fs_cache s)
     \<and> (\<forall>ino. map_option file_meta (hm_get (fs_files s') ino) = map_option file_meta (hm_get (fs_files s) ino))"

lemma moves_refl [simp]: "moves_data s s"
  by (simp add: moves_data_def)

lemma moves_trans: "moves_data s t \<Longrightarrow> moves_data t u \<Longrightarrow> moves_data s u"
  by (simp add: moves_data_def)

lemma moves_updates [simp]:
  "moves_data s (s\<lparr>fs_disk := d\<rparr>)" "moves_data s (s\<lparr>fs_write_buffer := b\<rparr>)"
  "arc_data c = arc_data (fs_cache s) \<Longrightarrow> moves_data s (s\<lparr>fs_cache := c\<rparr>)"
  by (simp_all add: moves_data_def)

lemma update_file_fields [simp]:
  "fs_index (update_file ino g s) = fs_index s" "fs_next_inode (update_file ino g s) = fs_next_inode s"
  "fs_disk (update_file ino g s) = fs_disk s" "fs_snapshots (update_file ino g s) = fs_snapshots s"
  "fs_write_buffer (update_file ino g s) = fs_write_buffer s" "fs_cache (update_file ino g s) = fs_cache s"
  "fs_events (update_file ino g s) = fs_events s" "fs_search_docs (update_file ino g s) = fs_search_docs s"
  "fs_search_query (update_file ino g s) = fs_search_query s" "fs_ask_query (update_file ino g s) = fs_ask_query s"
  "hm_get (fs_files (update_file ino g s)) i =
     (if i = ino then map_option g (hm_get (fs_files s) i) else hm_get (fs_files s) i)"
  by (simp_all add: update_file_def split: option.splits)

lemma moves_update_file:
  "(\<And>f. file_meta (g f) = file_meta f) \<Longrightarrow> moves_data s (update_file ino g s)"
  by (cases "hm_get (fs_files s) ino") (simp_all add: moves_data_def)

lemma send_fields [simp]:
  "fs_index (send e s) = fs_index s" "fs_next_inode (send e s) = fs_next_inode s" "fs_disk (send e s) = fs_disk s"
  "fs_snapshots (send e s) = fs_snapshots s" "fs_write_buffer (send e s) = fs_write_buffer s"
  "fs_cache (send e s) = fs_cache s" "fs_files (send e s) = fs_files s" "fs_events (send e s) = fs_events s @ [e]"
  by (simp_all add: send_def)

lemma wf_update_file: "hm_wf (fs_files s) \<Longrightarrow> hm_wf (fs_files (update_file ino g s))"
  by (simp add: update_file_def split: option.splits)

named_theorems safe_intro

lemma safe_disk [safe_intro]: "vex_safe s \<Longrightarrow> dir_length d \<Longrightarrow> vex_safe (s\<lparr>fs_disk := d\<rparr>)"
  by (simp add: vex_safe_def)

lemma safe_cache [safe_intro]: "vex_safe s \<Longrightarrow> cache_inv c \<Longrightarrow> vex_safe (s\<lparr>fs_cache := c\<rparr>)"
  by (simp add: vex_safe_def)

lemma safe_snapshots [safe_intro]: "vex_safe s \<Longrightarrow> slots_ok m \<Longrightarrow> vex_safe (s\<lparr>fs_snapshots := m\<rparr>)"
  by (simp add: vex_safe_def)

lemma safe_queries [safe_intro]:
  "vex_safe s \<Longrightarrow> vex_safe (s\<lparr>fs_search_query := q\<rparr>)" "vex_safe s \<Longrightarrow> vex_safe (s\<lparr>fs_ask_query := q\<rparr>)"
  "vex_safe s \<Longrightarrow> vex_safe (send e s)"
  by (simp_all add: vex_safe_def send_def)

lemma safe_take [safe_intro]: "vex_safe s \<Longrightarrow> vex_safe (s\<lparr>fs_write_buffer := snd (wb_take ino (fs_write_buffer s))\<rparr>)"
  by (auto simp: vex_safe_def wb_take_inv) (simp add: wb_take_def split: if_splits)

lemma safe_buffer_write [safe_intro]:
  "vex_safe s \<Longrightarrow> i < MAX_FILES \<Longrightarrow> vex_safe (s\<lparr>fs_write_buffer := wb_write now ino name data i (fs_write_buffer s)\<rparr>)"
  by (auto simp: vex_safe_def wb_write_inv) (auto simp: wb_write_def split: if_splits)

lemma safe_update_file [safe_intro]:
  "vex_safe s \<Longrightarrow> (\<And>f. vf_disk_index (g f) = vf_disk_index f) \<Longrightarrow> vex_safe (update_file ino g s)"
  by (auto simp: vex_safe_def wf_update_file split: if_splits)

lemma wb_take_index:
  assumes "vex_safe s" and "wb_take ino (fs_write_buffer s) = (Some (data, i, name), b)"
  shows "i < MAX_FILES"
  using assms vex_safeD(8) [OF assms(1)] by (auto simp: wb_take_def)

section \<open>Moving data\<close>

definition moved :: "vexfs \<Rightarrow> vexfs \<Rightarrow> bool" where
  "moved s s' \<longleftrightarrow> vex_safe s' \<and> moves_data s s'"

lemma moved_refl: "vex_safe s \<Longrightarrow> moved s s"
  by (simp add: moved_def)

lemma moved_trans: "moved s t \<Longrightarrow> moved t u \<Longrightarrow> moved s u"
  by (auto simp: moved_def intro: moves_trans)

lemma moved_safe: "moved s t \<Longrightarrow> vex_safe t"
  by (simp add: moved_def)

lemma runs_moved: "moved s t \<Longrightarrow> runs m (moved t) \<Longrightarrow> runs m (moved s)"
  by (auto simp: runs_def intro: moved_trans)

lemma persist_runs:
  assumes "vex_safe s" and "i < MAX_FILES"
  shows "runs (persist_to_disk w ino name data i s)
    (\<lambda>s'. moved s s' \<and> fs_cache s' = fs_cache s \<and> fs_write_buffer s' = fs_write_buffer s)"
proof -
  define disk0 where "disk0 = (case hm_get (fs_files s) ino of
      Some f \<Rightarrow> if 0 < vf_data_offset f \<and> 0 < fa_size (vf_attr f)
                then free_data (vf_data_offset f) (fa_size (vf_attr f)) (fs_disk s) else fs_disk s
    | None \<Rightarrow> fs_disk s)"
  have d0: "dir_length disk0"
    using vex_safeD(5) [OF assms(1)] by (simp add: disk0_def split: option.splits)
  define out where "out = data_to_write w name data"
  obtain off disk1 where alloc:
    "(if out \<noteq> [] then alloc_data (length out) disk0 else (of_nat DATA_OFFSET, disk0)) = (off, disk1)" by fastforce
  have d1: "dir_length disk1"
    using alloc d0 alloc_data_dir [of "length out" disk0] by (auto split: if_splits)
  have fin: "moved s (update_file ino (\<lambda>f. f\<lparr>vf_data_offset := off\<rparr>) (s\<lparr>fs_disk := dm_flush (w_crc w) d\<rparr>))"
    if "dir_length d" for d
    unfolding moved_def
    by (intro conjI safe_intro moves_trans [OF _ moves_update_file]) (use that assms in \<open>simp_all add: file_meta_def\<close>)
  show ?thesis
    unfolding persist_to_disk_def disk0_def [symmetric] out_def [symmetric] alloc Let_def prod.case
    apply (rule runs_bind [where P = dir_length])
    subgoal using d1 write_file_data_runs [OF d1] by simp
    apply (rule runs_bind [where P = dir_length])
    subgoal using assms(2) by (intro write_inode_runs) simp_all
    subgoal using fin by simp
    done
qed

lemma persist_moved:
  "vex_safe s \<Longrightarrow> i < MAX_FILES \<Longrightarrow> runs (persist_to_disk w ino name data i s) (moved s)"
  by (rule runs_mono [OF persist_runs]) auto

text \<open>Taking a pending write and persisting it.\<close>

lemma take_moved: "vex_safe s \<Longrightarrow> wb_take ino (fs_write_buffer s) = (r, b) \<Longrightarrow> moved s (s\<lparr>fs_write_buffer := b\<rparr>)"
  using safe_take [of s ino] by (simp add: moved_def)

lemma take_persist_moved:
  assumes "vex_safe s" and "wb_take ino (fs_write_buffer s) = (Some (data, i, name), b)"
  shows "runs (persist_to_disk w ino' name data i (s\<lparr>fs_write_buffer := b\<rparr>)) (moved s)"
  by (rule runs_moved [OF take_moved [OF assms] persist_moved])
    (use assms take_moved [OF assms] wb_take_index [OF assms] in \<open>simp_all add: moved_def\<close>)

lemma flush_due_moved: "vex_safe s \<Longrightarrow> runs (flush_due w due s) (moved s)"
proof (induction due arbitrary: s)
  case (Cons ino due)
  obtain r b where t: "wb_take ino (fs_write_buffer s) = (r, b)" by fastforce
  note m = take_moved [OF Cons.prems t]
  show ?case
  proof (cases r)
    case None
    with t runs_moved [OF m Cons.IH [OF moved_safe [OF m]]] show ?thesis by simp
  next
    case (Some q)
    then obtain data i name where q: "r = Some (data, i, name)" by (cases q) auto
    show ?thesis
      unfolding flush_due.simps t q option.case prod.case
      by (rule runs_bind [OF take_persist_moved [OF Cons.prems t [unfolded q]]])
        (rule runs_moved, assumption, rule Cons.IH, erule moved_safe)
  qed
qed (simp add: moved_refl)

lemma get_moved:
  assumes "vex_safe s" and "arc_get ino (fs_cache s) = (r, c)"
  shows "moved s (s\<lparr>fs_cache := c\<rparr>)"
  using get_ok(1,3) [OF vex_safeD(3) [OF assms(1)] assms(2)] safe_cache [OF assms(1)] by (simp add: moved_def)

lemma undirty_moved: "vex_safe s \<Longrightarrow> moved s (update_file ino (\<lambda>f. f\<lparr>vf_dirty := False\<rparr>) s)"
  unfolding moved_def by (intro conjI safe_intro moves_update_file) (simp_all add: file_meta_def)

lemma runs_undirty:
  "runs m (moved s) \<Longrightarrow> runs (m \<bind> (\<lambda>s. Some (update_file ino (\<lambda>f. f\<lparr>vf_dirty := False\<rparr>) s))) (moved s)"
  by (erule runs_bind) (simp, rule moved_trans, assumption, rule undirty_moved, erule moved_safe)

lemma flush_file_moved:
  assumes "vex_safe s"
  shows "runs (flush_file w ino s) (moved s)"
proof (cases "\<exists>f. hm_get (fs_files s) ino = Some f \<and> vf_dirty f")
  case False
  with moved_refl [OF assms] show ?thesis by (auto simp: flush_file_def split: option.splits)
next
  case True
  then obtain f where f: "hm_get (fs_files s) ino = Some f" "vf_dirty f" by blast
  let ?s1 = "update_file ino (\<lambda>f. f\<lparr>vf_dirty := False\<rparr>) s"
  note m1 = undirty_moved [OF assms, of ino]
  obtain r c where g: "arc_get ino (fs_cache ?s1) = (r, c)" by fastforce
  note m2 = moved_trans [OF m1 get_moved [OF moved_safe [OF m1] g]]
  show ?thesis
  proof (cases r)
    case None
    with f g m2 show ?thesis by (simp add: flush_file_def)
  next
    case (Some data)
    let ?s2 = "?s1\<lparr>fs_cache := c\<rparr>"
    let ?b = "wb_write (w_now w) ino (vf_name f) data (vf_disk_index f) (fs_write_buffer s)"
    have "vex_safe (?s2\<lparr>fs_write_buffer := wb_write (w_now w) ino (vf_name f) data (vf_disk_index f) (fs_write_buffer ?s2)\<rparr>)"
      by (rule safe_buffer_write [OF moved_safe [OF m2] vex_safeD(7) [OF assms f(1)]])
    then have m3: "moved ?s2 (?s2\<lparr>fs_write_buffer := ?b\<rparr>)" by (simp add: moved_def)
    from runs_moved [OF moved_trans [OF m2 m3] flush_due_moved [OF moved_safe [OF m3]]] f g Some
    show ?thesis by (simp add: flush_file_def Let_def)
  qed
qed

lemma pre_eviction_flush_moved:
  assumes "vex_safe s"
  shows "runs (pre_eviction_flush w s) (moved s)"
proof -
  have flush: "runs (case wb_take ino (fs_write_buffer s) of
        (Some (d, i, n), b) \<Rightarrow> persist_to_disk w ino n d i (s\<lparr>fs_write_buffer := b\<rparr>)
      | (None, b) \<Rightarrow>
          (let (hit, c) = arc_get ino (fs_cache s); s = s\<lparr>fs_write_buffer := b, fs_cache := c\<rparr>
           in case hit of Some data \<Rightarrow> persist_to_disk w ino (vf_name f) data (vf_disk_index f) s | None \<Rightarrow> Some s)) (moved s)"
    if f: "hm_get (fs_files s) ino = Some f" for ino f
  proof -
    obtain r b where t: "wb_take ino (fs_write_buffer s) = (r, b)" by fastforce
    note m1 = take_moved [OF assms t]
    obtain q c where g: "arc_get ino (fs_cache s) = (q, c)" by fastforce
    have m2: "moved s (s\<lparr>fs_write_buffer := b, fs_cache := c\<rparr>)"
      using moved_trans [OF m1 get_moved [OF moved_safe [OF m1]]] g by simp
    have "runs (persist_to_disk w ino (vf_name f) data (vf_disk_index f) (s\<lparr>fs_write_buffer := b, fs_cache := c\<rparr>)) (moved s)" for data
      by (rule runs_moved [OF m2 persist_moved [OF moved_safe [OF m2] vex_safeD(7) [OF assms f]]])
    with m2 take_persist_moved [OF assms] t g show ?thesis
      by (auto simp: Let_def split: option.splits)
  qed
  note refl = moved_refl [OF assms]
  show ?thesis
  proof (cases "arc_peek_eviction_candidate (fs_cache s)")
    case (Some ino)
    show ?thesis
    proof (cases "hm_get (fs_files s) ino")
      case f: (Some f)
      from runs_undirty [OF flush [OF f]] refl f Some show ?thesis
        unfolding pre_eviction_flush_def by simp
    qed (simp add: pre_eviction_flush_def Some refl)
  qed (simp add: pre_eviction_flush_def refl)
qed

lemma flush_evicted_moved:
  assumes "vex_safe s"
  shows "runs (flush_evicted w ino s) (moved s)"
proof -
  have flush: "runs (case wb_take ino (fs_write_buffer s) of
        (Some (d, i, n), b) \<Rightarrow> persist_to_disk w ino n d i (s\<lparr>fs_write_buffer := b\<rparr>)
      | (None, b) \<Rightarrow>
          (let s = s\<lparr>fs_write_buffer := b\<rparr> in
           if 0 < vf_data_offset f \<and> 0 < fa_size (vf_attr f)
           then (case read_file_data (vf_data_offset f) (unat (fa_size (vf_attr f))) (fs_disk s) of
                   Inr raw \<Rightarrow> persist_to_disk w ino (vf_name f) (decompress (w_zdec w) raw) (vf_disk_index f) s
                 | Inl _ \<Rightarrow> Some s)
           else Some s)) (moved s)"
    if f: "hm_get (fs_files s) ino = Some f" for f
  proof -
    obtain r b where t: "wb_take ino (fs_write_buffer s) = (r, b)" by fastforce
    note m = take_moved [OF assms t]
    have "runs (persist_to_disk w ino (vf_name f) data (vf_disk_index f) (s\<lparr>fs_write_buffer := b\<rparr>)) (moved s)" for data
      by (rule runs_moved [OF m persist_moved [OF moved_safe [OF m] vex_safeD(7) [OF assms f]]])
    with m take_persist_moved [OF assms] t show ?thesis
      by (auto simp: Let_def split: option.splits sum.splits)
  qed
  show ?thesis
  proof (cases "hm_get (fs_files s) ino")
    case (Some f)
    from runs_undirty [OF flush [OF Some]] moved_refl [OF assms] Some show ?thesis
      by (simp add: flush_evicted_def del: Let_def)
  qed (simp add: flush_evicted_def moved_refl [OF assms])
qed

lemma flush_evictions_moved: "vex_safe s \<Longrightarrow> runs (flush_evictions w inos s) (moved s)"
proof (induction inos arbitrary: s)
  case (Cons ino inos)
  show ?case
    unfolding flush_evictions.simps
    by (rule runs_bind [OF flush_evicted_moved [OF Cons.prems]])
      (rule runs_moved, assumption, rule Cons.IH, erule moved_safe)
qed (simp add: moved_refl)

text \<open>\<open>cache_insert\<close> stores the data; another key may lose its cached copy, and nothing else changes.\<close>

definition stored :: "u64 \<Rightarrow> bytes \<Rightarrow> vexfs \<Rightarrow> vexfs \<Rightarrow> bool" where
  "stored ino data s s' \<longleftrightarrow> vex_safe s' \<and> moves_data s (s'\<lparr>fs_cache := fs_cache s\<rparr>)
     \<and> arc_lookup (fs_cache s') ino = Some data
     \<and> (\<forall>l. l \<noteq> ino \<longrightarrow> arc_lookup (fs_cache s') l = None \<or> arc_lookup (fs_cache s') l = arc_lookup (fs_cache s) l)"

lemma cache_inv_drained [simp]: "cache_inv (c\<lparr>arc_evicted := ks\<rparr>) = cache_inv c"
  by (simp add: cache_inv_def)

lemma arc_insert_stores:
  assumes "cache_inv c"
  obtains c' where "arc_insert k v c = Some c'" and "cache_inv c'" and "arc_lookup c' k = Some v"
    and "\<forall>l. l \<noteq> k \<longrightarrow> arc_lookup c' l = None \<or> arc_lookup c' l = arc_lookup c l"
proof (cases "hm_get (arc_data c) k")
  case None
  obtain c' ks where c': "arc_insert k v c = Some c'" "cache_inv c'" "arc_evicted c' = arc_evicted c @ ks"
    "k \<notin> set ks" "\<forall>l. hm_get (arc_data c') l = (if l = k then Some \<lparr>ce_data = v, ce_size = length v\<rparr>
         else if l \<in> set ks then None else hm_get (arc_data c) l)"
    by (rule insert_absent [OF assms None, of v])
  then have "arc_lookup c' k = Some v" by simp
  moreover have "\<forall>l. l \<noteq> k \<longrightarrow> arc_lookup c' l = None \<or> arc_lookup c' l = arc_lookup c l"
    using c'(5) by simp
  ultimately show ?thesis using that [OF c'(1,2)] by blast
next
  case (Some e)
  obtain c' where c': "arc_insert k v c = Some c'" "cache_inv c'" "arc_evicted c' = arc_evicted c"
    "arc_data c' = hm_insert k \<lparr>ce_data = v, ce_size = length v\<rparr> (arc_data c)"
    by (rule insert_present [OF assms Some, of v])
  then show ?thesis by (intro that [OF c'(1,2)]) simp_all
qed

lemma cache_insert_stored:
  assumes "vex_safe s"
  shows "runs (cache_insert w ino data s) (stored ino data s)"
  unfolding cache_insert_def
proof (rule runs_bind [OF pre_eviction_flush_moved [OF assms]])
  fix s1 assume m: "moved s s1"
  then have safe: "vex_safe s1" by (rule moved_safe)
  obtain c where c: "arc_insert ino data (fs_cache s1) = Some c" "cache_inv c" "arc_lookup c ino = Some data"
    "\<forall>l. l \<noteq> ino \<longrightarrow> arc_lookup c l = None \<or> arc_lookup c l = arc_lookup (fs_cache s1) l"
    by (rule arc_insert_stores [OF vex_safeD(3) [OF safe]])
  let ?s2 = "s1\<lparr>fs_cache := c\<lparr>arc_evicted := []\<rparr>\<rparr>"
  have safe2: "vex_safe ?s2" using safe_cache [OF safe] c(2) by simp
  have fin: "stored ino data s s'" if s': "moved ?s2 s'" for s'
  proof -
    have "moves_data s (s'\<lparr>fs_cache := fs_cache s\<rparr>)"
      using s' m by (simp add: moved_def moves_data_def)
    moreover have "arc_data (fs_cache s') = arc_data c" "arc_data (fs_cache s1) = arc_data (fs_cache s)"
      using s' m by (simp_all add: moved_def moves_data_def)
    ultimately show ?thesis using c(3,4) moved_safe [OF s'] by (simp add: stored_def)
  qed
  show "runs (arc_insert ino data (fs_cache s1) \<bind> (\<lambda>c. flush_cache_evictions w (s1\<lparr>fs_cache := c\<rparr>))) (stored ino data s)"
    using runs_mono [OF flush_evictions_moved [OF safe2] fin]
    by (simp add: c(1) flush_cache_evictions_def arc_drain_evicted_def)
qed

section \<open>Snapshots\<close>

definition slot_ok :: "snapshot \<Rightarrow> bool" where
  "slot_ok x \<longleftrightarrow> ss_disk_slot x < MAX_SNAPSHOT_SLOTS \<or> ss_disk_slot x = NOT_ON_DISK"

lemma slots_ok_iff: "slots_ok m \<longleftrightarrow> (\<forall>(ino, v) \<in> set (sm_snapshots m). \<forall>x \<in> set v. slot_ok x)"
  by (simp add: slots_ok_def slot_ok_def)

lemma set_hm_insert: "set (hm_insert k v m) \<subseteq> insert (k, v) (set m)"
  by (induction m) (auto simp: hm_insert_def)

lemma slots_ok_insert:
  "slots_ok m \<Longrightarrow> \<forall>x \<in> set v. slot_ok x \<Longrightarrow> slots_ok (m'\<lparr>sm_snapshots := hm_insert ino v (sm_snapshots m)\<rparr>)"
  using set_hm_insert [of ino v "sm_snapshots m"] by (fastforce simp: slots_ok_iff)

lemma slots_ok_get: "slots_ok m \<Longrightarrow> hm_get (sm_snapshots m) ino = Some v \<Longrightarrow> \<forall>x \<in> set v. slot_ok x"
  by (auto simp: slots_ok_iff dest!: hm_get_in_set)

lemma sm_snapshot_slots:
  assumes "slots_ok m"
  shows "slots_ok (sm_snapshot now ino name data off m)"
proof -
  have "\<forall>x \<in> set (sm_list ino m). slot_ok x"
    using slots_ok_get [OF assms, of ino] by (cases "hm_get (sm_snapshots m) ino") (simp_all add: sm_list_def)
  moreover have "slot_ok (snapshot_new now i ino name data off)" for i
    by (simp add: slot_ok_def snapshot_new_def)
  ultimately have "\<forall>x \<in> set (remove_nth 0 (sm_list ino m @ [snapshot_new now i ino name data off])). slot_ok x"
    "\<forall>x \<in> set (sm_list ino m @ [snapshot_new now i ino name data off]). slot_ok x" for i
    by (auto simp: remove_nth_def dest: in_set_dropD)
  then show ?thesis
    using assms by (auto simp: sm_snapshot_def Let_def intro!: slots_ok_insert)
qed

definition snapped :: "vexfs \<Rightarrow> vexfs \<Rightarrow> bool" where
  "snapped s s' \<longleftrightarrow> vex_safe s' \<and> s' = s\<lparr>fs_snapshots := fs_snapshots s', fs_disk := fs_disk s'\<rparr>"

lemma snapped_fields:
  assumes "snapped s s'"
  shows "fs_index s' = fs_index s" "fs_next_inode s' = fs_next_inode s" "fs_cache s' = fs_cache s"
    "fs_files s' = fs_files s" "vex_safe s'"
proof -
  from assms have eq: "s' = s\<lparr>fs_snapshots := fs_snapshots s', fs_disk := fs_disk s'\<rparr>" and "vex_safe s'"
    unfolding snapped_def by blast+
  show "fs_index s' = fs_index s" "fs_next_inode s' = fs_next_inode s" "fs_cache s' = fs_cache s"
    "fs_files s' = fs_files s" by (subst eq, simp)+
  show "vex_safe s'" by fact
qed

lemma set_update_last: "set (update_last g v) \<subseteq> set v \<union> g ` set v"
  by (auto simp: update_last_def dest: in_set_butlastD)

lemma take_snapshot_snapped:
  assumes "vex_safe s"
  shows "runs (take_snapshot w ino name old off s) (snapped s)"
proof -
  let ?m = "sm_snapshot (w_now w) ino name old off (fs_snapshots s)"
  have m: "slots_ok ?m" by (rule sm_snapshot_slots [OF vex_safeD(6) [OF assms]])
  show ?thesis
  proof (cases "find_free_snapshot_slot (w_crc w) (fs_disk s)")
    case None
    with safe_snapshots [OF assms m] show ?thesis by (simp add: take_snapshot_def snapped_def)
  next
    case (Some slot)
    have slot: "slot < MAX_SNAPSHOT_SLOTS" by (rule snapshot_slot_lt [OF Some])
    let ?m' = "case hm_get (sm_snapshots ?m) ino of
        Some v \<Rightarrow> ?m\<lparr>sm_snapshots := hm_insert ino (update_last (\<lambda>x. x\<lparr>ss_disk_slot := slot\<rparr>) v) (sm_snapshots ?m)\<rparr>
      | None \<Rightarrow> ?m"
    have "slots_ok ?m'"
    proof (cases "hm_get (sm_snapshots ?m) ino")
      case (Some v)
      have "\<forall>x \<in> set (update_last (\<lambda>x. x\<lparr>ss_disk_slot := slot\<rparr>) v). slot_ok x"
        using slots_ok_get [OF m Some] slot set_update_last [of "\<lambda>x. x\<lparr>ss_disk_slot := slot\<rparr>" v]
        by (fastforce simp: slot_ok_def)
      with Some slots_ok_insert [OF m] show ?thesis by simp
    qed (use m in simp)
    then have fin: "snapped s (s\<lparr>fs_snapshots := ?m', fs_disk := d\<rparr>)" if "dir_length d" for d
      using safe_disk [OF safe_snapshots [OF assms]] that by (simp add: snapped_def)
    show ?thesis
      unfolding take_snapshot_def Some Let_def option.case
      by (rule runs_bind [OF write_snapshot_runs [OF vex_safeD(5) [OF assms] slot]]) (simp only: runs_Some fin)
  qed
qed

lemma release_slots_runs:
  "dir_length d \<Longrightarrow> \<forall>(slot, _) \<in> set freed. slot < MAX_SNAPSHOT_SLOTS \<Longrightarrow> runs (release_slots freed d) dir_length"
proof (induction freed arbitrary: d)
  case (Cons p freed)
  obtain slot off sz where p: "p = (slot, off, sz)" by (cases p) auto
  with Cons show ?case by (simp add: zero_snapshot_slot_def)
qed simp

lemma gc_slots:
  assumes "slots_ok m" and "gc_keep_per_file k m = (freed, m')"
  shows "slots_ok m'" and "\<forall>(slot, _) \<in> set freed. slot < MAX_SNAPSHOT_SLOTS"
proof -
  have "set (fst (gc_list k v)) \<subseteq> set v" for v
    by (auto simp: gc_list_def Let_def dest: in_set_dropD)
  moreover have "\<exists>x \<in> set v. ss_disk_slot x = slot \<and> slot \<noteq> NOT_ON_DISK" if "(slot, z) \<in> set (snd (gc_list k v))" for v slot z
    using that by (force simp: gc_list_def Let_def split: if_splits dest!: in_set_takeD)
  ultimately show "slots_ok m'" and "\<forall>(slot, _) \<in> set freed. slot < MAX_SNAPSHOT_SLOTS"
    using assms by (fastforce simp: slots_ok_iff slot_ok_def gc_keep_per_file_def)+
qed

lemma maybe_gc_snapped:
  assumes "vex_safe s"
  shows "runs (maybe_gc_snapshots s) (snapped s)"
proof (cases "total_snapshots (fs_snapshots s) < SNAPSHOT_GC_THRESHOLD")
  case True
  with assms show ?thesis by (simp add: maybe_gc_snapshots_def snapped_def)
next
  case False
  obtain freed m where gc: "gc_keep_per_file SNAPSHOT_GC_KEEP (fs_snapshots s) = (freed, m)" by fastforce
  note ok = gc_slots [OF vex_safeD(6) [OF assms] gc]
  have "snapped s (s\<lparr>fs_snapshots := m, fs_disk := d\<rparr>)" if "dir_length d" for d
    using safe_disk [OF safe_snapshots [OF assms ok(1)] that] by (simp add: snapped_def)
  then have "runs (release_slots freed (fs_disk s) \<bind> (\<lambda>d. Some (s\<lparr>fs_snapshots := m, fs_disk := d\<rparr>))) (snapped s)"
    by (intro runs_bind [OF release_slots_runs [OF vex_safeD(5) [OF assms] ok(2)]]) (simp only: runs_Some)
  with False gc show ?thesis by (simp add: maybe_gc_snapshots_def)
qed

section \<open>Handlers\<close>

text \<open>A handler replies and keeps the invariant.\<close>

definition replies :: "(reply \<times> vexfs) option \<Rightarrow> bool" where
  "replies m \<longleftrightarrow> runs m (\<lambda>(_, s'). vex_safe s')"

lemma replies_Some [simp]: "replies (Some (r, s)) \<longleftrightarrow> vex_safe s"
  by (simp add: replies_def)

lemma replies_bind: "runs m P \<Longrightarrow> (\<And>x. P x \<Longrightarrow> replies (g x)) \<Longrightarrow> replies (m \<bind> g)"
  unfolding replies_def by (rule runs_bind)

lemma lookup_replies: "vex_safe s \<Longrightarrow> replies (vex_lookup w parent name s)"
  by (auto simp: vex_lookup_def Let_def split: option.splits intro!: safe_intro)

lemma getattr_replies: "vex_safe s \<Longrightarrow> replies (vex_getattr w ino s)"
  by (simp add: vex_getattr_def)

lemma readdir_replies: "vex_safe s \<Longrightarrow> replies (vex_readdir full ino off s)"
  by (simp add: vex_readdir_def)

lemma statfs_replies: "vex_safe s \<Longrightarrow> replies (vex_statfs s)"
  by (simp add: vex_statfs_def Let_def)

lemma release_replies: "vex_safe s \<Longrightarrow> replies (vex_release w ino s)"
  by (auto simp: vex_release_def split: option.splits intro!: safe_intro)

lemma flush_replies: "vex_safe s \<Longrightarrow> replies (vex_flush w ino s)" "vex_safe s \<Longrightarrow> replies (vex_fsync w ino s)"
  unfolding vex_flush_def vex_fsync_def
  by (rule replies_bind [OF flush_file_moved], assumption, simp add: moved_safe)+

lemma read_replies:
  assumes "vex_safe s"
  shows "replies (vex_read w ino off sz s)"
proof -
  obtain r c where g: "arc_get ino (fs_cache s) = (r, c)" by fastforce
  note safe = moved_safe [OF get_moved [OF assms g]]
  have "replies (cache_insert w ino data (s\<lparr>fs_cache := c\<rparr>) \<bind> (\<lambda>s. Some (reply_slice off sz data, s)))" for data
    by (rule replies_bind [OF cache_insert_stored [OF safe]]) (simp add: stored_def)
  with assms safe g show ?thesis
    by (auto simp: vex_read_def Let_def split: option.splits)
qed

text \<open>The steps \<open>write\<close> and \<open>setattr\<close> share: update the file, collect old snapshots, store the content.\<close>

definition resized :: "u64 \<Rightarrow> (vex_file \<Rightarrow> vex_file) \<Rightarrow> bytes \<Rightarrow> vexfs \<Rightarrow> vexfs \<Rightarrow> bool" where
  "resized ino g content s s' \<longleftrightarrow> vex_safe s' \<and> fs_index s' = fs_index s \<and> fs_next_inode s' = fs_next_inode s
     \<and> arc_lookup (fs_cache s') ino = Some content
     \<and> (\<forall>l. l \<noteq> ino \<longrightarrow> arc_lookup (fs_cache s') l = None \<or> arc_lookup (fs_cache s') l = arc_lookup (fs_cache s) l)
     \<and> (\<forall>i. map_option file_meta (hm_get (fs_files s') i)
          = map_option file_meta (if i = ino then map_option g (hm_get (fs_files s) i) else hm_get (fs_files s) i))"

lemma resized_from:
  assumes "snapped (update_file ino g s) s1" and "stored ino content s1 s'"
  shows "resized ino g content s s'"
proof -
  have "fs_index s1 = fs_index s" "fs_next_inode s1 = fs_next_inode s" "fs_cache s1 = fs_cache s"
    "fs_files s1 = fs_files (update_file ino g s)"
    using snapped_fields [OF assms(1)] by simp_all
  then show ?thesis
    using assms(2) by (simp add: resized_def stored_def moves_data_def)
qed

lemma resize_tail:
  assumes "vex_safe s" and "\<And>f. vf_disk_index (g f) = vf_disk_index f"
    and "\<And>s'. resized ino g content s s' \<Longrightarrow> Q (h s')"
  shows "runs ((if b then maybe_gc_snapshots (update_file ino g s) else Some (update_file ino g s))
    \<bind> (\<lambda>s. cache_insert w ino content s \<bind> (\<lambda>s. Some (h s)))) Q"
proof -
  note safe = safe_update_file [OF assms(1,2)]
  have "runs (if b then maybe_gc_snapshots (update_file ino g s) else Some (update_file ino g s)) (snapped (update_file ino g s))"
    using maybe_gc_snapped [OF safe] safe by (simp add: snapped_def)
  then show ?thesis
  proof (rule runs_bind)
    fix s1 assume s1: "snapped (update_file ino g s) s1"
    then have "vex_safe s1" by (simp add: snapped_def)
    then show "runs (cache_insert w ino content s1 \<bind> (\<lambda>s. Some (h s))) Q"
      by (rule runs_bind [OF cache_insert_stored]) (simp only: runs_Some, rule assms(3), rule resized_from [OF s1])
  qed
qed

lemma resized_trans:
  "snapped s s1 \<Longrightarrow> resized ino g content s1 s' \<Longrightarrow> resized ino g content s s'"
  using snapped_fields [of s s1] by (simp add: resized_def)

text \<open>What a write does: \<open>content\<close> is spliced into the cached bytes, or into nothing when none are cached.\<close>

definition cached_or_empty :: "u64 \<Rightarrow> vexfs \<Rightarrow> bytes" where
  "cached_or_empty ino s = (case arc_lookup (fs_cache s) ino of Some d \<Rightarrow> d | None \<Rightarrow> [])"

definition written_file :: "u64 \<Rightarrow> nat \<Rightarrow> vex_file \<Rightarrow> vex_file" where
  "written_file now n f = f\<lparr>vf_attr := (vf_attr f)\<lparr>fa_size := of_nat n, fa_mtime := now\<rparr>, vf_dirty := True\<rparr>"

lemma write_effect:
  assumes "vex_safe s" and "hm_get (fs_files s) ino = Some f" and "ino \<noteq> SEARCH_INO" and "ino \<noteq> ASK_INO"
    and "unat off + length data \<le> VEC_MAX"
  defines "content \<equiv> splice_at (unat off) data (cached_or_empty ino s)"
  shows "runs (vex_write w ino off data s) (\<lambda>(r, s'). r = ReplyWritten (of_nat (length data))
    \<and> resized ino (written_file (w_now w) (length content)) content s s')"
proof -
  obtain r c where g: "arc_get ino (fs_cache s) = (r, c)" by fastforce
  note mv = get_moved [OF assms(1) g]
  let ?s0 = "s\<lparr>fs_cache := c\<rparr>"
  have r: "r = arc_lookup (fs_cache s) ino" and c: "arc_data c = arc_data (fs_cache s)"
    using get_ok(2,3) [OF vex_safeD(3) [OF assms(1)] g] by simp_all
  define old where "old = cached_or_empty ino s"
  have old: "(case r of Some d \<Rightarrow> d | None \<Rightarrow> []) = old"
    by (simp add: r old_def cached_or_empty_def)
  define b where "b = (off = 0 \<and> old \<noteq> [])"
  have snap: "runs (if b then take_snapshot w ino (vf_name f) old (vf_data_offset f) ?s0 else Some ?s0) (snapped ?s0)"
    using take_snapshot_snapped [OF moved_safe [OF mv], of w ino "vf_name f" old "vf_data_offset f"] moved_safe [OF mv]
    by (simp add: snapped_def)
  have from0: "resized ino h content s s'" if "resized ino h content ?s0 s'" for h s'
    using that c by (simp add: resized_def)
  have len: "\<not> VEC_MAX < unat off + length data" using assms(5) by simp
  have "runs ((if b then take_snapshot w ino (vf_name f) old (vf_data_offset f) ?s0 else Some ?s0)
      \<bind> (\<lambda>s. (if b then maybe_gc_snapshots (update_file ino (written_file (w_now w) (length content)) s)
                 else Some (update_file ino (written_file (w_now w) (length content)) s))
        \<bind> (\<lambda>s. cache_insert w ino content s
        \<bind> (\<lambda>s. Some (ReplyWritten (of_nat (length data)), send (EvWrite ino (vf_name f) data) s)))))
      (\<lambda>(r, s'). r = ReplyWritten (of_nat (length data)) \<and> resized ino (written_file (w_now w) (length content)) content s s')"
  proof (rule runs_bind [OF snap], rule resize_tail)
    fix s1 s' assume s1: "snapped ?s0 s1" and s': "resized ino (written_file (w_now w) (length content)) content s1 s'"
    have "resized ino (written_file (w_now w) (length content)) content s s'"
      by (rule from0 [OF resized_trans [OF s1 s']])
    then show "(\<lambda>(r, s'). r = ReplyWritten (of_nat (length data)) \<and> resized ino (written_file (w_now w) (length content)) content s s')
      (ReplyWritten (of_nat (length data)), send (EvWrite ino (vf_name f) data) s')"
      using safe_queries(3) by (simp add: resized_def)
  qed (simp_all add: snapped_def written_file_def)
  then show ?thesis
    using assms(2,3,4) g len
    by (cases b) (auto simp: vex_write_def Let_def old content_def old_def [symmetric] b_def written_file_def [abs_def])
qed

lemma write_replies:
  assumes "vex_safe s" and "unat off + length data \<le> VEC_MAX"
  shows "replies (vex_write w ino off data s)"
proof (cases "ino = SEARCH_INO \<or> ino = ASK_INO \<or> hm_get (fs_files s) ino = None")
  case True
  with assms(1) show ?thesis by (auto simp: vex_write_def Let_def intro!: safe_intro)
next
  case False
  then obtain f where "hm_get (fs_files s) ino = Some f" by auto
  with False show ?thesis
    unfolding replies_def by (intro runs_mono [OF write_effect [OF assms(1) _ _ _ assms(2)]]) (auto simp: resized_def)
qed

definition resized_file :: "u64 \<Rightarrow> vex_file \<Rightarrow> vex_file" where
  "resized_file n f = f\<lparr>vf_attr := (vf_attr f)\<lparr>fa_size := n\<rparr>, vf_dirty := True\<rparr>"

lemma setattr_effect:
  assumes "vex_safe s" and "hm_get (fs_files s) ino = Some f" and "n \<noteq> fa_size (vf_attr f)"
    and "\<not> ((ino = SEARCH_INO \<or> ino = ASK_INO) \<and> n = 0)" and "unat n \<le> VEC_MAX"
  defines "content \<equiv> resize_to (unat n) (cached_or_empty ino s)"
  shows "runs (vex_setattr w ino (Some n) s) (\<lambda>(r, s'). r = ReplyAttr (vf_attr (resized_file n f))
    \<and> resized ino (\<lambda>_. resized_file n f) content s s')"
proof -
  obtain r c where g: "arc_get ino (fs_cache s) = (r, c)" by fastforce
  note mv = get_moved [OF assms(1) g]
  let ?s0 = "s\<lparr>fs_cache := c\<rparr>"
  have r: "r = arc_lookup (fs_cache s) ino" and c: "arc_data c = arc_data (fs_cache s)"
    using get_ok(2,3) [OF vex_safeD(3) [OF assms(1)] g] by simp_all
  define old where "old = cached_or_empty ino s"
  have old: "(case r of Some d \<Rightarrow> d | None \<Rightarrow> []) = old"
    by (simp add: r old_def cached_or_empty_def)
  let ?g = "\<lambda>g. g\<lparr>vf_attr := (vf_attr f)\<lparr>fa_size := n\<rparr>, vf_dirty := True\<rparr>"
  have from0: "resized ino (\<lambda>_. resized_file n f) content s s'" if "resized ino ?g content ?s0 s'" for s'
  proof -
    have "map_option file_meta (map_option ?g (hm_get (fs_files s) ino)) = map_option file_meta (map_option (\<lambda>_. resized_file n f) (hm_get (fs_files s) ino))"
      by (simp add: assms(2) resized_file_def file_meta_def)
    with that c show ?thesis by (simp add: resized_def)
  qed
  have "runs (take_snapshot w ino (vf_name f) old (vf_data_offset f) ?s0
      \<bind> (\<lambda>s. (if True then maybe_gc_snapshots (update_file ino ?g s) else Some (update_file ino ?g s))
        \<bind> (\<lambda>s. cache_insert w ino content s
        \<bind> (\<lambda>s. Some (ReplyAttr (vf_attr (resized_file n f)), s)))))
      (\<lambda>(r, s'). r = ReplyAttr (vf_attr (resized_file n f)) \<and> resized ino (\<lambda>_. resized_file n f) content s s')"
  proof (rule runs_bind [OF take_snapshot_snapped [OF moved_safe [OF mv]]], rule resize_tail)
    fix s1 s' assume "snapped ?s0 s1" and "resized ino ?g content s1 s'"
    from from0 [OF resized_trans [OF this]]
    show "(\<lambda>(r, s'). r = ReplyAttr (vf_attr (resized_file n f)) \<and> resized ino (\<lambda>_. resized_file n f) content s s')
      (ReplyAttr (vf_attr (resized_file n f)), s')" by simp
  qed (simp_all add: snapped_def)
  moreover have "\<not> VEC_MAX < unat n" using assms(5) by simp
  ultimately show ?thesis
    using assms(2,3,4) g
    by (auto simp: vex_setattr_def Let_def old content_def old_def [symmetric] resized_file_def)
qed

lemma setattr_replies:
  assumes "vex_safe s" and "\<forall>n. sz = Some n \<longrightarrow> unat n \<le> VEC_MAX"
  shows "replies (vex_setattr w ino sz s)"
proof (cases "\<exists>n f. sz = Some n \<and> hm_get (fs_files s) ino = Some f \<and> n \<noteq> fa_size (vf_attr f)
    \<and> \<not> ((ino = SEARCH_INO \<or> ino = ASK_INO) \<and> n = 0)")
  case True
  then obtain n f where n: "sz = Some n" "hm_get (fs_files s) ino = Some f" "n \<noteq> fa_size (vf_attr f)"
    "\<not> ((ino = SEARCH_INO \<or> ino = ASK_INO) \<and> n = 0)" by blast
  have "unat n \<le> VEC_MAX" using assms(2) n(1) by simp
  from setattr_effect [OF assms(1) n(2,3,4) this] show ?thesis
    unfolding replies_def n(1) by (rule runs_mono) (auto simp: resized_def)
next
  case False
  then show ?thesis
    using assms(1) by (auto simp: vex_setattr_def Let_def split: option.splits intro!: safe_intro)
qed

end
