(* ===== verification/Vex_Namespace.thy ===== *)
theory Vex_Namespace
  imports Vex_Safety
begin

text \<open>
  What the directory handlers do to the namespace, and the consistency of the index with the map of
  files (\<open>ns_inv\<close>): every name in the index leads to a file that carries that name and that parent.
\<close>

section \<open>The namespace of a state\<close>

text \<open>The files, up to what a flush may change.\<close>

definition view :: "vexfs \<Rightarrow> u64 \<Rightarrow> vex_file option" where
  "view s ino = map_option file_meta (hm_get (fs_files s) ino)"

definition names :: "vexfs \<Rightarrow> u64 \<Rightarrow> rstring \<Rightarrow> bt_value option" where
  "names s p n = bt_get p n (fs_index s)"

definition entry_matches :: "u64 \<Rightarrow> rstring \<Rightarrow> bt_value \<Rightarrow> vex_file \<Rightarrow> bool" where
  "entry_matches p n v f \<longleftrightarrow> vf_name f = n \<and> vf_parent_ino f = p \<and> vf_disk_index f = v_disk_index v
     \<and> fa_ino (vf_attr f) = v_ino v \<and> (v_is_dir v \<longleftrightarrow> fa_kind (vf_attr f) = Directory)"

definition ns_inv :: "vexfs \<Rightarrow> bool" where
  "ns_inv s \<longleftrightarrow> (\<forall>p n v. names s p n = Some v \<longrightarrow> (\<exists>f. view s (v_ino v) = Some f \<and> entry_matches p n v f))
     \<and> (\<forall>ino f. view s ino = Some f \<longrightarrow> unat ino < unat (fs_next_inode s))"

lemma ns_invD:
  assumes "ns_inv s"
  shows "names s p n = Some v \<Longrightarrow> \<exists>f. view s (v_ino v) = Some f \<and> entry_matches p n v f"
    and "view s ino = Some f \<Longrightarrow> unat ino < unat (fs_next_inode s)"
  using assms by (auto simp: ns_inv_def)

lemma ns_inv_unique:
  assumes "ns_inv s" and "names s p n = Some v" and "names s q m = Some u" and "v_ino v = v_ino u"
  shows "p = q \<and> n = m"
  using ns_invD(1) [OF assms(1,2)] ns_invD(1) [OF assms(1,3)] assms(4) by (auto simp: entry_matches_def)

lemma ns_inv_cong:
  "names s' = names s \<Longrightarrow> view s' = view s \<Longrightarrow> fs_next_inode s' = fs_next_inode s \<Longrightarrow> ns_inv s' = ns_inv s"
  by (simp add: ns_inv_def)

lemma file_meta_fields [simp]:
  "vf_name (file_meta f) = vf_name f" "vf_attr (file_meta f) = vf_attr f" "vf_disk_index (file_meta f) = vf_disk_index f"
  "vf_parent_ino (file_meta f) = vf_parent_ino f" "vf_open_since (file_meta f) = vf_open_since f"
  "file_meta (file_meta f) = file_meta f"
  by (simp_all add: file_meta_def)

lemma view_Some_iff: "view s ino = Some g \<longleftrightarrow> (\<exists>f. hm_get (fs_files s) ino = Some f \<and> g = file_meta f)"
  by (auto simp: view_def)

lemma view_None_iff: "view s ino = None \<longleftrightarrow> hm_get (fs_files s) ino = None"
  by (simp add: view_def)

lemma moves_view: "moves_data s s' \<Longrightarrow> view s' = view s" and moves_names: "moves_data s s' \<Longrightarrow> names s' = names s"
  and moves_next: "moves_data s s' \<Longrightarrow> fs_next_inode s' = fs_next_inode s"
  by (auto simp: moves_data_def view_def names_def fun_eq_iff)

lemma moved_ns: "moved s s' \<Longrightarrow> ns_inv s' = ns_inv s"
  unfolding moved_def by (intro ns_inv_cong moves_view moves_names moves_next) simp_all

lemma stored_view:
  assumes "stored ino data s s'"
  shows "view s' = view s" "names s' = names s" "fs_next_inode s' = fs_next_inode s" "vex_safe s'"
proof -
  have m: "moves_data s (s'\<lparr>fs_cache := fs_cache s\<rparr>)" and safe: "vex_safe s'" using assms by (simp_all add: stored_def)
  show "view s' = view s" "names s' = names s" "fs_next_inode s' = fs_next_inode s"
    using moves_view [OF m] moves_names [OF m] moves_next [OF m] by (simp_all add: view_def names_def fun_eq_iff)
  show "vex_safe s'" by (rule safe)
qed

lemma resized_ns:
  assumes "resized ino g content s s'" and "\<And>f. hm_get (fs_files s) ino = Some f \<Longrightarrow>
      vf_name (g f) = vf_name f \<and> vf_parent_ino (g f) = vf_parent_ino f \<and> vf_disk_index (g f) = vf_disk_index f
      \<and> fa_ino (vf_attr (g f)) = fa_ino (vf_attr f) \<and> fa_kind (vf_attr (g f)) = fa_kind (vf_attr f)"
    and "ns_inv s"
  shows "ns_inv s'"
proof -
  have v: "view s' i = (if i = ino then map_option (file_meta \<circ> g) (hm_get (fs_files s) i) else view s i)" for i
    using assms(1) by (simp add: resized_def view_def option.map_comp)
  have n: "names s' = names s" "fs_next_inode s' = fs_next_inode s"
    using assms(1) by (simp_all add: resized_def names_def fun_eq_iff)
  show ?thesis
    unfolding ns_inv_def n
  proof (intro conjI allI impI)
    fix p m v assume "names s p m = Some v"
    from ns_invD(1) [OF assms(3) this] obtain f where f: "hm_get (fs_files s) (v_ino v) = Some f" "entry_matches p m v (file_meta f)"
      by (auto simp: view_Some_iff)
    show "\<exists>f. view s' (v_ino v) = Some f \<and> entry_matches p m v f"
    proof (cases "v_ino v = ino")
      case True
      with f assms(2) [of f] v show ?thesis by (auto simp: entry_matches_def)
    next
      case False
      with f v show ?thesis by (simp add: view_def)
    qed
  next
    fix i f assume "view s' i = Some f"
    then have "view s i \<noteq> None" using v [of i] by (auto simp: view_def [of s] split: if_splits)
    with ns_invD(2) [OF assms(3), of i] show "unat i < unat (fs_next_inode s)" by auto
  qed
qed

lemma bt_get_insert:
  "bt_inv t \<Longrightarrow> bt_get q m (bt_insert p n v t) = (if q = p \<and> m = n then Some v else bt_get q m t)"
  using bt.look_ins [where k = "Key p n" and k' = "Key q m"] by simp

lemma bt_get_remove:
  "bt_inv t \<Longrightarrow> bt_get q m (fst (bt_remove p n t)) = (if q = p \<and> m = n then None else bt_get q m t)"
  using bt.look_del [where k = "Key p n" and k' = "Key q m"] by simp

lemma bt_remove_result: "bt_inv t \<Longrightarrow> snd (bt_remove p n t) = bt_get p n t"
  using bt_remove_root by blast

section \<open>Adding entries\<close>

definition new_file :: "u64 \<Rightarrow> u64 \<Rightarrow> rstring \<Rightarrow> bool \<Rightarrow> nat \<Rightarrow> u64 option \<Rightarrow> vex_file" where
  "new_file ino parent name is_dir i t =
     file_meta \<lparr>vf_name = name, vf_attr = make_attr ino 0 is_dir, vf_disk_index = i, vf_dirty = False,
       vf_open_since = t, vf_parent_ino = parent, vf_data_offset = 0\<rparr>"

text \<open>The state after a successful \<open>create\<close> or \<open>mkdir\<close>.\<close>

definition added :: "u64 \<Rightarrow> rstring \<Rightarrow> bool \<Rightarrow> nat \<Rightarrow> u64 option \<Rightarrow> vexfs \<Rightarrow> vexfs \<Rightarrow> bool" where
  "added parent name is_dir i t s s' \<longleftrightarrow> vex_safe s'
     \<and> fs_next_inode s' = fs_next_inode s + 1
     \<and> (\<forall>p n. names s' p n = (if p = parent \<and> n = name
          then Some \<lparr>v_ino = fs_next_inode s, v_size = 0, v_is_dir = is_dir, v_disk_index = i\<rparr> else names s p n))
     \<and> (\<forall>j. view s' j = (if j = fs_next_inode s then Some (new_file j parent name is_dir i t) else view s j))"

lemma add_file_added:
  assumes "vex_safe s" and "i < MAX_FILES"
  shows "added parent name is_dir i t s (add_file parent name is_dir i t s)"
proof -
  have "vex_safe (add_file parent name is_dir i t s)"
    using assms unfolding vex_safe_def by (auto simp: add_file_def Let_def bt_insert_inv bt_get_insert split: if_splits)
  then show ?thesis
    using vex_safeD(1) [OF assms(1)]
    by (auto simp: added_def names_def view_def add_file_def Let_def bt_get_insert new_file_def file_meta_def)
qed

lemma added_cong:
  "added p n d i t s s1 \<Longrightarrow> vex_safe s2 \<Longrightarrow> view s2 = view s1 \<Longrightarrow> names s2 = names s1
    \<Longrightarrow> fs_next_inode s2 = fs_next_inode s1 \<Longrightarrow> added p n d i t s s2"
  by (simp add: added_def)

lemma added_ns:
  assumes "added p n d i t s s'" and "ns_inv s" and "unat (fs_next_inode s) + 1 < 2 ^ 64"
  shows "ns_inv s'"
proof -
  have next': "unat (fs_next_inode s') = unat (fs_next_inode s) + 1"
    using assms(1,3) by (simp add: added_def unat64_add)
  have fresh: "view s (fs_next_inode s) = None"
    using ns_invD(2) [OF assms(2), of "fs_next_inode s"] by (cases "view s (fs_next_inode s)") auto
  show ?thesis
    unfolding ns_inv_def
  proof (intro conjI allI impI)
    fix q m v assume v: "names s' q m = Some v"
    show "\<exists>f. view s' (v_ino v) = Some f \<and> entry_matches q m v f"
    proof (cases "q = p \<and> m = n")
      case True
      with v assms(1) show ?thesis
        by (auto simp: added_def new_file_def entry_matches_def make_attr_def)
    next
      case False
      with v assms(1) have "names s q m = Some v" by (auto simp: added_def)
      from ns_invD(1) [OF assms(2) this] obtain f where "view s (v_ino v) = Some f" "entry_matches q m v f" by blast
      with fresh assms(1) show ?thesis by (auto simp: added_def)
    qed
  next
    fix j f assume "view s' j = Some f"
    with assms(1) have "j = fs_next_inode s \<or> view s j = Some f" by (auto simp: added_def split: if_splits)
    with ns_invD(2) [OF assms(2), of j f] show "unat j < unat (fs_next_inode s')" by (auto simp: next')
  qed
qed

lemma inode_wf_fresh [simp]: "inode_wf (fresh_inode w ino parent d name)"
  by (simp add: fresh_inode_def)

lemma names_updates [simp]: "names (s\<lparr>fs_disk := d\<rparr>) = names s" "names (send e s) = names s"
  and view_updates [simp]: "view (s\<lparr>fs_disk := d\<rparr>) = view s" "view (send e s) = view s"
  by (simp_all add: names_def view_def fun_eq_iff)

lemma added_from_disk: "added p n d i t (s\<lparr>fs_disk := k\<rparr>) s' = added p n d i t s s'"
  by (simp add: added_def)

lemma create_effect:
  assumes "vex_safe s" and "check_parent parent s = None" and "names s parent (utf8_lossy os_name) = None"
    and "dm_alloc_inode (w_crc w) (fs_disk s) = (Some i, d)"
  shows "runs (vex_create w parent os_name s) (\<lambda>(r, s'). r = ReplyCreated (make_attr (fs_next_inode s) 0 False)
    \<and> added parent (utf8_lossy os_name) False i (Some (w_now w)) s s' \<and> arc_lookup (fs_cache s') (fs_next_inode s) = Some [])"
proof -
  let ?name = "utf8_lossy os_name" and ?ino = "fs_next_inode s"
  note alloc = alloc_inode_dir [OF vex_safeD(5) [OF assms(1)] assms(4)]
  have i: "i < MAX_FILES" by (rule alloc(2)) simp
  let ?s1 = "add_file parent ?name False i (Some (w_now w)) (s\<lparr>fs_disk := d\<rparr>)"
  have add: "added parent ?name False i (Some (w_now w)) s ?s1"
    using add_file_added [OF safe_disk [OF assms(1) alloc(1)] i] by (simp add: added_from_disk)
  then have s1: "vex_safe ?s1" by (simp add: added_def)
  have "runs (cache_insert w ?ino [] ?s1
      \<bind> (\<lambda>s. ignore_error (dm_write_inode (w_crc w) i (fresh_inode w ?ino parent False ?name) (fs_disk s))
      \<bind> (\<lambda>d. Some (ReplyCreated (make_attr ?ino 0 False), send (EvOpen ?ino ?name 0) (s\<lparr>fs_disk := d\<rparr>)))))
    (\<lambda>(r, s'). r = ReplyCreated (make_attr ?ino 0 False) \<and> added parent ?name False i (Some (w_now w)) s s'
      \<and> arc_lookup (fs_cache s') ?ino = Some [])"
  proof (rule runs_bind [OF cache_insert_stored [OF s1]])
    fix s2 assume s2: "stored ?ino [] ?s1 s2"
    note v = stored_view [OF s2]
    show "runs (ignore_error (dm_write_inode (w_crc w) i (fresh_inode w ?ino parent False ?name) (fs_disk s2))
      \<bind> (\<lambda>d. Some (ReplyCreated (make_attr ?ino 0 False), send (EvOpen ?ino ?name 0) (s2\<lparr>fs_disk := d\<rparr>))))
      (\<lambda>(r, s'). r = ReplyCreated (make_attr ?ino 0 False) \<and> added parent ?name False i (Some (w_now w)) s s'
        \<and> arc_lookup (fs_cache s') ?ino = Some [])"
    proof (rule runs_bind [OF write_inode_runs [OF vex_safeD(5) [OF v(4)] i inode_wf_fresh]])
      fix d' assume "dir_length d'"
      then have "vex_safe (send (EvOpen ?ino ?name 0) (s2\<lparr>fs_disk := d'\<rparr>))"
        by (intro safe_intro v(4))
      then have "added parent ?name False i (Some (w_now w)) s (send (EvOpen ?ino ?name 0) (s2\<lparr>fs_disk := d'\<rparr>))"
        by (rule added_cong [OF add]) (simp_all add: v(1,2,3))
      moreover have "arc_lookup (fs_cache s2) ?ino = Some []" using s2 by (simp add: stored_def)
      ultimately show "runs (Some (ReplyCreated (make_attr ?ino 0 False), send (EvOpen ?ino ?name 0) (s2\<lparr>fs_disk := d'\<rparr>)))
        (\<lambda>(r, s'). r = ReplyCreated (make_attr ?ino 0 False) \<and> added parent ?name False i (Some (w_now w)) s s'
          \<and> arc_lookup (fs_cache s') ?ino = Some [])"
        by simp
    qed
  qed
  with assms(2,3,4) show ?thesis by (simp add: vex_create_def names_def Let_def)
qed

lemma mkdir_effect:
  assumes "vex_safe s" and "check_parent parent s = None" and "names s parent (utf8_lossy os_name) = None"
    and "dm_alloc_inode (w_crc w) (fs_disk s) = (Some i, d)"
  shows "runs (vex_mkdir w parent os_name s) (\<lambda>(r, s'). r = ReplyEntry (make_attr (fs_next_inode s) 0 True)
    \<and> added parent (utf8_lossy os_name) True i None s s')"
proof -
  let ?name = "utf8_lossy os_name" and ?ino = "fs_next_inode s"
  note alloc = alloc_inode_dir [OF vex_safeD(5) [OF assms(1)] assms(4)]
  have i: "i < MAX_FILES" by (rule alloc(2)) simp
  let ?s1 = "add_file parent ?name True i None (s\<lparr>fs_disk := d\<rparr>)"
  have add: "added parent ?name True i None s ?s1"
    using add_file_added [OF safe_disk [OF assms(1) alloc(1)] i] by (simp add: added_from_disk)
  then have s1: "vex_safe ?s1" by (simp add: added_def)
  have "runs (ignore_error (dm_write_inode (w_crc w) i (fresh_inode w ?ino parent True ?name) (fs_disk ?s1))
      \<bind> (\<lambda>d. Some (ReplyEntry (make_attr ?ino 0 True), ?s1\<lparr>fs_disk := dm_flush (w_crc w) d\<rparr>)))
    (\<lambda>(r, s'). r = ReplyEntry (make_attr ?ino 0 True) \<and> added parent ?name True i None s s')"
  proof (rule runs_bind [OF write_inode_runs [OF vex_safeD(5) [OF s1] i inode_wf_fresh]])
    fix d' assume "dir_length d'"
    then have "vex_safe (?s1\<lparr>fs_disk := dm_flush (w_crc w) d'\<rparr>)"
      by (intro safe_intro s1) simp
    then have "added parent ?name True i None s (?s1\<lparr>fs_disk := dm_flush (w_crc w) d'\<rparr>)"
      by (rule added_cong [OF add]) simp_all
    then show "runs (Some (ReplyEntry (make_attr ?ino 0 True), ?s1\<lparr>fs_disk := dm_flush (w_crc w) d'\<rparr>))
      (\<lambda>(r, s'). r = ReplyEntry (make_attr ?ino 0 True) \<and> added parent ?name True i None s s')"
      by simp
  qed
  with assms(2,3,4) show ?thesis by (simp add: vex_mkdir_def names_def Let_def)
qed

section \<open>Removing and moving entries\<close>

definition removed :: "u64 \<Rightarrow> rstring \<Rightarrow> u64 \<Rightarrow> vexfs \<Rightarrow> vexfs \<Rightarrow> bool" where
  "removed parent name ino s s' \<longleftrightarrow> vex_safe s' \<and> fs_next_inode s' = fs_next_inode s
     \<and> (\<forall>p n. names s' p n = (if p = parent \<and> n = name then None else names s p n))
     \<and> (\<forall>j. view s' j = (if j = ino then None else view s j))"

lemma safe_remove_name:
  "vex_safe s \<Longrightarrow> vex_safe (s\<lparr>fs_index := fst (bt_remove p n (fs_index s))\<rparr>)"
  unfolding vex_safe_def by (auto simp: bt_remove_inv bt_get_remove split: if_splits)

lemma safe_insert_name:
  "vex_safe s \<Longrightarrow> v_disk_index v < MAX_FILES \<Longrightarrow> vex_safe (s\<lparr>fs_index := bt_insert p n v (fs_index s)\<rparr>)"
  unfolding vex_safe_def by (auto simp: bt_insert_inv bt_get_insert split: if_splits)

lemma safe_remove_file: "vex_safe s \<Longrightarrow> vex_safe (s\<lparr>fs_files := hm_remove ino (fs_files s)\<rparr>)"
  unfolding vex_safe_def by (auto split: if_splits)

lemma safe_remove_cached: "vex_safe s \<Longrightarrow> vex_safe (s\<lparr>fs_cache := snd (arc_remove ino (fs_cache s))\<rparr>)"
  using remove_ok(1) [of "fs_cache s" ino] by (cases "arc_remove ino (fs_cache s)") (auto intro: safe_cache dest: vex_safeD(3))

lemma removed_ns:
  assumes "removed p n (v_ino v) s s'" and "names s p n = Some v" and "ns_inv s"
  shows "ns_inv s'"
  unfolding ns_inv_def
proof (intro conjI allI impI)
  fix q m u assume "names s' q m = Some u"
  with assms(1) have u: "names s q m = Some u" and ne: "\<not> (q = p \<and> m = n)"
    by (auto simp: removed_def split: if_splits)
  have "v_ino u \<noteq> v_ino v" using ns_inv_unique [OF assms(3) u assms(2)] ne by blast
  with ns_invD(1) [OF assms(3) u] assms(1)
  show "\<exists>f. view s' (v_ino u) = Some f \<and> entry_matches q m u f" by (simp add: removed_def)
next
  fix j f assume "view s' j = Some f"
  with assms(1) ns_invD(2) [OF assms(3), of j f] show "unat j < unat (fs_next_inode s')"
    by (auto simp: removed_def split: if_splits)
qed

text \<open>The state with the name and the file gone.\<close>

definition drop_entry :: "u64 \<Rightarrow> rstring \<Rightarrow> u64 \<Rightarrow> vexfs \<Rightarrow> vexfs" where
  "drop_entry p n ino s = s\<lparr>fs_index := fst (bt_remove p n (fs_index s)), fs_files := hm_remove ino (fs_files s)\<rparr>"

lemma drop_entry_removed:
  assumes "vex_safe s"
  shows "removed p n ino s (drop_entry p n ino s)"
  using safe_remove_file [OF safe_remove_name [OF assms]] vex_safeD(1) [OF assms]
  by (simp add: removed_def drop_entry_def names_def view_def bt_get_remove)

lemma removed_cong:
  "removed p n ino s s1 \<Longrightarrow> vex_safe s2 \<Longrightarrow> view s2 = view s1 \<Longrightarrow> names s2 = names s1
    \<Longrightarrow> fs_next_inode s2 = fs_next_inode s1 \<Longrightarrow> removed p n ino s s2"
  by (simp add: removed_def)

lemma unlink_effect:
  assumes "vex_safe s" and "names s parent (utf8_lossy os_name) = Some v" and "hm_get (fs_files s) (v_ino v) = Some f"
  shows "runs (vex_unlink w parent os_name s) (\<lambda>(r, s'). r = ReplyOk
    \<and> removed parent (utf8_lossy os_name) (v_ino v) s s'
    \<and> fs_write_buffer s' = fs_write_buffer s \<and> arc_lookup (fs_cache s') (v_ino v) = None)"
proof -
  let ?name = "utf8_lossy os_name" and ?ino = "v_ino v"
  let ?disk = "if 0 < vf_data_offset f \<and> 0 < fa_size (vf_attr f)
      then free_data (vf_data_offset f) (fa_size (vf_attr f)) (fs_disk s) else fs_disk s"
  let ?c = "snd (arc_remove ?ino (fs_cache s))"
  let ?fin = "\<lambda>d. send (EvDelete ?ino ?name) ((drop_entry parent ?name ?ino s)\<lparr>fs_disk := d, fs_cache := ?c\<rparr>)"
  have d: "dir_length ?disk" using vex_safeD(5) [OF assms(1)] by simp
  note rem = drop_entry_removed [OF assms(1), of parent ?name ?ino]
  have fin: "removed parent ?name ?ino s (?fin d')" if "dir_length d'" for d'
  proof (rule removed_cong [OF rem])
    have "vex_safe (drop_entry parent ?name ?ino s)" using rem by (simp add: removed_def)
    from safe_queries(3) [OF safe_remove_cached [OF safe_disk [OF this that], of ?ino], of "EvDelete ?ino ?name"]
    show "vex_safe (?fin d')" by (simp add: drop_entry_def)
  qed (simp_all add: names_def view_def fun_eq_iff)
  have gone: "arc_lookup ?c ?ino = None"
    using remove_ok(3) [OF vex_safeD(3) [OF assms(1)], of ?ino] by (cases "arc_remove ?ino (fs_cache s)") auto
  have "runs (ignore_error (dm_free_inode (w_crc w) (vf_disk_index f) ?disk) \<bind> (\<lambda>d. Some (ReplyOk, ?fin d)))
    (\<lambda>(r, s'). r = ReplyOk \<and> removed parent ?name ?ino s s'
      \<and> fs_write_buffer s' = fs_write_buffer s \<and> arc_lookup (fs_cache s') ?ino = None)"
    by (rule runs_bind [OF free_inode_runs [OF d]]) (use fin gone in \<open>simp add: drop_entry_def\<close>)
  moreover obtain t where "bt_remove parent ?name (fs_index s) = (t, Some v)"
    using bt_remove_result [OF vex_safeD(1) [OF assms(1)], of parent ?name] assms(2)
    by (cases "bt_remove parent ?name (fs_index s)") (simp add: names_def)
  ultimately show ?thesis
    using assms(3) by (auto simp: vex_unlink_def drop_entry_def Let_def split: if_splits)
qed

lemma rmdir_effect:
  assumes "vex_safe s" and "names s parent (utf8_lossy os_name) = Some v" and "hm_get (fs_files s) (v_ino v) = Some f"
    and "v_is_dir v" and "bt_list_dir (v_ino v) (fs_index s) = []"
  shows "runs (vex_rmdir w parent os_name s) (\<lambda>(r, s'). r = ReplyOk
    \<and> removed parent (utf8_lossy os_name) (v_ino v) s s')"
proof -
  let ?name = "utf8_lossy os_name" and ?ino = "v_ino v"
  let ?fin = "\<lambda>d. (drop_entry parent ?name ?ino s)\<lparr>fs_disk := dm_flush (w_crc w) d\<rparr>"
  note rem = drop_entry_removed [OF assms(1), of parent ?name ?ino]
  have fin: "removed parent ?name ?ino s (?fin d')" if "dir_length d'" for d'
  proof (rule removed_cong [OF rem])
    have "vex_safe (drop_entry parent ?name ?ino s)" using rem by (simp add: removed_def)
    from safe_disk [OF this] that show "vex_safe (?fin d')" by simp
  qed (simp_all add: names_def view_def fun_eq_iff)
  have "runs (ignore_error (dm_free_inode (w_crc w) (vf_disk_index f) (fs_disk s)) \<bind> (\<lambda>d. Some (ReplyOk, ?fin d)))
    (\<lambda>(r, s'). r = ReplyOk \<and> removed parent ?name ?ino s s')"
    by (rule runs_bind [OF free_inode_runs [OF vex_safeD(5) [OF assms(1)]]]) (use fin in simp)
  with assms(2-5) show ?thesis
    by (simp add: vex_rmdir_def drop_entry_def names_def)
qed

definition renamed :: "u64 \<Rightarrow> rstring \<Rightarrow> u64 \<Rightarrow> rstring \<Rightarrow> bt_value \<Rightarrow> vexfs \<Rightarrow> vexfs \<Rightarrow> bool" where
  "renamed parent name newparent newname v s s' \<longleftrightarrow> vex_safe s' \<and> fs_next_inode s' = fs_next_inode s
     \<and> (\<forall>p n. names s' p n = (if p = newparent \<and> n = newname then Some v
          else if p = parent \<and> n = name then None else names s p n))
     \<and> (\<forall>j. view s' j = (if j = v_ino v
          then map_option (\<lambda>f. f\<lparr>vf_name := newname, vf_parent_ino := newparent\<rparr>) (view s j) else view s j))"

lemma renamed_cong:
  "renamed p n q m v s s1 \<Longrightarrow> vex_safe s2 \<Longrightarrow> view s2 = view s1 \<Longrightarrow> names s2 = names s1
    \<Longrightarrow> fs_next_inode s2 = fs_next_inode s1 \<Longrightarrow> renamed p n q m v s s2"
  by (simp add: renamed_def)

definition move_entry :: "u64 \<Rightarrow> rstring \<Rightarrow> u64 \<Rightarrow> rstring \<Rightarrow> bt_value \<Rightarrow> vexfs \<Rightarrow> vexfs" where
  "move_entry p n q m v s =
     update_file (v_ino v) (\<lambda>f. f\<lparr>vf_name := m, vf_parent_ino := q, vf_dirty := True\<rparr>)
       (s\<lparr>fs_index := bt_insert q m v (fst (bt_remove p n (fs_index s)))\<rparr>)"

lemma move_entry_renamed:
  assumes "vex_safe s" and "v_disk_index v < MAX_FILES"
  shows "renamed p n q m v s (move_entry p n q m v s)"
proof -
  have "vex_safe (s\<lparr>fs_index := bt_insert q m v (fst (bt_remove p n (fs_index s)))\<rparr>)"
    using safe_insert_name [OF safe_remove_name [OF assms(1), of p n] assms(2), of q m] by simp
  then have "vex_safe (move_entry p n q m v s)"
    unfolding move_entry_def by (rule safe_update_file) simp
  moreover have "file_meta (f\<lparr>vf_name := m, vf_parent_ino := q, vf_dirty := True\<rparr>) = (file_meta f)\<lparr>vf_name := m, vf_parent_ino := q\<rparr>" for f
    by (simp add: file_meta_def)
  ultimately show ?thesis
    using vex_safeD(1) [OF assms(1)] bt_remove_inv [OF vex_safeD(1) [OF assms(1)]]
    by (simp add: renamed_def names_def view_def move_entry_def bt_get_insert bt_get_remove option.map_comp comp_def)
qed

lemma rename_effect:
  assumes "vex_safe s" and "newparent = ROOT_INO \<or> hm_get (fs_files s) newparent \<noteq> None"
    and "names s parent (utf8_lossy os_name) = Some v"
  shows "runs (vex_rename w parent os_name newparent os_newname s) (\<lambda>(r, s'). r = ReplyOk
    \<and> renamed parent (utf8_lossy os_name) newparent (utf8_lossy os_newname) v s s')"
proof -
  let ?name = "utf8_lossy os_name" and ?new = "utf8_lossy os_newname"
  let ?s1 = "move_entry parent ?name newparent ?new v s"
  have i: "v_disk_index v < MAX_FILES"
    using vex_safeD(9) [OF assms(1)] assms(3) unfolding names_def by blast
  note ren = move_entry_renamed [OF assms(1) i, of parent ?name newparent ?new]
  then have s1: "vex_safe ?s1" by (simp add: renamed_def)
  have disk: "fs_disk ?s1 = fs_disk s" by (simp add: move_entry_def)
  have fin: "renamed parent ?name newparent ?new v s (?s1\<lparr>fs_disk := dm_flush (w_crc w) d\<rparr>)" if "dir_length d" for d
    using that by (intro renamed_cong [OF ren] safe_disk [OF s1]) simp_all
  have wr: "runs (ignore_error (dm_write_inode (w_crc w) (v_disk_index v) (inode_set_name ?new n) (fs_disk s))
      \<bind> (\<lambda>d. Some (ReplyOk, ?s1\<lparr>fs_disk := dm_flush (w_crc w) d\<rparr>)))
    (\<lambda>(r, s'). r = ReplyOk \<and> renamed parent ?name newparent ?new v s s')" for n
    by (rule runs_bind [OF write_inode_runs [OF vex_safeD(5) [OF assms(1)] i inode_wf_set_name]]) (use fin in simp)
  obtain t where t: "bt_remove parent ?name (fs_index s) = (t, Some v)"
    using bt_remove_result [OF vex_safeD(1) [OF assms(1)], of parent ?name] assms(3)
    by (cases "bt_remove parent ?name (fs_index s)") (simp add: names_def)
  have s1': "update_file (v_ino v) (\<lambda>f. f\<lparr>vf_name := ?new, vf_parent_ino := newparent, vf_dirty := True\<rparr>)
      (s\<lparr>fs_index := bt_insert newparent ?new v t\<rparr>) = ?s1"
    by (simp add: move_entry_def t)
  show ?thesis
  proof (cases "dm_read_inode (w_crc w) (v_disk_index v) (fs_disk s)")
    case (Inl e)
    then have "e \<noteq> Panic" using dm_read_inode_no_panic [OF i, of "w_crc w" "fs_disk s"] by blast
    with Inl ren assms(2) s1' t show ?thesis
      by (cases e) (auto simp: vex_rename_def Let_def disk)
  next
    case (Inr n)
    with wr [of "n\<lparr>in_parent_ino := newparent, in_modified_at := w_now w\<rparr>"] assms(2) s1' t show ?thesis
      by (auto simp: vex_rename_def Let_def disk)
  qed
qed

lemma renamed_ns:
  assumes "renamed p n q m v s s'" and "names s p n = Some v" and "ns_inv s"
  shows "ns_inv s'"
  unfolding ns_inv_def
proof (intro conjI allI impI)
  fix q' m' u assume u: "names s' q' m' = Some u"
  show "\<exists>f. view s' (v_ino u) = Some f \<and> entry_matches q' m' u f"
  proof (cases "q' = q \<and> m' = m")
    case True
    with u assms(1) have "u = v" by (simp add: renamed_def)
    with True ns_invD(1) [OF assms(3,2)] assms(1) show ?thesis
      by (auto simp: renamed_def entry_matches_def)
  next
    case False
    with u assms(1) have u: "names s q' m' = Some u" and ne: "\<not> (q' = p \<and> m' = n)"
      by (auto simp: renamed_def split: if_splits)
    have "v_ino u \<noteq> v_ino v" using ns_inv_unique [OF assms(3) u assms(2)] ne by blast
    with ns_invD(1) [OF assms(3) u] assms(1) show ?thesis by (simp add: renamed_def)
  qed
next
  fix j f assume "view s' j = Some f"
  then have "view s j \<noteq> None" using assms(1) by (auto simp: renamed_def split: if_splits)
  with assms(1) ns_invD(2) [OF assms(3), of j] show "unat j < unat (fs_next_inode s')"
    by (auto simp: renamed_def)
qed

end
