(* ===== verification/Vex_Session.thy ===== *)
theory Vex_Session
  imports Vex_Namespace
begin

text \<open>
  Whole sessions: requests, their dispatch to the handlers, and the two invariants along any sequence
  of them, from a mounted image as well as from a fresh file system.
\<close>

section \<open>Requests\<close>

datatype request =
    ReqLookup u64 bytes
  | ReqGetattr u64
  | ReqRead u64 i64 u32
  | ReqWrite u64 i64 bytes
  | ReqFlush u64
  | ReqFsync u64
  | ReqReaddir u64 i64
  | ReqCreate u64 bytes
  | ReqMkdir u64 bytes
  | ReqUnlink u64 bytes
  | ReqRmdir u64 bytes
  | ReqRename u64 bytes u64 bytes
  | ReqSetattr u64 "u64 option"
  | ReqStatfs
  | ReqRelease u64

type_synonym dir_full = "(u64 \<times> nat \<times> file_kind \<times> rstring) list \<Rightarrow> u64 \<times> nat \<times> file_kind \<times> rstring \<Rightarrow> bool"

fun serve :: "dir_full \<Rightarrow> world \<Rightarrow> request \<Rightarrow> handler" where
  "serve full w (ReqLookup parent name) s = vex_lookup w parent name s"
| "serve full w (ReqGetattr ino) s = vex_getattr w ino s"
| "serve full w (ReqRead ino off sz) s = vex_read w ino off sz s"
| "serve full w (ReqWrite ino off data) s = vex_write w ino off data s"
| "serve full w (ReqFlush ino) s = vex_flush w ino s"
| "serve full w (ReqFsync ino) s = vex_fsync w ino s"
| "serve full w (ReqReaddir ino off) s = vex_readdir full ino off s"
| "serve full w (ReqCreate parent name) s = vex_create w parent name s"
| "serve full w (ReqMkdir parent name) s = vex_mkdir w parent name s"
| "serve full w (ReqUnlink parent name) s = vex_unlink w parent name s"
| "serve full w (ReqRmdir parent name) s = vex_rmdir w parent name s"
| "serve full w (ReqRename parent name newparent newname) s = vex_rename w parent name newparent newname s"
| "serve full w (ReqSetattr ino sz) s = vex_setattr w ino sz s"
| "serve full w ReqStatfs s = vex_statfs s"
| "serve full w (ReqRelease ino) s = vex_release w ino s"

text \<open>The requests a file of at most \<open>isize::MAX\<close> bytes can receive.\<close>

fun request_ok :: "request \<Rightarrow> bool" where
  "request_ok (ReqWrite ino off data) \<longleftrightarrow> unat off + length data \<le> VEC_MAX"
| "request_ok (ReqSetattr ino (Some n)) \<longleftrightarrow> unat n \<le> VEC_MAX"
| "request_ok _ \<longleftrightarrow> True"

fun session :: "dir_full \<Rightarrow> (world \<times> request) list \<Rightarrow> vexfs \<Rightarrow> (reply list \<times> vexfs) option" where
  "session full [] s = Some ([], s)"
| "session full ((w, r) # rest) s = do {
     (a, s) \<leftarrow> serve full w r s;
     (as, s) \<leftarrow> session full rest s;
     Some (a # as, s)
   }"

section \<open>Every request is answered\<close>

lemma runs_replies: "runs m P \<Longrightarrow> (\<And>r s'. P (r, s') \<Longrightarrow> vex_safe s') \<Longrightarrow> replies m"
  unfolding replies_def by (erule runs_mono) auto

lemma create_replies:
  assumes "vex_safe s"
  shows "replies (vex_create w parent name s)"
proof (cases "check_parent parent s = None \<and> names s parent (utf8_lossy name) = None \<and> fst (dm_alloc_inode (w_crc w) (fs_disk s)) \<noteq> None")
  case True
  then obtain i d where "dm_alloc_inode (w_crc w) (fs_disk s) = (Some i, d)" by (cases "dm_alloc_inode (w_crc w) (fs_disk s)") auto
  from create_effect [OF assms _ _ this] True show ?thesis
    by (intro runs_replies [of _ "\<lambda>(r, s'). r = ReplyCreated (make_attr (fs_next_inode s) 0 False)
        \<and> added parent (utf8_lossy name) False i (Some (w_now w)) s s' \<and> arc_lookup (fs_cache s') (fs_next_inode s) = Some []"])
      (auto simp: added_def)
next
  case False
  obtain r d where a: "dm_alloc_inode (w_crc w) (fs_disk s) = (r, d)" by fastforce
  have "vex_safe (s\<lparr>fs_disk := d\<rparr>)"
    by (rule safe_disk [OF assms alloc_inode_dir(1) [OF vex_safeD(5) [OF assms] a]])
  with False assms a show ?thesis
    by (auto simp: vex_create_def Let_def names_def split: option.splits)
qed

lemma mkdir_replies:
  assumes "vex_safe s"
  shows "replies (vex_mkdir w parent name s)"
proof (cases "check_parent parent s = None \<and> names s parent (utf8_lossy name) = None \<and> fst (dm_alloc_inode (w_crc w) (fs_disk s)) \<noteq> None")
  case True
  then obtain i d where "dm_alloc_inode (w_crc w) (fs_disk s) = (Some i, d)" by (cases "dm_alloc_inode (w_crc w) (fs_disk s)") auto
  from mkdir_effect [OF assms _ _ this] True show ?thesis
    by (intro runs_replies [of _ "\<lambda>(r, s'). r = ReplyEntry (make_attr (fs_next_inode s) 0 True)
        \<and> added parent (utf8_lossy name) True i None s s'"]) (auto simp: added_def)
next
  case False
  obtain r d where a: "dm_alloc_inode (w_crc w) (fs_disk s) = (r, d)" by fastforce
  have "vex_safe (s\<lparr>fs_disk := d\<rparr>)"
    by (rule safe_disk [OF assms alloc_inode_dir(1) [OF vex_safeD(5) [OF assms] a]])
  with False assms a show ?thesis
    by (auto simp: vex_mkdir_def Let_def names_def split: option.splits)
qed

lemma remove_snd: "vex_safe s \<Longrightarrow> bt_remove p n (fs_index s) = (t, r) \<Longrightarrow> r = bt_get p n (fs_index s) \<and> vex_safe (s\<lparr>fs_index := t\<rparr>)"
  using bt_remove_result [OF vex_safeD(1), of s p n] safe_remove_name [of s p n] by simp

lemma unlink_replies:
  assumes "vex_safe s"
  shows "replies (vex_unlink w parent name s)"
proof (cases "\<exists>v f. names s parent (utf8_lossy name) = Some v \<and> hm_get (fs_files s) (v_ino v) = Some f")
  case True
  then obtain v f where "names s parent (utf8_lossy name) = Some v" "hm_get (fs_files s) (v_ino v) = Some f" by blast
  from runs_replies [OF unlink_effect [OF assms this]] show ?thesis by (auto simp: removed_def)
next
  case False
  obtain t r where t: "bt_remove parent (utf8_lossy name) (fs_index s) = (t, r)" by fastforce
  from False remove_snd [OF assms t] t show ?thesis
    by (auto simp: vex_unlink_def Let_def names_def split: option.splits)
qed

lemma rmdir_replies:
  assumes "vex_safe s"
  shows "replies (vex_rmdir w parent name s)"
proof (cases "\<exists>v f. names s parent (utf8_lossy name) = Some v \<and> hm_get (fs_files s) (v_ino v) = Some f
    \<and> v_is_dir v \<and> bt_list_dir (v_ino v) (fs_index s) = []")
  case True
  then obtain v f where v: "names s parent (utf8_lossy name) = Some v" "hm_get (fs_files s) (v_ino v) = Some f"
    "v_is_dir v" "bt_list_dir (v_ino v) (fs_index s) = []" by blast
  from runs_replies [OF rmdir_effect [OF assms v]] show ?thesis by (auto simp: removed_def)
next
  case False
  with assms safe_remove_name [OF assms] show ?thesis
    by (auto simp: vex_rmdir_def Let_def names_def split: option.splits)
qed

lemma rename_replies:
  assumes "vex_safe s"
  shows "replies (vex_rename w parent name newparent newname s)"
proof (cases "(newparent = ROOT_INO \<or> hm_get (fs_files s) newparent \<noteq> None) \<and> names s parent (utf8_lossy name) \<noteq> None")
  case True
  then obtain v where v: "newparent = ROOT_INO \<or> hm_get (fs_files s) newparent \<noteq> None" "names s parent (utf8_lossy name) = Some v"
    by blast
  from runs_replies [OF rename_effect [OF assms v]] show ?thesis by (auto simp: renamed_def)
next
  case False
  obtain t r where t: "bt_remove parent (utf8_lossy name) (fs_index s) = (t, r)" by fastforce
  from False remove_snd [OF assms t] t assms show ?thesis
    by (auto simp: vex_rename_def Let_def names_def)
qed

lemma serve_replies: "vex_safe s \<Longrightarrow> request_ok r \<Longrightarrow> replies (serve full w r s)"
proof (cases r)
  case (ReqSetattr ino sz)
  assume "vex_safe s" "request_ok r"
  with ReqSetattr show ?thesis using setattr_replies [of s sz w ino] by (cases sz) simp_all
qed (simp_all add: lookup_replies getattr_replies read_replies write_replies flush_replies readdir_replies
    create_replies mkdir_replies unlink_replies rmdir_replies rename_replies statfs_replies release_replies)

lemma session_runs:
  "vex_safe s \<Longrightarrow> \<forall>(w, r) \<in> set rs. request_ok r
    \<Longrightarrow> runs (session full rs s) (\<lambda>(as, s'). vex_safe s' \<and> length as = length rs)"
proof (induction rs arbitrary: s)
  case (Cons p rs)
  obtain w r where p: "p = (w, r)" by fastforce
  have "replies (serve full w r s)" using serve_replies [OF Cons.prems(1)] Cons.prems(2) p by simp
  then obtain a s1 where s1: "serve full w r s = Some (a, s1)" "vex_safe s1" by (auto simp: replies_def runs_def)
  have "\<forall>(w, r) \<in> set rs. request_ok r" using Cons.prems(2) by simp
  from Cons.IH [OF s1(2) this] obtain as s2 where "session full rs s1 = Some (as, s2)" "vex_safe s2" "length as = length rs"
    by (auto simp: runs_def)
  with s1 p show ?case by simp
qed simp

section \<open>Mounting\<close>

lemma bt_new_get [simp]: "bt_get p n bt_new = None"
  by (simp add: bt_get_def bt_new_def new_leaf_def)

lemma new_safe: "dir_length disk \<Longrightarrow> vex_safe (vex_new disk)"
  by (auto simp: vex_safe_def vex_new_def bt_new_inv arc_new_inv wb_inv_def wb_new_def slots_ok_def sm_new_def)

lemma capacity_le: "dir_length d \<Longrightarrow> inode_capacity d \<le> MAX_FILES"
  using length_filter_le [of "\<lambda>o'. o' \<noteq> 0" "it_blocks (dm_inode_table d)"]
  by (simp add: dir_length_def inode_capacity_def it_capacity_def block_count_def MAX_FILES_def MAX_INODES_TOTAL_def)

lemma load_inode_runs:
  assumes "vex_safe s" and "i < MAX_FILES"
  shows "runs (load_inode w i n s) (\<lambda>s'. vex_safe s' \<and> fs_disk s' = fs_disk s)"
proof -
  let ?data = "if 0 < in_size n then decompress (w_zdec w) (read_or_empty (fs_disk s) (in_data_offset n) (in_size n)) else []"
  obtain c where c: "arc_insert (in_ino n) ?data (fs_cache s) = Some c" "cache_inv c"
    by (rule arc_insert_stores [OF vex_safeD(3) [OF assms(1)]])
  have "vex_safe (s\<lparr>fs_search_docs := ds, fs_cache := c, fs_index := bt_insert p m v (fs_index s),
      fs_files := hm_insert ino f (fs_files s), fs_next_inode := nx\<rparr>)"
    if "v_disk_index v = i" "vf_disk_index f = i" for ds p m v ino f nx
    using assms c(2) that unfolding vex_safe_def
    by (auto simp: bt_insert_inv bt_get_insert split: if_splits)
  with assms(1) c(1) show ?thesis
    by (simp add: load_inode_def Let_def)
qed

lemma load_inodes_runs:
  "vex_safe s \<Longrightarrow> \<forall>i \<in> set is. i < MAX_FILES \<Longrightarrow> runs (load_inodes w is s) (\<lambda>s'. vex_safe s' \<and> fs_disk s' = fs_disk s)"
proof (induction "is" arbitrary: s)
  case (Cons i "is")
  then have i: "i < MAX_FILES" "\<forall>i \<in> set is. i < MAX_FILES" by auto
  show ?case
  proof (cases "dm_read_inode (w_crc w) i (fs_disk s)")
    case (Inl e)
    then have "e \<noteq> Panic" using dm_read_inode_no_panic [OF i(1), of "w_crc w" "fs_disk s"] by blast
    with Inl Cons.prems(1) show ?thesis by (cases e) simp_all
  next
    case (Inr n)
    have "runs (load_inode w i n s \<bind> load_inodes w is) (\<lambda>s'. vex_safe s' \<and> fs_disk s' = fs_disk s)"
      by (rule runs_bind [OF load_inode_runs [OF Cons.prems(1) i(1)]], rule runs_mono [OF Cons.IH]) (use i(2) in auto)
    with Inr show ?thesis by simp
  qed
qed simp

lemma load_snapshot_safe:
  assumes "vex_safe s" and "i < MAX_SNAPSHOT_SLOTS"
  shows "vex_safe (load_snapshot i ds s)"
proof -
  have "\<forall>x \<in> set (sm_list ino (fs_snapshots s)). slot_ok x" for ino
    using slots_ok_get [OF vex_safeD(6) [OF assms(1)], of ino]
    by (cases "hm_get (sm_snapshots (fs_snapshots s)) ino") (simp_all add: sm_list_def)
  then have "slots_ok ((fs_snapshots s)\<lparr>sm_snapshots := hm_insert ino (sm_list ino (fs_snapshots s) @ [x]) (sm_snapshots (fs_snapshots s))\<rparr>)"
    if "ss_disk_slot x = i" for ino x
    using assms(2) that by (intro slots_ok_insert vex_safeD(6) [OF assms(1)]) (auto simp: slot_ok_def)
  with assms(1) show ?thesis
    by (auto simp: load_snapshot_def Let_def intro!: safe_snapshots)
qed

lemma read_snapshot_no_panic: "i < MAX_SNAPSHOT_SLOTS \<Longrightarrow> read_snapshot crc i d \<noteq> Inl Panic"
  by (simp add: read_snapshot_def read_bytes_def split: option.splits sum.splits)

lemma load_snapshots_runs:
  "vex_safe s \<Longrightarrow> \<forall>i \<in> set is. i < MAX_SNAPSHOT_SLOTS \<Longrightarrow> runs (load_snapshots w is s) vex_safe"
proof (induction "is" arbitrary: s)
  case (Cons i "is")
  show ?case
  proof (cases "read_snapshot (w_crc w) i (fs_disk s)")
    case (Inl e)
    then have "e \<noteq> Panic" using read_snapshot_no_panic [of i "w_crc w" "fs_disk s"] Cons.prems(2) by auto
    with Inl Cons.prems(1) show ?thesis by (cases e) simp_all
  next
    case (Inr ds)
    have "vex_safe (load_snapshot i ds s)" using Cons.prems by (intro load_snapshot_safe) auto
    from Cons.IH [OF this] Inr Cons.prems(2) show ?thesis by simp
  qed
qed simp

lemma load_runs:
  assumes "dir_length disk"
  shows "runs (vex_load w disk) vex_safe"
proof -
  have "runs (load_snapshots w [0..<256] s \<bind>
      (\<lambda>s. Some (s\<lparr>fs_snapshots := (fs_snapshots s)\<lparr>sm_next_id := next_snapshot_id (fs_snapshots s)\<rparr>\<rparr>))) vex_safe"
    if "vex_safe s" for s
    by (rule runs_bind [OF load_snapshots_runs [OF that]])
      (auto simp: MAX_SNAPSHOT_SLOTS_def slots_ok_def intro!: safe_snapshots dest: vex_safeD(6))
  then show ?thesis
    using capacity_le [OF assms] unfolding vex_load_def
    by (intro runs_bind [OF load_inodes_runs [OF new_safe [OF assms]]]) auto
qed

section \<open>The namespace along a session\<close>

lemma runsD: "runs m P \<Longrightarrow> m = Some x \<Longrightarrow> P x"
  by (simp add: runs_def)

text \<open>Requests that leave index and files alone, up to flushing and open times.\<close>

lemma ns_open:
  assumes "ns_inv s"
  shows "ns_inv (send e (update_file ino (\<lambda>f. f\<lparr>vf_open_since := t\<rparr>) s))"
  unfolding ns_inv_def
proof (intro conjI allI impI)
  fix p n v assume "names (send e (update_file ino (\<lambda>f. f\<lparr>vf_open_since := t\<rparr>) s)) p n = Some v"
  then have "names s p n = Some v" by (simp add: names_def)
  from ns_invD(1) [OF assms this] obtain f where "hm_get (fs_files s) (v_ino v) = Some f" "entry_matches p n v (file_meta f)"
    by (auto simp: view_Some_iff)
  then show "\<exists>f. view (send e (update_file ino (\<lambda>f. f\<lparr>vf_open_since := t\<rparr>) s)) (v_ino v) = Some f \<and> entry_matches p n v f"
    by (cases "v_ino v = ino") (simp_all add: view_def entry_matches_def)
next
  fix i f assume "view (send e (update_file ino (\<lambda>f. f\<lparr>vf_open_since := t\<rparr>) s)) i = Some f"
  then have "view s i \<noteq> None" by (auto simp: view_def split: if_splits)
  with ns_invD(2) [OF assms, of i] show "unat i < unat (fs_next_inode (send e (update_file ino (\<lambda>f. f\<lparr>vf_open_since := t\<rparr>) s)))"
    by auto
qed

lemma ns_updates [simp]:
  "ns_inv (s\<lparr>fs_cache := c\<rparr>) = ns_inv s" "ns_inv (s\<lparr>fs_disk := d\<rparr>) = ns_inv s" "ns_inv (send e s) = ns_inv s"
  "ns_inv (s\<lparr>fs_search_query := q\<rparr>) = ns_inv s" "ns_inv (s\<lparr>fs_ask_query := q\<rparr>) = ns_inv s"
  by (simp_all add: ns_inv_def view_def names_def)

lemma next_updates [simp]:
  "fs_next_inode (update_file ino g s) = fs_next_inode s" by simp

definition keeps_ns :: "vexfs \<Rightarrow> vexfs \<Rightarrow> bool" where
  "keeps_ns s s' \<longleftrightarrow> (ns_inv s \<longrightarrow> ns_inv s') \<and> fs_next_inode s' = fs_next_inode s"

lemma keeps_refl: "keeps_ns s s"
  by (simp add: keeps_ns_def)

lemma moved_keeps: "moved s s' \<Longrightarrow> keeps_ns s s'"
  using moved_ns [of s s'] by (simp add: keeps_ns_def moved_def moves_next)

lemma stored_keeps:
  assumes "stored ino data s s'"
  shows "keeps_ns s s'"
  using ns_inv_cong [OF stored_view(2,1,3) [OF assms]] stored_view(3) [OF assms] by (simp add: keeps_ns_def)

lemma read_keeps:
  assumes "vex_safe s" and "vex_read w ino off sz s = Some (a, s')"
  shows "keeps_ns s s'"
proof -
  obtain r c where g: "arc_get ino (fs_cache s) = (r, c)" by fastforce
  note safe = moved_safe [OF get_moved [OF assms(1) g]]
  have "keeps_ns s s'" if "cache_insert w ino data (s\<lparr>fs_cache := c\<rparr>) = Some s'" for data s'
    using stored_keeps [OF runsD [OF cache_insert_stored [OF safe] that]] by (simp add: keeps_ns_def)
  with assms(2) g show ?thesis
    by (auto simp: vex_read_def Let_def keeps_refl keeps_ns_def bind_eq_Some_conv split: if_splits option.splits)
qed

lemma write_keeps:
  assumes "vex_safe s" and "unat off + length data \<le> VEC_MAX" and "vex_write w ino off data s = Some (a, s')"
  shows "keeps_ns s s'"
proof (cases "ino = SEARCH_INO \<or> ino = ASK_INO \<or> hm_get (fs_files s) ino = None")
  case True
  with assms(3) show ?thesis by (auto simp: vex_write_def Let_def keeps_ns_def send_def ns_inv_def view_def names_def split: if_splits)
next
  case False
  then obtain f where f: "hm_get (fs_files s) ino = Some f" by auto
  from False have ne: "ino \<noteq> SEARCH_INO" "ino \<noteq> ASK_INO" by auto
  from runsD [OF write_effect [OF assms(1) f ne assms(2)] assms(3)]
  have "resized ino (written_file (w_now w) (length (splice_at (unat off) data (cached_or_empty ino s))))
      (splice_at (unat off) data (cached_or_empty ino s)) s s'" by simp
  from resized_ns [OF this] this show ?thesis
    by (auto simp: keeps_ns_def written_file_def) (simp add: resized_def)
qed

lemma setattr_keeps:
  assumes "vex_safe s" and "\<forall>n. sz = Some n \<longrightarrow> unat n \<le> VEC_MAX" and "vex_setattr w ino sz s = Some (a, s')"
  shows "keeps_ns s s'"
proof (cases "\<exists>n f. sz = Some n \<and> hm_get (fs_files s) ino = Some f \<and> n \<noteq> fa_size (vf_attr f)
    \<and> \<not> ((ino = SEARCH_INO \<or> ino = ASK_INO) \<and> n = 0)")
  case True
  then obtain n f where n: "sz = Some n" "hm_get (fs_files s) ino = Some f" "n \<noteq> fa_size (vf_attr f)"
    "\<not> ((ino = SEARCH_INO \<or> ino = ASK_INO) \<and> n = 0)" by blast
  have "unat n \<le> VEC_MAX" using assms(2) n(1) by simp
  from runsD [OF setattr_effect [OF assms(1) n(2,3,4) this] assms(3) [unfolded n(1)]]
  have r: "resized ino (\<lambda>_. resized_file n f) (resize_to (unat n) (cached_or_empty ino s)) s s'" by simp
  from resized_ns [OF r] r n(2) show ?thesis
    by (auto simp: keeps_ns_def resized_file_def) (simp add: resized_def)
next
  case False
  with assms(3) show ?thesis
    by (auto simp: vex_setattr_def Let_def keeps_refl keeps_ns_def split: if_splits option.splits)
qed

lemma flush_keeps:
  "vex_safe s \<Longrightarrow> flush_file w ino s = Some s' \<Longrightarrow> keeps_ns s s'"
  using moved_keeps [OF runsD [OF flush_file_moved]] by blast

definition ns_step :: "vexfs \<Rightarrow> vexfs \<Rightarrow> bool" where
  "ns_step s s' \<longleftrightarrow> (ns_inv s \<and> unat (fs_next_inode s) + 1 < 2 ^ 64
     \<longrightarrow> ns_inv s' \<and> unat (fs_next_inode s') \<le> unat (fs_next_inode s) + 1)"

lemma keeps_step: "keeps_ns s s' \<Longrightarrow> ns_step s s'"
  by (simp add: keeps_ns_def ns_step_def)

lemma added_step: "added p n d i t s s' \<Longrightarrow> ns_step s s'"
  using added_ns [of p n d i t s s'] by (auto simp: ns_step_def added_def unat64_add)

lemma create_step:
  assumes "vex_safe s" and "vex_create w parent name s = Some (a, s')"
  shows "ns_step s s'"
proof (cases "check_parent parent s = None \<and> names s parent (utf8_lossy name) = None \<and> fst (dm_alloc_inode (w_crc w) (fs_disk s)) \<noteq> None")
  case True
  then obtain i d where al: "dm_alloc_inode (w_crc w) (fs_disk s) = (Some i, d)" by (cases "dm_alloc_inode (w_crc w) (fs_disk s)") auto
  from True have c: "check_parent parent s = None" "names s parent (utf8_lossy name) = None" by simp_all
  from runsD [OF create_effect [OF assms(1) c al] assms(2)] show ?thesis
    by (auto intro: added_step)
next
  case False
  with assms show ?thesis
    by (auto simp: vex_create_def Let_def names_def ns_step_def split: option.splits prod.splits if_splits)
qed

lemma mkdir_step:
  assumes "vex_safe s" and "vex_mkdir w parent name s = Some (a, s')"
  shows "ns_step s s'"
proof (cases "check_parent parent s = None \<and> names s parent (utf8_lossy name) = None \<and> fst (dm_alloc_inode (w_crc w) (fs_disk s)) \<noteq> None")
  case True
  then obtain i d where al: "dm_alloc_inode (w_crc w) (fs_disk s) = (Some i, d)" by (cases "dm_alloc_inode (w_crc w) (fs_disk s)") auto
  from True have c: "check_parent parent s = None" "names s parent (utf8_lossy name) = None" by simp_all
  from runsD [OF mkdir_effect [OF assms(1) c al] assms(2)] show ?thesis
    by (auto intro: added_step)
next
  case False
  with assms show ?thesis
    by (auto simp: vex_mkdir_def Let_def names_def ns_step_def split: option.splits prod.splits if_splits)
qed

lemma remove_missing: "vex_safe s \<Longrightarrow> bt_get p n (fs_index s) = None
    \<Longrightarrow> names (s\<lparr>fs_index := fst (bt_remove p n (fs_index s))\<rparr>) = names s"
  using bt_get_remove [OF vex_safeD(1)] by (auto simp: names_def fun_eq_iff)

lemma missing_keeps: "vex_safe s \<Longrightarrow> bt_remove p n (fs_index s) = (t, None) \<Longrightarrow> keeps_ns s (s\<lparr>fs_index := t\<rparr>)"
  using remove_missing [of s p n] remove_snd [of s p n t None]
  by (simp add: keeps_ns_def ns_inv_def view_def)

lemma unlink_step:
  assumes "vex_safe s" and "vex_unlink w parent name s = Some (a, s')"
  shows "ns_step s s'"
proof (cases "names s parent (utf8_lossy name)")
  case None
  obtain t where t: "bt_remove parent (utf8_lossy name) (fs_index s) = (t, None)"
    using remove_snd [OF assms(1), of parent "utf8_lossy name"] None
    by (cases "bt_remove parent (utf8_lossy name) (fs_index s)") (auto simp: names_def)
  with assms(2) have "s' = s\<lparr>fs_index := t\<rparr>" by (simp add: vex_unlink_def Let_def)
  with keeps_step [OF missing_keeps [OF assms(1) t]] show ?thesis by simp
next
  case (Some v)
  show ?thesis
  proof (cases "ns_inv s")
    case True
    then obtain f where f: "hm_get (fs_files s) (v_ino v) = Some f"
      using ns_invD(1) [OF True Some] by (auto simp: view_Some_iff)
    from runsD [OF unlink_effect [OF assms(1) Some f] assms(2)]
    have "removed parent (utf8_lossy name) (v_ino v) s s'" by simp
    from removed_ns [OF this Some True] this show ?thesis by (simp add: ns_step_def removed_def)
  qed (simp add: ns_step_def)
qed

lemma rmdir_step:
  assumes "vex_safe s" and "vex_rmdir w parent name s = Some (a, s')"
  shows "ns_step s s'"
proof (cases "\<exists>v. names s parent (utf8_lossy name) = Some v \<and> v_is_dir v \<and> bt_list_dir (v_ino v) (fs_index s) = []")
  case True
  then obtain v where v: "names s parent (utf8_lossy name) = Some v" "v_is_dir v" "bt_list_dir (v_ino v) (fs_index s) = []" by blast
  show ?thesis
  proof (cases "ns_inv s")
    case ns: True
    then obtain f where f: "hm_get (fs_files s) (v_ino v) = Some f"
      using ns_invD(1) [OF ns v(1)] by (auto simp: view_Some_iff)
    from runsD [OF rmdir_effect [OF assms(1) v(1) f v(2,3)] assms(2)]
    have "removed parent (utf8_lossy name) (v_ino v) s s'" by simp
    from removed_ns [OF this v(1) ns] this show ?thesis by (simp add: ns_step_def removed_def)
  qed (simp add: ns_step_def)
next
  case False
  with assms show ?thesis
    by (auto simp: vex_rmdir_def Let_def names_def ns_step_def split: option.splits if_splits)
qed

lemma rename_step:
  assumes "vex_safe s" and "vex_rename w parent name newparent newname s = Some (a, s')"
  shows "ns_step s s'"
proof (cases "newparent = ROOT_INO \<or> hm_get (fs_files s) newparent \<noteq> None")
  case True
  show ?thesis
  proof (cases "names s parent (utf8_lossy name)")
    case None
    obtain t where t: "bt_remove parent (utf8_lossy name) (fs_index s) = (t, None)"
      using remove_snd [OF assms(1), of parent "utf8_lossy name"] None
      by (cases "bt_remove parent (utf8_lossy name) (fs_index s)") (auto simp: names_def)
    with assms(2) True have "s' = s\<lparr>fs_index := t\<rparr>" by (auto simp: vex_rename_def Let_def)
    with keeps_step [OF missing_keeps [OF assms(1) t]] show ?thesis by simp
  next
    case (Some v)
    from runsD [OF rename_effect [OF assms(1) True Some] assms(2)]
    have r: "renamed parent (utf8_lossy name) newparent (utf8_lossy newname) v s s'" by simp
    from renamed_ns [OF r Some] r show ?thesis by (simp add: ns_step_def renamed_def)
  qed
next
  case False
  with assms(2) have "s' = s" by (simp add: vex_rename_def)
  then show ?thesis by (simp add: ns_step_def)
qed

lemma serve_step:
  assumes "vex_safe s" and "request_ok r" and "serve full w r s = Some (a, s')"
  shows "ns_step s s'"
proof (cases r)
  case (ReqLookup parent name)
  with assms(3) ns_open [of s] show ?thesis
    by (auto simp: vex_lookup_def Let_def ns_step_def split: option.splits if_splits)
next
  case (ReqSetattr ino sz)
  with assms show ?thesis using keeps_step [OF setattr_keeps] by (cases sz) (simp_all, blast+)
next
  case (ReqRelease ino)
  with assms(3) show ?thesis by (auto simp: vex_release_def ns_step_def split: option.splits)
qed (use assms in \<open>auto simp: vex_getattr_def vex_readdir_def vex_statfs_def vex_flush_def vex_fsync_def Let_def
    bind_eq_Some_conv intro: keeps_step [OF keeps_refl] keeps_step [OF read_keeps] keeps_step [OF write_keeps]
    keeps_step [OF flush_keeps] create_step mkdir_step unlink_step rmdir_step rename_step\<close>)

lemma session_ns:
  assumes "vex_safe s" and "ns_inv s" and "\<forall>(w, r) \<in> set rs. request_ok r"
    and "unat (fs_next_inode s) + length rs < 2 ^ 64" and "session full rs s = Some (as, s')"
  shows "ns_inv s'"
  using assms
proof (induction rs arbitrary: s as)
  case (Cons p rs)
  obtain w r where p: "p = (w, r)" by fastforce
  from Cons.prems(5) p obtain a s1 bs where s1: "serve full w r s = Some (a, s1)" "session full rs s1 = Some (bs, s')"
    by (auto simp: bind_eq_Some_conv)
  have ok: "request_ok r" "\<forall>(w, r) \<in> set rs. request_ok r" using Cons.prems(3) p by auto
  have "vex_safe s1" using serve_replies [OF Cons.prems(1) ok(1), of full w] s1(1) by (simp add: replies_def)
  moreover have "ns_inv s1" "unat (fs_next_inode s1) \<le> unat (fs_next_inode s) + 1"
    using serve_step [OF Cons.prems(1) ok(1) s1(1)] Cons.prems(2,4) by (simp_all add: ns_step_def)
  ultimately show ?case
    using Cons.IH [OF _ _ ok(2) _ s1(2)] Cons.prems(4) by simp
qed simp

lemma new_ns: "ns_inv (vex_new disk)"
  by (simp add: ns_inv_def names_def view_def vex_new_def)

end
