(* ===== verification/Vex_Properties.thy ===== *)
theory Vex_Properties
  imports Vex_Session
begin

text \<open>
  The properties of the mounted file system (\<open>src/fuse/mod.rs\<close>), with a small concrete file system on
  which the theorems are instantiated.
\<close>

section \<open>A concrete file system\<close>

definition sample_ai :: ai_state where
  "sample_ai = \<lparr>sa_markov_entries = 0, sa_search_indexed = 0, sa_entropy_threats = 0, sa_ranked_files = [],
     sa_search_result = [], sa_ask_result = [], sa_context_result = [], sa_jarvis_result = [],
     sa_memory_total_sessions = 0, sa_memory_tracked_files = 0, sa_memory_active_streaks = 0,
     sa_memory_trending_count = 0\<rparr>"

definition sample_world :: world where
  "sample_world = \<lparr>w_crc = sum_crc, w_zenc = (\<lambda>_. None), w_zdec = (\<lambda>b. b), w_now = 100, w_ai = sample_ai\<rparr>"

text \<open>A file \<open>a\<close> (inode 2) and an empty directory \<open>d\<close> (inode 3) in the root.\<close>

definition sample_fs :: vexfs where
  "sample_fs = add_file ROOT_INO [100] True 1 None (add_file ROOT_INO [97] False 0 (Some 100) (vex_new sample_disk))"

lemma sample_dir: "dir_length sample_disk"
  using sample_disk_ok(2) by (simp add: dir_length_def it_inv_def)

lemma sample_added:
  "added ROOT_INO [97] False 0 (Some 100) (vex_new sample_disk) (add_file ROOT_INO [97] False 0 (Some 100) (vex_new sample_disk))"
  "added ROOT_INO [100] True 1 None (add_file ROOT_INO [97] False 0 (Some 100) (vex_new sample_disk)) sample_fs"
proof -
  show *: "added ROOT_INO [97] False 0 (Some 100) (vex_new sample_disk) (add_file ROOT_INO [97] False 0 (Some 100) (vex_new sample_disk))"
    by (rule add_file_added [OF new_safe [OF sample_dir]]) (simp add: MAX_FILES_def MAX_INODES_TOTAL_def INODES_PER_BLOCK_def MAX_INODE_BLOCKS_def)
  then have "vex_safe (add_file ROOT_INO [97] False 0 (Some 100) (vex_new sample_disk))" by (simp add: added_def)
  then show "added ROOT_INO [100] True 1 None (add_file ROOT_INO [97] False 0 (Some 100) (vex_new sample_disk)) sample_fs"
    unfolding sample_fs_def
    by (rule add_file_added) (simp add: MAX_FILES_def MAX_INODES_TOTAL_def INODES_PER_BLOCK_def MAX_INODE_BLOCKS_def)
qed

lemma sample_safe: "vex_safe sample_fs"
  using sample_added(2) by (simp add: added_def)

lemma sample_next: "fs_next_inode sample_fs = 4" "fs_next_inode (add_file ROOT_INO [97] False 0 (Some 100) (vex_new sample_disk)) = 3"
  by (simp_all add: sample_fs_def add_file_def Let_def vex_new_def)

lemma sample_ns: "ns_inv sample_fs"
proof -
  have "ns_inv (add_file ROOT_INO [97] False 0 (Some 100) (vex_new sample_disk))"
    by (rule added_ns [OF sample_added(1) new_ns]) (simp add: vex_new_def)
  then show ?thesis by (rule added_ns [OF sample_added(2)]) (simp add: sample_next)
qed

lemma sample_names:
  "names sample_fs p n = (if p = ROOT_INO \<and> n = [100] then Some \<lparr>v_ino = 3, v_size = 0, v_is_dir = True, v_disk_index = 1\<rparr>
     else if p = ROOT_INO \<and> n = [97] then Some \<lparr>v_ino = 2, v_size = 0, v_is_dir = False, v_disk_index = 0\<rparr> else None)"
proof -
  have "names (vex_new sample_disk) p n = None" by (simp add: names_def vex_new_def)
  moreover have "fs_next_inode (vex_new sample_disk) = 2" by (simp add: vex_new_def)
  ultimately show ?thesis using sample_added by (simp add: added_def sample_next)
qed

lemma sample_files:
  "fs_files sample_fs = [(2, \<lparr>vf_name = [97], vf_attr = make_attr 2 0 False, vf_disk_index = 0, vf_dirty = True,
       vf_open_since = Some 100, vf_parent_ino = ROOT_INO, vf_data_offset = of_nat DATA_OFFSET\<rparr>),
     (3, \<lparr>vf_name = [100], vf_attr = make_attr 3 0 True, vf_disk_index = 1, vf_dirty = False,
       vf_open_since = None, vf_parent_ino = ROOT_INO, vf_data_offset = of_nat DATA_OFFSET\<rparr>)]"
  by (simp add: sample_fs_def add_file_def Let_def vex_new_def hm_insert_def)

lemma sample_file_2: "\<exists>f. hm_get (fs_files sample_fs) 2 = Some f" and sample_file_3: "\<exists>f. hm_get (fs_files sample_fs) 3 = Some f"
  by (simp_all add: sample_files hm_get_def)

lemma lossy_ascii_1 [simp]: "utf8_lossy [97] = [97]" "utf8_lossy [98] = [98]" "utf8_lossy [100] = [100]"
  by (rule utf8_lossy_ascii, simp)+

lemma not_virtual_2: "\<not> is_virtual 2"
  by (simp add: is_virtual_def ino_defs)

section \<open>Sessions\<close>



text \<open>C4: Along a session on a fresh file system the index and the map of files stay consistent: a name
  leads to an existing file that carries that name, that parent, that inode slot and that kind, and
  no two names lead to the same inode.\<close>

theorem session_namespace:
  assumes "length (it_blocks (dm_inode_table disk)) = MAX_INODE_BLOCKS" and "\<forall>(w, r) \<in> set rs. request_ok r"
    and "length rs + 2 < 2 ^ 64" and "session full rs (vex_new disk) = Some (as, s)"
  shows "(\<forall>p n v. bt_get p n (fs_index s) = Some v \<longrightarrow>
        (\<exists>f. hm_get (fs_files s) (v_ino v) = Some f \<and> vf_name f = n \<and> vf_parent_ino f = p
          \<and> vf_disk_index f = v_disk_index v \<and> (v_is_dir v \<longleftrightarrow> fa_kind (vf_attr f) = Directory)))
    \<and> (\<forall>p n v q m u. bt_get p n (fs_index s) = Some v \<and> bt_get q m (fs_index s) = Some u \<and> v_ino v = v_ino u
        \<longrightarrow> p = q \<and> n = m)"
proof -
  have "vex_safe (vex_new disk)" using assms(1) by (intro new_safe) (simp add: dir_length_def)
  moreover have "unat (fs_next_inode (vex_new disk)) + length rs < 2 ^ 64" using assms(3) by (simp add: vex_new_def)
  ultimately have ns: "ns_inv s" using session_ns [OF _ new_ns assms(2) _ assms(4)] by blast
  have "\<exists>f. hm_get (fs_files s) (v_ino v) = Some f \<and> vf_name f = n \<and> vf_parent_ino f = p
      \<and> vf_disk_index f = v_disk_index v \<and> (v_is_dir v \<longleftrightarrow> fa_kind (vf_attr f) = Directory)"
    if "bt_get p n (fs_index s) = Some v" for p n v
    using ns_invD(1) [OF ns, of p n v] that by (auto simp: names_def view_Some_iff entry_matches_def)
  then show ?thesis
    using ns_inv_unique [OF ns] by (simp add: names_def) blast
qed

theorem session_namespace_witness:
  "\<exists>as s. session (\<lambda>_ _. False) [(sample_world, ReqMkdir 1 [98])] (vex_new sample_disk) = Some (as, s)
    \<and> (\<forall>p n v. bt_get p n (fs_index s) = Some v \<longrightarrow> (\<exists>f. hm_get (fs_files s) (v_ino v) = Some f \<and> vf_name f = n))"
proof -
  let ?rs = "[(sample_world, ReqMkdir 1 [98])]"
  have len: "length (it_blocks (dm_inode_table sample_disk)) = MAX_INODE_BLOCKS" using sample_dir by (simp add: dir_length_def)
  have ok: "\<forall>(w, r) \<in> set ?rs. request_ok r" by simp
  obtain as s where s: "session (\<lambda>_ _. False) ?rs (vex_new sample_disk) = Some (as, s)"
    using session_runs [OF new_safe [OF sample_dir] ok, of "\<lambda>_ _. False"] by (auto simp: runs_def simp del: session.simps)
  from session_namespace [OF len ok _ s] have "\<forall>p n v. bt_get p n (fs_index s) = Some v \<longrightarrow>
      (\<exists>f. hm_get (fs_files s) (v_ino v) = Some f \<and> vf_name f = n)" by (simp del: session.simps) blast
  with s show ?thesis by blast
qed

section \<open>Reading and writing\<close>

text \<open>A read returns the bytes of the content from the offset on, at most the size asked for, and
  nothing when the offset is past the end; the slice bounds never leave the content.\<close>

theorem reply_slice_take_drop:
  "reply_slice offset sz data = ReplyData (take (unat sz) (drop (unat offset) data))"
proof (cases "unat offset \<le> length data")
  case True
  then show ?thesis
    by (simp add: reply_slice_def slice_bounds_def Let_def sub_def min_def take_drop) (simp add: add.commute)
next
  case False
  then show ?thesis by (simp add: reply_slice_def slice_bounds_def Let_def sub_def)
qed

lemma read_cached:
  assumes "vex_safe s" and "arc_lookup (fs_cache s) ino = Some d" and "hm_get (fs_files s) ino \<noteq> None" and "\<not> is_virtual ino"
  shows "\<exists>s'. vex_read w ino off sz s = Some (reply_slice off sz d, s')"
proof -
  obtain r c where g: "arc_get ino (fs_cache s) = (r, c)" by fastforce
  then have "r = Some d" using get_ok(2) [OF vex_safeD(3) [OF assms(1)] g] assms(2) by simp
  with g assms(3,4) show ?thesis by (auto simp: vex_read_def is_virtual_def)
qed

lemma splice_at_Nil: "splice_at n data [] = zeros n @ data"
  by (simp add: splice_at_def zeros_def put_def)

lemma splice_at_read: "take (length data) (drop n (splice_at n data old)) = data"
  by (simp add: splice_at_def Let_def put_def)

lemma written_reads_back:
  assumes "vex_safe s" and "hm_get (fs_files s) ino \<noteq> None" and "\<not> is_virtual ino" and "unat off + length data \<le> VEC_MAX"
  obtains s1 where "vex_write w ino off data s = Some (ReplyWritten (of_nat (length data)), s1)" and "vex_safe s1"
    and "\<forall>w' o' n. \<exists>s2. vex_read w' ino o' n s1 = Some (reply_slice o' n (splice_at (unat off) data (cached_or_empty ino s)), s2)"
    and "\<exists>f. hm_get (fs_files s1) ino = Some f \<and> fa_size (vf_attr f) = of_nat (length (splice_at (unat off) data (cached_or_empty ino s)))"
proof -
  obtain f where f: "hm_get (fs_files s) ino = Some f" using assms(2) by auto
  from assms(3) have ne: "ino \<noteq> SEARCH_INO" "ino \<noteq> ASK_INO" by (simp_all add: is_virtual_def)
  let ?c = "splice_at (unat off) data (cached_or_empty ino s)"
  obtain s1 where s1: "vex_write w ino off data s = Some (ReplyWritten (of_nat (length data)), s1)"
    "resized ino (written_file (w_now w) (length ?c)) ?c s s1"
    using write_effect [OF assms(1) f ne assms(4), of w] by (auto simp: runs_def)
  then have safe: "vex_safe s1" and c: "arc_lookup (fs_cache s1) ino = Some ?c"
    and v: "map_option file_meta (hm_get (fs_files s1) ino) = map_option file_meta (Some (written_file (w_now w) (length ?c) f))"
    using f by (simp_all add: resized_def)
  then obtain f1 where f1: "hm_get (fs_files s1) ino = Some f1" "file_meta f1 = file_meta (written_file (w_now w) (length ?c) f)"
    by auto
  then have "vf_attr f1 = vf_attr (written_file (w_now w) (length ?c) f)" by (metis file_meta_fields(2))
  then have "fa_size (vf_attr f1) = of_nat (length ?c)" by (simp add: written_file_def)
  with f1(1) have sz: "\<exists>f. hm_get (fs_files s1) ino = Some f \<and> fa_size (vf_attr f) = of_nat (length ?c)" by blast
  have "\<forall>w' o' n. \<exists>s2. vex_read w' ino o' n s1 = Some (reply_slice o' n ?c, s2)"
    using read_cached [OF safe c _ assms(3)] f1(1) by simp
  from that [OF s1(1) safe this sz] show ?thesis .
qed

text \<open>C9: A write is acknowledged in full, and reading the written range straight after returns the data.\<close>

theorem write_read_back:
  assumes "vex_safe s" and "hm_get (fs_files s) ino \<noteq> None" and "\<not> is_virtual ino"
    and "unat off + length data \<le> VEC_MAX" and "length data < 2 ^ 32"
  shows "\<exists>s1 s2. vex_write w ino off data s = Some (ReplyWritten (of_nat (length data)), s1)
    \<and> vex_read w' ino off (of_nat (length data)) s1 = Some (ReplyData data, s2)"
proof -
  obtain s1 where s1: "vex_write w ino off data s = Some (ReplyWritten (of_nat (length data)), s1)"
    "\<forall>w' o' n. \<exists>s2. vex_read w' ino o' n s1 = Some (reply_slice o' n (splice_at (unat off) data (cached_or_empty ino s)), s2)"
    by (rule written_reads_back [OF assms(1-4)])
  have len: "unat (of_nat (length data) :: u32) = length data" using assms(5) by (simp add: unat_of_nat)
  have slice: "reply_slice off sz d = ReplyData (sub d (min (unat off) (length d)) (min (min (unat off) (length d) + unat sz) (length d)))"
    for sz d by (simp add: reply_slice_def slice_bounds_def Let_def)
  have "reply_slice off (of_nat (length data)) (splice_at (unat off) data (cached_or_empty ino s)) = ReplyData data"
  proof -
    let ?d = "splice_at (unat off) data (cached_or_empty ino s)"
    have "unat off + length data \<le> length ?d" by (simp add: splice_at_def Let_def put_def)
    then show ?thesis using splice_at_read [of data "unat off" "cached_or_empty ino s"]
      by (simp add: slice len min_def sub_def take_drop add.commute)
  qed
  with s1 show ?thesis by metis
qed

theorem write_read_back_witness:
  "\<exists>s1 s2. vex_write sample_world 2 5 [7, 8] sample_fs = Some (ReplyWritten (of_nat (length [7 :: u8, 8])), s1)
    \<and> vex_read sample_world 2 5 (of_nat (length [7 :: u8, 8])) s1 = Some (ReplyData [7, 8], s2)"
  by (rule write_read_back [OF sample_safe]) (use sample_file_2 not_virtual_2 in \<open>simp_all add: VEC_MAX_def\<close>)

text \<open>C15: A write to a file whose content is not in the cache starts from an empty content instead of
  the bytes on disk: whatever the file held, it then reads as zeros followed by the new data, and
  its size is that of the write.\<close>

theorem write_uncached_loses_content:
  assumes "vex_safe s" and "hm_get (fs_files s) ino \<noteq> None" and "\<not> is_virtual ino"
    and "unat off + length data \<le> VEC_MAX" and "arc_lookup (fs_cache s) ino = None"
  shows "\<exists>s1 f. vex_write w ino off data s = Some (ReplyWritten (of_nat (length data)), s1)
    \<and> (\<forall>o' n. \<exists>s2. vex_read w ino o' n s1 = Some (reply_slice o' n (zeros (unat off) @ data), s2))
    \<and> hm_get (fs_files s1) ino = Some f \<and> fa_size (vf_attr f) = of_nat (unat off + length data)"
proof -
  have c: "cached_or_empty ino s = []" using assms(5) by (simp add: cached_or_empty_def)
  obtain s1 where s1: "vex_write w ino off data s = Some (ReplyWritten (of_nat (length data)), s1)"
    "\<forall>w' o' n. \<exists>s2. vex_read w' ino o' n s1 = Some (reply_slice o' n (splice_at (unat off) data (cached_or_empty ino s)), s2)"
    "\<exists>f. hm_get (fs_files s1) ino = Some f \<and> fa_size (vf_attr f) = of_nat (length (splice_at (unat off) data (cached_or_empty ino s)))"
    by (rule written_reads_back [OF assms(1-4)])
  then show ?thesis by (auto simp: c splice_at_Nil zeros_def)
qed

theorem write_uncached_loses_content_witness:
  "\<exists>s1 f. vex_write sample_world 2 5 [7, 8] sample_fs = Some (ReplyWritten (of_nat (length [7 :: u8, 8])), s1)
    \<and> (\<forall>o' n. \<exists>s2. vex_read sample_world 2 o' n s1 = Some (reply_slice o' n (zeros (unat (5 :: i64)) @ [7, 8]), s2))
    \<and> hm_get (fs_files s1) 2 = Some f \<and> fa_size (vf_attr f) = of_nat (unat (5 :: i64) + length [7 :: u8, 8])"
proof (rule write_uncached_loses_content [OF sample_safe])
  show "arc_lookup (fs_cache sample_fs) 2 = None"
    by (simp add: sample_fs_def add_file_def Let_def vex_new_def arc_new_def)
qed (use sample_file_2 not_virtual_2 in \<open>simp_all add: VEC_MAX_def\<close>)

section \<open>Directories\<close>

lemma lookup_entry:
  assumes "names s parent (utf8_lossy os_name) = Some v" and "view s (v_ino v) = Some f"
    and "parent = ROOT_INO \<longrightarrow> virtual_entry (w_ai w) (utf8_lossy os_name) = None"
  shows "\<exists>s'. vex_lookup w parent os_name s = Some (ReplyEntry (vf_attr f), s')"
  using assms by (auto simp: vex_lookup_def names_def view_Some_iff Let_def)

lemma lookup_missing:
  assumes "names s parent (utf8_lossy os_name) = None"
    and "parent = ROOT_INO \<longrightarrow> virtual_entry (w_ai w) (utf8_lossy os_name) = None"
  shows "vex_lookup w parent os_name s = Some (ReplyError ENOENT, s)"
  using assms by (auto simp: vex_lookup_def names_def Let_def)



lemma list_dir_mem:
  assumes "vex_safe s"
  shows "(Key p n, v) \<in> set (bt_list_dir p (fs_index s)) \<longleftrightarrow> names s p n = Some v \<and> below_sentinel n"
  using bt_list_dir_filter [OF vex_safeD(1) [OF assms], of p] bt.entries_iff [OF vex_safeD(1) [OF assms], of "Key p n" v]
  by (simp add: names_def)

lemma list_dir_parent: "vex_safe s \<Longrightarrow> (k, v) \<in> set (bt_list_dir p (fs_index s)) \<Longrightarrow> key_parent k = p"
  using bt_list_dir_filter [OF vex_safeD(1), of s p] by auto

lemma list_dir_empty_iff:
  assumes "vex_safe s"
  shows "bt_list_dir p (fs_index s) = [] \<longleftrightarrow> (\<forall>n. below_sentinel n \<longrightarrow> names s p n = None)"
proof
  assume "bt_list_dir p (fs_index s) = []"
  then have "names s p n \<noteq> Some v" if "below_sentinel n" for n v
    using list_dir_mem [OF assms, of p n v] that by simp
  then show "\<forall>n. below_sentinel n \<longrightarrow> names s p n = None" by (metis option.exhaust)
next
  assume none: "\<forall>n. below_sentinel n \<longrightarrow> names s p n = None"
  show "bt_list_dir p (fs_index s) = []"
  proof (rule ccontr)
    assume "bt_list_dir p (fs_index s) \<noteq> []"
    then obtain k v where kv: "(k, v) \<in> set (bt_list_dir p (fs_index s))" by (cases "bt_list_dir p (fs_index s)") auto
    then have "k = Key p (key_name k)" using list_dir_parent [OF assms kv] by (cases k) simp
    with kv list_dir_mem [OF assms, of p "key_name k" v]
    have "names s p (key_name k) = Some v" "below_sentinel (key_name k)" by metis+
    with none show False by simp
  qed
qed



text \<open>\<open>unlink\<close> removes exactly the name, the file and its cached data, but a write of the file that is
  still pending in the write buffer stays there, so the next flush of the buffer writes the deleted
  file's inode back to its slot.\<close>

theorem unlink_keeps_pending_write:
  assumes "vex_safe s" and "bt_get parent (utf8_lossy os_name) (fs_index s) = Some v" and "hm_get (fs_files s) (v_ino v) = Some f"
  shows "\<exists>s'. vex_unlink w parent os_name s = Some (ReplyOk, s')
    \<and> (\<forall>p n. bt_get p n (fs_index s') = (if p = parent \<and> n = utf8_lossy os_name then None else bt_get p n (fs_index s)))
    \<and> hm_get (fs_files s') (v_ino v) = None \<and> arc_lookup (fs_cache s') (v_ino v) = None
    \<and> wb_take (v_ino v) (fs_write_buffer s') = wb_take (v_ino v) (fs_write_buffer s)
    \<and> wb_take_all (fs_write_buffer s') = wb_take_all (fs_write_buffer s)"
proof -
  from assms(2) have "names s parent (utf8_lossy os_name) = Some v" by (simp add: names_def)
  from unlink_effect [OF assms(1) this assms(3), of w] obtain s' where
    s': "vex_unlink w parent os_name s = Some (ReplyOk, s')" "removed parent (utf8_lossy os_name) (v_ino v) s s'"
      "fs_write_buffer s' = fs_write_buffer s" "arc_lookup (fs_cache s') (v_ino v) = None"
    by (auto simp: runs_def)
  moreover have "hm_get (fs_files s') (v_ino v) = None"
    using s'(2) view_None_iff [of s' "v_ino v"] by (simp add: removed_def)
  moreover have "\<forall>p n. bt_get p n (fs_index s') = (if p = parent \<and> n = utf8_lossy os_name then None else bt_get p n (fs_index s))"
    using s'(2) by (simp add: removed_def names_def)
  ultimately show ?thesis by (intro exI [of _ s']) simp
qed

theorem unlink_keeps_pending_write_witness:
  "let s = sample_fs\<lparr>fs_write_buffer := wb_write 100 2 [97] [1, 2] 0 (fs_write_buffer sample_fs)\<rparr>
   in \<exists>s'. vex_unlink sample_world ROOT_INO [97] s = Some (ReplyOk, s') \<and> hm_get (fs_files s') 2 = None
        \<and> fst (wb_take 2 (fs_write_buffer s')) = Some ([1, 2], 0, [97])"
proof -
  let ?s = "sample_fs\<lparr>fs_write_buffer := wb_write 100 2 [97] [1, 2] 0 (fs_write_buffer sample_fs)\<rparr>"
  have safe: "vex_safe ?s"
    by (rule safe_buffer_write [OF sample_safe]) (simp add: MAX_FILES_def MAX_INODES_TOTAL_def INODES_PER_BLOCK_def MAX_INODE_BLOCKS_def)
  have get: "bt_get ROOT_INO (utf8_lossy [97]) (fs_index ?s) = Some \<lparr>v_ino = 2, v_size = 0, v_is_dir = False, v_disk_index = 0\<rparr>"
    using sample_names [of ROOT_INO "[97]"] by (simp add: names_def)
  obtain f where f: "hm_get (fs_files ?s) (v_ino \<lparr>v_ino = 2, v_size = 0, v_is_dir = False, v_disk_index = 0\<rparr>) = Some f"
    using sample_file_2 by auto
  have buf: "fst (wb_take 2 (fs_write_buffer ?s)) = Some ([1, 2], 0, [97])"
    by (simp add: wb_take_def wb_write_def)
  from unlink_keeps_pending_write [OF safe get f, of sample_world] buf show ?thesis
    unfolding Let_def by fastforce
qed

text \<open>C12: \<open>rename\<close> moves exactly the named entry: it is found under the new name with the same inode, the
  old name is gone unless it is the same, and every other name is untouched. The renamed file
  carries the new name and parent.\<close>

theorem rename_moves:
  assumes "vex_safe s" and "newparent = ROOT_INO \<or> hm_get (fs_files s) newparent \<noteq> None"
    and "bt_get parent (utf8_lossy os_name) (fs_index s) = Some v" and "hm_get (fs_files s) (v_ino v) = Some f"
  shows "\<exists>s' f'. vex_rename w parent os_name newparent os_newname s = Some (ReplyOk, s')
    \<and> (\<forall>p n. bt_get p n (fs_index s') = (if p = newparent \<and> n = utf8_lossy os_newname then Some v
          else if p = parent \<and> n = utf8_lossy os_name then None else bt_get p n (fs_index s)))
    \<and> hm_get (fs_files s') (v_ino v) = Some f' \<and> vf_name f' = utf8_lossy os_newname \<and> vf_parent_ino f' = newparent
    \<and> vf_attr f' = vf_attr f \<and> vf_disk_index f' = vf_disk_index f"
proof -
  have nm: "names s parent (utf8_lossy os_name) = Some v" using assms(3) by (simp add: names_def)
  from rename_effect [OF assms(1,2) nm, of w os_newname] obtain s' where
    s': "vex_rename w parent os_name newparent os_newname s = Some (ReplyOk, s')"
      "renamed parent (utf8_lossy os_name) newparent (utf8_lossy os_newname) v s s'"
    by (auto simp: runs_def)
  have "view s' (v_ino v) = Some ((file_meta f)\<lparr>vf_name := utf8_lossy os_newname, vf_parent_ino := newparent\<rparr>)"
    using s'(2) assms(4) by (simp add: renamed_def) (simp add: view_def)
  then obtain f' where f': "hm_get (fs_files s') (v_ino v) = Some f'"
    "file_meta f' = (file_meta f)\<lparr>vf_name := utf8_lossy os_newname, vf_parent_ino := newparent\<rparr>"
    by (auto simp: view_Some_iff)
  have "vf_name f' = utf8_lossy os_newname" "vf_parent_ino f' = newparent" "vf_attr f' = vf_attr f" "vf_disk_index f' = vf_disk_index f"
    using arg_cong [OF f'(2), of vf_name] arg_cong [OF f'(2), of vf_parent_ino] arg_cong [OF f'(2), of vf_attr]
      arg_cong [OF f'(2), of vf_disk_index] by simp_all
  moreover have "\<forall>p n. bt_get p n (fs_index s') = (if p = newparent \<and> n = utf8_lossy os_newname then Some v
          else if p = parent \<and> n = utf8_lossy os_name then None else bt_get p n (fs_index s))"
    using s'(2) by (simp add: renamed_def names_def)
  ultimately show ?thesis using s'(1) f'(1) by blast
qed

theorem rename_moves_witness:
  "\<exists>s'. vex_rename sample_world ROOT_INO [97] 3 [98] sample_fs = Some (ReplyOk, s')
    \<and> bt_get ROOT_INO [97] (fs_index s') = None \<and> bt_get 3 [98] (fs_index s') \<noteq> None"
proof -
  have get: "bt_get ROOT_INO (utf8_lossy [97]) (fs_index sample_fs) = Some \<lparr>v_ino = 2, v_size = 0, v_is_dir = False, v_disk_index = 0\<rparr>"
    using sample_names [of ROOT_INO "[97]"] by (simp add: names_def)
  have dir: "(3 :: u64) = ROOT_INO \<or> hm_get (fs_files sample_fs) 3 \<noteq> None" using sample_file_3 by auto
  obtain f where f: "hm_get (fs_files sample_fs) (v_ino \<lparr>v_ino = 2, v_size = 0, v_is_dir = False, v_disk_index = 0\<rparr>) = Some f"
    using sample_file_2 by auto
  from rename_moves [OF sample_safe dir get f, of sample_world "[98]"] show ?thesis by (auto simp: ROOT_INO_def)
qed

text \<open>Renaming over an existing name of another inode leaks the replaced file: no name leads to it any
  more, but it stays in the map of files, and its data extent and its inode are not freed.\<close>

theorem rename_leaks_target:
  assumes "vex_safe s" and "ns_inv s" and "newparent = ROOT_INO \<or> hm_get (fs_files s) newparent \<noteq> None"
    and "bt_get parent (utf8_lossy os_name) (fs_index s) = Some v"
    and "bt_get newparent (utf8_lossy os_newname) (fs_index s) = Some u" and "v_ino u \<noteq> v_ino v"
  shows "\<exists>s' f f'. vex_rename w parent os_name newparent os_newname s = Some (ReplyOk, s')
    \<and> (\<forall>p n x. bt_get p n (fs_index s') = Some x \<longrightarrow> v_ino x \<noteq> v_ino u)
    \<and> hm_get (fs_files s) (v_ino u) = Some f \<and> hm_get (fs_files s') (v_ino u) = Some f' \<and> file_meta f' = file_meta f"
proof -
  have nm: "names s parent (utf8_lossy os_name) = Some v" "names s newparent (utf8_lossy os_newname) = Some u"
    using assms(4,5) by (simp_all add: names_def)
  from rename_effect [OF assms(1,3) nm(1), of w os_newname] obtain s' where
    s': "vex_rename w parent os_name newparent os_newname s = Some (ReplyOk, s')"
      and ren: "renamed parent (utf8_lossy os_name) newparent (utf8_lossy os_newname) v s s'"
    by (auto simp: runs_def)
  have "v_ino x \<noteq> v_ino u" if "bt_get p n (fs_index s') = Some x" for p n x
  proof -
    have "names s' p n = Some x" using that by (simp add: names_def)
    then have "x = v \<or> (\<not> (p = newparent \<and> n = utf8_lossy os_newname) \<and> names s p n = Some x)"
      using ren by (auto simp: renamed_def split: if_splits)
    with ns_inv_unique [OF assms(2) _ nm(2), of p n x] assms(6) show ?thesis by metis
  qed
  moreover obtain f where f: "hm_get (fs_files s) (v_ino u) = Some f"
    using ns_invD(1) [OF assms(2) nm(2)] by (auto simp: view_Some_iff)
  moreover have "view s' (v_ino u) = view s (v_ino u)" using ren assms(6) by (simp add: renamed_def)
  then obtain f' where "hm_get (fs_files s') (v_ino u) = Some f'" "file_meta f' = file_meta f"
    using f by (auto simp: view_def)
  ultimately show ?thesis using s' by blast
qed

theorem rename_leaks_target_witness:
  "\<exists>s'. vex_rename sample_world ROOT_INO [97] ROOT_INO [100] sample_fs = Some (ReplyOk, s')
    \<and> (\<forall>p n x. bt_get p n (fs_index s') = Some x \<longrightarrow> v_ino x \<noteq> 3) \<and> hm_get (fs_files s') 3 \<noteq> None"
proof -
  have get: "bt_get ROOT_INO (utf8_lossy [97]) (fs_index sample_fs) = Some \<lparr>v_ino = 2, v_size = 0, v_is_dir = False, v_disk_index = 0\<rparr>"
    "bt_get ROOT_INO (utf8_lossy [100]) (fs_index sample_fs) = Some \<lparr>v_ino = 3, v_size = 0, v_is_dir = True, v_disk_index = 1\<rparr>"
    using sample_names [of ROOT_INO "[97]"] sample_names [of ROOT_INO "[100]"] by (simp_all add: names_def)
  have "v_ino \<lparr>v_ino = 3, v_size = 0, v_is_dir = True, v_disk_index = 1\<rparr> \<noteq> v_ino \<lparr>v_ino = 2, v_size = 0, v_is_dir = False, v_disk_index = 0\<rparr>"
    by simp
  from rename_leaks_target [OF sample_safe sample_ns _ get this, of sample_world] show ?thesis by fastforce
qed



lemma add_entries_pages:
  "length buf \<le> k \<Longrightarrow> add_entries (\<lambda>b _. k \<le> length b) buf es
    = buf @ take (k - length buf) (map (\<lambda>(i, ino, kind, name). (ino, i + 1, kind, name)) es)"
proof (induction es arbitrary: buf)
  case (Cons e es)
  obtain i ino kind name where e: "e = (i, ino, kind, name)" by (cases e) auto
  show ?case
  proof (cases "k \<le> length buf")
    case False
    then have "length (buf @ [(ino, i + 1, kind, name)]) \<le> k" by simp
    from Cons.IH [OF this] False e show ?thesis by (simp add: take_Cons')
  qed (use e in simp)
qed simp

text \<open>Reading a directory page by page misses and repeats nothing: with a buffer of \<open>k\<close> entries, a call
  returns the next \<open>k\<close> entries from the given offset, each with the offset of its successor.\<close>

theorem readdir_pages:
  "vex_readdir (\<lambda>buf _. k \<le> length buf) ino off s
    = Some (ReplyDirectory (take k (drop (unat off)
        (map (\<lambda>(i, j, kind, name). (j, i + 1, kind, name)) (enumerate 0 (dir_entries ino s))))), s)"
  by (simp add: vex_readdir_def add_entries_pages drop_map)

section \<open>Placement of data\<close>

lemma write_file_data_keeps_free_list:
  "ignore_error (write_file_data crc off data d) = Some d' \<Longrightarrow> dm_free_list d' = dm_free_list d"
proof -
  have ck: "dm_free_list (checkpoint crc d) = dm_free_list d" for d
    by (simp add: checkpoint_def split: prod.splits)
  assume "ignore_error (write_file_data crc off data d) = Some d'"
  then show ?thesis
    by (auto simp: write_file_data_def ignore_error_def Let_def ck
        split: prod.splits sum.splits disk_error.splits if_splits)
qed

lemma write_inode_keeps_free_list:
  "ignore_error (dm_write_inode crc i n d) = Some d' \<Longrightarrow> dm_free_list d' = dm_free_list d"
proof -
  have ck: "dm_free_list (checkpoint crc d) = dm_free_list d" for d
    by (simp add: checkpoint_def split: prod.splits)
  assume "ignore_error (dm_write_inode crc i n d) = Some d'"
  then show ?thesis
    by (auto simp: dm_write_inode_def ignore_error_def Let_def ck
        split: prod.splits sum.splits disk_error.splits if_splits option.splits)
qed

lemma flush_keeps_free_list: "dm_free_list (dm_flush crc d) = dm_free_list d"
  by (simp add: dm_flush_def write_superblock_def Let_def)

lemma fl_free_alloc_same:
  assumes "off \<noteq> 0" and "len \<noteq> 0"
  shows "fl_alloc len (fl_free off len []) = (Some off, [])"
  using assms by (simp add: fl_free_def merge_adjacent_def fl_alloc_def extent_new_def min_by_key_def remove_nth_def
      MAX_PERSISTED_EXTENTS_def Let_def)

lemma DATA_OFFSET_nonzero: "(of_nat DATA_OFFSET :: u64) \<noteq> 0"
  by (simp add: DATA_OFFSET_value)

text \<open>With an empty free list, persisting a file of the size just recorded reuses the very extent it frees.\<close>

lemma persist_in_place:
  assumes "vex_safe s" and "i < MAX_FILES" and "dm_free_list (fs_disk s) = []" and "hm_get (fs_files s) ino = Some f"
    and "vf_data_offset f \<noteq> 0" and "fa_size (vf_attr f) = of_nat (length data)" and "data \<noteq> []" and "length data < 512"
  shows "runs (persist_to_disk w ino name data i s)
    (\<lambda>s'. vex_safe s' \<and> dm_free_list (fs_disk s') = [] \<and> (\<forall>j. hm_get (fs_files s') j = hm_get (fs_files s) j))"
proof -
  let ?off = "vf_data_offset f"
  have len: "(of_nat (length data) :: u64) \<noteq> 0" "\<not> 512 \<le> length data"
    using assms(7,8) unat_of_nat [where 'a = 64, of "length data"] by (auto simp: unat_eq_0 [symmetric])
  then have pos: "0 < ?off \<and> 0 < fa_size (vf_attr f)" using assms(5,6) by (simp add: word_gt_0)
  have out: "data_to_write w name data = data" using len(2) by (simp add: data_to_write_def)
  define disk0 where "disk0 = free_data ?off (of_nat (length data)) (fs_disk s)"
  have "fl_alloc (of_nat (length data)) (dm_free_list disk0) = (Some ?off, [])"
    unfolding disk0_def free_data_def by (simp add: assms(3) fl_free_alloc_same [OF assms(5) len(1)])
  then have alloc: "alloc_data (length data) disk0 = (?off, disk0\<lparr>dm_free_list := []\<rparr>)" by (simp add: alloc_data_def)
  let ?disk1 = "disk0\<lparr>dm_free_list := []\<rparr>"
  have d1: "dir_length ?disk1" using vex_safeD(5) [OF assms(1)] by (simp add: disk0_def free_data_def dir_length_def)
  obtain s' where s': "persist_to_disk w ino name data i s = Some s'" "vex_safe s'"
    using persist_moved [OF assms(1,2), of w ino name data] by (auto simp: runs_def moved_def)
  then obtain d2 d3 where d: "ignore_error (write_file_data (w_crc w) ?off data ?disk1) = Some d2"
    "dm_free_list d3 = dm_free_list d2" "s' = update_file ino (\<lambda>f. f\<lparr>vf_data_offset := ?off\<rparr>) (s\<lparr>fs_disk := dm_flush (w_crc w) d3\<rparr>)"
    using assms(4,6,7) pos alloc
    by (auto simp: persist_to_disk_def out disk0_def [symmetric] Let_def bind_eq_Some_conv dest: write_inode_keeps_free_list)
  have "dm_free_list (fs_disk s') = []"
    using write_file_data_keeps_free_list [OF d(1)] d(2,3) by (simp add: flush_keeps_free_list)
  moreover have "hm_get (fs_files s') j = hm_get (fs_files s) j" for j
    using d(3) assms(4) by simp
  ultimately show ?thesis using s' by (simp add: runs_def)
qed


text \<open>Two files as \<open>create\<close> and a short \<open>write\<close> leave them.\<close>

definition two_files :: vexfs where
  "two_files = update_file 3 (\<lambda>f. f\<lparr>vf_attr := make_attr 3 1 False\<rparr>) (update_file 2 (\<lambda>f. f\<lparr>vf_attr := make_attr 2 2 False\<rparr>)
     (add_file ROOT_INO [98] False 1 None (add_file ROOT_INO [97] False 0 (Some 100) (vex_new sample_disk))))"

lemma two_files_safe: "vex_safe two_files"
proof -
  have "added ROOT_INO [98] False 1 None (add_file ROOT_INO [97] False 0 (Some 100) (vex_new sample_disk))
      (add_file ROOT_INO [98] False 1 None (add_file ROOT_INO [97] False 0 (Some 100) (vex_new sample_disk)))"
    using sample_added(1) unfolding added_def [of ROOT_INO "[97]"]
    by (intro add_file_added) (simp_all add: MAX_FILES_def MAX_INODES_TOTAL_def INODES_PER_BLOCK_def MAX_INODE_BLOCKS_def)
  then show ?thesis unfolding two_files_def by (intro safe_update_file) (simp_all add: added_def)
qed


section \<open>Evictions left over from mounting\<close>

definition clean :: "u64 \<Rightarrow> vexfs \<Rightarrow> bool" where
  "clean ino s \<longleftrightarrow> (\<forall>f. hm_get (fs_files s) ino = Some f \<longrightarrow> \<not> vf_dirty f)"

lemma clean_updates [simp]:
  "clean ino (s\<lparr>fs_write_buffer := b\<rparr>) = clean ino s" "clean ino (s\<lparr>fs_cache := c\<rparr>) = clean ino s"
  "clean ino (s\<lparr>fs_disk := d\<rparr>) = clean ino s" "clean ino (send e s) = clean ino s"
  by (simp_all add: clean_def send_def)

lemma persist_clean:
  assumes "persist_to_disk w i name data k s = Some s'"
  shows "clean ino s' = clean ino s" and "fs_cache s' = fs_cache s"
  using assms by (auto simp: persist_to_disk_def Let_def bind_eq_Some_conv clean_def split: prod.splits if_splits)

lemma undirty_clean: "clean ino (update_file ino (\<lambda>f. f\<lparr>vf_dirty := False\<rparr>) s)"
  by (auto simp: clean_def)

lemma undirty_keeps_clean: "clean ino s \<Longrightarrow> clean ino (update_file j (\<lambda>f. f\<lparr>vf_dirty := False\<rparr>) s)"
  by (auto simp: clean_def)

lemma flush_evicted_clean:
  assumes "flush_evicted w i s = Some s'"
  shows "clean i s'" and "clean ino s \<Longrightarrow> clean ino s'"
proof -
  have "(\<not> (\<exists>f. hm_get (fs_files s) i = Some f \<and> vf_dirty f) \<and> s' = s)
      \<or> (\<exists>t. s' = update_file i (\<lambda>f. f\<lparr>vf_dirty := False\<rparr>) t \<and> clean ino t = clean ino s)"
    using assms
    by (auto simp: flush_evicted_def Let_def bind_eq_Some_conv persist_clean split: option.splits if_splits prod.splits sum.splits)
  then show "clean i s'" and "clean ino s \<Longrightarrow> clean ino s'"
    using undirty_clean undirty_keeps_clean by (auto simp: clean_def [of i s])
qed

lemma flush_evictions_clean:
  "flush_evictions w is s = Some s' \<Longrightarrow> ino \<in> set is \<or> clean ino s \<Longrightarrow> clean ino s'"
proof (induction "is" arbitrary: s)
  case (Cons i "is")
  then obtain t where "flush_evicted w i s = Some t" "flush_evictions w is t = Some s'"
    by (auto simp: bind_eq_Some_conv)
  with Cons flush_evicted_clean show ?case by (metis set_ConsD)
qed simp

lemma get_keeps_evicted: "arc_get k c = (r, c') \<Longrightarrow> arc_evicted c' = arc_evicted c"
  by (auto simp: arc_get_def arc_promote_def Let_def split: if_splits prod.splits)

lemma insert_keeps_evicted:
  assumes "cache_inv c" and "arc_insert k v c = Some c'"
  shows "set (arc_evicted c) \<subseteq> set (arc_evicted c')"
proof (cases "hm_get (arc_data c) k")
  case None
  obtain d ks where "arc_insert k v c = Some d" "cache_inv d" "arc_max_bytes d = arc_max_bytes c"
    "arc_evicted d = arc_evicted c @ ks"
    by (rule insert_absent [OF assms(1) None, of v])
  with assms(2) show ?thesis by simp
next
  case (Some e)
  obtain d where "arc_insert k v c = Some d" "cache_inv d" "arc_evicted d = arc_evicted c"
    by (rule insert_present [OF assms(1) Some, of v])
  with assms(2) show ?thesis by simp
qed

lemma pre_eviction_keeps_evicted:
  "pre_eviction_flush w s = Some s' \<Longrightarrow> arc_evicted (fs_cache s') = arc_evicted (fs_cache s)"
  by (auto simp: pre_eviction_flush_def Let_def bind_eq_Some_conv persist_clean get_keeps_evicted
      split: option.splits if_splits prod.splits)

lemma cache_insert_clean:
  assumes "vex_safe s" and "ino \<in> set (arc_evicted (fs_cache s))" and "cache_insert w k data s = Some s'"
  shows "clean ino s'"
proof -
  from assms(3) obtain s1 c where s1: "pre_eviction_flush w s = Some s1" "arc_insert k data (fs_cache s1) = Some c"
    "flush_cache_evictions w (s1\<lparr>fs_cache := c\<rparr>) = Some s'"
    by (auto simp: cache_insert_def bind_eq_Some_conv)
  have "vex_safe s1" using runsD [OF pre_eviction_flush_moved [OF assms(1)] s1(1)] by (rule moved_safe)
  from insert_keeps_evicted [OF vex_safeD(3) [OF this] s1(2)] pre_eviction_keeps_evicted [OF s1(1)] assms(2)
  have "ino \<in> set (arc_evicted c)" by auto
  with s1(3) show ?thesis
    by (auto simp: flush_cache_evictions_def arc_drain_evicted_def intro: flush_evictions_clean)
qed

text \<open>C16: When the cache still lists a file as evicted, as mounting an image larger than the cache leaves it, a
  write to that file is acknowledged but marked clean by the eviction handling, and the \<open>fsync\<close> that
  follows does nothing: the new data reaches neither the write buffer nor the disk.\<close>

theorem stale_eviction_drops_write:
  assumes "vex_safe s" and "hm_get (fs_files s) ino = Some f" and "\<not> is_virtual ino"
    and "unat off + length data \<le> VEC_MAX" and "ino \<in> set (arc_evicted (fs_cache s))"
  shows "\<exists>s1. vex_write w ino off data s = Some (ReplyWritten (of_nat (length data)), s1)
    \<and> vex_fsync w' ino s1 = Some (ReplyOk, s1)"
proof -
  from assms(3) have ne: "ino \<noteq> SEARCH_INO" "ino \<noteq> ASK_INO" by (simp_all add: is_virtual_def)
  obtain s1 where s1: "vex_write w ino off data s = Some (ReplyWritten (of_nat (length data)), s1)"
    using write_effect [OF assms(1,2) ne assms(4), of w] by (auto simp: runs_def)
  obtain r c where g: "arc_get ino (fs_cache s) = (r, c)" by fastforce
  have "clean ino s1"
  proof -
    let ?old = "case r of Some d \<Rightarrow> d | None \<Rightarrow> []"
    let ?snap = "off = 0 \<and> ?old \<noteq> []"
    let ?new = "splice_at (unat off) data ?old"
    let ?g = "\<lambda>f. f\<lparr>vf_attr := (vf_attr f)\<lparr>fa_size := of_nat (length ?new), fa_mtime := w_now w\<rparr>, vf_dirty := True\<rparr>"
    from s1 assms(2,4) ne g obtain t u v where
      t: "(if ?snap then take_snapshot w ino (vf_name f) ?old (vf_data_offset f) (s\<lparr>fs_cache := c\<rparr>) else Some (s\<lparr>fs_cache := c\<rparr>)) = Some t"
      and u: "(if ?snap then maybe_gc_snapshots (update_file ino ?g t) else Some (update_file ino ?g t)) = Some u"
      and v: "cache_insert w ino ?new u = Some v" and fin: "s1 = send (EvWrite ino (vf_name f) data) v"
      unfolding vex_write_def by (auto simp only: Let_def prod.case option.case if_False bind_eq_Some_conv
          not_less [symmetric] option.inject prod.inject)
    have s0: "vex_safe (s\<lparr>fs_cache := c\<rparr>)" by (rule moved_safe [OF get_moved [OF assms(1) g]])
    have "snapped (s\<lparr>fs_cache := c\<rparr>) t"
      using t s0 runsD [OF take_snapshot_snapped [OF s0]] by (auto simp: snapped_def split: if_splits)
    note ft = snapped_fields [OF this]
    have su: "vex_safe (update_file ino ?g t)" by (rule safe_update_file [OF ft(5)]) simp
    have "snapped (update_file ino ?g t) u"
      using u su runsD [OF maybe_gc_snapped [OF su]] by (auto simp: snapped_def split: if_splits)
    note fu = snapped_fields [OF this]
    have "ino \<in> set (arc_evicted (fs_cache u))"
      using fu(3) ft(3) get_keeps_evicted [OF g] assms(5) by simp
    from cache_insert_clean [OF fu(5) this v] fin show ?thesis by simp
  qed
  then have "flush_file w' ino s1 = Some s1"
    by (auto simp: flush_file_def clean_def split: option.splits)
  with s1 show ?thesis by (simp add: vex_fsync_def)
qed

theorem stale_eviction_drops_write_witness:
  "\<exists>s1. vex_write sample_world 2 0 [1, 2] (sample_fs\<lparr>fs_cache := (arc_new 10)\<lparr>arc_evicted := [2]\<rparr>\<rparr>)
      = Some (ReplyWritten (of_nat (length [1 :: u8, 2])), s1) \<and> vex_fsync sample_world 2 s1 = Some (ReplyOk, s1)"
proof -
  let ?s = "sample_fs\<lparr>fs_cache := (arc_new 10)\<lparr>arc_evicted := [2]\<rparr>\<rparr>"
  have safe: "vex_safe ?s" by (rule safe_cache [OF sample_safe]) (simp add: arc_new_inv)
  obtain f where f: "hm_get (fs_files ?s) 2 = Some f" using sample_file_2 by auto
  show ?thesis by (rule stale_eviction_drops_write [OF safe f not_virtual_2]) (simp_all add: VEC_MAX_def)
qed

end
