(* ===== verification/Fsck.thy ===== *)
theory Fsck
  imports Disk_Manager Snapshots
begin

text \<open>
  The maintenance commands of \<open>src/bin/vexfs.rs\<close> that work on an image directly: \<open>cmd_mkfs\<close> and
  \<open>cmd_fsck\<close>. A run returns its exit code, what it reported and the image it leaves. Reported lines are
  values that carry what the line prints; the frames and banners around them are not modelled.
\<close>

section \<open>Making a file system\<close>

text \<open>With a size the image is created and filled with zeros; without one it must exist. \<open>None\<close> is \<open>die\<close>.\<close>

definition cmd_mkfs :: "(bytes \<Rightarrow> u32) \<Rightarrow> u64 \<Rightarrow> u64 option \<Rightarrow> image option \<Rightarrow> image option" where
  "cmd_mkfs crc now size_mb existing =
     (case (case size_mb of
              Some mb \<Rightarrow> (let n = mb * 1024 * 1024 in Some (n, blank_file (unat n)))
            | None \<Rightarrow> (case existing of None \<Rightarrow> None | Some f \<Rightarrow> Some (of_nat (flen f), f))) of
        None \<Rightarrow> None
      | Some (size_bytes, f) \<Rightarrow> Some (dm_file (dm_flush crc (dm_format crc now size_bytes f))))"

section \<open>Checking\<close>

datatype fsck_error =
    ReadError nat disk_error
  | DuplicateName rstring u64 nat nat
  | DuplicateInode u64 nat nat
  | OffsetBeforeData u64 rstring u64
  | BeyondDisk u64 rstring u64 u64
  | WrongMagic u64
  | NextOffsetBeforeData u64

datatype fsck_warning =
    EmptyName nat
  | ReservedInode u64 rstring
  | StaleFreeList u64 u64
  | UnusualBlockSize u32
  | SnapshotEmptyName nat
  | SnapshotReadError nat disk_error

record fsck_state =
  fk_valid_inodes :: nat
  fk_corrupt_inodes :: nat
  fk_orphaned_inodes :: nat
  fk_duplicate_names :: nat
  fk_duplicate_inos :: nat
  fk_bad_data_offsets :: nat
  fk_valid_snaps :: nat
  fk_corrupt_snaps :: nat
  fk_errors :: "fsck_error list"
  fk_warnings :: "fsck_warning list"
  fk_seen_names :: "(rstring, nat) hmap"
  fk_seen_inos :: "(u64, nat) hmap"
  fk_used_extents :: "(u64 \<times> u64) list"

definition fsck_start :: fsck_state where
  "fsck_start = \<lparr>fk_valid_inodes = 0, fk_corrupt_inodes = 0, fk_orphaned_inodes = 0, fk_duplicate_names = 0,
     fk_duplicate_inos = 0, fk_bad_data_offsets = 0, fk_valid_snaps = 0, fk_corrupt_snaps = 0, fk_errors = [],
     fk_warnings = [], fk_seen_names = [], fk_seen_inos = [], fk_used_extents = []\<rparr>"

definition report_error :: "fsck_error \<Rightarrow> fsck_state \<Rightarrow> fsck_state" where
  "report_error e st = st\<lparr>fk_errors := fk_errors st @ [e]\<rparr>"

definition report_warning :: "fsck_warning \<Rightarrow> fsck_state \<Rightarrow> fsck_state" where
  "report_warning w st = st\<lparr>fk_warnings := fk_warnings st @ [w]\<rparr>"

subsection \<open>Pass 1: the inode table\<close>

definition scoped_key :: "inode_raw \<Rightarrow> rstring" where
  "scoped_key n = decimal (unat (inode_get_parent_ino n)) @ ascii '':'' @ inode_get_name n"

definition check_name :: "nat \<Rightarrow> inode_raw \<Rightarrow> fsck_state \<Rightarrow> fsck_state" where
  "check_name i n st =
     (let key = scoped_key n; prev = hm_get (fk_seen_names st) key;
          st = st\<lparr>fk_seen_names := hm_insert key i (fk_seen_names st)\<rparr>
      in case prev of
           Some p \<Rightarrow> report_error (DuplicateName (inode_get_name n) (inode_get_parent_ino n) p i)
                       (st\<lparr>fk_duplicate_names := fk_duplicate_names st + 1\<rparr>)
         | None \<Rightarrow> st)"

definition check_ino :: "nat \<Rightarrow> inode_raw \<Rightarrow> fsck_state \<Rightarrow> fsck_state" where
  "check_ino i n st =
     (let prev = hm_get (fk_seen_inos st) (in_ino n);
          st = st\<lparr>fk_seen_inos := hm_insert (in_ino n) i (fk_seen_inos st)\<rparr>
      in case prev of
           Some p \<Rightarrow> report_error (DuplicateInode (in_ino n) p i)
                       (st\<lparr>fk_duplicate_inos := fk_duplicate_inos st + 1\<rparr>)
         | None \<Rightarrow> st)"

definition check_extent :: "u64 \<Rightarrow> inode_raw \<Rightarrow> fsck_state \<Rightarrow> fsck_state" where
  "check_extent disk_size n st =
     (if 0 < in_size n
      then (let data_end = in_data_offset n + in_size n in
            if in_data_offset n < of_nat DATA_OFFSET
            then report_error (OffsetBeforeData (in_ino n) (inode_get_name n) (in_data_offset n))
                   (st\<lparr>fk_bad_data_offsets := fk_bad_data_offsets st + 1\<rparr>)
            else if disk_size < data_end
            then report_error (BeyondDisk (in_ino n) (inode_get_name n) data_end disk_size)
                   (st\<lparr>fk_bad_data_offsets := fk_bad_data_offsets st + 1\<rparr>)
            else st\<lparr>fk_used_extents := fk_used_extents st @ [(in_data_offset n, in_size n)]\<rparr>)
      else st)"

definition check_reserved :: "inode_raw \<Rightarrow> fsck_state \<Rightarrow> fsck_state" where
  "check_reserved n st = (if in_ino n < 2 then report_warning (ReservedInode (in_ino n) (inode_get_name n)) st else st)"

definition scan_slot :: "(bytes \<Rightarrow> u32) \<Rightarrow> u64 \<Rightarrow> disk_manager \<Rightarrow> fsck_state \<Rightarrow> nat \<Rightarrow> fsck_state" where
  "scan_slot crc disk_size d st i =
     (case dm_read_inode crc i d of
        Inl e \<Rightarrow> report_error (ReadError i e) (st\<lparr>fk_corrupt_inodes := fk_corrupt_inodes st + 1\<rparr>)
      | Inr n \<Rightarrow>
          if in_is_used n = 0 then st
          else if inode_get_name n = []
          then report_warning (EmptyName i) (st\<lparr>fk_orphaned_inodes := fk_orphaned_inodes st + 1\<rparr>)
          else check_reserved n (check_extent disk_size n (check_ino i n (check_name i n
                 (st\<lparr>fk_valid_inodes := fk_valid_inodes st + 1\<rparr>)))))"

definition scan_inodes :: "(bytes \<Rightarrow> u32) \<Rightarrow> u64 \<Rightarrow> disk_manager \<Rightarrow> fsck_state" where
  "scan_inodes crc disk_size d = foldl (scan_slot crc disk_size d) fsck_start [0..<MAX_FILES]"

subsection \<open>Passes 2 to 4\<close>

text \<open>\<open>(a as i64 - b as i64).abs() > 4096\<close>: the difference wraps, and so does \<open>abs\<close> of the least \<open>i64\<close>.\<close>

definition stale_by :: "u64 \<Rightarrow> u64 \<Rightarrow> bool" where
  "stale_by a b \<longleftrightarrow> 4096 < (if sint (a - b) < 0 then sint (- (a - b)) else sint (a - b))"

definition check_free_list ::
    "(bytes \<Rightarrow> u32) \<Rightarrow> bool \<Rightarrow> u64 \<Rightarrow> disk_manager \<Rightarrow> fsck_state \<Rightarrow> fsck_state \<times> disk_manager" where
  "check_free_list crc repair disk_size d st =
     (let current_free = total_free_bytes (dm_free_list d);
          rebuilt = rebuild_from_inodes (fk_used_extents st) disk_size (of_nat DATA_OFFSET);
          expected_free = total_free_bytes rebuilt
      in if stale_by current_free expected_free
         then (report_warning (StaleFreeList current_free expected_free) st,
               if repair then dm_flush crc (d\<lparr>dm_free_list := rebuilt\<rparr>) else d)
         else (st, d))"

definition check_superblock :: "(bytes \<Rightarrow> u32) \<Rightarrow> bool \<Rightarrow> disk_manager \<Rightarrow> fsck_state \<Rightarrow> fsck_state \<times> disk_manager" where
  "check_superblock crc repair d st =
     (let sb = dm_superblock d;
          st = (if sb_magic sb \<noteq> MAGIC then report_error (WrongMagic (sb_magic sb)) st else st);
          st = (if sb_block_size sb \<noteq> 4096 then report_warning (UnusualBlockSize (sb_block_size sb)) st else st)
      in if sb_next_data_offset sb < of_nat DATA_OFFSET
         then (report_error (NextOffsetBeforeData (sb_next_data_offset sb)) st,
               if repair
               then write_superblock crc (d\<lparr>dm_superblock := sb\<lparr>sb_next_data_offset := of_nat DATA_OFFSET\<rparr>\<rparr>)
               else d)
         else (st, d))"

definition check_snapshot :: "(bytes \<Rightarrow> u32) \<Rightarrow> disk_manager \<Rightarrow> fsck_state \<Rightarrow> nat \<Rightarrow> fsck_state" where
  "check_snapshot crc d st i =
     (case read_snapshot crc i d of
        Inr snap \<Rightarrow>
          if sn_is_used snap = 1
          then (if snapshot_get_name snap = []
                then report_warning (SnapshotEmptyName i) (st\<lparr>fk_corrupt_snaps := fk_corrupt_snaps st + 1\<rparr>)
                else st\<lparr>fk_valid_snaps := fk_valid_snaps st + 1\<rparr>)
          else st
      | Inl e \<Rightarrow> report_warning (SnapshotReadError i e) (st\<lparr>fk_corrupt_snaps := fk_corrupt_snaps st + 1\<rparr>))"

definition disk_size :: "disk_manager \<Rightarrow> u64" where
  "disk_size d = sb_total_blocks (dm_superblock d) * ucast (sb_block_size (dm_superblock d))"

text \<open>The exit code, the final report and the image; an image that cannot be opened exits with 2.\<close>

definition cmd_fsck :: "(bytes \<Rightarrow> u32) \<Rightarrow> bool \<Rightarrow> image \<Rightarrow> nat \<times> fsck_state \<times> image" where
  "cmd_fsck crc repair f =
     (case dm_open crc f of
        (Inl e, f) \<Rightarrow> (2, fsck_start, f)
      | (Inr d, f) \<Rightarrow>
          (let st = scan_inodes crc (disk_size d) d;
               (st, d1) = check_free_list crc repair (disk_size d) d st;
               (st, d2) = check_superblock crc repair d1 st;
               st = foldl (check_snapshot crc d2) st [0..<256]
           in (if fk_errors st = [] then 0 else if repair then 1 else 2, st, dm_file d2)))"

section \<open>What a clean image is\<close>

text \<open>The named, used inode in a slot, and where its data must be.\<close>

definition listing :: "(bytes \<Rightarrow> u32) \<Rightarrow> disk_manager \<Rightarrow> nat \<Rightarrow> inode_raw option" where
  "listing crc d i =
     (case dm_read_inode crc i d of
        Inr n \<Rightarrow> if in_is_used n \<noteq> 0 \<and> inode_get_name n \<noteq> [] then Some n else None
      | Inl _ \<Rightarrow> None)"

definition extent_fits :: "u64 \<Rightarrow> inode_raw \<Rightarrow> bool" where
  "extent_fits sz n \<longleftrightarrow>
     in_size n = 0 \<or> of_nat DATA_OFFSET \<le> in_data_offset n \<and> in_data_offset n + in_size n \<le> sz"

definition entry_key :: "inode_raw \<Rightarrow> u64 \<times> rstring" where
  "entry_key n = (inode_get_parent_ino n, inode_get_name n)"

definition slots_consistent :: "(bytes \<Rightarrow> u32) \<Rightarrow> disk_manager \<Rightarrow> nat \<Rightarrow> bool" where
  "slots_consistent crc d k \<longleftrightarrow>
     (\<forall>i < k. \<exists>n. dm_read_inode crc i d = Inr n)
     \<and> (\<forall>i < k. \<forall>n. listing crc d i = Some n \<longrightarrow> extent_fits (disk_size d) n)
     \<and> (\<forall>j < k. \<forall>i < j. \<forall>n m. listing crc d i = Some n \<longrightarrow> listing crc d j = Some m
          \<longrightarrow> entry_key n \<noteq> entry_key m \<and> in_ino n \<noteq> in_ino m)"

definition image_consistent :: "(bytes \<Rightarrow> u32) \<Rightarrow> disk_manager \<Rightarrow> bool" where
  "image_consistent crc d \<longleftrightarrow> slots_consistent crc d MAX_FILES
     \<and> sb_magic (dm_superblock d) = MAGIC \<and> of_nat DATA_OFFSET \<le> sb_next_data_offset (dm_superblock d)"

text \<open>The key of the name map separates parents and names.\<close>

lemma unat_digit: "n < 10 \<Longrightarrow> unat (of_nat (48 + n) :: u8) = 48 + n"
  by (simp add: unat_of_nat del: of_nat_add)

lemma decimal_digits: "58 \<notin> set (decimal n)"
proof (induction n rule: decimal.induct)
  case (1 n)
  have "of_nat (48 + d) \<noteq> (58 :: u8)" if "d < 10" for d
  proof
    assume "of_nat (48 + d) = (58 :: u8)"
    then have "unat (of_nat (48 + d) :: u8) = 58" by simp
    with that show False by (simp add: unat_digit del: of_nat_add)
  qed
  with 1 show ?case by (subst decimal.simps) (auto simp del: of_nat_add)
qed

lemma decimal_value: "foldl (\<lambda>a c. 10 * a + (unat c - 48)) 0 (decimal n) = n"
proof (induction n rule: decimal.induct)
  case (1 n)
  then show ?case by (subst decimal.simps) (auto simp: unat_digit simp del: of_nat_add)
qed

lemma decimal_inject: "decimal m = decimal n \<longleftrightarrow> m = n"
  by (metis decimal_value)

lemma scoped_key_iff: "scoped_key n = scoped_key m \<longleftrightarrow> entry_key n = entry_key m"
proof -
  have "xs @ 58 # ys = xs' @ 58 # ys' \<longleftrightarrow> xs = xs' \<and> ys = ys'" if "58 \<notin> set xs" "58 \<notin> set xs'"
    for xs xs' ys ys' :: rstring
    using that
  proof (induction xs arbitrary: xs')
    case Nil
    then show ?case by (cases xs') auto
  next
    case (Cons x xs)
    then show ?case by (cases xs') auto
  qed
  then show ?thesis
    by (auto simp: scoped_key_def entry_key_def ascii_def decimal_digits decimal_inject
        word_unat_eq_iff)
qed

text \<open>What the scan has recorded after \<open>k\<close> slots.\<close>

definition extent_in :: "u64 \<Rightarrow> inode_raw option \<Rightarrow> (u64 \<times> u64) list" where
  "extent_in sz l =
     (case l of Some n \<Rightarrow> if in_size n \<noteq> 0 \<and> extent_fits sz n then [(in_data_offset n, in_size n)] else []
      | None \<Rightarrow> [])"

definition scanned :: "(bytes \<Rightarrow> u32) \<Rightarrow> disk_manager \<Rightarrow> nat \<Rightarrow> fsck_state \<Rightarrow> bool" where
  "scanned crc d k st \<longleftrightarrow>
     (fk_errors st = [] \<longleftrightarrow> slots_consistent crc d k)
     \<and> (\<forall>key. hm_get (fk_seen_names st) key \<noteq> None \<longleftrightarrow> (\<exists>i < k. \<exists>n. listing crc d i = Some n \<and> scoped_key n = key))
     \<and> (\<forall>ino. hm_get (fk_seen_inos st) ino \<noteq> None \<longleftrightarrow> (\<exists>i < k. \<exists>n. listing crc d i = Some n \<and> in_ino n = ino))
     \<and> fk_used_extents st = concat (map (\<lambda>i. extent_in (disk_size d) (listing crc d i)) [0..<k])"

lemmas fsck_simps = report_error_def report_warning_def check_name_def check_ino_def check_extent_def check_reserved_def

lemma slots_consistent_Suc:
  "slots_consistent crc d (Suc k) \<longleftrightarrow> slots_consistent crc d k
     \<and> (\<exists>n. dm_read_inode crc k d = Inr n) \<and> (\<forall>n. listing crc d k = Some n \<longrightarrow> extent_fits (disk_size d) n
          \<and> (\<forall>i < k. \<forall>m. listing crc d i = Some m \<longrightarrow> entry_key m \<noteq> entry_key n \<and> in_ino m \<noteq> in_ino n))"
  by (auto simp: slots_consistent_def less_Suc_eq)

lemma scan_slot_scanned:
  assumes "scanned crc d k st"
  shows "scanned crc d (Suc k) (scan_slot crc (disk_size d) d st k)"
proof (cases "listing crc d k")
  case None
  have ex: "(\<exists>i < Suc k. \<exists>n. listing crc d i = Some n \<and> P n) \<longleftrightarrow> (\<exists>i < k. \<exists>n. listing crc d i = Some n \<and> P n)" for P
    using None by (auto simp: less_Suc_eq)
  show ?thesis
    using assms None unfolding scanned_def ex slots_consistent_Suc
    by (auto simp: scan_slot_def listing_def fsck_simps extent_in_def split: sum.splits if_splits)
next
  case (Some n)
  have ex: "(\<exists>i < Suc k. \<exists>n. listing crc d i = Some n \<and> P n)
      \<longleftrightarrow> (\<exists>i < k. \<exists>n. listing crc d i = Some n \<and> P n) \<or> P n" for P
    using Some by (auto simp: less_Suc_eq)
  have names: "hm_get (fk_seen_names st) (scoped_key n) = None \<longleftrightarrow> (\<forall>i < k. \<forall>m. listing crc d i = Some m \<longrightarrow> entry_key m \<noteq> entry_key n)"
    and inos: "hm_get (fk_seen_inos st) (in_ino n) = None \<longleftrightarrow> (\<forall>i < k. \<forall>m. listing crc d i = Some m \<longrightarrow> in_ino m \<noteq> in_ino n)"
    using assms unfolding scanned_def scoped_key_iff [symmetric] by blast+
  have read: "dm_read_inode crc k d = Inr n" "in_is_used n \<noteq> 0" "inode_get_name n \<noteq> []"
    using Some by (auto simp: listing_def split: sum.splits if_splits)
  let ?st = "scan_slot crc (disk_size d) d st k"
  have st: "?st = check_reserved n (check_extent (disk_size d) n (check_ino k n (check_name k n
                 (st\<lparr>fk_valid_inodes := fk_valid_inodes st + 1\<rparr>))))"
    using read by (simp add: scan_slot_def)
  have "fk_errors ?st = [] \<longleftrightarrow> fk_errors st = [] \<and> extent_fits (disk_size d) n
      \<and> hm_get (fk_seen_names st) (scoped_key n) = None \<and> hm_get (fk_seen_inos st) (in_ino n) = None"
    unfolding st by (auto simp: fsck_simps extent_fits_def Let_def not_less word_neq_0_conv split: option.splits)
  moreover have "fk_seen_names ?st = hm_insert (scoped_key n) k (fk_seen_names st)"
    "fk_seen_inos ?st = hm_insert (in_ino n) k (fk_seen_inos st)"
    "fk_used_extents ?st = fk_used_extents st @ extent_in (disk_size d) (Some n)"
    unfolding st by (auto simp: fsck_simps extent_fits_def extent_in_def Let_def not_less word_neq_0_conv split: option.splits)
  ultimately show ?thesis
    using assms Some read unfolding scanned_def ex slots_consistent_Suc names inos
    by (auto simp: hm_get_insert)
qed

lemma scan_inodes_scanned: "scanned crc d MAX_FILES (scan_inodes crc (disk_size d) d)"
proof -
  have "scanned crc d k (foldl (scan_slot crc (disk_size d) d) fsck_start [0..<k])" for k
  proof (induction k)
    case 0
    show ?case by (simp add: scanned_def fsck_start_def slots_consistent_def)
  next
    case (Suc k)
    from scan_slot_scanned [OF this] show ?case by simp
  qed
  then show ?thesis by (simp add: scan_inodes_def)
qed

lemma check_snapshots_errors: "fk_errors (foldl (check_snapshot crc d) st is) = fk_errors st"
proof (induction "is" arbitrary: st)
  case (Cons i "is")
  have "fk_errors (check_snapshot crc d st i) = fk_errors st"
    by (simp add: check_snapshot_def report_warning_def split: sum.splits)
  with Cons show ?case by simp
qed simp

lemma check_free_list_fields:
  assumes "check_free_list crc repair sz d st = (st', d')"
  shows "fk_errors st' = fk_errors st" and "dm_superblock d' = dm_superblock d"
  using assms by (auto simp: check_free_list_def report_warning_def dm_flush_def write_superblock_def Let_def
      split: if_splits)

lemma check_superblock_errors:
  assumes "check_superblock crc repair d st = (st', d')"
  shows "fk_errors st' = [] \<longleftrightarrow> fk_errors st = [] \<and> sb_magic (dm_superblock d) = MAGIC
    \<and> of_nat DATA_OFFSET \<le> sb_next_data_offset (dm_superblock d)"
  using assms by (auto simp: check_superblock_def report_warning_def report_error_def Let_def not_less split: if_splits)

lemma fsck_code:
  "fst (cmd_fsck crc repair f) = 0 \<longleftrightarrow> (\<exists>d g. dm_open crc f = (Inr d, g) \<and> image_consistent crc d)"
proof (cases "dm_open crc f")
  case (Pair r g)
  show ?thesis
  proof (cases r)
    case (Inl e)
    then show ?thesis using Pair by (simp add: cmd_fsck_def)
  next
    case (Inr d)
    obtain st1 d1 where one: "check_free_list crc repair (disk_size d) d (scan_inodes crc (disk_size d) d) = (st1, d1)"
      by fastforce
    obtain st2 d2 where two: "check_superblock crc repair d1 st1 = (st2, d2)" by fastforce
    have "fst (cmd_fsck crc repair f) = 0 \<longleftrightarrow> fk_errors st2 = []"
      using Pair Inr one two
      by (simp add: cmd_fsck_def Let_def check_snapshots_errors)
    also have "\<dots> \<longleftrightarrow> image_consistent crc d"
      using scan_inodes_scanned [of crc d] check_superblock_errors [OF two] check_free_list_fields [OF one]
      by (auto simp: scanned_def image_consistent_def)
    finally show ?thesis using Pair Inr by simp
  qed
qed

section \<open>A new image\<close>

lemma dm_format_fields:
  "dm_superblock (dm_format crc now sz f) =
     \<lparr>sb_magic = MAGIC, sb_version = 1, sb_block_size = 4096, sb_total_blocks = sz div 4096,
      sb_free_blocks = sz div 4096, sb_inode_count = 0, sb_next_data_offset = of_nat DATA_OFFSET,
      sb_created_at = now, sb_crc32 = 0\<rparr>"
  "4096 \<le> i \<Longrightarrow> i < JOURNAL_OFFSET \<Longrightarrow> fget (dm_file (dm_format crc now sz f)) i = 0"
proof -
  let ?t = "it_new (of_nat INODE_TABLE_OFFSET) (of_nat DATA_OFFSET)"
  let ?f = "write_bytes (write_bytes (write_bytes f SUPERBLOCK_OFFSET (superblock_to_bytes crc
        \<lparr>sb_magic = MAGIC, sb_version = 1, sb_block_size = of_nat BLOCK_SIZE,
            sb_total_blocks = sz div of_nat BLOCK_SIZE, sb_free_blocks = sz div of_nat BLOCK_SIZE, sb_inode_count = 0,
            sb_next_data_offset = of_nat DATA_OFFSET, sb_created_at = now, sb_crc32 = 0\<rparr>))
        INODE_TABLE_OFFSET (zeros (INODES_PER_BLOCK * INODE_SIZE)))
        SNAPSHOT_TABLE_OFFSET (zeros (MAX_SNAPSHOT_SLOTS * SNAPSHOT_RECORD_SIZE))"
  obtain j g where j: "journal_format crc ?f = (j, g)" by fastforce
  have d: "dm_file (dm_format crc now sz f) = save_directory ?t g"
    using j by (simp add: dm_format_def Let_def)
  show "dm_superblock (dm_format crc now sz f) =
     \<lparr>sb_magic = MAGIC, sb_version = 1, sb_block_size = 4096, sb_total_blocks = sz div 4096,
      sb_free_blocks = sz div 4096, sb_inode_count = 0, sb_next_data_offset = of_nat DATA_OFFSET,
      sb_created_at = now, sb_crc32 = 0\<rparr>"
    using j by (simp add: dm_format_def Let_def BLOCK_SIZE_def)
  assume i: "4096 \<le> i" "i < JOURNAL_OFFSET"
  have blocks: "length (it_blocks ?t) = MAX_INODE_BLOCKS" by (simp add: it_new_def)
  have "fget (save_directory ?t g) i = fget g i"
    using i by (simp add: save_directory_fwrite [OF blocks] fget_fwrite length_dir_bytes [OF blocks] INODE_BLOCK_DIR_OFFSET_def)
  also have "\<dots> = fget ?f i"
    using i journal_format_holds(2) [OF j] by (simp add: agree_outside_def)
  also have "\<dots> = 0"
    using i by (auto simp: write_bytes_def fget_fwrite disk_layout_defs inode_layout_defs journal_layout_defs nth_zeros)
  finally show "fget (dm_file (dm_format crc now sz f)) i = 0" using d by simp
qed

text \<open>On an image with one zeroed inode block every slot reads as unused.\<close>

lemma zero_slot_unused:
  assumes "it_inv (dm_inode_table d) (dm_file d)" and "it_blocks (dm_inode_table d) = 4096 # replicate 63 0"
    and "\<And>k. i < 1024 \<Longrightarrow> 4096 + i * 256 \<le> k \<Longrightarrow> k < 4096 + i * 256 + 256 \<Longrightarrow> fget (dm_file d) k = 0" and "i < MAX_FILES"
  shows "\<exists>n. dm_read_inode crc i d = Inr n \<and> in_is_used n = 0"
proof (cases "i < 1024")
  case True
  have cap: "it_capacity (dm_inode_table d) = 1024"
    by (simp add: it_capacity_def block_count_def assms(2) INODES_PER_BLOCK_def)
  have pos: "slot_pos (dm_inode_table d) i = 4096 + i * 256"
    using True by (simp add: slot_pos_def block_start_def assms(2) block_for_def slot_in_block_def inode_layout_defs)
  have "map (fget (dm_file d)) [4096 + i * 256 ..< 4096 + i * 256 + INODE_BYTES] = zeros INODE_BYTES"
    using assms(3) True by (intro nth_equalityI) (auto simp: INODE_BYTES_def nth_zeros)
  then show ?thesis
    using True it_read_pos [OF assms(1), of i crc] inode_from_zeros [of crc] assms(4) cap pos
    by (auto simp: dm_read_inode_def inode_empty_def split: sum.splits)
next
  case False
  then have "block_for i \<noteq> 0" "block_for i < 64"
    using assms(4) by (auto simp: block_for_def MAX_FILES_def inode_layout_defs)
  then have "inode_offset (dm_inode_table d) i = None"
    by (cases "block_for i") (auto simp: inode_offset_def assms(2) nth_replicate Let_def)
  then show ?thesis
    using assms(4) by (simp add: dm_read_inode_def it_read_inode_def inode_empty_def)
qed

lemma formatted_opens:
  obtains d where "dm_open crc (dm_file (dm_flush crc (dm_format crc now sz f))) = (Inr d, dm_file d)"
    and "sb_magic (dm_superblock d) = MAGIC" and "sb_next_data_offset (dm_superblock d) = of_nat DATA_OFFSET"
    and "disk_size d = sz div 4096 * 4096" and "dm_free_list d = []" and "journal_holds crc (dm_file d) (dm_journal d) []"
    and "it_inv (dm_inode_table d) (dm_file d)" and "it_blocks (dm_inode_table d) = 4096 # replicate 63 0"
    and "\<forall>i < MAX_FILES. \<exists>n. dm_read_inode crc i d = Inr n \<and> in_is_used n = 0"
proof -
  let ?d = "dm_format crc now sz f"
  note fo = dm_format_ok [where crc = crc and now = now and sz = sz and f = f]
  have hd: "hd (it_blocks (dm_inode_table ?d)) = of_nat INODE_TABLE_OFFSET"
    by (simp add: fo(6) INODE_TABLE_OFFSET_def)
  have free: "length (dm_free_list ?d) \<le> 190" by (simp add: fo(5))
  obtain d where d: "dm_open crc (dm_file (dm_flush crc ?d)) = (Inr d, dm_file d)"
    "dm_superblock d = (dm_superblock ?d)\<lparr>sb_crc32 := crc (superblock_body (dm_superblock ?d))\<rparr>"
    "dm_free_list d = dm_free_list ?d"
    "dm_inode_table d = \<lparr>it_blocks = it_blocks (dm_inode_table ?d), it_used = 0,
      it_next_end = sb_next_data_offset (dm_superblock ?d)\<rparr>"
    "journal_holds crc (dm_file d) (dm_journal d) []" "flen (dm_file ?d) \<le> flen (dm_file d)"
    "\<forall>i. 4096 \<le> i \<and> (i < JOURNAL_OFFSET \<or> JOURNAL_END \<le> i) \<longrightarrow> fget (dm_file d) i = fget (dm_file ?d) i"
    by (rule reopen_flushed [OF fo(1) entries_to_replay_Nil fo(2) hd fo(7) free])
  have blocks: "it_blocks (dm_inode_table d) = it_blocks (dm_inode_table ?d)" by (simp add: d(4))
  have inv: "it_inv (dm_inode_table d) (dm_file d)"
    using it_inv_flen [OF fo(2) d(6)] by (simp add: it_inv_def block_count_def block_start_def blocks)
  have zero: "fget (dm_file d) k = 0" if "4096 \<le> k" "k < 4096 + INODE_BLOCK_SIZE" for k
    using that d(7) dm_format_fields(2) [of k crc now sz f]
    by (simp add: inode_layout_defs journal_layout_defs)
  have unused: "\<exists>n. dm_read_inode crc i d = Inr n \<and> in_is_used n = 0" if "i < MAX_FILES" for i
    by (rule zero_slot_unused [OF inv _ zero that]) (use fo(6) blocks in \<open>auto simp: inode_layout_defs\<close>)
  show thesis
    by (rule that [OF d(1)])
      (use fo(5,6) d(5) inv blocks unused in \<open>auto simp: d(2,3) dm_format_fields(1) disk_size_def\<close>)
qed

lemma fresh_consistent:
  assumes "\<forall>i < MAX_FILES. \<exists>n. dm_read_inode crc i d = Inr n \<and> in_is_used n = 0"
    and "sb_magic (dm_superblock d) = MAGIC" and "sb_next_data_offset (dm_superblock d) = of_nat DATA_OFFSET"
  shows "image_consistent crc d" and "i < MAX_FILES \<Longrightarrow> listing crc d i = None"
proof -
  show none: "listing crc d i = None" if "i < MAX_FILES" for i
    using that assms(1) by (auto simp: listing_def)
  show "image_consistent crc d"
    using assms none by (auto simp: image_consistent_def slots_consistent_def)
qed

section \<open>Repairing the free list\<close>

text \<open>The extents of the files, in the order of their slots.\<close>

definition file_extents :: "(bytes \<Rightarrow> u32) \<Rightarrow> disk_manager \<Rightarrow> (u64 \<times> u64) list" where
  "file_extents crc d = concat (map (\<lambda>i. extent_in (disk_size d) (listing crc d i)) [0..<MAX_FILES])"

lemma fresh_extents: "(\<And>i. i < MAX_FILES \<Longrightarrow> listing crc d i = None) \<Longrightarrow> file_extents crc d = []"
  by (simp add: file_extents_def extent_in_def)

lemma fsck_repaired:
  assumes "dm_open crc f = (Inr d, g)" and "image_consistent crc d"
    and "fl = rebuild_from_inodes (file_extents crc d) (disk_size d) (of_nat DATA_OFFSET)"
    and "stale_by (total_free_bytes (dm_free_list d)) (total_free_bytes fl)"
  shows "snd (snd (cmd_fsck crc True f)) = dm_file (dm_flush crc (d\<lparr>dm_free_list := fl\<rparr>))"
proof -
  let ?st = "scan_inodes crc (disk_size d) d"
  have ext: "fk_used_extents ?st = file_extents crc d"
    using scan_inodes_scanned [of crc d] by (simp add: scanned_def file_extents_def)
  have "\<not> sb_next_data_offset (dm_superblock d) < of_nat DATA_OFFSET"
    using assms(2) by (simp add: image_consistent_def not_less)
  moreover have "dm_superblock (dm_flush crc x) = dm_superblock x" for x
    by (simp add: dm_flush_def write_superblock_def Let_def)
  ultimately show ?thesis
    using assms(1,4) ext by (simp add: cmd_fsck_def check_free_list_def check_superblock_def assms(3) Let_def)
qed

lemma sint_small: "- (2 ^ 63) \<le> k \<Longrightarrow> k < 2 ^ 63 \<Longrightarrow> sint (word_of_int k :: u64) = k"
  by (simp add: signed_of_int signed_take_bit_int_eq_self)

lemma stale_by_zero:
  assumes "4096 < unat (w :: u64)" and "unat w < 2 ^ 63"
  shows "stale_by 0 w"
proof -
  have "int 4096 < int (unat w)" "int (unat w) < int (2 ^ 63)"
    using assms by (simp_all only: of_nat_less_iff)
  then have u: "4096 < uint w" "uint w < 2 ^ 63" by simp_all
  then have "sint w = uint w" using sint_small [of "uint w"] uint_ge_0 [of w] by simp
  moreover have "sint (- w) = - uint w" using u sint_small [of "- uint w"] uint_ge_0 [of w] by simp
  ultimately show ?thesis using u(1) by (simp add: stale_by_def)
qed

text \<open>Allocating from a list of one extent, and past it.\<close>

lemma alloc_single:
  assumes "of_nat n \<le> l" and "l - of_nat n < of_nat m" and "dm_free_list d = [extent_new off l]"
    and "alloc_data n d = (off', d1)"
  shows "off' = off" and "fst (alloc_data m d1) = sb_next_data_offset (dm_superblock d)"
proof -
  have al: "fl_alloc (of_nat n) [extent_new off l]
      = (Some off, if 512 \<le> l - of_nat n then [extent_new (off + of_nat n) (l - of_nat n)] else [])"
    using assms(1) by (simp add: fl_alloc_def extent_new_def min_by_key_singleton remove_nth_def Let_def)
  then have eq: "off' = off" "dm_superblock d1 = dm_superblock d"
    "dm_free_list d1 = (if 512 \<le> l - of_nat n then [extent_new (off + of_nat n) (l - of_nat n)] else [])"
    using assms(3,4) by (auto simp: alloc_data_def)
  show "off' = off" by (rule eq(1))
  have "fl_alloc (of_nat m) (dm_free_list d1) = (None, dm_free_list d1)"
    using assms(2) by (auto simp: eq(3) fl_alloc_def extent_new_def min_by_key_def not_le)
  then show "fst (alloc_data m d1) = sb_next_data_offset (dm_superblock d)"
    by (simp add: alloc_data_def eq(2) Let_def)
qed

lemma whole_blocks:
  assumes "unat (sz :: u64) mod 4096 = 0"
  shows "sz div 4096 * 4096 = sz"
proof -
  have "unat (sz div 4096 * 4096) = unat (sz div 4096) * unat (4096 :: u64)"
    using unat_lt64 [of sz] by (intro unat_mult_lem [THEN iffD1]) (simp add: unat_div)
  also have "\<dots> = unat sz" using assms by (simp add: unat_div mod_eq_0_iff_dvd)
  finally show ?thesis by (simp add: word_unat_eq_iff)
qed

lemma mebibytes:
  assumes "unat (mb :: u64) < 2 ^ 40" and "sz = mb * 1024 * 1024"
  shows "unat sz = unat mb * 2 ^ 20" and "sz div 4096 * 4096 = sz"
proof -
  have "unat (mb * 1024) = unat mb * unat (1024 :: u64)"
    using assms(1) by (intro unat_mult_lem [THEN iffD1]) simp
  moreover have "unat (mb * 1024 * 1024) = unat (mb * 1024) * unat (1024 :: u64)"
    using assms(1) calculation by (intro unat_mult_lem [THEN iffD1]) simp
  ultimately show sz: "unat sz = unat mb * 2 ^ 20" using assms(2) by (simp only:) simp
  show "sz div 4096 * 4096 = sz" by (rule whole_blocks) (simp add: sz)
qed

section \<open>Properties\<close>



text \<open>A new image is in order: whatever size it is given and whatever it held, it opens with an empty
  free list and no file in any slot, and the checker finds no error.\<close>

theorem mkfs_makes_clean_image:
  assumes "cmd_mkfs crc now size_mb existing = Some f"
  shows "fst (cmd_fsck crc repair f) = 0
    \<and> (\<exists>d. dm_open crc f = (Inr d, dm_file d) \<and> dm_free_list d = [] \<and> (\<forall>i < MAX_FILES. listing crc d i = None))"
proof -
  obtain sz f0 where f: "f = dm_file (dm_flush crc (dm_format crc now sz f0))"
    using assms by (auto simp: cmd_mkfs_def Let_def split: option.splits)
  obtain d where d: "dm_open crc f = (Inr d, dm_file d)" "sb_magic (dm_superblock d) = MAGIC"
    "sb_next_data_offset (dm_superblock d) = of_nat DATA_OFFSET" "dm_free_list d = []"
    "\<forall>i < MAX_FILES. \<exists>n. dm_read_inode crc i d = Inr n \<and> in_is_used n = 0"
    unfolding f by (rule formatted_opens [of crc now sz f0])
  note fresh = fresh_consistent [OF d(5,2,3)]
  have "fst (cmd_fsck crc repair f) = 0" unfolding fsck_code using d(1) fresh(1) by blast
  then show ?thesis using d(1,4) fresh(2) by blast
qed

theorem mkfs_makes_clean_image_witness:
  "\<exists>f. cmd_mkfs sum_crc 0 (Some 1) None = Some f \<and> fst (cmd_fsck sum_crc True f) = 0"
proof -
  obtain f where f: "cmd_mkfs sum_crc 0 (Some 1) None = Some f" by (simp add: cmd_mkfs_def Let_def)
  from mkfs_makes_clean_image [OF f, of True] f show ?thesis by blast
qed



text \<open>On a new image the repair makes the allocator hand out the same bytes twice: the rebuilt list starts
  at the allocation mark of the superblock, so a file that fits gets the start of the data region, and the
  next one that no longer fits in the list gets the same start from the mark.\<close>

theorem fsck_repair_double_allocates:
  assumes "cmd_mkfs crc now (Some mb) existing = Some f" and "cmd_fsck crc True f = (code, st, f')"
    and "0 < unat mb" and "unat mb < 2 ^ 40" and "n \<le> unat mb * 2 ^ 20 - DATA_OFFSET"
    and "unat mb * 2 ^ 20 - DATA_OFFSET - n < m" and "m < 2 ^ 64"
  shows "\<exists>d d1 d2. dm_open crc f' = (Inr d, dm_file d)
    \<and> alloc_data n d = (of_nat DATA_OFFSET, d1) \<and> alloc_data m d1 = (of_nat DATA_OFFSET, d2)"
proof -
  define sz where "sz = mb * 1024 * 1024"
  let ?sz = sz and ?start = "of_nat DATA_OFFSET :: u64"
  let ?fl = "[extent_new ?start (?sz - ?start)]"
  note mib = mebibytes [OF assms(4) sz_def]
  have start: "unat ?start = DATA_OFFSET" by (simp add: DATA_OFFSET_value)
  have "1 * 2 ^ 20 \<le> unat mb * 2 ^ 20" using assms(3) by (intro mult_le_mono1) linarith
  then have room: "DATA_OFFSET + 4096 < unat ?sz" unfolding mib(1) DATA_OFFSET_value by simp
  then have len: "unat (?sz - ?start) = unat mb * 2 ^ 20 - DATA_OFFSET" "?start \<le> ?sz"
    using start mib(1) by (simp_all add: unat_sub word_le_nat_alt)
  have f: "f = dm_file (dm_flush crc (dm_format crc now ?sz (blank_file (unat ?sz))))"
    using assms(1) by (simp add: cmd_mkfs_def Let_def flip: sz_def)
  obtain d0 where d0: "dm_open crc f = (Inr d0, dm_file d0)" "sb_magic (dm_superblock d0) = MAGIC"
    "sb_next_data_offset (dm_superblock d0) = ?start" "disk_size d0 = ?sz div 4096 * 4096" "dm_free_list d0 = []"
    "journal_holds crc (dm_file d0) (dm_journal d0) []" "it_inv (dm_inode_table d0) (dm_file d0)"
    "it_blocks (dm_inode_table d0) = 4096 # replicate 63 0"
    "\<forall>i < MAX_FILES. \<exists>n. dm_read_inode crc i d0 = Inr n \<and> in_is_used n = 0"
    unfolding f by (rule formatted_opens [of crc now ?sz "blank_file (unat ?sz)"])
  have size: "disk_size d0 = ?sz" by (simp only: d0(4) mib(2))
  note fresh = fresh_consistent [OF d0(9,2,3)]
  have ext: "file_extents crc d0 = []" by (simp add: fresh_extents fresh(2))
  have "rebuild_from_inodes (file_extents crc d0) (disk_size d0) ?start = ?fl"
    using len(2) by (simp add: ext size rebuild_from_inodes_def sat_sub_def)
  moreover have "stale_by 0 (?sz - ?start)"
    using len(1) room assms(4) mib(1) by (intro stale_by_zero) auto
  ultimately have f': "f' = dm_file (dm_flush crc (d0\<lparr>dm_free_list := ?fl\<rparr>))"
    using fsck_repaired [OF d0(1) fresh(1) refl] assms(2) d0(5)
    by (simp add: total_free_bytes_def extent_new_def)
  obtain d where d: "dm_open crc f' = (Inr d, dm_file d)"
    "dm_superblock d = (dm_superblock d0)\<lparr>sb_crc32 := crc (superblock_body (dm_superblock d0))\<rparr>" "dm_free_list d = ?fl"
    using reopen_flushed [of crc "d0\<lparr>dm_free_list := ?fl\<rparr>" "[]"] d0 unfolding f'
    by (simp add: INODE_TABLE_OFFSET_def) blast
  obtain off d1 where a1: "alloc_data n d = (off, d1)" by fastforce
  obtain off2 d2 where a2: "alloc_data m d1 = (off2, d2)" by fastforce
  have w: "unat (of_nat n :: u64) = n" "unat (of_nat m :: u64) = m"
    using assms(4-7) by (auto intro!: unat64_of_nat)
  have "of_nat n \<le> ?sz - ?start" "?sz - ?start - of_nat n < of_nat m"
    using assms(5,6) len(1) w by (auto simp: word_le_nat_alt word_less_nat_alt unat_sub)
  note al = alloc_single [OF this d(3) a1]
  have "off = ?start" "off2 = ?start" using al a2 d(2) d0(3) by simp_all
  with d(1) a1 a2 show ?thesis by blast
qed

theorem fsck_repair_double_allocates_witness:
  "\<exists>f code st f' d d1 d2. cmd_mkfs sum_crc 0 (Some 1) None = Some f \<and> cmd_fsck sum_crc True f = (code, st, f')
    \<and> dm_open sum_crc f' = (Inr d, dm_file d)
    \<and> alloc_data 100000 d = (of_nat DATA_OFFSET, d1) \<and> alloc_data 300000 d1 = (of_nat DATA_OFFSET, d2)"
proof -
  obtain f where f: "cmd_mkfs sum_crc 0 (Some 1) None = Some f" by (simp add: cmd_mkfs_def Let_def)
  obtain code st f' where run: "cmd_fsck sum_crc True f = (code, st, f')" by (metis prod_cases3)
  have "\<exists>d d1 d2. dm_open sum_crc f' = (Inr d, dm_file d)
    \<and> alloc_data 100000 d = (of_nat DATA_OFFSET, d1) \<and> alloc_data 300000 d1 = (of_nat DATA_OFFSET, d2)"
    by (rule fsck_repair_double_allocates [OF f run]) (simp_all add: DATA_OFFSET_value)
  with f run show ?thesis by blast
qed

end
