(* ===== verification/Cli_Snapshots.thy ===== *)
theory Cli_Snapshots
  imports Fsck Utf8
begin

text \<open>
  The snapshot commands of \<open>src/bin/vexfs.rs\<close>, which work on the records an image holds: listing,
  restoring, garbage collection and the diff viewer. A command returns the error it dies with or what it
  computed, with the image it leaves; the text around the results is not modelled.
\<close>

section \<open>Scanning the tables\<close>

text \<open>\<open>for i in 0..n { match read(i) { Ok(x) => .., Err(_) => break } .. }\<close>: the records up to the first
  that cannot be read, with their slots.\<close>

fun readable_slots :: "(nat \<Rightarrow> 'a disk_result) \<Rightarrow> nat list \<Rightarrow> (nat \<times> 'a) list" where
  "readable_slots rd [] = []"
| "readable_slots rd (i # is) = (case rd i of Inr x \<Rightarrow> (i, x) # readable_slots rd is | Inl _ \<Rightarrow> [])"

definition SNAP_MAGIC :: u64 where "SNAP_MAGIC = 0x534E415000000001"

definition snapshot_slots :: "(bytes \<Rightarrow> u32) \<Rightarrow> disk_manager \<Rightarrow> (nat \<times> snapshot_raw) list" where
  "snapshot_slots crc d =
     filter (\<lambda>(i, s). snapshot_is_valid SNAP_MAGIC s)
       (readable_slots (\<lambda>i. read_snapshot crc i d) [0..<MAX_SNAPSHOT_SLOTS])"

text \<open>The inodes that pass \<open>is_valid\<close>, and the first one with a given name: in whichever directory.\<close>

definition inode_slots :: "(bytes \<Rightarrow> u32) \<Rightarrow> disk_manager \<Rightarrow> (nat \<times> inode_raw) list" where
  "inode_slots crc d =
     filter (\<lambda>(i, n). inode_is_valid n) (readable_slots (\<lambda>i. dm_read_inode crc i d) [0..<MAX_FILES])"

definition inode_named :: "(bytes \<Rightarrow> u32) \<Rightarrow> rstring \<Rightarrow> disk_manager \<Rightarrow> (nat \<times> inode_raw) option" where
  "inode_named crc filename d = find (\<lambda>(i, n). inode_get_name n = filename) (inode_slots crc d)"

section \<open>Listing\<close>

definition snap_all :: "(bytes \<Rightarrow> u32) \<Rightarrow> disk_manager \<Rightarrow> (u32 \<times> rstring \<times> u64 \<times> u64) list" where
  "snap_all crc d =
     sort_desc (\<lambda>(_, _, _, ts). ts)
       (map (\<lambda>(i, s). (sn_id s, snapshot_get_name s, sn_size s, sn_timestamp s))
         (filter (\<lambda>(i, s). snapshot_get_name s \<noteq> []) (snapshot_slots crc d)))"

definition snap_list :: "(bytes \<Rightarrow> u32) \<Rightarrow> rstring \<Rightarrow> disk_manager \<Rightarrow> (u32 \<times> u64 \<times> u64) list" where
  "snap_list crc filename d =
     map (\<lambda>(i, s). (sn_id s, sn_size s, sn_timestamp s))
       (filter (\<lambda>(i, s). snapshot_get_name s = filename) (snapshot_slots crc d))"

text \<open>The history \<open>cmd_info\<close> prints: newest first.\<close>

definition snap_history :: "(bytes \<Rightarrow> u32) \<Rightarrow> rstring \<Rightarrow> disk_manager \<Rightarrow> (u32 \<times> u64 \<times> u64) list" where
  "snap_history crc filename d = sort_desc (\<lambda>(_, _, ts). ts) (snap_list crc filename d)"

section \<open>Restoring\<close>

datatype cli_error =
    CannotOpen disk_error
  | VersionNotFound
  | CannotReadData disk_error
  | FileNotFound
  | WriteFailed disk_error
  | InodeWriteFailed disk_error

definition snap_restore ::
    "(bytes \<Rightarrow> u32) \<Rightarrow> rstring \<Rightarrow> u32 \<Rightarrow> image \<Rightarrow> (cli_error + nat) \<times> image" where
  "snap_restore crc filename version f =
     (case dm_open crc f of
        (Inl e, f) \<Rightarrow> (Inl (CannotOpen e), f)
      | (Inr d, _) \<Rightarrow>
     (case find (\<lambda>(i, s). snapshot_get_name s = filename \<and> sn_id s = version) (snapshot_slots crc d) of
        None \<Rightarrow> (Inl VersionNotFound, dm_file d)
      | Some (_, s) \<Rightarrow>
     (case read_file_data (sn_data_offset s) (unat (sn_size s)) d of
        Inl e \<Rightarrow> (Inl (CannotReadData e), dm_file d)
      | Inr data \<Rightarrow>
     (case inode_named crc filename d of
        None \<Rightarrow> (Inl FileNotFound, dm_file d)
      | Some (i, n) \<Rightarrow>
          (let (offset, d) = alloc_data (length data) d in
           case write_file_data crc offset data d of
             (Inl e, d) \<Rightarrow> (Inl (WriteFailed e), dm_file d)
           | (Inr _, d) \<Rightarrow>
               (case dm_write_inode crc i (n\<lparr>in_size := of_nat (length data), in_data_offset := offset\<rparr>) d of
                  (Inl e, d) \<Rightarrow> (Inl (InodeWriteFailed e), dm_file d)
                | (Inr _, d) \<Rightarrow> (Inr (length data), dm_file (dm_flush crc d))))))))"

section \<open>Garbage collection\<close>

definition slot_time :: "(bytes \<Rightarrow> u32) \<Rightarrow> disk_manager \<Rightarrow> nat \<Rightarrow> u64" where
  "slot_time crc d i = (case read_snapshot crc i d of Inr s \<Rightarrow> sn_timestamp s | Inl _ \<Rightarrow> 0)"

text \<open>The comparison unwraps what it reads, so sorting two slots or more panics on one that cannot be read.\<close>

definition sort_slots :: "(bytes \<Rightarrow> u32) \<Rightarrow> disk_manager \<Rightarrow> nat list \<Rightarrow> nat list option" where
  "sort_slots crc d slots =
     (if 2 \<le> length slots \<and> list_ex (\<lambda>i. case read_snapshot crc i d of Inr _ \<Rightarrow> False | Inl _ \<Rightarrow> True) slots
      then None else Some (sort_desc (slot_time crc d) slots))"

record gc_state =
  gc_disk :: disk_manager
  gc_removed :: nat
  gc_bytes_freed :: u64

definition gc_slot :: "(bytes \<Rightarrow> u32) \<Rightarrow> gc_state \<Rightarrow> nat \<Rightarrow> gc_state" where
  "gc_slot crc st slot =
     (case read_snapshot crc slot (gc_disk st) of
        Inr s \<Rightarrow>
          \<lparr>gc_disk = snd (write_snapshot crc slot (s\<lparr>sn_is_used := 0\<rparr>)
                            (free_data (sn_data_offset s) (sn_size s) (gc_disk st))),
           gc_removed = gc_removed st + 1, gc_bytes_freed = gc_bytes_freed st + sn_size s\<rparr>
      | Inl _ \<Rightarrow> st)"

definition gc_file :: "(bytes \<Rightarrow> u32) \<Rightarrow> nat \<Rightarrow> nat list \<Rightarrow> gc_state \<Rightarrow> gc_state option" where
  "gc_file crc keep slots st =
     (if length slots \<le> keep then Some st
      else map_option (\<lambda>sorted. foldl (gc_slot crc) st (drop keep sorted)) (sort_slots crc (gc_disk st) slots))"

primrec gc_files :: "(bytes \<Rightarrow> u32) \<Rightarrow> nat \<Rightarrow> (u64 \<times> nat list) list \<Rightarrow> gc_state \<Rightarrow> gc_state option" where
  "gc_files crc keep [] st = Some st"
| "gc_files crc keep (x # xs) st = Option.bind (gc_file crc keep (snd x) st) (gc_files crc keep xs)"

text \<open>The number of snapshots removed and of bytes freed, with the image; \<open>None\<close> is a panic.\<close>

definition snap_gc :: "(bytes \<Rightarrow> u32) \<Rightarrow> nat \<Rightarrow> image \<Rightarrow> ((cli_error + nat \<times> u64) \<times> image) option" where
  "snap_gc crc keep f =
     (case dm_open crc f of
        (Inl e, f) \<Rightarrow> Some (Inl (CannotOpen e), f)
      | (Inr d, _) \<Rightarrow>
          (let by_file = map (\<lambda>(ino, xs). (ino, map fst xs)) (group_by (\<lambda>(i, s). sn_ino s) (snapshot_slots crc d))
           in case gc_files crc keep by_file \<lparr>gc_disk = d, gc_removed = 0, gc_bytes_freed = 0\<rparr> of
                None \<Rightarrow> None
              | Some st \<Rightarrow> Some (Inr (gc_removed st, gc_bytes_freed st), dm_file (dm_flush crc (gc_disk st)))))"

section \<open>Comparing versions\<close>

datatype diff_line = Same rstring | Removed rstring | Added rstring

text \<open>Both texts are walked in step; the counts are of lines added and removed.\<close>

fun simple_diff :: "rstring list \<Rightarrow> rstring list \<Rightarrow> diff_line list \<times> nat \<times> nat" where
  "simple_diff [] [] = ([], 0, 0)"
| "simple_diff (la # as) (lb # bs) =
     (let (out, added, removed) = simple_diff as bs in
      if la = lb then (Same la # out, added, removed)
      else (Removed la # Added lb # out, added + 1, removed + 1))"
| "simple_diff (la # as) [] =
     (let (out, added, removed) = simple_diff as [] in (Removed la # out, added, removed + 1))"
| "simple_diff [] (lb # bs) =
     (let (out, added, removed) = simple_diff [] bs in (Added lb # out, added + 1, removed))"

text \<open>\<open>str::lines\<close>: pieces ending in a line feed, which is dropped with a carriage return before it; the
  text after the last line feed is a line unless it is empty.\<close>

definition strip_cr :: "rstring \<Rightarrow> rstring" where
  "strip_cr l = (if l \<noteq> [] \<and> last l = 13 then butlast l else l)"

function str_lines :: "rstring \<Rightarrow> rstring list" where
  "str_lines s =
     (if s = [] then []
      else (let l = takeWhile (\<lambda>c. c \<noteq> 10) s; rest = dropWhile (\<lambda>c. c \<noteq> 10) s
            in if rest = [] then [l] else strip_cr l # str_lines (tl rest)))"
  by pat_completeness auto
termination
proof (relation "measure length")
  fix s l rest :: rstring
  assume "s \<noteq> []" and r: "rest = dropWhile (\<lambda>c. c \<noteq> 10) s" "rest \<noteq> []"
  then have "length (tl rest) < length rest" by (cases rest) auto
  also have "\<dots> \<le> length s" unfolding r(1) by (rule length_dropWhile_le)
  finally show "(tl rest, s) \<in> measure length" by simp
qed simp

declare str_lines.simps [simp del]

text \<open>\<open>std::str::from_utf8(..).unwrap_or("")\<close>: the lossy decoding changes exactly the texts that are not valid.\<close>

definition text_of :: "bytes \<Rightarrow> rstring" where
  "text_of data = (if utf8_lossy data = data then data else [])"

datatype diff_result =
    NoSnapshots
  | SnapshotNotFound u32
  | InvalidArguments
  | Compared "diff_line list" nat nat

definition cmd_diff ::
    "(bytes \<Rightarrow> u32) \<Rightarrow> rstring \<Rightarrow> u32 option \<Rightarrow> u32 option \<Rightarrow> disk_manager \<Rightarrow> diff_result" where
  "cmd_diff crc filename v1 v2 d =
     (let snaps = sort_key fst (map (\<lambda>(i, s). (sn_id s, sn_data_offset s, sn_size s))
                    (filter (\<lambda>(i, s). snapshot_get_name s = filename) (snapshot_slots crc d)));
          rd = (\<lambda>offset sz. if sz = 0 then [] else
                  (case read_file_data offset (unat sz) d of Inr b \<Rightarrow> b | Inl _ \<Rightarrow> []));
          current_data = (case inode_named crc filename d of
              Some (i, n) \<Rightarrow> rd (in_data_offset n) (in_size n) | None \<Rightarrow> []);
          snap = (\<lambda>v. find (\<lambda>(ident, _, _). ident = v) snaps);
          compare = (\<lambda>a b. case simple_diff (str_lines (text_of a)) (str_lines (text_of b)) of
              (out, added, removed) \<Rightarrow> Compared out added removed)
      in case (v1, v2) of
           (None, None) \<Rightarrow>
             (if snaps = [] then NoSnapshots
              else case last snaps of (_, off, sz) \<Rightarrow> compare (rd off sz) current_data)
         | (Some v1, None) \<Rightarrow>
             (case snap v1 of None \<Rightarrow> SnapshotNotFound v1
              | Some (_, off, sz) \<Rightarrow> compare (rd off sz) current_data)
         | (Some v1, Some v2) \<Rightarrow>
             (case snap v1 of None \<Rightarrow> SnapshotNotFound v1
              | Some (_, off, sz) \<Rightarrow>
                  (case snap v2 of None \<Rightarrow> SnapshotNotFound v2
                   | Some (_, off2, sz2) \<Rightarrow> compare (rd off sz) (rd off2 sz2)))
         | (None, Some _) \<Rightarrow> InvalidArguments)"

section \<open>Records and slots\<close>

lemma readable_slots_all:
  "(\<And>i. i \<in> set is \<Longrightarrow> rd i = Inr (g i)) \<Longrightarrow> readable_slots rd is = map (\<lambda>i. (i, g i)) is"
  by (induction "is") auto

lemma replay_all_flen: "replay_all es f = (r, g) \<Longrightarrow> flen f \<le> flen g"
proof (induction es arbitrary: f)
  case (Cons e es)
  obtain r1 f1 where one: "replay_entry e f = (r1, f1)" by fastforce
  then have "flen f \<le> flen f1"
    by (auto simp: replay_entry_def Let_def flen_fwrite_mono split: if_splits)
  then show ?case using Cons one by (fastforce split: sum.splits)
qed simp

text \<open>An image that opens holds the whole snapshot table, so every slot can be read.\<close>

lemma opened_snapshots:
  assumes "dm_open crc f = (Inr d, g)"
  shows "JOURNAL_OFFSET \<le> flen (dm_file d)"
proof -
  obtain j rs f1 f2 where o': "journal_open crc f = Inr (j, rs)" "replay_all rs f = (Inr (), f1)"
    "f2 = (if 0 < length rs then snd (journal_clear crc j f1) else f1)" "dm_file d = f2"
    using assms by (auto simp: dm_open_def Let_def split: sum.splits if_splits prod.splits)
  obtain hdr where "read_bytes f JOURNAL_OFFSET JOURNAL_HEADER_SIZE = Inr hdr"
    using o'(1) by (cases "read_bytes f JOURNAL_OFFSET JOURNAL_HEADER_SIZE") (auto simp: journal_open_def Let_def)
  then have "JOURNAL_OFFSET \<le> flen f"
    by (auto simp: read_bytes_def fread_def split: if_splits)
  also have "\<dots> \<le> flen f1" by (rule replay_all_flen [OF o'(2)])
  also have "\<dots> \<le> flen f2"
    by (simp add: o'(3) journal_clear_def Let_def zero_entries_flen flen_fwrite_mono order.trans [OF flen_fwrite_mono max.cobounded1])
  finally show ?thesis using o'(4) by simp
qed

lemma slot_in_table:
  "i < MAX_SNAPSHOT_SLOTS \<Longrightarrow> snapshot_slot_offset i + 512 \<le> JOURNAL_OFFSET"
  "4096 \<le> snapshot_slot_offset i" "i < j \<Longrightarrow> snapshot_slot_offset i + 512 \<le> snapshot_slot_offset j"
  by (simp_all add: snapshot_slot_offset_def disk_layout_defs inode_layout_defs journal_layout_defs)

definition snapshot_at :: "(bytes \<Rightarrow> u32) \<Rightarrow> disk_manager \<Rightarrow> nat \<Rightarrow> snapshot_raw" where
  "snapshot_at crc d i = (case read_snapshot crc i d of Inr s \<Rightarrow> s | Inl _ \<Rightarrow> snapshot_empty)"

lemma read_snapshot_at:
  assumes "JOURNAL_OFFSET \<le> flen (dm_file d)" and "i < MAX_SNAPSHOT_SLOTS"
  shows "read_snapshot crc i d = Inr (snapshot_at crc d i)" and "snapshot_wf (snapshot_at crc d i)"
proof -
  obtain b where b: "read_bytes (dm_file d) (snapshot_slot_offset i) SNAPSHOT_BYTES = Inr b" "length b = 512"
    using assms slot_in_table(1) [OF assms(2)] by (auto simp: read_bytes_def fread_def SNAPSHOT_BYTES_def)
  then show "read_snapshot crc i d = Inr (snapshot_at crc d i)"
    using assms(2) by (auto simp: snapshot_at_def read_snapshot_def split: sum.splits)
  show "snapshot_wf (snapshot_at crc d i)"
    using assms(2) b by (auto simp: snapshot_at_def read_snapshot_def snapshot_from_bytes_def snapshot_wf_def
        snapshot_empty_def Let_def split: sum.splits)
qed

text \<open>Writing a slot changes that slot alone.\<close>

lemma snapshot_at_write:
  assumes "JOURNAL_OFFSET \<le> flen (dm_file d)" and "i < MAX_SNAPSHOT_SLOTS" and "j < MAX_SNAPSHOT_SLOTS" and "snapshot_wf s"
    and "dm_file d' = write_bytes (dm_file d) (snapshot_slot_offset i) (snapshot_to_bytes crc s)"
  shows "snapshot_at crc d' j = (if j = i then s else snapshot_at crc d j)" and "flen (dm_file d') = flen (dm_file d)"
proof -
  have len: "length (snapshot_to_bytes crc s) = 512" by (simp add: snapshot.enc_width assms(4))
  show "flen (dm_file d') = flen (dm_file d)"
    using assms(1,5) len slot_in_table(1) [OF assms(2)] by (simp add: write_bytes_def)
  show "snapshot_at crc d' j = (if j = i then s else snapshot_at crc d j)"
  proof (cases "j = i")
    case True
    have "fread (dm_file d') (snapshot_slot_offset i) 512 = Some (snapshot_to_bytes crc s)"
      unfolding assms(5) write_bytes_def by (rule fread_fwrite_same) (simp_all add: len flip: length_0_conv)
    then show ?thesis
      using True assms(2) snapshot.dec_enc [OF assms(4), of crc]
      by (simp add: snapshot_at_def read_snapshot_def read_bytes_def SNAPSHOT_BYTES_def)
  next
    case False
    then have "snapshot_slot_offset i + 512 \<le> snapshot_slot_offset j \<or> snapshot_slot_offset j + 512 \<le> snapshot_slot_offset i"
      using slot_in_table(3) by (cases "i < j") auto
    then have "fread (dm_file d') (snapshot_slot_offset j) 512 = fread (dm_file d) (snapshot_slot_offset j) 512"
      unfolding assms(5) write_bytes_def
      using assms(1,3) slot_in_table(1) [OF assms(3)] by (intro fread_fwrite_other) (auto simp: len)
    with False show ?thesis by (simp add: snapshot_at_def read_snapshot_def read_bytes_def SNAPSHOT_BYTES_def)
  qed
qed

lemma snapshot_slots_at:
  assumes "JOURNAL_OFFSET \<le> flen (dm_file d)"
  shows "snapshot_slots crc d = filter (\<lambda>(i, s). snapshot_is_valid SNAP_MAGIC s)
    (map (\<lambda>i. (i, snapshot_at crc d i)) [0..<MAX_SNAPSHOT_SLOTS])"
  unfolding snapshot_slots_def using read_snapshot_at(1) [OF assms] by (subst readable_slots_all) auto

section \<open>What a collection does\<close>

abbreviation valid_at :: "(bytes \<Rightarrow> u32) \<Rightarrow> disk_manager \<Rightarrow> nat \<Rightarrow> bool" where
  "valid_at crc d i \<equiv> snapshot_is_valid SNAP_MAGIC (snapshot_at crc d i)"

lemma gc_slot_at:
  assumes "JOURNAL_OFFSET \<le> flen (dm_file (gc_disk st))" and "i < MAX_SNAPSHOT_SLOTS" and "j < MAX_SNAPSHOT_SLOTS"
  shows "snapshot_at crc (gc_disk (gc_slot crc st i)) j
      = (if j = i then (snapshot_at crc (gc_disk st) i)\<lparr>sn_is_used := 0\<rparr> else snapshot_at crc (gc_disk st) j)"
    and "flen (dm_file (gc_disk (gc_slot crc st i))) = flen (dm_file (gc_disk st))"
    and "gc_removed (gc_slot crc st i) = gc_removed st + 1"
proof -
  let ?s = "(snapshot_at crc (gc_disk st) i)\<lparr>sn_is_used := 0\<rparr>"
  note rd = read_snapshot_at [OF assms(1,2), of crc]
  have wf: "snapshot_wf ?s" using rd(2) by (simp add: snapshot_wf_def)
  have "dm_file (gc_disk (gc_slot crc st i))
      = write_bytes (dm_file (gc_disk st)) (snapshot_slot_offset i) (snapshot_to_bytes crc ?s)"
    using assms(2) rd(1) by (simp add: gc_slot_def write_snapshot_def free_data_def)
  note w = snapshot_at_write [OF assms wf this]
  show "snapshot_at crc (gc_disk (gc_slot crc st i)) j = (if j = i then ?s else snapshot_at crc (gc_disk st) j)"
    by (rule w(1))
  show "flen (dm_file (gc_disk (gc_slot crc st i))) = flen (dm_file (gc_disk st))" by (rule w(2))
  show "gc_removed (gc_slot crc st i) = gc_removed st + 1" using rd(1) by (simp add: gc_slot_def)
qed

lemma gc_slots_at:
  fixes crc :: "bytes \<Rightarrow> u32"
  assumes "JOURNAL_OFFSET \<le> flen (dm_file (gc_disk st))" and "\<forall>i \<in> set is. i < MAX_SNAPSHOT_SLOTS"
  defines "st' \<equiv> foldl (gc_slot crc) st is"
  shows "\<forall>j < MAX_SNAPSHOT_SLOTS. (valid_at crc (gc_disk st') j \<longleftrightarrow> valid_at crc (gc_disk st) j \<and> j \<notin> set is)
      \<and> (j \<notin> set is \<longrightarrow> snapshot_at crc (gc_disk st') j = snapshot_at crc (gc_disk st) j)"
    and "flen (dm_file (gc_disk st')) = flen (dm_file (gc_disk st))" and "gc_removed st' = gc_removed st + length is"
proof -
  have "(\<forall>j < MAX_SNAPSHOT_SLOTS. (valid_at crc (gc_disk st') j \<longleftrightarrow> valid_at crc (gc_disk st) j \<and> j \<notin> set is)
      \<and> (j \<notin> set is \<longrightarrow> snapshot_at crc (gc_disk st') j = snapshot_at crc (gc_disk st) j))
    \<and> flen (dm_file (gc_disk st')) = flen (dm_file (gc_disk st)) \<and> gc_removed st' = gc_removed st + length is"
    using assms(1,2) unfolding st'_def
  proof (induction "is" arbitrary: st)
    case (Cons i "is")
    have i: "i < MAX_SNAPSHOT_SLOTS" using Cons.prems(2) by simp
    note g = gc_slot_at [OF Cons.prems(1) i, of _ crc]
    have "JOURNAL_OFFSET \<le> flen (dm_file (gc_disk (gc_slot crc st i)))" using Cons.prems(1) g(2) [OF i] by simp
    from Cons.IH [OF this] Cons.prems(2) show ?case
      using g(1) g(2,3) [OF i] by (auto simp: snapshot_is_valid_def)
  qed simp
  then show "\<forall>j < MAX_SNAPSHOT_SLOTS. (valid_at crc (gc_disk st') j \<longleftrightarrow> valid_at crc (gc_disk st) j \<and> j \<notin> set is)
      \<and> (j \<notin> set is \<longrightarrow> snapshot_at crc (gc_disk st') j = snapshot_at crc (gc_disk st) j)"
    and "flen (dm_file (gc_disk st')) = flen (dm_file (gc_disk st))" and "gc_removed st' = gc_removed st + length is"
    by blast+
qed

lemma gc_slots_table: "dm_inode_table (gc_disk (foldl (gc_slot crc) st is)) = dm_inode_table (gc_disk st)"
proof (induction "is" arbitrary: st)
  case (Cons i "is")
  have "dm_inode_table (gc_disk (gc_slot crc st i)) = dm_inode_table (gc_disk st)"
    by (simp add: gc_slot_def write_snapshot_def free_data_def split: sum.splits)
  with Cons show ?case by simp
qed simp

lemma gc_files_table:
  "gc_files crc keep xs st = Some st' \<Longrightarrow> dm_inode_table (gc_disk st') = dm_inode_table (gc_disk st)"
proof (induction xs arbitrary: st)
  case (Cons x xs)
  then obtain st1 where one: "gc_file crc keep (snd x) st = Some st1" "gc_files crc keep xs st1 = Some st'"
    by (auto split: bind_split_asm)
  then have "dm_inode_table (gc_disk st1) = dm_inode_table (gc_disk st)"
    by (auto simp: gc_file_def gc_slots_table split: if_splits)
  with Cons.IH [OF one(2)] show ?case by simp
qed simp

text \<open>A flush leaves the snapshot table alone.\<close>

lemma snapshot_at_flush:
  assumes "length (it_blocks (dm_inode_table d)) = MAX_INODE_BLOCKS" and "4096 \<le> flen (dm_file d)"
    and "dm_file d' = dm_file (dm_flush crc d)"
  shows "snapshot_at crc d' i = snapshot_at crc d i"
proof -
  have "fread (dm_file d') (snapshot_slot_offset i) 512 = fread (dm_file d) (snapshot_slot_offset i) 512"
    unfolding assms(3) using flush_ok(4,5) [where crc = crc, OF assms(1,2)] slot_in_table(2) [of i]
    by (simp add: fread_def)
  then show ?thesis by (simp add: snapshot_at_def read_snapshot_def read_bytes_def SNAPSHOT_BYTES_def)
qed

text \<open>The slots a collection of one file removes.\<close>

definition gc_drops :: "(bytes \<Rightarrow> u32) \<Rightarrow> nat \<Rightarrow> disk_manager \<Rightarrow> nat list \<Rightarrow> nat list" where
  "gc_drops crc keep d slots = drop keep (sort_desc (slot_time crc d) slots)"

lemma gc_file_runs:
  assumes "JOURNAL_OFFSET \<le> flen (dm_file (gc_disk st))" and "\<forall>i \<in> set slots. i < MAX_SNAPSHOT_SLOTS"
  shows "gc_file crc keep slots st = Some (foldl (gc_slot crc) st (gc_drops crc keep (gc_disk st) slots))"
proof -
  have "\<not> list_ex (\<lambda>i. case read_snapshot crc i (gc_disk st) of Inr _ \<Rightarrow> False | Inl _ \<Rightarrow> True) slots"
    using assms(2) read_snapshot_at(1) [OF assms(1)] by (auto simp: list_ex_iff)
  then show ?thesis
    by (auto simp: gc_file_def sort_slots_def gc_drops_def)
qed

lemma gc_drops_cong:
  assumes "\<forall>i \<in> set slots. snapshot_at crc d i = snapshot_at crc d' i"
    and "JOURNAL_OFFSET \<le> flen (dm_file d)" and "JOURNAL_OFFSET \<le> flen (dm_file d')"
    and "\<forall>i \<in> set slots. i < MAX_SNAPSHOT_SLOTS"
  shows "gc_drops crc keep d slots = gc_drops crc keep d' slots"
proof -
  have "slot_time crc d i = slot_time crc d' i" if "i \<in> set slots" for i
    using assms that by (simp add: slot_time_def read_snapshot_at)
  then show ?thesis using sort_desc_cong by (fastforce simp: gc_drops_def)
qed

lemma gc_drops_subset: "set (gc_drops crc keep d slots) \<subseteq> set slots"
  unfolding gc_drops_def using set_drop_subset by fastforce

lemma distinct_keys_apart: "distinct (map fst xs) \<Longrightarrow> sorted_wrt (\<lambda>a b. fst a \<noteq> fst b) xs"
  by (induction xs) (auto simp: image_iff)

lemma gc_files_at:
  assumes "JOURNAL_OFFSET \<le> flen (dm_file (gc_disk st))"
    and "\<forall>x \<in> set xs. \<forall>i \<in> set (snd x). i < MAX_SNAPSHOT_SLOTS"
    and "sorted_wrt (\<lambda>a b. set (snd a) \<inter> set (snd b) = {}) xs"
  shows "\<exists>st'. gc_files crc keep xs st = Some st'
    \<and> flen (dm_file (gc_disk st')) = flen (dm_file (gc_disk st))
    \<and> gc_removed st' = gc_removed st + (\<Sum>x \<leftarrow> xs. length (gc_drops crc keep (gc_disk st) (snd x)))
    \<and> (\<forall>j < MAX_SNAPSHOT_SLOTS. valid_at crc (gc_disk st') j
        \<longleftrightarrow> valid_at crc (gc_disk st) j \<and> (\<forall>x \<in> set xs. j \<notin> set (gc_drops crc keep (gc_disk st) (snd x))))"
  using assms
proof (induction xs arbitrary: st)
  case (Cons x xs)
  let ?drops = "gc_drops crc keep (gc_disk st) (snd x)" and ?d = "gc_disk st"
  let ?st = "foldl (gc_slot crc) st ?drops"
  have slots: "\<forall>i \<in> set (snd x). i < MAX_SNAPSHOT_SLOTS" using Cons.prems(2) by simp
  then have drops: "\<forall>i \<in> set ?drops. i < MAX_SNAPSHOT_SLOTS" using gc_drops_subset by fast
  note g = gc_slots_at [OF Cons.prems(1) drops, where crc = crc]
  have big: "JOURNAL_OFFSET \<le> flen (dm_file (gc_disk ?st))" using Cons.prems(1) g(2) by simp
  have same: "gc_drops crc keep (gc_disk ?st) (snd y) = gc_drops crc keep ?d (snd y)" if "y \<in> set xs" for y
  proof (rule gc_drops_cong [OF _ big Cons.prems(1)])
    show "\<forall>i \<in> set (snd y). i < MAX_SNAPSHOT_SLOTS" using Cons.prems(2) that by simp
    have "set (snd y) \<inter> set ?drops = {}"
      using Cons.prems(3) that gc_drops_subset [of crc keep ?d "snd x"] by auto
    moreover have "\<forall>i \<in> set (snd y). i < MAX_SNAPSHOT_SLOTS" using Cons.prems(2) that by simp
    ultimately show "\<forall>i \<in> set (snd y). snapshot_at crc (gc_disk ?st) i = snapshot_at crc ?d i"
      using g(1) by blast
  qed
  have rest: "\<forall>x \<in> set xs. \<forall>i \<in> set (snd x). i < MAX_SNAPSHOT_SLOTS"
    "sorted_wrt (\<lambda>a b. set (snd a) \<inter> set (snd b) = {}) xs"
    using Cons.prems(2,3) by simp_all
  obtain st' where st': "gc_files crc keep xs ?st = Some st'" "flen (dm_file (gc_disk st')) = flen (dm_file (gc_disk ?st))"
    "gc_removed st' = gc_removed ?st + (\<Sum>x \<leftarrow> xs. length (gc_drops crc keep (gc_disk ?st) (snd x)))"
    "\<forall>j < MAX_SNAPSHOT_SLOTS. valid_at crc (gc_disk st') j
        \<longleftrightarrow> valid_at crc (gc_disk ?st) j \<and> (\<forall>x \<in> set xs. j \<notin> set (gc_drops crc keep (gc_disk ?st) (snd x)))"
    using Cons.IH [OF big rest] by (elim exE conjE) (rule that)
  have "(\<Sum>x \<leftarrow> xs. length (gc_drops crc keep (gc_disk ?st) (snd x))) = (\<Sum>x \<leftarrow> xs. length (gc_drops crc keep ?d (snd x)))"
    by (intro arg_cong [where f = sum_list] map_cong refl) (simp only: same)
  note st'(3) [unfolded this]
  moreover have "gc_files crc keep (x # xs) st = Some st'"
    using st'(1) gc_file_runs [OF Cons.prems(1) slots, of crc keep] by simp
  moreover have "\<forall>j < MAX_SNAPSHOT_SLOTS. valid_at crc (gc_disk st') j
      \<longleftrightarrow> valid_at crc ?d j \<and> (\<forall>y \<in> set (x # xs). j \<notin> set (gc_drops crc keep ?d (snd y)))"
    using st'(4) g(1) same by simp
  ultimately show ?case using st'(2) g(2,3) by (intro exI [of _ st']) simp
qed simp

section \<open>What a restore does\<close>

lemma alloc_data_fields:
  "alloc_data n d = (off, d') \<Longrightarrow> dm_file d' = dm_file d \<and> dm_journal d' = dm_journal d
    \<and> it_blocks (dm_inode_table d') = it_blocks (dm_inode_table d)"
  by (auto simp: alloc_data_def Let_def split: option.splits if_splits prod.splits)

text \<open>A number past the capacity of the table reads as an empty inode.\<close>

lemma dm_read_beyond:
  assumes "it_inv (dm_inode_table d) (dm_file d)" and "\<not> i < inode_capacity d" and "i < MAX_FILES"
  shows "dm_read_inode crc i d = Inr inode_empty"
proof -
  have "inode_offset (dm_inode_table d) i = None"
    using assms by (intro inode_offset_beyond) (simp_all add: inode_capacity_def)
  then show ?thesis using assms(3) by (simp add: dm_read_inode_def it_read_inode_def)
qed

lemma inode_named_slot:
  assumes "inode_named crc filename d = Some (i, n)" and "it_inv (dm_inode_table d) (dm_file d)"
  shows "i < inode_capacity d" and "dm_read_inode crc i d = Inr n" and "inode_wf n" and "i < MAX_FILES"
proof -
  have rd: "(i, n) \<in> set (readable_slots r is) \<Longrightarrow> i \<in> set is \<and> r i = Inr n" for r :: "nat \<Rightarrow> inode_raw disk_result" and "is"
    by (induction "is") (auto split: sum.splits)
  have "(i, n) \<in> set (inode_slots crc d)"
    using assms(1) unfolding inode_named_def find_Some_iff by (metis nth_mem)
  then have i: "i < MAX_FILES" and n: "dm_read_inode crc i d = Inr n" and v: "inode_is_valid n"
    by (auto simp: inode_slots_def dest: rd)
  then show "i < MAX_FILES" "dm_read_inode crc i d = Inr n" by simp_all
  show cap: "i < inode_capacity d"
  proof (rule ccontr)
    assume "\<not> i < inode_capacity d"
    then have "n = inode_empty" using dm_read_beyond [OF assms(2) _ i, of crc] n by simp
    with v show False by (simp add: inode_is_valid_def inode_empty_def)
  qed
  show "inode_wf n"
    using it_read_total [OF assms(2), of i crc] cap n i by (auto simp: dm_read_inode_def inode_capacity_def)
qed

text \<open>Allocating, writing the data and writing the inode, seen on the bytes of the flushed image.\<close>

lemma restored_image:
  assumes "journal_holds crc (dm_file d) (dm_journal d) es" and "data \<noteq> []"
    and "length es + length (chunks JOURNAL_PAYLOAD_SIZE data) + 1 \<le> MAX_JOURNAL_ENTRIES"
    and "it_inv (dm_inode_table d) (dm_file d)" and "blocks_ok (dm_inode_table d)"
    and "i < inode_capacity d" and "inode_wf n" and "JOURNAL_END \<le> unat off"
    and "dm_file d1 = dm_file d" and "dm_journal d1 = dm_journal d"
    and "it_blocks (dm_inode_table d1) = it_blocks (dm_inode_table d)"
  obtains d2 d3 where "write_file_data crc off data d1 = (Inr (), d2)" and "dm_write_inode crc i n d2 = (Inr (), d3)"
    and "flen (dm_file (dm_flush crc d3)) = flen (fwrite (dm_file d) (unat off) data)"
    and "\<forall>k. 4096 \<le> k \<and> (k < JOURNAL_OFFSET \<or> JOURNAL_END \<le> k) \<longrightarrow> fget (dm_file (dm_flush crc d3)) k
      = fget (fwrite (fwrite (dm_file d) (unat off) data) (slot_pos (dm_inode_table d) i) (inode_to_bytes crc n)) k"
proof -
  let ?t = "dm_inode_table d" and ?f = "fwrite (dm_file d) (unat off) data"
  obtain d2 es2 where d2: "write_file_data crc off data d1 = (Inr (), d2)"
    "journal_holds crc (dm_file d2) (dm_journal d2) es2" "\<not> needs_checkpoint (dm_journal d2)"
    "\<forall>k. k < JOURNAL_OFFSET \<or> JOURNAL_END \<le> k \<longrightarrow> fget (dm_file d2) k = fget ?f k"
    "flen (dm_file d2) = flen ?f" "dm_inode_table d2 = dm_inode_table d1"
    using write_file_data_ok [of crc d1 es data off] assms(1-3,8-10) by metis
  have room: "length es2 + 2 \<le> MAX_JOURNAL_ENTRIES"
    using d2(2,3) by (simp add: needs_checkpoint_def journal_holds_def MAX_JOURNAL_ENTRIES_def)
  have same: "it_blocks (dm_inode_table d2) = it_blocks ?t" using d2(6) assms(11) by simp
  note pos = slot_pos_blocks [OF same]
  have "flen (dm_file d) \<le> flen (dm_file d2)" unfolding d2(5) by (rule flen_fwrite_mono)
  then have inv: "it_inv (dm_inode_table d2) (dm_file d2)"
    using it_inv_flen [OF assms(4)] it_inv_blocks [OF same] by simp
  have blocks: "blocks_ok (dm_inode_table d2)"
    using assms(5) same by (simp add: blocks_ok_def block_count_def block_start_def)
  have cap: "i < inode_capacity d2" using assms(6) pos by (simp add: inode_capacity_def)
  obtain d3 where d3: "dm_write_inode crc i n d2 = (Inr (), d3)"
    "\<forall>k. k < JOURNAL_OFFSET \<or> JOURNAL_END \<le> k \<longrightarrow> fget (dm_file d3) k
       = fget (fwrite (dm_file d2) (slot_pos (dm_inode_table d2) i) (inode_to_bytes crc n)) k"
    "flen (dm_file d3) = flen (dm_file d2)" "dm_inode_table d3 = dm_inode_table d2"
    by (rule write_inode_ok [OF d2(2) room inv blocks cap assms(7)])
  have shape: "length (it_blocks (dm_inode_table d3)) = MAX_INODE_BLOCKS" using inv d3(4) by (simp add: it_inv_def)
  have big: "4096 \<le> flen (dm_file d3)"
    using inode_offset_inside(2,3) [OF assms(4), of i] assms(6) \<open>flen (dm_file d) \<le> flen (dm_file d2)\<close> d3(3)
    by (simp add: inode_capacity_def)
  note fl = flush_ok(4,5) [OF shape big, where crc = crc]
  show thesis
  proof (rule that [OF d2(1) d3(1)])
    show "flen (dm_file (dm_flush crc d3)) = flen ?f" using fl(2) d3(3) d2(5) by simp
    show "\<forall>k. 4096 \<le> k \<and> (k < JOURNAL_OFFSET \<or> JOURNAL_END \<le> k) \<longrightarrow> fget (dm_file (dm_flush crc d3)) k
      = fget (fwrite ?f (slot_pos ?t i) (inode_to_bytes crc n)) k"
    proof (intro allI impI)
      fix k assume k: "4096 \<le> k \<and> (k < JOURNAL_OFFSET \<or> JOURNAL_END \<le> k)"
      then have "fget (dm_file (dm_flush crc d3)) k = fget (dm_file d3) k" using fl(1) by blast
      moreover have "fget (dm_file d3) k = fget (fwrite (dm_file d2) (slot_pos ?t i) (inode_to_bytes crc n)) k"
        using d3(2) [rule_format, OF conjunct2 [OF k]] pos by simp
      moreover have "fget (dm_file d2) k = fget ?f k" using d2(4) k by blast
      ultimately show "fget (dm_file (dm_flush crc d3)) k = fget (fwrite ?f (slot_pos ?t i) (inode_to_bytes crc n)) k"
        by (simp only: fget_fwrite)
    qed
  qed
qed

definition slot_range :: "inode_table \<Rightarrow> nat \<Rightarrow> nat set" where
  "slot_range t j = {slot_pos t j ..< slot_pos t j + INODE_BYTES}"

lemma it_read_stored:
  assumes "it_inv t f" and "i < it_capacity t" and "inode_wf n"
    and "\<And>k. k \<in> slot_range t i \<Longrightarrow> fget f k = inode_to_bytes crc n ! (k - slot_pos t i)"
  shows "it_read_inode crc t f i = Inr n"
proof -
  have "map (fget f) [slot_pos t i..<slot_pos t i + INODE_BYTES] = inode_to_bytes crc n"
    using assms(4) by (intro nth_equalityI) (auto simp: length_inode_bytes [OF assms(3)] INODE_BYTES_def slot_range_def)
  then show ?thesis by (simp add: it_read_pos [OF assms(1,2)] inode.dec_enc [OF assms(3)])
qed

lemma read_snapshot_stored:
  assumes "i < MAX_SNAPSHOT_SLOTS" and "snapshot_wf s" and "snapshot_slot_offset i + 512 \<le> flen (dm_file d)"
    and "\<And>k. snapshot_slot_offset i \<le> k \<Longrightarrow> k < snapshot_slot_offset i + 512
      \<Longrightarrow> fget (dm_file d) k = snapshot_to_bytes crc s ! (k - snapshot_slot_offset i)"
  shows "read_snapshot crc i d = Inr s"
proof -
  have "map (fget (dm_file d)) [snapshot_slot_offset i..<snapshot_slot_offset i + 512] = snapshot_to_bytes crc s"
    using assms(4) by (intro nth_equalityI) (auto simp: snapshot.enc_width [OF assms(2)])
  then show ?thesis
    using assms(1,3) by (simp add: read_snapshot_def read_bytes_def fread_def SNAPSHOT_BYTES_def snapshot.dec_enc [OF assms(2)])
qed

section \<open>Properties\<close>

text \<open>The valid slots of a file, in the order of the table, and the ones a collection keeps.\<close>

definition slots_of :: "(bytes \<Rightarrow> u32) \<Rightarrow> disk_manager \<Rightarrow> u64 \<Rightarrow> nat list" where
  "slots_of crc d ino = map fst (filter (\<lambda>(i, s). sn_ino s = ino) (snapshot_slots crc d))"

definition kept_slots :: "(bytes \<Rightarrow> u32) \<Rightarrow> nat \<Rightarrow> disk_manager \<Rightarrow> u64 \<Rightarrow> nat list" where
  "kept_slots crc keep d ino = take keep (sort_desc (slot_time crc d) (slots_of crc d ino))"

lemma slots_of_iff:
  assumes "JOURNAL_OFFSET \<le> flen (dm_file d)"
  shows "i \<in> set (slots_of crc d ino) \<longleftrightarrow> i < MAX_SNAPSHOT_SLOTS \<and> valid_at crc d i \<and> sn_ino (snapshot_at crc d i) = ino"
    and "distinct (slots_of crc d ino)"
proof -
  have eq: "slots_of crc d ino
      = filter (\<lambda>i. valid_at crc d i \<and> sn_ino (snapshot_at crc d i) = ino) [0..<MAX_SNAPSHOT_SLOTS]"
    by (simp add: slots_of_def snapshot_slots_at [OF assms] filter_map comp_def filter_filter conj_commute)
  show "i \<in> set (slots_of crc d ino) \<longleftrightarrow> i < MAX_SNAPSHOT_SLOTS \<and> valid_at crc d i \<and> sn_ino (snapshot_at crc d i) = ino"
    and "distinct (slots_of crc d ino)"
    by (auto simp: eq)
qed

lemma gc_drops_ino:
  assumes "JOURNAL_OFFSET \<le> flen (dm_file d)" and "i \<in> set (gc_drops crc keep d (slots_of crc d ino))"
  shows "sn_ino (snapshot_at crc d i) = ino"
  using subsetD [OF gc_drops_subset assms(2)] by (simp add: slots_of_iff(1) [OF assms(1)])

lemma distinct_concat_apart:
  "sorted_wrt (\<lambda>a b. set (g a) \<inter> set (g b) = {}) xs \<Longrightarrow> \<forall>x \<in> set xs. distinct (g x) \<Longrightarrow> distinct (concat (map g xs))"
  by (induction xs) auto

text \<open>The slots of each file, as the collection visits them.\<close>

definition gc_groups :: "(bytes \<Rightarrow> u32) \<Rightarrow> disk_manager \<Rightarrow> (u64 \<times> nat list) list" where
  "gc_groups crc d = map (\<lambda>(ino, xs). (ino, map fst xs)) (group_by (\<lambda>(i, s). sn_ino s) (snapshot_slots crc d))"

lemma gc_groups_slots: "x \<in> set (gc_groups crc d) \<Longrightarrow> snd x = slots_of crc d (fst x)"
proof -
  let ?groups = "group_by (\<lambda>(i, s). sn_ino s) (snapshot_slots crc d)"
  assume "x \<in> set (gc_groups crc d)"
  then obtain ys where ys: "(fst x, ys) \<in> set ?groups" "snd x = map fst ys" by (auto simp: gc_groups_def)
  then have "hm_get ?groups (fst x) = Some ys" by (simp add: hm_get_Some_iff)
  then show ?thesis using ys(2) by (auto simp: hm_get_group_by slots_of_def case_prod_unfold split: if_splits)
qed

lemma gc_groups_keys:
  assumes "JOURNAL_OFFSET \<le> flen (dm_file d)" and "i < MAX_SNAPSHOT_SLOTS" and "valid_at crc d i"
  shows "\<exists>x \<in> set (gc_groups crc d). fst x = sn_ino (snapshot_at crc d i)"
proof -
  let ?groups = "group_by (\<lambda>(i, s). sn_ino s) (snapshot_slots crc d)"
  have "i \<in> set (slots_of crc d (sn_ino (snapshot_at crc d i)))" using assms slots_of_iff(1) [OF assms(1)] by simp
  then have "hm_get ?groups (sn_ino (snapshot_at crc d i)) \<noteq> None"
    by (auto simp: hm_get_group_by slots_of_def case_prod_unfold intro: rev_image_eqI)
  then obtain ys where "(sn_ino (snapshot_at crc d i), ys) \<in> set ?groups" by (auto simp: hm_get_Some_iff)
  then show ?thesis by (intro bexI [of _ "(sn_ino (snapshot_at crc d i), map fst ys)"]) (force simp: gc_groups_def)+
qed

lemma gc_groups_apart:
  assumes "JOURNAL_OFFSET \<le> flen (dm_file d)"
  shows "sorted_wrt (\<lambda>a b. set (snd a) \<inter> set (snd b) = {}) (gc_groups crc d)"
proof -
  have "distinct (map fst (gc_groups crc d))"
    using hm_wf_group_by [of "\<lambda>(i, s). sn_ino s" "snapshot_slots crc d"]
    by (simp add: gc_groups_def hm_wf_def case_prod_unfold comp_def)
  then have "sorted_wrt (\<lambda>a b. fst a \<noteq> fst b) (gc_groups crc d)" by (rule distinct_keys_apart)
  then show ?thesis
    by (rule sorted_wrt_mono_rel [rotated]) (auto simp: gc_groups_slots slots_of_iff(1) [OF assms])
qed

lemma kept_or_dropped:
  assumes "JOURNAL_OFFSET \<le> flen (dm_file d)"
  shows "set (kept_slots crc keep d ino) \<union> set (gc_drops crc keep d (slots_of crc d ino)) = set (slots_of crc d ino)"
    and "set (kept_slots crc keep d ino) \<inter> set (gc_drops crc keep d (slots_of crc d ino)) = {}"
    and "distinct (gc_drops crc keep d (slots_of crc d ino))"
  using slots_of_iff(2) [OF assms]
  by (simp_all add: kept_slots_def gc_drops_def set_take_disj_set_drop_if_distinct flip: set_append)

text \<open>A valid slot survives the collection of every file exactly when its own file keeps it.\<close>

lemma gc_groups_kept:
  assumes big: "JOURNAL_OFFSET \<le> flen (dm_file d)" and i: "i < MAX_SNAPSHOT_SLOTS" "valid_at crc d i"
  shows "(\<forall>x \<in> set (gc_groups crc d). i \<notin> set (gc_drops crc keep d (snd x)))
    \<longleftrightarrow> i \<in> set (kept_slots crc keep d (sn_ino (snapshot_at crc d i)))"
proof -
  let ?ino = "sn_ino (snapshot_at crc d i)"
  have drops: "i \<in> set (gc_drops crc keep d (snd x)) \<longleftrightarrow> fst x = ?ino \<and> i \<in> set (gc_drops crc keep d (slots_of crc d ?ino))"
    if "x \<in> set (gc_groups crc d)" for x
    using gc_drops_ino [OF big, of i crc keep "fst x"] unfolding gc_groups_slots [OF that] by metis
  obtain x where "x \<in> set (gc_groups crc d)" "fst x = ?ino" using gc_groups_keys [OF big i] by blast
  then have "(\<forall>x \<in> set (gc_groups crc d). i \<notin> set (gc_drops crc keep d (snd x)))
      \<longleftrightarrow> i \<notin> set (gc_drops crc keep d (slots_of crc d ?ino))"
    using drops by metis
  also have "\<dots> \<longleftrightarrow> i \<in> set (kept_slots crc keep d ?ino)"
    using kept_or_dropped [OF big, of crc keep ?ino] slots_of_iff(1) [OF big] i by auto
  finally show ?thesis .
qed

lemma gc_groups_gone:
  assumes big: "JOURNAL_OFFSET \<le> flen (dm_file d)"
  shows "distinct (concat (map (\<lambda>x. gc_drops crc keep d (snd x)) (gc_groups crc d)))"
proof (rule distinct_concat_apart)
  show "sorted_wrt (\<lambda>a b. set (gc_drops crc keep d (snd a)) \<inter> set (gc_drops crc keep d (snd b)) = {}) (gc_groups crc d)"
    by (rule sorted_wrt_mono_rel [OF _ gc_groups_apart [OF big]]) (use gc_drops_subset in blast)
  show "\<forall>x \<in> set (gc_groups crc d). distinct (gc_drops crc keep d (snd x))"
    using gc_groups_slots kept_or_dropped(3) [OF big] by simp
qed

text \<open>C19: A collection ends without a panic and leaves, of the valid snapshots of each file, exactly the
  \<open>keep\<close> newest ones; what it reports is the number of snapshots that are gone.\<close>

theorem snap_gc_keeps_newest:
  assumes "dm_open crc f = (Inr d, g)"
  shows "\<exists>removed freed f'. snap_gc crc keep f = Some (Inr (removed, freed), f')
    \<and> (\<forall>i < MAX_SNAPSHOT_SLOTS. valid_at crc (d\<lparr>dm_file := f'\<rparr>) i
        \<longleftrightarrow> valid_at crc d i \<and> i \<in> set (kept_slots crc keep d (sn_ino (snapshot_at crc d i))))
    \<and> removed = card {i. i < MAX_SNAPSHOT_SLOTS \<and> valid_at crc d i \<and> \<not> valid_at crc (d\<lparr>dm_file := f'\<rparr>) i}"
proof -
  let ?gs = "gc_groups crc d" and ?st = "\<lparr>gc_disk = d, gc_removed = 0, gc_bytes_freed = 0\<rparr>"
  have big: "JOURNAL_OFFSET \<le> flen (dm_file d)" by (rule opened_snapshots [OF assms])
  have small: "\<forall>x \<in> set ?gs. \<forall>i \<in> set (snd x). i < MAX_SNAPSHOT_SLOTS"
    using gc_groups_slots slots_of_iff(1) [OF big] by auto
  obtain st' where st': "gc_files crc keep ?gs ?st = Some st'" "flen (dm_file (gc_disk st')) = flen (dm_file d)"
    "gc_removed st' = (\<Sum>x \<leftarrow> ?gs. length (gc_drops crc keep d (snd x)))"
    "\<forall>j < MAX_SNAPSHOT_SLOTS. valid_at crc (gc_disk st') j
        \<longleftrightarrow> valid_at crc d j \<and> (\<forall>x \<in> set ?gs. j \<notin> set (gc_drops crc keep d (snd x)))"
    using gc_files_at [of ?st ?gs crc keep] big small gc_groups_apart [OF big] by auto
  define f' where "f' = dm_file (dm_flush crc (gc_disk st'))"
  have run: "snap_gc crc keep f = Some (Inr (gc_removed st', gc_bytes_freed st'), f')"
    using assms st'(1) by (simp add: snap_gc_def f'_def gc_groups_def)
  have "dm_inode_table (gc_disk st') = dm_inode_table d" using gc_files_table [OF st'(1)] by simp
  then have "snapshot_at crc (d\<lparr>dm_file := f'\<rparr>) i = snapshot_at crc (gc_disk st') i" for i
    using dm_open_shape [OF assms] st'(2) by (intro snapshot_at_flush) (simp_all add: f'_def)
  then have valid: "valid_at crc (d\<lparr>dm_file := f'\<rparr>) i
      \<longleftrightarrow> valid_at crc d i \<and> (\<forall>x \<in> set ?gs. i \<notin> set (gc_drops crc keep d (snd x)))" if "i < MAX_SNAPSHOT_SLOTS" for i
    using st'(4) that by simp
  have inside: "i < MAX_SNAPSHOT_SLOTS \<and> valid_at crc d i" if "x \<in> set ?gs" "i \<in> set (gc_drops crc keep d (snd x))" for x i
    using that gc_drops_subset [of crc keep d "snd x"] slots_of_iff(1) [OF big] gc_groups_slots [OF that(1)] by fastforce
  have "set (concat (map (\<lambda>x. gc_drops crc keep d (snd x)) ?gs))
      = {i. i < MAX_SNAPSHOT_SLOTS \<and> valid_at crc d i \<and> \<not> valid_at crc (d\<lparr>dm_file := f'\<rparr>) i}"
    unfolding set_concat set_map UN_simps image_image using inside valid by (intro set_eqI) (simp, blast)
  then have "gc_removed st' = card {i. i < MAX_SNAPSHOT_SLOTS \<and> valid_at crc d i \<and> \<not> valid_at crc (d\<lparr>dm_file := f'\<rparr>) i}"
    using distinct_card [OF gc_groups_gone [OF big, of crc keep]] st'(3) by (simp add: length_concat comp_def)
  moreover have "\<forall>i < MAX_SNAPSHOT_SLOTS. valid_at crc (d\<lparr>dm_file := f'\<rparr>) i
      \<longleftrightarrow> valid_at crc d i \<and> i \<in> set (kept_slots crc keep d (sn_ino (snapshot_at crc d i)))"
    using valid gc_groups_kept [OF big, of _ crc keep] by (intro allI impI) (simp, blast)
  ultimately show ?thesis using run
    by (intro exI [of _ "gc_removed st'"] exI [of _ "gc_bytes_freed st'"] exI [of _ f']) blast
qed

theorem snap_gc_keeps_newest_witness:
  "\<exists>f removed freed f'. cmd_mkfs sum_crc 0 (Some 1) None = Some f
    \<and> snap_gc sum_crc 2 f = Some (Inr (removed, freed), f')"
proof -
  obtain f where f: "cmd_mkfs sum_crc 0 (Some 1) None = Some f" by (simp add: cmd_mkfs_def Let_def)
  then have eq: "f = dm_file (dm_flush sum_crc (dm_format sum_crc 0 1048576 (blank_file 1048576)))"
    by (simp add: cmd_mkfs_def Let_def)
  obtain d where "dm_open sum_crc f = (Inr d, dm_file d)"
    unfolding eq by (rule formatted_opens [of sum_crc 0 1048576 "blank_file 1048576"])
  from snap_gc_keeps_newest [OF this, of 2] f show ?thesis by blast
qed

text \<open>The two sides a diff shows.\<close>

definition old_side :: "diff_line list \<Rightarrow> rstring list" where
  "old_side out = concat (map (\<lambda>l. case l of Same x \<Rightarrow> [x] | Removed x \<Rightarrow> [x] | Added _ \<Rightarrow> []) out)"

definition new_side :: "diff_line list \<Rightarrow> rstring list" where
  "new_side out = concat (map (\<lambda>l. case l of Same x \<Rightarrow> [x] | Removed _ \<Rightarrow> [] | Added x \<Rightarrow> [x]) out)"

text \<open>The lines a diff shows as kept or removed are the old text, those shown as kept or added are the new
  one; the counts are of the added and removed lines, and both are zero exactly for equal texts.\<close>

theorem simple_diff_correct:
  "case simple_diff a b of (out, added, removed) \<Rightarrow>
     old_side out = a \<and> new_side out = b
     \<and> length a + added = length b + removed
     \<and> added = length (filter (\<lambda>l. \<exists>x. l = Added x) out) \<and> removed = length (filter (\<lambda>l. \<exists>x. l = Removed x) out)
     \<and> (added = 0 \<and> removed = 0 \<longleftrightarrow> a = b)"
  by (induction a b rule: simple_diff.induct) (auto simp: old_side_def new_side_def split: prod.splits)

text \<open>New data goes behind the journal, apart from everything live.\<close>

lemma allocated_apart:
  assumes "space_inv d live" and "unat (sb_next_data_offset (dm_superblock d)) + length data + 512 < 2 ^ 64"
    and "{..<DATA_OFFSET} \<subseteq> live" and "data \<noteq> []" and "alloc_data (length data) d = (off, d1)"
  shows "live \<inter> range_of off (of_nat (length data)) = {}" and "JOURNAL_END \<le> unat off"
proof -
  have len: "unat (of_nat (length data) :: u64) = length data" using assms(2) by (intro unat64_of_nat) simp
  show apart: "live \<inter> range_of off (of_nat (length data)) = {}"
    using alloc_data_space [OF assms(1,2,5)] by blast
  show "JOURNAL_END \<le> unat off"
  proof (rule ccontr)
    assume "\<not> JOURNAL_END \<le> unat off"
    then have "unat off \<in> live \<inter> range_of off (of_nat (length data))"
      using assms(3,4) len by (auto simp: range_of_def DATA_OFFSET_value)
    with apart show False by blast
  qed
qed

text \<open>Allocating, writing the data, writing the inode and flushing, as the tables and the data are read back.\<close>

lemma committed_file:
  assumes "journal_holds crc (dm_file d) (dm_journal d) es"
    and "length es + length (chunks JOURNAL_PAYLOAD_SIZE data) + 1 \<le> MAX_JOURNAL_ENTRIES"
    and "it_inv (dm_inode_table d) (dm_file d)" and "blocks_ok (dm_inode_table d)"
    and "space_inv d live" and "{..<DATA_OFFSET} \<subseteq> live"
    and "\<forall>j < inode_capacity d. slot_range (dm_inode_table d) j \<subseteq> live"
    and "unat (sb_next_data_offset (dm_superblock d)) + length data + 512 < 2 ^ 64" and "data \<noteq> []"
    and "i < inode_capacity d" and "i < MAX_FILES" and "alloc_data (length data) d = (off, d1)" and "inode_wf n"
  obtains d2 d3 where "write_file_data crc off data d1 = (Inr (), d2)" and "dm_write_inode crc i n d2 = (Inr (), d3)"
    and "live \<inter> range_of off (of_nat (length data)) = {}"
    and "read_file_data off (length data) (d\<lparr>dm_file := dm_file (dm_flush crc d3)\<rparr>) = Inr data"
    and "dm_read_inode crc i (d\<lparr>dm_file := dm_file (dm_flush crc d3)\<rparr>) = Inr n"
    and "\<forall>j < inode_capacity d. j \<noteq> i \<longrightarrow> dm_read_inode crc j (d\<lparr>dm_file := dm_file (dm_flush crc d3)\<rparr>) = dm_read_inode crc j d"
    and "\<forall>k \<in> live - slot_range (dm_inode_table d) i. DATA_OFFSET \<le> k \<longrightarrow> fget (dm_file (dm_flush crc d3)) k = fget (dm_file d) k"
    and "flen (dm_file d) \<le> flen (dm_file (dm_flush crc d3))"
proof -
  let ?t = "dm_inode_table d" and ?F = "dm_file d"
  note al = assms(12) and wf = assms(13)
  note a = alloc_data_fields [OF al]
  note apart = allocated_apart(1) [OF assms(5,8,6,9) al] and off = allocated_apart(2) [OF assms(5,8,6,9) al]
  have len: "unat (of_nat (length data) :: u64) = length data" using assms(8) by (intro unat64_of_nat) simp
  obtain d2 d3 where run: "write_file_data crc off data d1 = (Inr (), d2)" "dm_write_inode crc i n d2 = (Inr (), d3)"
    and flen: "flen (dm_file (dm_flush crc d3)) = flen (fwrite ?F (unat off) data)"
    and get: "\<forall>k. 4096 \<le> k \<and> (k < JOURNAL_OFFSET \<or> JOURNAL_END \<le> k) \<longrightarrow> fget (dm_file (dm_flush crc d3)) k
      = fget (fwrite (fwrite ?F (unat off) data) (slot_pos ?t i) (inode_to_bytes crc n)) k"
    using restored_image [OF assms(1,9,2,3,4,10) wf off] a by metis
  define f' where "f' = dm_file (dm_flush crc d3)"
  have leni: "length (inode_to_bytes crc n) = INODE_BYTES"
    by (simp add: length_inode_bytes [OF wf] INODE_BYTES_def)
  have mono: "flen ?F \<le> flen f'" unfolding f'_def flen by (rule flen_fwrite_mono)
  note inv' = it_inv_flen [OF assms(3) mono]
  have byte: "fget f' k = (if k \<in> slot_range ?t i then inode_to_bytes crc n ! (k - slot_pos ?t i)
      else if k \<in> range_of off (of_nat (length data)) then data ! (k - unat off) else fget ?F k)"
    if "4096 \<le> k" "k < JOURNAL_OFFSET \<or> JOURNAL_END \<le> k" for k
    using get that by (simp add: f'_def fget_fwrite leni range_of_def slot_range_def len)
  have slot: "4096 \<le> k \<and> (k < JOURNAL_OFFSET \<or> JOURNAL_END \<le> k) \<and> k \<notin> range_of off (of_nat (length data))"
    if "k \<in> slot_range ?t j" "j < inode_capacity d" for j k
  proof -
    have "k \<in> live" using assms(7) that by blast
    then have "k \<notin> range_of off (of_nat (length data))" using apart by blast
    then show ?thesis
      using that slot_outside_journal [OF assms(4), of j] inode_offset_inside(2) [OF assms(3), of j]
      by (auto simp: slot_range_def inode_capacity_def)
  qed
  have rest: "\<forall>k \<in> live - slot_range ?t i. DATA_OFFSET \<le> k \<longrightarrow> fget f' k = fget ?F k"
    using byte apart by (auto simp: DATA_OFFSET_value)
  have data: "read_file_data off (length data) (d\<lparr>dm_file := f'\<rparr>) = Inr data"
  proof -
    have "fget f' k = data ! (k - unat off)" if k: "k \<in> range_of off (of_nat (length data))" for k
      using byte [of k] slot [of k i] assms(10) off k by (auto simp: range_of_def JOURNAL_END_def journal_layout_defs)
    then have "fread f' (unat off) (length data) = fread (fwrite ?F (unat off) data) (unat off) (length data)"
      by (intro fread_cong) (simp_all add: f'_def flen fget_fwrite range_of_def len)
    then show ?thesis using read_vec_fwrite [of "length data" data ?F "unat off"]
      using assms(9) by (simp add: read_file_data_def read_vec_def)
  qed
  have inode: "dm_read_inode crc i (d\<lparr>dm_file := f'\<rparr>) = Inr n"
    using it_read_stored [OF inv' _ wf, of i crc] byte slot [OF _ assms(10)] assms(10,11)
    by (simp add: dm_read_inode_def inode_capacity_def)
  have others: "dm_read_inode crc j (d\<lparr>dm_file := f'\<rparr>) = dm_read_inode crc j d" if j: "j < inode_capacity d" "j \<noteq> i" for j
  proof -
    have "fget f' k = fget ?F k" if "k \<in> slot_range ?t j" for k
      using byte [of k] slot [OF that j(1)] that slot_pos_disjoint [OF assms(3), of i j] assms(10) j
      by (auto simp: slot_range_def inode_capacity_def)
    then show ?thesis
      using it_read_cong [OF inv' assms(3), of j crc] j(1) by (simp add: dm_read_inode_def inode_capacity_def slot_range_def)
  qed
  show thesis
    using that [OF run apart] data inode others rest mono unfolding f'_def by blast
qed

text \<open>C18: Restoring a version gives the file a new extent that overlaps no live byte, holding the data of
  the snapshot; its inode says so, every other inode reads as before, and no other live byte changes.\<close>

theorem snap_restore_correct:
  assumes "dm_open crc f = (Inr d, g)"
    and "journal_holds crc (dm_file d) (dm_journal d) es"
    and "length es + length (chunks JOURNAL_PAYLOAD_SIZE data) + 1 \<le> MAX_JOURNAL_ENTRIES"
    and "it_inv (dm_inode_table d) (dm_file d)" and "blocks_ok (dm_inode_table d)"
    and "space_inv d live" and "{..<DATA_OFFSET} \<subseteq> live"
    and "\<forall>j < inode_capacity d. slot_range (dm_inode_table d) j \<subseteq> live"
    and "unat (sb_next_data_offset (dm_superblock d)) + length data + 512 < 2 ^ 64"
    and "find (\<lambda>(k, s). snapshot_get_name s = filename \<and> sn_id s = version) (snapshot_slots crc d) = Some (k, s)"
    and "read_file_data (sn_data_offset s) (unat (sn_size s)) d = Inr data" and "data \<noteq> []"
    and "inode_named crc filename d = Some (i, n)"
  shows "\<exists>f' off. snap_restore crc filename version f = (Inr (length data), f')
    \<and> live \<inter> range_of off (of_nat (length data)) = {}
    \<and> read_file_data off (length data) (d\<lparr>dm_file := f'\<rparr>) = Inr data
    \<and> dm_read_inode crc i (d\<lparr>dm_file := f'\<rparr>) = Inr (n\<lparr>in_size := of_nat (length data), in_data_offset := off\<rparr>)
    \<and> (\<forall>j < inode_capacity d. j \<noteq> i \<longrightarrow> dm_read_inode crc j (d\<lparr>dm_file := f'\<rparr>) = dm_read_inode crc j d)
    \<and> (\<forall>k \<in> live - slot_range (dm_inode_table d) i. DATA_OFFSET \<le> k \<longrightarrow> fget f' k = fget (dm_file d) k)"
proof -
  note i = inode_named_slot [OF assms(13,4)]
  obtain off d1 where al: "alloc_data (length data) d = (off, d1)" by fastforce
  define n' where "n' = n\<lparr>in_size := of_nat (length data), in_data_offset := off\<rparr>"
  have wf: "inode_wf n'" using i(3) by (simp add: n'_def inode_wf_def)
  obtain d2 d3 where run: "write_file_data crc off data d1 = (Inr (), d2)" "dm_write_inode crc i n' d2 = (Inr (), d3)"
    and read: "live \<inter> range_of off (of_nat (length data)) = {}"
      "read_file_data off (length data) (d\<lparr>dm_file := dm_file (dm_flush crc d3)\<rparr>) = Inr data"
      "dm_read_inode crc i (d\<lparr>dm_file := dm_file (dm_flush crc d3)\<rparr>) = Inr n'"
      "\<forall>j < inode_capacity d. j \<noteq> i \<longrightarrow> dm_read_inode crc j (d\<lparr>dm_file := dm_file (dm_flush crc d3)\<rparr>) = dm_read_inode crc j d"
      "\<forall>k \<in> live - slot_range (dm_inode_table d) i. DATA_OFFSET \<le> k \<longrightarrow> fget (dm_file (dm_flush crc d3)) k = fget (dm_file d) k"
      "flen (dm_file d) \<le> flen (dm_file (dm_flush crc d3))"
    by (rule committed_file [OF assms(2-9,12) i(1,4) al wf])
  have "snap_restore crc filename version f = (Inr (length data), dm_file (dm_flush crc d3))"
    using assms(1,10,11,13) al run by (simp add: snap_restore_def n'_def)
  with read show ?thesis unfolding n'_def by blast
qed

text \<open>An image with one file and one snapshot of it, written straight into the tables.\<close>

definition sample_inode :: inode_raw where
  "sample_inode = inode_set_name [97] (inode_empty\<lparr>in_ino := 2, in_is_used := 1\<rparr>)"

definition sample_snapshot :: snapshot_raw where
  "sample_snapshot = snapshot_set_name [97] (snapshot_empty\<lparr>sn_magic := SNAP_MAGIC, sn_ino := 2, sn_size := 3,
     sn_data_offset := 700000, sn_id := 1, sn_is_used := 1\<rparr>)"

definition sample_image :: disk_manager where
  "sample_image = sample_disk\<lparr>dm_superblock := (dm_superblock sample_disk)\<lparr>sb_next_data_offset := 700512\<rparr>,
     dm_file := fwrite (fwrite (fwrite (dm_file sample_disk) 4096 (inode_to_bytes sum_crc sample_inode))
       (snapshot_slot_offset 0) (snapshot_to_bytes sum_crc sample_snapshot)) 700000 [1, 2, 3]\<rparr>"

lemma sample_records:
  "inode_wf sample_inode" "snapshot_wf sample_snapshot" "inode_get_name sample_inode = [97]"
  "snapshot_get_name sample_snapshot = [97]" "inode_is_valid sample_inode" "snapshot_is_valid SNAP_MAGIC sample_snapshot"
proof -
  have name: "decode_name (encode_name n [97]) = [97]" "encode_name n [97] ! 0 = 97" if "1 < n" for n
    using that decode_encode_name [of "[97]" n]
    by (simp_all add: name_char_def is_ascii_alphanumeric_def encode_name_append nth_append)
  show "inode_wf sample_inode" "snapshot_wf sample_snapshot"
    by (simp_all only: sample_inode_def sample_snapshot_def inode_wf_set_name snapshot_wf_set_name)
  show "inode_get_name sample_inode = [97]" "snapshot_get_name sample_snapshot = [97]"
    by (simp_all add: sample_inode_def sample_snapshot_def inode_get_name_def inode_set_name_def snapshot_get_name_def
        snapshot_set_name_def name)
  show "inode_is_valid sample_inode"
    by (simp add: inode_is_valid_def sample_inode_def inode_set_name_def name is_ascii_graphic_def)
  show "snapshot_is_valid SNAP_MAGIC sample_snapshot"
    by (simp add: snapshot_is_valid_def sample_snapshot_def snapshot_set_name_def)
qed

lemma sample_slots:
  assumes "dm_read_inode sum_crc 0 d = Inr sample_inode"
    and "\<And>j. 0 < j \<Longrightarrow> j < MAX_FILES \<Longrightarrow> \<exists>n. dm_read_inode sum_crc j d = Inr n \<and> in_is_used n = 0"
  shows "inode_slots sum_crc d = [(0, sample_inode)]"
proof -
  have "filter (\<lambda>(i, n). inode_is_valid n) (readable_slots (\<lambda>i. dm_read_inode sum_crc i d) js) = []"
    if "\<forall>j \<in> set js. 0 < j \<and> j < MAX_FILES" for js
    using that
  proof (induction js)
    case (Cons j js)
    then obtain n where "dm_read_inode sum_crc j d = Inr n" "in_is_used n = 0" using assms(2) [of j] by auto
    then show ?case using Cons by (simp add: inode_is_valid_def)
  qed simp
  then show ?thesis
    using assms(1) sample_records(5) upt_conv_Cons [of 0 MAX_FILES]
    by (simp add: inode_slots_def MAX_FILES_def inode_layout_defs)
qed

lemma sample_image_opens:
  obtains d where "dm_open sum_crc (dm_file (dm_flush sum_crc sample_image)) = (Inr d, dm_file d)"
    and "journal_holds sum_crc (dm_file d) (dm_journal d) []" and "it_inv (dm_inode_table d) (dm_file d)"
    and "blocks_ok (dm_inode_table d)" and "inode_capacity d = 1024" and "\<forall>j < 1024. slot_pos (dm_inode_table d) j = 4096 + j * 256"
    and "dm_free_list d = []" and "sb_next_data_offset (dm_superblock d) = 700512"
    and "dm_read_inode sum_crc 0 d = Inr sample_inode" and "read_snapshot sum_crc 0 d = Inr sample_snapshot"
    and "read_file_data 700000 3 d = Inr [1, 2, 3]" and "inode_slots sum_crc d = [(0, sample_inode)]"
    and "\<exists>n. dm_read_inode sum_crc 1 d = Inr n \<and> in_is_used n = 0"
proof -
  let ?F = "dm_file sample_disk" and ?t = "dm_inode_table sample_disk" and ?G = "dm_file sample_image"
  let ?i = "inode_to_bytes sum_crc sample_inode" and ?s = "snapshot_to_bytes sum_crc sample_snapshot"
  note S = sample_disk_ok
  have lens: "length ?i = 256" "length ?s = 512"
    using sample_records(1,2) by (simp_all add: length_inode_bytes snapshot.enc_width)
  have G: "?G = fwrite (fwrite (fwrite ?F 4096 ?i) (snapshot_slot_offset 0) ?s) 700000 [1, 2, 3]"
    by (simp add: sample_image_def)
  have pos: "snapshot_slot_offset 0 = 266240" "JOURNAL_OFFSET = 397312" "JOURNAL_END = 659520"
    by (simp_all add: snapshot_slot_offset_def disk_layout_defs inode_layout_defs journal_layout_defs JOURNAL_END_def)
  have get: "fget ?G k = (if 4096 \<le> k \<and> k < 4352 then ?i ! (k - 4096)
      else if 266240 \<le> k \<and> k < 266752 then ?s ! (k - 266240)
      else if 700000 \<le> k \<and> k < 700003 then [1, 2, 3] ! (k - 700000) else fget ?F k)" for k
    by (auto simp: G fget_fwrite lens pos)
  have mono: "flen ?F \<le> flen ?G" and end3: "700003 \<le> flen ?G"
    unfolding G by (auto simp: flen_fwrite intro: order.trans [OF flen_fwrite_mono flen_fwrite_mono])
  have same: "dm_journal sample_image = dm_journal sample_disk" "dm_inode_table sample_image = ?t"
    "dm_free_list sample_image = []" "sb_magic (dm_superblock sample_image) = MAGIC"
    "sb_next_data_offset (dm_superblock sample_image) = 700512"
    using S(5,7) by (simp_all add: sample_image_def)
  have holds: "journal_holds sum_crc ?G (dm_journal sample_image) []"
    unfolding same(1) by (rule journal_holds_elsewhere [OF S(1) _ mono]) (simp add: get pos)
  have inv: "it_inv (dm_inode_table sample_image) ?G" unfolding same(2) by (rule it_inv_flen [OF S(2) mono])
  obtain d where d: "dm_open sum_crc (dm_file (dm_flush sum_crc sample_image)) = (Inr d, dm_file d)"
    "dm_superblock d = (dm_superblock sample_image)\<lparr>sb_crc32 := sum_crc (superblock_body (dm_superblock sample_image))\<rparr>"
    "dm_free_list d = []" "it_blocks (dm_inode_table d) = it_blocks ?t"
    "journal_holds sum_crc (dm_file d) (dm_journal d) []" "flen ?G \<le> flen (dm_file d)"
    "\<forall>k. 4096 \<le> k \<and> (k < JOURNAL_OFFSET \<or> JOURNAL_END \<le> k) \<longrightarrow> fget (dm_file d) k = fget ?G k"
    by (rule reopen_flushed [OF holds _ inv]) (use S(6) same in \<open>auto simp: INODE_TABLE_OFFSET_def\<close>)
  have inv': "it_inv (dm_inode_table d) (dm_file d)"
    using it_inv_flen [OF inv d(6)] it_inv_blocks [OF d(4)] same(2) by simp
  have blocks: "blocks_ok (dm_inode_table d)"
    using S(3) d(4) by (simp add: blocks_ok_def block_count_def block_start_def)
  have cap: "inode_capacity d = 1024"
    using S(4) slot_pos_blocks [OF d(4)] by (simp add: inode_capacity_def)
  have slot: "slot_pos (dm_inode_table d) j = 4096 + j * 256" if "j < 1024" for j
    using that S(6) d(4) by (simp add: slot_pos_def block_start_def block_for_def slot_in_block_def INODES_PER_BLOCK_def INODE_BYTES_def)
  have ino: "dm_read_inode sum_crc 0 d = Inr sample_inode"
    using it_read_stored [OF inv' _ sample_records(1), of 0 sum_crc] d(7) cap slot [of 0]
    by (simp add: dm_read_inode_def inode_capacity_def slot_range_def INODE_BYTES_def MAX_FILES_def inode_layout_defs get pos)
  have "read_snapshot sum_crc 0 d = Inr sample_snapshot"
    by (rule read_snapshot_stored [OF _ sample_records(2)])
      (use d(6,7) end3 in \<open>auto simp: MAX_SNAPSHOT_SLOTS_def get pos\<close>)
  moreover have "read_file_data 700000 3 d = Inr [1, 2, 3]"
    using d(6,7) end3 by (simp add: read_file_data_def read_vec_def fread_def get pos upt_conv_Cons)
  moreover have unused: "\<exists>n. dm_read_inode sum_crc j d = Inr n \<and> in_is_used n = 0" if "0 < j" "j < MAX_FILES" for j
    by (rule zero_slot_unused [OF inv' _ _ that(2)])
      (use that d(4,7) S(6) dm_format_fields(2) [of _ sum_crc 0 1000000 "blank_file 1000000"] in
        \<open>auto simp: get pos simp flip: sample_disk_def\<close>)
  then have "inode_slots sum_crc d = [(0, sample_inode)]" using sample_slots ino by blast
  moreover have "\<exists>n. dm_read_inode sum_crc 1 d = Inr n \<and> in_is_used n = 0"
    by (rule unused) (simp_all add: MAX_FILES_def inode_layout_defs)
  ultimately show thesis
    using that [OF d(1,5) inv' blocks cap _ d(3)] slot ino d(2) same(5) by simp
qed

theorem snap_restore_correct_witness:
  "\<exists>f'. snap_restore sum_crc [97] 1 (dm_file (dm_flush sum_crc sample_image)) = (Inr 3, f')"
proof -
  obtain d where d: "dm_open sum_crc (dm_file (dm_flush sum_crc sample_image)) = (Inr d, dm_file d)"
    "journal_holds sum_crc (dm_file d) (dm_journal d) []" "it_inv (dm_inode_table d) (dm_file d)"
    "blocks_ok (dm_inode_table d)" "inode_capacity d = 1024" "\<forall>j < 1024. slot_pos (dm_inode_table d) j = 4096 + j * 256"
    "dm_free_list d = []" "sb_next_data_offset (dm_superblock d) = 700512"
    "dm_read_inode sum_crc 0 d = Inr sample_inode" "read_snapshot sum_crc 0 d = Inr sample_snapshot"
    "read_file_data 700000 3 d = Inr [1, 2, 3]" "inode_slots sum_crc d = [(0, sample_inode)]"
    "\<exists>n. dm_read_inode sum_crc 1 d = Inr n \<and> in_is_used n = 0"
    by (rule sample_image_opens)
  have space: "space_inv d {..<700512}" using d(7,8) by (simp add: space_inv_def fl_space_def)
  have slots: "\<forall>j < inode_capacity d. slot_range (dm_inode_table d) j \<subseteq> {..<700512}"
    by (auto simp: slot_range_def d(5,6) INODE_BYTES_def)
  have at: "snapshot_at sum_crc d 0 = sample_snapshot" using d(10) by (simp add: snapshot_at_def)
  have snap: "find (\<lambda>(k, s). snapshot_get_name s = [97] \<and> sn_id s = 1) (snapshot_slots sum_crc d) = Some (0, sample_snapshot)"
    unfolding snapshot_slots_at [OF opened_snapshots [OF d(1)]] using sample_records(4,6)
    by (simp add: upt_conv_Cons [of 0 256] MAX_SNAPSHOT_SLOTS_def at) (simp add: sample_snapshot_def snapshot_set_name_def)
  have ino: "inode_named sum_crc [97] d = Some (0, sample_inode)"
    using sample_records(3,5) d(9)
    by (simp add: inode_named_def inode_slots_def upt_conv_Cons [of 0 65536] MAX_FILES_def inode_layout_defs)
  have "chunks JOURNAL_PAYLOAD_SIZE [1, 2, 3 :: u8] = [[1, 2, 3]]"
    by (simp add: chunks.simps JOURNAL_PAYLOAD_SIZE_def)
  then have room: "length ([] :: journal_entry list) + length (chunks JOURNAL_PAYLOAD_SIZE [1, 2, 3 :: u8]) + 1 \<le> MAX_JOURNAL_ENTRIES"
    by (simp add: MAX_JOURNAL_ENTRIES_def)
  have rd: "read_file_data (sn_data_offset sample_snapshot) (unat (sn_size sample_snapshot)) d = Inr [1, 2, 3]"
    using d(11) by (simp add: sample_snapshot_def snapshot_set_name_def)
  have "\<exists>f' off. snap_restore sum_crc [97] 1 (dm_file (dm_flush sum_crc sample_image)) = (Inr (length [1 :: u8, 2, 3]), f')"
    using snap_restore_correct [OF d(1,2) room d(3,4) space _ slots _ snap rd _ ino] d(8)
    by (auto simp: DATA_OFFSET_value)
  then show ?thesis by (simp add: numeral_3_eq_3)
qed

end
