(* ===== verification/Access_Log.thy ===== *)
theory Access_Log
  imports Prelude
begin

text \<open>
  \<open>src/ai/logger.rs\<close>: the bounded log of file accesses. The clock is an argument. At the end
  \<open>src/allocator/mod.rs\<close>, a placeholder whose counters nothing moves.
\<close>

section \<open>Events\<close>

datatype access_kind = AccessOpen | AccessWrite | AccessRead | AccessClose | AccessDelete

record access_event =
  ae_ino :: u64
  ae_name :: rstring
  ae_kind :: access_kind
  ae_timestamp :: u64
  ae_duration_secs :: u64
  ae_size_bytes :: u64

definition event_now :: "u64 \<Rightarrow> u64 \<Rightarrow> rstring \<Rightarrow> access_kind \<Rightarrow> u64 \<Rightarrow> access_event" where
  "event_now now ino name kind size_bytes =
     \<lparr>ae_ino = ino, ae_name = name, ae_kind = kind, ae_timestamp = now, ae_duration_secs = 0,
      ae_size_bytes = size_bytes\<rparr>"

definition is_recent :: "u64 \<Rightarrow> u64 \<Rightarrow> access_event \<Rightarrow> bool" where
  "is_recent now within_secs e \<longleftrightarrow> sat_sub now (ae_timestamp e) \<le> within_secs"

definition is_yesterday :: "u64 \<Rightarrow> access_event \<Rightarrow> bool" where
  "is_yesterday now e \<longleftrightarrow> (let age = sat_sub now (ae_timestamp e) in 86400 \<le> age \<and> age < 172800)"

definition is_today :: "u64 \<Rightarrow> access_event \<Rightarrow> bool" where
  "is_today now e \<longleftrightarrow> is_recent now 86400 e"

section \<open>The log\<close>

record access_log =
  al_events :: "access_event list"
  al_max_events :: nat

definition al_new :: "nat \<Rightarrow> access_log" where
  "al_new max_events = \<lparr>al_events = [], al_max_events = max_events\<rparr>"

definition al_record :: "access_event \<Rightarrow> access_log \<Rightarrow> access_log" where
  "al_record event l =
     (let events = (if al_max_events l \<le> length (al_events l) then tl (al_events l) else al_events l)
      in l\<lparr>al_events := events @ [event]\<rparr>)"

definition events_for :: "u64 \<Rightarrow> access_log \<Rightarrow> access_event list" where
  "events_for ino l = filter (\<lambda>e. ae_ino e = ino) (al_events l)"

definition recent_opens :: "nat \<Rightarrow> access_log \<Rightarrow> access_event list" where
  "recent_opens limit l = take limit (rev (filter (\<lambda>e. ae_kind e = AccessOpen) (al_events l)))"

definition al_yesterday :: "u64 \<Rightarrow> access_log \<Rightarrow> access_event list" where
  "al_yesterday now l = filter (is_yesterday now) (al_events l)"

definition al_today :: "u64 \<Rightarrow> access_log \<Rightarrow> access_event list" where
  "al_today now l = filter (is_today now) (al_events l)"

definition access_count :: "u64 \<Rightarrow> access_log \<Rightarrow> nat" where
  "access_count ino l = length (filter (\<lambda>e. ae_ino e = ino) (al_events l))"

definition last_access :: "u64 \<Rightarrow> access_log \<Rightarrow> u64 option" where
  "last_access ino l =
     (case map ae_timestamp (filter (\<lambda>e. ae_ino e = ino) (al_events l)) of
        [] \<Rightarrow> None
      | t # ts \<Rightarrow> Some (foldl max t ts))"

definition al_len :: "access_log \<Rightarrow> nat" where
  "al_len l = length (al_events l)"

section \<open>The log holds the newest events\<close>

text \<open>The last \<open>k\<close> elements of a list.\<close>

definition suffix_of_length :: "nat \<Rightarrow> 'a list \<Rightarrow> 'a list" where
  "suffix_of_length k xs = drop (length xs - k) xs"

lemma al_record_suffix:
  assumes "al_events l = suffix_of_length (max 1 (al_max_events l)) es"
  shows "al_events (al_record e l) = suffix_of_length (max 1 (al_max_events l)) (es @ [e])"
proof -
  let ?k = "max 1 (al_max_events l)"
  have len: "length (al_events l) = min (length es) ?k"
    using assms by (simp add: suffix_of_length_def min_def)
  show ?thesis
  proof (cases "al_max_events l \<le> length (al_events l)")
    case True
    show ?thesis
    proof (cases "es = []")
      case False
      then have "?k \<le> length es" using True len by (cases es) (auto simp: min_def max_def split: if_splits)
      then have "tl (al_events l) = drop (length (es @ [e]) - ?k) es"
        using assms by (simp add: suffix_of_length_def tl_drop drop_Suc [symmetric] Suc_diff_le)
      with True \<open>?k \<le> length es\<close> show ?thesis by (simp add: al_record_def suffix_of_length_def)
    qed (use assms in \<open>simp add: al_record_def suffix_of_length_def\<close>)
  next
    case False
    then have "length es < ?k" using len by (auto simp: min_def split: if_splits)
    with False assms show ?thesis by (simp add: al_record_def suffix_of_length_def)
  qed
qed

lemma al_record_max [simp]: "al_max_events (al_record e l) = al_max_events l"
  by (simp add: al_record_def Let_def)

lemma al_records: "al_events (fold al_record es (al_new n)) = suffix_of_length (max 1 n) es \<and>
    al_max_events (fold al_record es (al_new n)) = n"
proof (induction es rule: rev_induct)
  case Nil
  then show ?case by (simp add: al_new_def suffix_of_length_def)
next
  case (snoc e es)
  then show ?case using al_record_suffix [of "fold al_record es (al_new n)" es e] by simp
qed

text \<open>After any sequence of accesses the log holds exactly the newest ones, as many as its bound
  (a bound of zero still keeps the last one), and counts and listings are over those.\<close>

theorem access_log_keeps_newest:
  "let l = fold al_record es (al_new n); newest = drop (length es - max 1 n) es in
   al_events l = newest \<and> al_len l \<le> max 1 n
   \<and> access_count ino l = length (events_for ino l) \<and> events_for ino l = filter (\<lambda>e. ae_ino e = ino) newest
   \<and> recent_opens k l = take k (rev (filter (\<lambda>e. ae_kind e = AccessOpen) newest))"
  using al_records [of es n]
  by (simp add: Let_def al_len_def access_count_def events_for_def recent_opens_def suffix_of_length_def)

section \<open>The slab allocator\<close>

record slab_allocator =
  sl_arena :: bytes
  sl_total :: nat
  sl_used :: nat

definition slab_new :: "nat \<Rightarrow> slab_allocator" where
  "slab_new total_bytes = \<lparr>sl_arena = zeros total_bytes, sl_total = total_bytes, sl_used = 0\<rparr>"

definition slab_used :: "slab_allocator \<Rightarrow> nat" where
  "slab_used s = sl_used s"

definition slab_available :: "slab_allocator \<Rightarrow> nat" where
  "slab_available s = sl_total s - sl_used s"

lemma slab_new_available: "slab_used (slab_new n) = 0 \<and> slab_available (slab_new n) = n"
  by (simp add: slab_new_def slab_used_def slab_available_def)

end
