(* ===== verification/Floats.thy ===== *)
theory Floats
  imports Complex_Main "HOL-Library.Multiset" Prelude
begin

text \<open>
  Binary floating-point numbers as the AI models use them: \<open>f32\<close> and \<open>f64\<close> with rounding to nearest, ties
  to even, on rational values, with infinities and NaN. The two zeros are one value: no code divides by
  a float that may be a zero of either sign. The functions of the mathematical library (\<open>ln\<close>, \<open>log2\<close>,
  \<open>exp\<close>, \<open>sin\<close>), whose last bits Rust leaves to the platform, are arguments of what uses them.
\<close>

section \<open>Values and rounding\<close>

datatype fp = Fin rat | PosInf | NegInf | NaN

text \<open>A format: the bits of a significand, the exponents of the smallest step and of the overflow.\<close>

record fp_format =
  precision :: nat
  min_step :: int
  overflow_at :: int

definition binary32 :: fp_format where "binary32 = \<lparr>precision = 24, min_step = - 149, overflow_at = 128\<rparr>"
definition binary64 :: fp_format where "binary64 = \<lparr>precision = 53, min_step = - 1074, overflow_at = 1024\<rparr>"

definition pow2 :: "int \<Rightarrow> rat" where
  "pow2 k = (if 0 \<le> k then 2 ^ nat k else 1 / 2 ^ nat (- k))"

fun ilog2 :: "nat \<Rightarrow> nat" where
  "ilog2 n = (if n < 2 then 0 else Suc (ilog2 (n div 2)))"

declare ilog2.simps [simp del]

text \<open>The exponent of the power of two at or below a positive number.\<close>

definition binade :: "rat \<Rightarrow> int" where
  "binade x = (let (n, d) = quotient_of x; e = int (ilog2 (nat n)) - int (ilog2 (nat d))
     in if pow2 e \<le> x then e else e - 1)"

definition round_even :: "rat \<Rightarrow> int" where
  "round_even x = (let n = \<lfloor>x\<rfloor>; r = x - of_int n
     in if r < 1 / 2 \<or> (r = 1 / 2 \<and> even n) then n else n + 1)"

definition fp_round :: "fp_format \<Rightarrow> rat \<Rightarrow> fp" where
  "fp_round fmt x =
     (if x = 0 then Fin 0
      else (let step = max (binade \<bar>x\<bar> - int (precision fmt) + 1) (min_step fmt);
                y = of_int (round_even (x / pow2 step)) * pow2 step
            in if \<bar>y\<bar> < pow2 (overflow_at fmt) then Fin y else if 0 < y then PosInf else NegInf))"

section \<open>Arithmetic\<close>

fun fp_neg :: "fp \<Rightarrow> fp" where
  "fp_neg (Fin x) = Fin (- x)"
| "fp_neg PosInf = NegInf"
| "fp_neg NegInf = PosInf"
| "fp_neg NaN = NaN"

fun fp_add :: "fp_format \<Rightarrow> fp \<Rightarrow> fp \<Rightarrow> fp" where
  "fp_add fmt (Fin x) (Fin y) = fp_round fmt (x + y)"
| "fp_add fmt NaN b = NaN"
| "fp_add fmt a NaN = NaN"
| "fp_add fmt PosInf NegInf = NaN"
| "fp_add fmt NegInf PosInf = NaN"
| "fp_add fmt PosInf b = PosInf"
| "fp_add fmt NegInf b = NegInf"
| "fp_add fmt a PosInf = PosInf"
| "fp_add fmt a NegInf = NegInf"

definition fp_sub :: "fp_format \<Rightarrow> fp \<Rightarrow> fp \<Rightarrow> fp" where
  "fp_sub fmt a b = fp_add fmt a (fp_neg b)"

definition inf_of :: "rat \<Rightarrow> fp" where
  "inf_of s = (if 0 < s then PosInf else if s < 0 then NegInf else NaN)"

fun fp_mul :: "fp_format \<Rightarrow> fp \<Rightarrow> fp \<Rightarrow> fp" where
  "fp_mul fmt (Fin x) (Fin y) = fp_round fmt (x * y)"
| "fp_mul fmt NaN b = NaN"
| "fp_mul fmt a NaN = NaN"
| "fp_mul fmt (Fin x) PosInf = inf_of x"
| "fp_mul fmt (Fin x) NegInf = inf_of (- x)"
| "fp_mul fmt PosInf (Fin y) = inf_of y"
| "fp_mul fmt NegInf (Fin y) = inf_of (- y)"
| "fp_mul fmt PosInf PosInf = PosInf"
| "fp_mul fmt PosInf NegInf = NegInf"
| "fp_mul fmt NegInf PosInf = NegInf"
| "fp_mul fmt NegInf NegInf = PosInf"

text \<open>Division; a zero divisor counts as positive.\<close>

fun fp_div :: "fp_format \<Rightarrow> fp \<Rightarrow> fp \<Rightarrow> fp" where
  "fp_div fmt (Fin x) (Fin y) = (if y = 0 then inf_of x else fp_round fmt (x / y))"
| "fp_div fmt NaN b = NaN"
| "fp_div fmt a NaN = NaN"
| "fp_div fmt (Fin x) b = Fin 0"
| "fp_div fmt PosInf (Fin y) = (if 0 \<le> y then PosInf else NegInf)"
| "fp_div fmt NegInf (Fin y) = (if 0 \<le> y then NegInf else PosInf)"
| "fp_div fmt a b = NaN"

text \<open>\<open><\<close> and \<open>>=\<close> are false on NaN; \<open>partial_cmp\<close> answers unless one side is NaN.\<close>

fun fp_less :: "fp \<Rightarrow> fp \<Rightarrow> bool" where
  "fp_less (Fin x) (Fin y) \<longleftrightarrow> x < y"
| "fp_less NaN b \<longleftrightarrow> False"
| "fp_less a NaN \<longleftrightarrow> False"
| "fp_less NegInf b \<longleftrightarrow> b \<noteq> NegInf"
| "fp_less a PosInf \<longleftrightarrow> a \<noteq> PosInf"
| "fp_less a b \<longleftrightarrow> False"

definition fp_le :: "fp \<Rightarrow> fp \<Rightarrow> bool" where
  "fp_le a b \<longleftrightarrow> fp_less a b \<or> (a = b \<and> a \<noteq> NaN)"

text \<open>\<open>max\<close> and \<open>min\<close> ignore one NaN.\<close>

definition fp_max :: "fp \<Rightarrow> fp \<Rightarrow> fp" where
  "fp_max a b = (if a = NaN then b else if b = NaN then a else if fp_less a b then b else a)"

definition fp_min :: "fp \<Rightarrow> fp \<Rightarrow> fp" where
  "fp_min a b = (if a = NaN then b else if b = NaN then a else if fp_less b a then b else a)"

text \<open>Sorting by descending value with \<open>partial_cmp(..).unwrap()\<close>: sorting panics on a NaN.\<close>

fun insert_desc :: "('a \<Rightarrow> fp) \<Rightarrow> 'a \<Rightarrow> 'a list \<Rightarrow> 'a list" where
  "insert_desc key x [] = [x]"
| "insert_desc key x (y # ys) = (if fp_less (key x) (key y) then y # insert_desc key x ys else x # y # ys)"

definition sort_by_score :: "('a \<Rightarrow> fp) \<Rightarrow> 'a list \<Rightarrow> 'a list option" where
  "sort_by_score key xs =
     (if 2 \<le> length xs \<and> list_ex (\<lambda>x. key x = NaN) xs then None else Some (foldr (insert_desc key) xs []))"


section \<open>Powers of two\<close>

lemma pow2_pos [simp]: "0 < pow2 k" "pow2 k \<noteq> 0"
  by (simp_all add: pow2_def)

lemma pow2_Suc: "pow2 (k + 1) = 2 * pow2 k"
proof (cases "0 \<le> k")
  case True
  then have "nat (k + 1) = Suc (nat k)" by simp
  with True show ?thesis by (simp add: pow2_def)
next
  case False
  then have "nat (- k) = Suc (nat (- (k + 1)))" by simp
  with False show ?thesis by (auto simp: pow2_def)
qed

lemma pow2_add_nat: "pow2 (k + int n) = pow2 k * 2 ^ n"
proof (induction n)
  case (Suc n)
  have "pow2 (k + int (Suc n)) = pow2 (k + int n + 1)" by (simp add: ac_simps)
  also have "\<dots> = 2 * pow2 (k + int n)" by (rule pow2_Suc)
  finally show ?case using Suc by simp
qed simp

lemma pow2_mono: "j \<le> k \<Longrightarrow> pow2 j \<le> pow2 k"
  using pow2_add_nat [of j "nat (k - j)"] by simp

lemma pow2_0 [simp]: "pow2 0 = 1"
  by (simp add: pow2_def)

lemma ilog2_bounds: "0 < n \<Longrightarrow> 2 ^ ilog2 n \<le> n \<and> n < 2 ^ Suc (ilog2 n)"
proof (induction n rule: less_induct)
  case (less n)
  show ?case
  proof (cases "n < 2")
    case True
    with less.prems show ?thesis by (simp add: ilog2.simps [of n])
  next
    case False
    then have "2 ^ ilog2 (n div 2) \<le> n div 2 \<and> n div 2 < 2 ^ Suc (ilog2 (n div 2))"
      by (intro less.IH) auto
    moreover have "ilog2 n = Suc (ilog2 (n div 2))" using False by (simp add: ilog2.simps [of n])
    ultimately show ?thesis by simp linarith
  qed
qed

lemma pow2_nat: "pow2 (int n) = 2 ^ n"
  using pow2_add_nat [of 0 n] by simp

lemma nat_pow_rat: "2 ^ k \<le> m \<longleftrightarrow> (2 :: rat) ^ k \<le> of_nat m" "m < 2 ^ k \<longleftrightarrow> (of_nat m :: rat) < 2 ^ k"
  using of_nat_le_iff [where 'a = rat, of "2 ^ k" m] of_nat_less_iff [where 'a = rat, of m "2 ^ k"] by simp_all

lemma binade_le: "0 < x \<Longrightarrow> pow2 (binade x) \<le> x"
  and binade_gt: "0 < x \<Longrightarrow> x < pow2 (binade x + 1)"
proof -
  assume x: "0 < x"
  obtain a b where q: "quotient_of x = (a, b)" by fastforce
  have b: "0 < b" by (rule quotient_of_denom_pos [OF q])
  have xe: "x = of_int a / of_int b" by (rule quotient_of_div [OF q])
  with x b have a: "0 < a" by (simp add: zero_less_divide_iff)
  obtain n d where nd: "a = int n" "b = int d" "0 < n" "0 < d"
    using a b that [of "nat a" "nat b"] by simp
  let ?e = "int (ilog2 n) - int (ilog2 d)"
  have P: "pow2 ?e * 2 ^ ilog2 d = 2 ^ ilog2 n"
    using pow2_add_nat [of ?e "ilog2 d"] by (simp add: pow2_nat)
  have n': "(2 :: rat) ^ ilog2 n \<le> of_nat n" "(of_nat n :: rat) < 2 ^ Suc (ilog2 n)"
    and d': "(2 :: rat) ^ ilog2 d \<le> of_nat d" "(of_nat d :: rat) < 2 ^ Suc (ilog2 d)"
    using ilog2_bounds [OF nd(3)] ilog2_bounds [OF nd(4)] nat_pow_rat by blast+
  have dpos: "0 < (of_nat d :: rat)" using nd(4) by simp
  have xd: "x * of_nat d = of_nat n" using dpos by (simp add: xe nd)
  have "x * of_nat d < pow2 (?e + 1) * of_nat d"
  proof -
    have "(of_nat n :: rat) < 2 * (pow2 ?e * 2 ^ ilog2 d)" using n'(2) P by simp
    also have "\<dots> \<le> 2 * (pow2 ?e * of_nat d)" using d'(1) by simp
    finally show ?thesis unfolding xd pow2_Suc by (simp only: mult.assoc)
  qed
  then have "x < pow2 (?e + 1)" by (rule mult_right_less_imp_less) (use dpos in simp)
  moreover have "pow2 (?e - 1) * of_nat d \<le> x * of_nat d"
  proof -
    have "pow2 ?e = 2 * pow2 (?e - 1)" using pow2_Suc [of "?e - 1"] by simp
    then have "2 * (pow2 (?e - 1) * of_nat d) = pow2 ?e * of_nat d" by simp
    also have "\<dots> \<le> pow2 ?e * (2 * 2 ^ ilog2 d)" using d'(2) by simp
    also have "\<dots> = 2 * 2 ^ ilog2 n" using P by (simp only: mult.left_commute)
    also have "\<dots> \<le> 2 * of_nat n" using n'(1) by simp
    finally show ?thesis unfolding xd by simp
  qed
  then have "pow2 (?e - 1) \<le> x" by (rule mult_right_le_imp_le) (rule dpos)
  ultimately show "pow2 (binade x) \<le> x" "x < pow2 (binade x + 1)"
    by (auto simp: binade_def q nd Let_def)
qed


section \<open>Bounds of rounding\<close>

lemma pow2_less_iff: "pow2 j < pow2 k \<longleftrightarrow> j < k"
proof
  assume "pow2 j < pow2 k"
  then show "j < k" using pow2_mono [of k j] by linarith
next
  assume "j < k"
  then have "pow2 (j + 1) \<le> pow2 k" by (intro pow2_mono) simp
  then show "pow2 j < pow2 k" unfolding pow2_Suc using pow2_pos(1) [of j] by linarith
qed

lemma pow2_diff: "j \<le> k \<Longrightarrow> pow2 k / pow2 j = of_int (2 ^ nat (k - j))"
  using pow2_add_nat [of j "nat (k - j)"] by simp

lemma round_even_bounds:
  "x \<le> of_int n \<Longrightarrow> round_even x \<le> n" "of_int n \<le> x \<Longrightarrow> n \<le> round_even x"
proof -
  assume x: "x \<le> of_int n"
  then have "\<lfloor>x\<rfloor> \<le> n" by linarith
  moreover have "x = of_int n" if "\<lfloor>x\<rfloor> = n" using x that by linarith
  ultimately show "round_even x \<le> n" by (cases "\<lfloor>x\<rfloor> = n") (auto simp: round_even_def Let_def)
next
  assume "of_int n \<le> x"
  then have "n \<le> \<lfloor>x\<rfloor>" by linarith
  then show "n \<le> round_even x" by (auto simp: round_even_def Let_def)
qed

lemma round_even_int [simp]: "round_even (of_int n) = n"
  using round_even_bounds [where x = "of_int n" and n = n] by simp

lemma binade_eq: "pow2 k \<le> x \<Longrightarrow> x < pow2 (k + 1) \<Longrightarrow> binade x = k"
proof -
  assume k: "pow2 k \<le> x" "x < pow2 (k + 1)"
  then have "0 < x" using pow2_pos(1) [of k] by linarith
  then have "pow2 (binade x) < pow2 (k + 1)" "pow2 k < pow2 (binade x + 1)"
    using k binade_le [of x] binade_gt [of x] by linarith+
  then show ?thesis by (simp add: pow2_less_iff)
qed

lemma round_even_near:
  assumes "of_int n - 1 / 2 < x" and "x < of_int n + 1 / 2"
  shows "round_even x = n"
proof (cases "of_int n \<le> x")
  case True
  then have "\<lfloor>x\<rfloor> = n" using assms by (intro floor_unique) auto
  then show ?thesis using assms by (simp add: round_even_def)
next
  case False
  then have "\<lfloor>x\<rfloor> = n - 1" using assms by (intro floor_unique) auto
  then show ?thesis using assms by (simp add: round_even_def)
qed

definition fp_fits :: "fp_format \<Rightarrow> int \<Rightarrow> bool" where
  "fp_fits fmt k \<longleftrightarrow> 0 < precision fmt \<and> min_step fmt \<le> k \<and> k < overflow_at fmt"

lemma fp_fits_formats [simp]: "fp_fits binary32 k \<longleftrightarrow> - 149 \<le> k \<and> k < 128" "fp_fits binary64 k \<longleftrightarrow> - 1074 \<le> k \<and> k < 1024"
  by (simp_all add: fp_fits_def binary32_def binary64_def)

text \<open>Rounding keeps a number between zero and a power of two.\<close>

lemma fp_round_unit:
  assumes "0 \<le> x" and "x \<le> pow2 k" and "fp_fits fmt k"
  shows "\<exists>y. fp_round fmt x = Fin y \<and> 0 \<le> y \<and> y \<le> pow2 k"
proof (cases "x = 0")
  case False
  with assms(1) have x: "0 < x" by simp
  let ?step = "max (binade x - int (precision fmt) + 1) (min_step fmt)"
  let ?n = "round_even (x / pow2 ?step)"
  have "pow2 (binade x) \<le> pow2 k" using binade_le [OF x] assms(2) by simp
  then have "binade x \<le> k" using pow2_less_iff [of k "binade x"] by linarith
  then have step: "?step \<le> k" using assms(3) by (simp add: fp_fits_def)
  have "x / pow2 ?step \<le> pow2 k / pow2 ?step" using assms(2) by (simp add: divide_right_mono less_imp_le)
  then have "?n \<le> 2 ^ nat (k - ?step)" unfolding pow2_diff [OF step] by (rule round_even_bounds(1))
  then have "(of_int ?n :: rat) \<le> of_int (2 ^ nat (k - ?step))" by (simp only: of_int_le_iff)
  also have "\<dots> = pow2 k / pow2 ?step" by (rule pow2_diff [OF step, symmetric])
  finally have le: "of_int ?n * pow2 ?step \<le> pow2 k" by (simp add: le_divide_eq)
  have "0 \<le> ?n" using round_even_bounds(2) [where n = 0 and x = "x / pow2 ?step"] x by (simp add: less_imp_le)
  then have nonneg: "0 \<le> of_int ?n * pow2 ?step" by (intro mult_nonneg_nonneg less_imp_le [OF pow2_pos(1)]) simp
  have "pow2 k < pow2 (overflow_at fmt)" using assms(3) by (simp add: pow2_less_iff fp_fits_def)
  with le nonneg have "\<bar>of_int ?n * pow2 ?step\<bar> < pow2 (overflow_at fmt)" by linarith
  then have "fp_round fmt x = Fin (of_int ?n * pow2 ?step)"
    unfolding fp_round_def Let_def using x by (simp only: abs_of_pos) simp
  with le nonneg show ?thesis by blast
qed (use pow2_pos(1) [of k] in \<open>simp add: fp_round_def less_imp_le\<close>)

text \<open>Integers of at most as many bits as a significand are exact.\<close>

lemma fp_round_int:
  assumes "\<bar>m\<bar> < 2 ^ precision fmt" and "min_step fmt \<le> 0" and "int (precision fmt) \<le> overflow_at fmt"
  shows "fp_round fmt (of_int m) = Fin (of_int m)"
proof (cases "m = 0")
  case False
  let ?x = "\<bar>of_int m :: rat\<bar>"
  let ?step = "max (binade ?x - int (precision fmt) + 1) (min_step fmt)"
  have x: "0 < ?x" using False by simp
  have "?x < of_int (2 ^ precision fmt)" using assms(1) by (simp only: of_int_less_iff flip: of_int_abs)
  then have lt: "?x < pow2 (int (precision fmt))" by (simp add: pow2_nat)
  then have "pow2 (binade ?x) < pow2 (int (precision fmt))" using binade_le [OF x] by simp
  then have step: "?step \<le> 0" using assms(2) by (simp add: pow2_less_iff)
  have "1 / pow2 ?step = of_int (2 ^ nat (- ?step))" using pow2_diff [OF step] by simp
  then have "of_int m / pow2 ?step = of_int (m * 2 ^ nat (- ?step))"
    unfolding of_int_mult by (metis mult.right_neutral times_divide_eq_right)
  then have "round_even (of_int m / pow2 ?step) = m * 2 ^ nat (- ?step)" by (simp only: round_even_int)
  then have "of_int (round_even (of_int m / pow2 ?step)) = of_int m * (1 / pow2 ?step)"
    using \<open>1 / pow2 ?step = _\<close> by (simp only: of_int_mult)
  then have "of_int (round_even (of_int m / pow2 ?step)) * pow2 ?step = (of_int m :: rat)" by simp
  moreover have "?x < pow2 (overflow_at fmt)" using lt pow2_mono [OF assms(3)] by linarith
  ultimately show ?thesis using False by (simp add: fp_round_def Let_def)
qed (simp add: fp_round_def)


lemma fp_round_ge:
  assumes "pow2 k \<le> x" and "fp_fits fmt k"
  shows "fp_round fmt x = PosInf \<or> (\<exists>y \<ge> pow2 k. fp_round fmt x = Fin y)"
proof -
  let ?step = "max (binade x - int (precision fmt) + 1) (min_step fmt)"
  let ?n = "round_even (x / pow2 ?step)"
  let ?y = "of_int ?n * pow2 ?step"
  have x: "0 < x" using assms(1) pow2_pos(1) [of k] by linarith
  have "pow2 k < pow2 (binade x + 1)" using assms(1) binade_gt [OF x] by linarith
  then have b: "k \<le> binade x" by (simp add: pow2_less_iff)
  have y: "pow2 k \<le> ?y"
  proof (cases "?step \<le> k")
    case True
    have "of_int (2 ^ nat (k - ?step)) \<le> x / pow2 ?step"
      unfolding pow2_diff [OF True, symmetric] using assms(1) by (simp add: divide_right_mono less_imp_le)
    then have "2 ^ nat (k - ?step) \<le> ?n" by (rule round_even_bounds(2))
    then have "of_int (2 ^ nat (k - ?step)) \<le> (of_int ?n :: rat)" by (simp only: of_int_le_iff)
    then have "pow2 k / pow2 ?step \<le> of_int ?n" unfolding pow2_diff [OF True] .
    then show ?thesis by (simp add: divide_le_eq)
  next
    case False
    then have step: "?step = binade x - int (precision fmt) + 1" and p: "1 \<le> precision fmt"
      using assms(2) by (auto simp: fp_fits_def)
    then have "pow2 ?step \<le> pow2 (binade x)" by (intro pow2_mono) simp
    then have "pow2 ?step \<le> x" using binade_le [OF x] by linarith
    then have "of_int 1 \<le> x / pow2 ?step" by (simp add: le_divide_eq)
    then have "1 \<le> ?n" by (rule round_even_bounds(2))
    then have "1 * pow2 ?step \<le> ?y" by (intro mult_right_mono less_imp_le [OF pow2_pos(1)]) simp
    moreover have "pow2 k \<le> pow2 ?step" using False by (intro pow2_mono) linarith
    ultimately show ?thesis by linarith
  qed
  then have "0 < ?y" using pow2_pos(1) [of k] by linarith
  with y show ?thesis unfolding fp_round_def Let_def using x by (simp only: abs_of_pos) simp
qed

section \<open>Numbers that are not negative\<close>

definition fp_nonneg :: "fp \<Rightarrow> bool" where
  "fp_nonneg a \<longleftrightarrow> a = PosInf \<or> (\<exists>x \<ge> 0. a = Fin x)"

lemma fp_nonneg_simps [simp]: "fp_nonneg (Fin x) \<longleftrightarrow> 0 \<le> x" "fp_nonneg PosInf" "\<not> fp_nonneg NegInf" "\<not> fp_nonneg NaN"
  by (simp_all add: fp_nonneg_def)

lemma fp_nonneg_not_NaN: "fp_nonneg a \<Longrightarrow> a \<noteq> NaN"
  by auto

lemma fp_nonneg_round [simp]: assumes "0 \<le> x" shows "fp_nonneg (fp_round fmt x)"
proof (cases "x = 0")
  case False
  let ?step = "max (binade \<bar>x\<bar> - int (precision fmt) + 1) (min_step fmt)"
  let ?y = "of_int (round_even (x / pow2 ?step)) * pow2 ?step"
  have "0 \<le> round_even (x / pow2 ?step)"
    using round_even_bounds(2) [where n = 0 and x = "x / pow2 ?step"] assms by (simp add: less_imp_le)
  then have y: "0 \<le> ?y" by (intro mult_nonneg_nonneg less_imp_le [OF pow2_pos(1)]) simp
  show ?thesis
  proof (cases "\<bar>?y\<bar> < pow2 (overflow_at fmt)")
    case True
    then have "fp_round fmt x = Fin ?y" using False by (simp add: fp_round_def Let_def)
    with y show ?thesis by simp
  next
    case over: False
    then have "0 < ?y" using y pow2_pos(1) [of "overflow_at fmt"] by linarith
    with over False have "fp_round fmt x = PosInf" by (simp add: fp_round_def Let_def)
    then show ?thesis by simp
  qed
qed (simp add: fp_round_def)

lemma fp_round_nonpos:
  assumes "x \<le> 0" shows "fp_round fmt x = NegInf \<or> (\<exists>y \<le> 0. fp_round fmt x = Fin y)"
proof -
  let ?step = "max (binade \<bar>x\<bar> - int (precision fmt) + 1) (min_step fmt)"
  have "round_even (x / pow2 ?step) \<le> 0"
    using round_even_bounds(1) [where n = 0 and x = "x / pow2 ?step"] assms
    by (simp add: divide_nonpos_pos)
  then have "of_int (round_even (x / pow2 ?step)) * pow2 ?step \<le> 0"
    by (intro mult_nonpos_nonneg less_imp_le [OF pow2_pos(1)]) simp
  then show ?thesis by (auto simp: fp_round_def Let_def)
qed

lemma fp_nonneg_add: "fp_nonneg a \<Longrightarrow> fp_nonneg b \<Longrightarrow> fp_nonneg (fp_add fmt a b)"
  by (auto simp: fp_nonneg_def [of a] fp_nonneg_def [of b])

lemma fp_nonneg_mul: "fp_nonneg a \<Longrightarrow> fp_nonneg b \<Longrightarrow> a \<noteq> Fin 0 \<Longrightarrow> b \<noteq> Fin 0 \<Longrightarrow> fp_nonneg (fp_mul fmt a b)"
  by (auto simp: fp_nonneg_def [of a] fp_nonneg_def [of b] inf_of_def split: if_splits)

lemma fp_nonneg_mul_Fin: "0 \<le> x \<Longrightarrow> 0 \<le> y \<Longrightarrow> fp_nonneg (fp_mul fmt (Fin x) (Fin y))"
  by simp

lemma fp_nonneg_div: "fp_nonneg a \<Longrightarrow> 0 < y \<Longrightarrow> fp_nonneg (fp_div fmt a (Fin y))"
  by (auto simp: fp_nonneg_def [of a])

lemma fp_nonneg_max_0: "fp_nonneg (fp_max a (Fin 0))"
  by (cases a) (auto simp: fp_max_def)

lemma fp_min_1: "fp_nonneg a \<Longrightarrow> \<exists>x. fp_min a (Fin 1) = Fin x \<and> 0 \<le> x \<and> x \<le> 1"
  by (auto simp: fp_nonneg_def fp_min_def)

section \<open>Sorting by score\<close>

lemma fp_less_trans: "fp_less a b \<Longrightarrow> fp_less b c \<Longrightarrow> fp_less a c"
  by (cases a; cases b; cases c) auto

lemma fp_less_total: "a \<noteq> NaN \<Longrightarrow> b \<noteq> NaN \<Longrightarrow> fp_less a b \<or> a = b \<or> fp_less b a"
  by (cases a; cases b) auto

lemma fp_le_iff: "a \<noteq> NaN \<Longrightarrow> b \<noteq> NaN \<Longrightarrow> fp_le a b \<longleftrightarrow> \<not> fp_less b a"
  by (cases a; cases b) (auto simp: fp_le_def)

lemma fp_le_trans: "fp_le a b \<Longrightarrow> fp_le b c \<Longrightarrow> fp_le a c"
  by (auto simp: fp_le_def intro: fp_less_trans)

lemma fp_le_NaN [simp]: "\<not> fp_le NaN b" "\<not> fp_le a NaN"
  by (cases a; auto simp: fp_le_def)+

abbreviation falling :: "('a \<Rightarrow> fp) \<Rightarrow> 'a list \<Rightarrow> bool" where
  "falling key \<equiv> sorted_wrt (\<lambda>x y. fp_le (key y) (key x))"

lemma mset_insert_desc [simp]: "mset (insert_desc key x ys) = add_mset x (mset ys)"
  by (induction ys) auto

lemma set_insert_desc [simp]: "set (insert_desc key x ys) = insert x (set ys)"
  by (induction ys) auto

lemma insert_desc_falling:
  assumes "falling key ys" and "key x \<noteq> NaN" and "\<forall>y \<in> set ys. key y \<noteq> NaN"
  shows "falling key (insert_desc key x ys)"
  using assms
proof (induction ys)
  case (Cons y ys)
  show ?case
  proof (cases "fp_less (key x) (key y)")
    case True
    then have "fp_le (key x) (key y)" by (simp add: fp_le_def)
    with Cons True show ?thesis by auto
  next
    case False
    then have "fp_le (key y) (key x)" using Cons.prems(2,3) by (simp add: fp_le_iff)
    with Cons.prems(1) False show ?thesis by (auto intro: fp_le_trans)
  qed
qed simp

lemma sort_by_score_sorts:
  assumes "\<And>x. x \<in> set xs \<Longrightarrow> key x \<noteq> NaN"
  shows "\<exists>ys. sort_by_score key xs = Some ys \<and> mset ys = mset xs \<and> falling key ys"
proof -
  have "mset (foldr (insert_desc key) xs []) = mset xs \<and> falling key (foldr (insert_desc key) xs [])"
    using assms
  proof (induction xs)
    case (Cons x xs)
    then have IH: "mset (foldr (insert_desc key) xs []) = mset xs" "falling key (foldr (insert_desc key) xs [])" by auto
    moreover have "set (foldr (insert_desc key) xs []) = set xs" using mset_eq_setD [OF IH(1)] .
    ultimately show ?case using Cons.prems insert_desc_falling [of key _ x] by simp
  qed simp
  with assms show ?thesis by (auto simp: sort_by_score_def list_ex_iff)
qed

end
