(* ===== verification/Markov.thy ===== *)
theory Markov
  imports Prelude
begin

text \<open>
  \<open>src/ai/markov.rs\<close>: the table of transitions between files, with its cap on the number of entries, and
  the loop of \<open>VexFS::load\<close> (\<open>src/fuse/mod.rs\<close>) that rebuilds a table from the saved one. The predictions are in
  \<open>Importance\<close>.
\<close>

section \<open>The table\<close>

type_synonym transitions = "(u64, (u64 \<times> rstring \<times> u32) list) hmap"

record markov =
  mk_transitions :: transitions
  mk_entry_count :: nat
  mk_max_entries :: nat

definition markov_new :: "nat \<Rightarrow> markov" where
  "markov_new max_entries = \<lparr>mk_transitions = [], mk_entry_count = 0, mk_max_entries = max_entries\<rparr>"

text \<open>The loop over the transitions of one file: the first one to \<open>next_ino\<close> is counted up.\<close>

fun bump :: "u64 \<Rightarrow> (u64 \<times> rstring \<times> u32) list \<Rightarrow> (u64 \<times> rstring \<times> u32) list option" where
  "bump next_ino [] = None"
| "bump next_ino ((ino, name, count) # ts) =
     (if ino = next_ino then Some ((ino, name, count + 1) # ts)
      else map_option (\<lambda>ts. (ino, name, count) # ts) (bump next_ino ts))"

definition record_transition :: "u64 \<Rightarrow> u64 \<Rightarrow> rstring \<Rightarrow> markov \<Rightarrow> markov" where
  "record_transition prev_ino next_ino next_name m =
     (if mk_max_entries m \<le> mk_entry_count m then m
      else
        (let ts = (case hm_get (mk_transitions m) prev_ino of Some ts \<Rightarrow> ts | None \<Rightarrow> []) in
         case bump next_ino ts of
           Some ts \<Rightarrow> m\<lparr>mk_transitions := hm_insert prev_ino ts (mk_transitions m)\<rparr>
         | None \<Rightarrow>
             m\<lparr>mk_transitions := hm_insert prev_ino (ts @ [(next_ino, next_name, 1)]) (mk_transitions m),
               mk_entry_count := mk_entry_count m + 1\<rparr>))"

text \<open>Restoring: every saved transition is recorded as often as its count says.\<close>

definition restore_one :: "u64 \<Rightarrow> u64 \<times> rstring \<times> u32 \<Rightarrow> markov \<Rightarrow> markov" where
  "restore_one from_ino = (\<lambda>(to_ino, name, count) m. (record_transition from_ino to_ino name ^^ unat count) m)"

definition restore_markov :: "transitions \<Rightarrow> markov \<Rightarrow> markov" where
  "restore_markov saved m = fold (\<lambda>(from_ino, ts). fold (restore_one from_ino) ts) saved m"

section \<open>Counts\<close>

text \<open>What the table knows of a pair: the name it keeps and how often the transition was seen.\<close>

definition transition :: "markov \<Rightarrow> u64 \<Rightarrow> u64 \<Rightarrow> (rstring \<times> u32) option" where
  "transition m p n = (case hm_get (mk_transitions m) p of Some ts \<Rightarrow> map_of ts n | None \<Rightarrow> None)"

definition markov_inv :: "markov \<Rightarrow> bool" where
  "markov_inv m \<longleftrightarrow> hm_wf (mk_transitions m)
     \<and> (\<forall>(p, ts) \<in> set (mk_transitions m). distinct (map fst ts))
     \<and> mk_entry_count m = hm_sum length (mk_transitions m) \<and> mk_entry_count m \<le> mk_max_entries m"

lemma bump_None: "bump n ts = None \<longleftrightarrow> map_of ts n = None"
  by (induction ts) auto

lemma bump_Some:
  "bump n ts = Some us \<Longrightarrow> map fst us = map fst ts \<and>
    map_of us = (map_of ts)(n \<mapsto> (case the (map_of ts n) of (name, c) \<Rightarrow> (name, c + 1)))"
  by (induction ts arbitrary: us) (auto simp: fun_eq_iff split: if_splits)

lemma markov_inv_entry: "markov_inv m \<Longrightarrow> hm_get (mk_transitions m) p = Some ts \<Longrightarrow> distinct (map fst ts)"
  by (auto simp: markov_inv_def dest: hm_get_in_set)

lemma markov_new_inv [simp]: "markov_inv (markov_new n)"
  by (simp add: markov_inv_def markov_new_def)

lemma markov_new_max [simp]: "mk_max_entries (markov_new n) = n"
  by (simp add: markov_new_def)

lemma record_transition_inv:
  assumes "markov_inv m" shows "markov_inv (record_transition p n name m)"
proof (cases "mk_max_entries m \<le> mk_entry_count m")
  case False
  let ?old = "hm_get (mk_transitions m) p"
  let ?ts = "case ?old of Some ts \<Rightarrow> ts | None \<Rightarrow> []"
  have wf: "hm_wf (mk_transitions m)" and all: "\<forall>(q, ts) \<in> set (mk_transitions m). distinct (map fst ts)"
    and sum: "mk_entry_count m = hm_sum length (mk_transitions m)"
    using assms by (auto simp: markov_inv_def)
  have dist: "distinct (map fst ?ts)" using markov_inv_entry [OF assms] by (auto split: option.splits)
  show ?thesis
  proof (cases "bump n ?ts")
    case None
    then have new: "n \<notin> fst ` set ?ts" by (simp add: bump_None map_of_eq_None_iff)
    let ?us = "?ts @ [(n, name, 1)]"
    have "\<forall>(q, ts) \<in> set (hm_insert p ?us (mk_transitions m)). distinct (map fst ts)"
      using dist new by (intro hm_all_insert [OF wf all]) auto
    moreover have "hm_sum length (hm_insert p ?us (mk_transitions m)) = hm_sum length (mk_transitions m) + 1"
    proof (cases ?old)
      case (Some ts)
      then show ?thesis using hm_sum_insert_old [of _ p ts length ?us] by simp
    qed (simp add: hm_sum_insert_new)
    ultimately show ?thesis
      using False None wf sum by (simp add: markov_inv_def record_transition_def Let_def)
  next
    case (Some us)
    have old: "?old = Some ?ts" using Some by (auto split: option.splits)
    have keys: "map fst us = map fst ?ts" using bump_Some [OF Some] by simp
    then have len: "length us = length ?ts" by (metis length_map)
    have "\<forall>(q, ts) \<in> set (hm_insert p us (mk_transitions m)). distinct (map fst ts)"
      using dist keys by (intro hm_all_insert [OF wf all]) auto
    moreover have "hm_sum length (hm_insert p us (mk_transitions m)) = hm_sum length (mk_transitions m)"
      using hm_sum_insert_old [OF old, of length us] len by simp
    ultimately show ?thesis
      using False Some wf sum assms by (simp add: markov_inv_def record_transition_def Let_def)
  qed
qed (use assms in \<open>simp add: record_transition_def\<close>)

text \<open>Recording changes the entry of its pair alone; a full table does not change at all.\<close>

lemma transition_record:
  "transition (record_transition p n name m) q k =
     (if mk_entry_count m < mk_max_entries m \<and> q = p \<and> k = n
      then Some (case transition m p n of Some (old, c) \<Rightarrow> (old, c + 1) | None \<Rightarrow> (name, 1))
      else transition m q k)"
proof (cases "mk_max_entries m \<le> mk_entry_count m")
  case False
  let ?ts = "case hm_get (mk_transitions m) p of Some ts \<Rightarrow> ts | None \<Rightarrow> []"
  have ts: "transition m p = map_of ?ts" by (auto simp: transition_def fun_eq_iff split: option.splits)
  show ?thesis
  proof (cases "bump n ?ts")
    case None
    then have "map_of ?ts n = None" by (simp add: bump_None)
    with False None ts show ?thesis
      by (auto simp: record_transition_def Let_def transition_def map_add_def split: option.splits)
  next
    case (Some us)
    then have "map_of ?ts n \<noteq> None" by (simp flip: bump_None)
    with False Some ts bump_Some [OF Some] show ?thesis
      by (auto simp: record_transition_def Let_def transition_def split: option.splits)
  qed
qed (simp add: record_transition_def)

lemma record_transition_count:
  assumes "markov_inv m"
  shows "mk_entry_count (record_transition p n name m) =
      (if mk_entry_count m < mk_max_entries m \<and> transition m p n = None then mk_entry_count m + 1 else mk_entry_count m)"
proof -
  let ?ts = "case hm_get (mk_transitions m) p of Some ts \<Rightarrow> ts | None \<Rightarrow> []"
  have "bump n ?ts = None \<longleftrightarrow> transition m p n = None"
    by (auto simp: bump_None transition_def split: option.splits)
  then show ?thesis by (auto simp: record_transition_def Let_def split: option.splits)
qed

lemma record_transition_max [simp]: "mk_max_entries (record_transition p n name m) = mk_max_entries m"
  by (simp add: record_transition_def Let_def split: option.splits)

section \<open>Restoring a saved table\<close>

definition saved_transition :: "transitions \<Rightarrow> u64 \<Rightarrow> u64 \<Rightarrow> (rstring \<times> u32) option" where
  "saved_transition saved p n = (case hm_get saved p of Some ts \<Rightarrow> map_of ts n | None \<Rightarrow> None)"

lemma record_repeated:
  fixes name :: rstring
  assumes "markov_inv m" and "transition m p n = None" and "mk_entry_count m + 1 < mk_max_entries m"
  defines "r \<equiv> \<lambda>j. (record_transition p n name ^^ j) m"
  shows "markov_inv (r (Suc j)) \<and> mk_entry_count (r (Suc j)) = mk_entry_count m + 1
    \<and> mk_max_entries (r (Suc j)) = mk_max_entries m
    \<and> (\<forall>q k. transition (r (Suc j)) q k = (if q = p \<and> k = n then Some (name, of_nat (Suc j)) else transition m q k))"
proof (induction j)
  case 0
  then show ?case
    using assms record_transition_inv [OF assms(1)] record_transition_count [OF assms(1)] by (simp add: transition_record)
next
  case (Suc j)
  have step: "r (Suc (Suc j)) = record_transition p n name (r (Suc j))" by (simp add: r_def)
  show ?case
    unfolding step using Suc assms(3) record_transition_inv [of "r (Suc j)"] record_transition_count [of "r (Suc j)" p n name]
    by (auto simp: transition_record add.commute)
qed

lemma restore_one_step:
  assumes "markov_inv m" and "transition m p n = None" and "mk_entry_count m + 1 < mk_max_entries m"
  shows "markov_inv (restore_one p (n, name, c) m)" "mk_entry_count (restore_one p (n, name, c) m) \<le> mk_entry_count m + 1"
    "mk_max_entries (restore_one p (n, name, c) m) = mk_max_entries m"
    "transition (restore_one p (n, name, c) m) q k =
       (if q = p \<and> k = n \<and> c \<noteq> 0 then Some (name, c) else transition m q k)"
proof -
  have "markov_inv (restore_one p (n, name, c) m) \<and> mk_entry_count (restore_one p (n, name, c) m) \<le> mk_entry_count m + 1
    \<and> mk_max_entries (restore_one p (n, name, c) m) = mk_max_entries m
    \<and> transition (restore_one p (n, name, c) m) q k = (if q = p \<and> k = n \<and> c \<noteq> 0 then Some (name, c) else transition m q k)"
  proof (cases "unat c")
    case 0
    then have "c = 0" by (simp add: unat_eq_0)
    with assms(1) show ?thesis by (simp add: restore_one_def)
  next
    case (Suc j)
    then have "of_nat (Suc j) = c" by (simp flip: Suc)
    moreover have "c \<noteq> 0" using Suc by auto
    ultimately show ?thesis
      using record_repeated [OF assms, where j = j and name = name] Suc by (simp add: restore_one_def)
  qed
  then show "markov_inv (restore_one p (n, name, c) m)" "mk_entry_count (restore_one p (n, name, c) m) \<le> mk_entry_count m + 1"
    "mk_max_entries (restore_one p (n, name, c) m) = mk_max_entries m"
    "transition (restore_one p (n, name, c) m) q k =
       (if q = p \<and> k = n \<and> c \<noteq> 0 then Some (name, c) else transition m q k)" by blast+
qed

lemma restore_file:
  assumes "markov_inv m" and "\<forall>n \<in> fst ` set ts. transition m p n = None" and "distinct (map fst ts)"
    and "mk_entry_count m + length ts < mk_max_entries m"
  shows "markov_inv (fold (restore_one p) ts m) \<and> mk_entry_count (fold (restore_one p) ts m) \<le> mk_entry_count m + length ts
    \<and> mk_max_entries (fold (restore_one p) ts m) = mk_max_entries m
    \<and> (\<forall>q k. transition (fold (restore_one p) ts m) q k =
         (case if q = p then map_of ts k else None of Some (name, c) \<Rightarrow> if c \<noteq> 0 then Some (name, c) else None
          | None \<Rightarrow> transition m q k))"
  using assms
proof (induction ts arbitrary: m)
  case (Cons t ts)
  obtain n name c where t: "t = (n, name, c)" by (cases t) auto
  let ?m = "restore_one p (n, name, c) m"
  have none: "transition m p n = None" and room: "mk_entry_count m + 1 < mk_max_entries m"
    using Cons.prems(2,4) by (auto simp: t)
  note step = restore_one_step [OF Cons.prems(1) none room, of name c]
  have "\<forall>k \<in> fst ` set ts. transition ?m p k = None"
    using Cons.prems(2,3) by (auto simp: t step(4))
  from Cons.IH [OF step(1) this] Cons.prems(3,4) step(2,3)
  have ih: "markov_inv (fold (restore_one p) ts ?m)"
    "mk_entry_count (fold (restore_one p) ts ?m) \<le> mk_entry_count ?m + length ts"
    "mk_max_entries (fold (restore_one p) ts ?m) = mk_max_entries m"
    "\<And>q k. transition (fold (restore_one p) ts ?m) q k =
       (case if q = p then map_of ts k else None of Some (name, c) \<Rightarrow> if c \<noteq> 0 then Some (name, c) else None
        | None \<Rightarrow> transition ?m q k)"
    by (auto simp: t)
  have "map_of ts n = None" using Cons.prems(3) by (simp add: t map_of_eq_None_iff)
  then have "transition (fold (restore_one p) ts ?m) q k = (case if q = p then map_of (t # ts) k else None of
      Some (name, c) \<Rightarrow> if c \<noteq> 0 then Some (name, c) else None | None \<Rightarrow> transition m q k)" for q k
    using none by (cases "q = p \<and> k = n") (auto simp: t ih(4) step(4) split: option.splits)
  then show ?case
    using ih(1-3) step(2) by (auto simp: t)
qed simp

lemma restore_from:
  assumes "markov_inv m" and "hm_wf saved" and "\<forall>(p, ts) \<in> set saved. distinct (map fst ts) \<and> (\<forall>n. transition m p n = None)"
    and "mk_entry_count m + hm_sum length saved < mk_max_entries m"
  shows "transition (restore_markov saved m) p n =
    (case saved_transition saved p n of Some (name, c) \<Rightarrow> if c \<noteq> 0 then Some (name, c) else None | None \<Rightarrow> transition m p n)"
  using assms
proof (induction saved arbitrary: m)
  case Nil
  then show ?case by (simp add: restore_markov_def saved_transition_def)
next
  case (Cons e saved)
  obtain q ts where e: "e = (q, ts)" by fastforce
  let ?m = "fold (restore_one q) ts m"
  have per_file: "markov_inv ?m" "mk_entry_count ?m \<le> mk_entry_count m + length ts" "mk_max_entries ?m = mk_max_entries m"
    "\<And>r k. transition ?m r k = (case if r = q then map_of ts k else None of
        Some (name, c) \<Rightarrow> if c \<noteq> 0 then Some (name, c) else None | None \<Rightarrow> transition m r k)"
    using restore_file [of m ts q] Cons.prems by (auto simp: e hm_sum_def)
  have fresh: "q \<notin> fst ` set saved" and wf: "hm_wf saved" using Cons.prems(2) by (auto simp: e hm_wf_def)
  have "\<forall>(p, us) \<in> set saved. distinct (map fst us) \<and> (\<forall>n. transition ?m p n = None)"
    using Cons.prems(3) fresh by (force simp: per_file(4))
  with Cons.IH [OF per_file(1) wf] Cons.prems(4) per_file(2,3)
  have "transition (restore_markov saved ?m) p n =
    (case saved_transition saved p n of Some (name, c) \<Rightarrow> if c \<noteq> 0 then Some (name, c) else None | None \<Rightarrow> transition ?m p n)"
    by (simp add: e hm_sum_def)
  moreover have "saved_transition saved q n = None"
    using fresh by (simp add: saved_transition_def hm_get_None_iff [THEN iffD2])
  ultimately show ?case
    by (auto simp: e restore_markov_def saved_transition_def per_file(4) hm_get_def split: option.splits if_splits)
qed

lemma restored_transition:
  assumes "markov_inv m" and "mk_entry_count m < cap" and "\<forall>p n name. transition m p n \<noteq> Some (name, 0)"
  shows "transition (restore_markov (mk_transitions m) (markov_new cap)) p n = transition m p n"
proof -
  have t: "transition m = saved_transition (mk_transitions m)"
    by (simp add: transition_def saved_transition_def fun_eq_iff)
  have none: "transition (markov_new cap) q k = None" for q k
    by (simp add: markov_new_def transition_def)
  have "\<forall>(p, ts) \<in> set (mk_transitions m). distinct (map fst ts) \<and> (\<forall>n. transition (markov_new cap) p n = None)"
    using assms(1) none by (auto simp: markov_inv_def)
  from restore_from [OF markov_new_inv _ this, of p n] assms none show ?thesis
    by (auto simp: markov_inv_def t markov_new_def split: option.splits)
qed

text \<open>Remounting gives back what the table had learnt: replaying the saved counts into a fresh table with
  more room than entries restores every transition with its name and its count.\<close>

theorem restore_keeps_counts:
  assumes "markov_inv m" and "mk_entry_count m < cap" and "\<forall>p n name. transition m p n \<noteq> Some (name, 0)"
  shows "transition (restore_markov (mk_transitions m) (markov_new cap)) p n = transition m p n"
  using assms by (rule restored_transition)

theorem restore_keeps_counts_witness:
  "let m = record_transition 2 3 [98] (record_transition 2 3 [98] (markov_new 10))
   in transition (restore_markov (mk_transitions m) (markov_new 10)) 2 3 = Some ([98], 2)"
proof -
  let ?m = "record_transition 2 3 [98] (record_transition 2 3 [98] (markov_new 10))"
  have t: "transition ?m p n = (if p = 2 \<and> n = 3 then Some ([98], 2) else None)" for p n
    by (simp add: transition_record record_transition_count) (simp add: markov_new_def transition_def)
  have "mk_entry_count ?m = 1"
    by (simp add: record_transition_count record_transition_inv transition_record) (simp add: markov_new_def transition_def)
  with restore_keeps_counts [of ?m 10 2 3] show ?thesis
    by (simp add: record_transition_inv t)
qed

text \<open>The table never holds more entries than its cap, the cap counts exactly the entries, and a table
  at its cap ignores every access, also of the transitions it already knows.\<close>

theorem markov_cap:
  assumes "m = fold (\<lambda>(p, n, name). record_transition p n name) accesses (markov_new cap)"
  shows "hm_sum length (mk_transitions m) \<le> cap \<and> mk_entry_count m = hm_sum length (mk_transitions m)
    \<and> (hm_sum length (mk_transitions m) = cap \<longrightarrow> record_transition p n name m = m)"
proof -
  have "markov_inv m \<and> mk_max_entries m = cap"
    unfolding assms
    by (induction accesses rule: rev_induct) (auto simp: record_transition_inv)
  then show ?thesis
    by (auto simp: markov_inv_def record_transition_def)
qed

theorem markov_cap_witness:
  "let m = fold (\<lambda>(p, n, name). record_transition p n name) [(2, 3, [98]), (2, 3, [98]), (2, 4, [99])] (markov_new 1)
   in hm_sum length (mk_transitions m) \<le> 1 \<and> mk_entry_count m = hm_sum length (mk_transitions m)"
  using markov_cap [OF refl, of "[(2, 3, [98]), (2, 3, [98]), (2, 4, [99])]" 1] by (simp add: Let_def)

end
