(* ===== verification/Stream_Codec.thy ===== *)
theory Stream_Codec
  imports Utf8 "HOL-Library.Monad_Syntax"
begin

text \<open>
  The byte streams of the files kept beside the image (\<open>src/ai/persist.rs\<close>, \<open>src/ai/memory.rs\<close>): values
  written one after the other and read back through a position that only moves forward. A reader
  takes the bytes from the position on and returns the value with the bytes behind it, or \<open>None\<close> when
  the data ends early. The contract between a writer and its reader is the locale \<open>stream_codec\<close>.
\<close>

type_synonym 'a reader = "bytes \<Rightarrow> ('a \<times> bytes) option"

section \<open>Primitive values\<close>

definition read_u64 :: "u64 reader" where
  "read_u64 bs = (if length bs < 8 then None else Some (le_to_u64 (take 8 bs), drop 8 bs))"

definition read_u32 :: "u32 reader" where
  "read_u32 bs = (if length bs < 4 then None else Some (le_to_u32 (take 4 bs), drop 4 bs))"

text \<open>A string is cut after 255 bytes, and decoded leniently when it is read.\<close>

definition push_str :: "rstring \<Rightarrow> bytes" where
  "push_str s = (let len = min (length s) 255 in of_nat len # take len s)"

definition read_str :: "rstring reader" where
  "read_str bs =
     (case bs of
        [] \<Rightarrow> None
      | b # rest \<Rightarrow>
          (let len = unat b in
           if length rest < len then None else Some (utf8_lossy (take len rest), drop len rest)))"

text \<open>A loop that reads \<open>n\<close> values.\<close>

fun read_times :: "nat \<Rightarrow> 'a reader \<Rightarrow> 'a list reader" where
  "read_times 0 r bs = Some ([], bs)"
| "read_times (Suc n) r bs = do { (x, bs) \<leftarrow> r bs; (xs, bs) \<leftarrow> read_times n r bs; Some (x # xs, bs) }"

text \<open>A counted section: the count, cut at \<open>cap\<close>, and as many values.\<close>

definition section_bytes :: "nat \<Rightarrow> ('a \<Rightarrow> bytes) \<Rightarrow> 'a list \<Rightarrow> bytes" where
  "section_bytes cap enc xs = u32_to_le (of_nat (min (length xs) cap)) @ concat (map enc (take cap xs))"

definition read_section :: "nat \<Rightarrow> 'a reader \<Rightarrow> 'a list reader" where
  "read_section cap r bs = do { (n, bs) \<leftarrow> read_u32 bs; read_times (min (unat n) cap) r bs }"

section \<open>The contract of a reader\<close>

text \<open>A reader that decides on the bytes it consumes alone: more data behind them changes nothing.\<close>

locale prefix_reader =
  fixes dec :: "'a reader"
  assumes dec_append: "dec bs = Some (x, r) \<Longrightarrow> dec (bs @ t) = Some (x, r @ t)"
begin

text \<open>So data that ends early is never taken for complete data.\<close>

lemma strict_prefix_fails: "dec (p @ q) = Some (x, []) \<Longrightarrow> q \<noteq> [] \<Longrightarrow> dec p = None"
  using dec_append [of p _ _ q] by (cases "dec p") auto

end

text \<open>Readers are composed of such readers.\<close>

lemma prefix_return: "prefix_reader (\<lambda>bs. Some (x, bs))"
  by unfold_locales simp

lemma prefix_bind:
  assumes "prefix_reader r" and "\<And>x. prefix_reader (k x)"
  shows "prefix_reader (\<lambda>bs. Option.bind (r bs) (\<lambda>(x, bs). k x bs))"
proof
  fix bs x r' t
  assume "Option.bind (r bs) (\<lambda>(x, bs). k x bs) = Some (x, r')"
  then obtain y u where "r bs = Some (y, u)" "k y u = Some (x, r')" by (auto simp: bind_eq_Some_conv)
  then show "Option.bind (r (bs @ t)) (\<lambda>(x, bs). k x bs) = Some (x, r' @ t)"
    using prefix_reader.dec_append [OF assms(1)] prefix_reader.dec_append [OF assms(2)] by simp
qed

lemma prefix_times:
  assumes "prefix_reader r" shows "prefix_reader (read_times n r)"
proof (induction n)
  case (Suc n)
  have "prefix_reader (\<lambda>bs. do { (x, bs) \<leftarrow> r bs; (xs, bs) \<leftarrow> read_times n r bs; Some (x # xs, bs) })"
    by (intro prefix_bind assms Suc prefix_return)
  moreover have "read_times (Suc n) r = (\<lambda>bs. do { (x, bs) \<leftarrow> r bs; (xs, bs) \<leftarrow> read_times n r bs; Some (x # xs, bs) })"
    by (rule ext) simp
  ultimately show ?case by simp
next
  case 0
  have "read_times 0 r = (\<lambda>bs. Some ([], bs))" by (rule ext) simp
  then show ?case by (simp add: prefix_return)
qed

lemma prefix_u64: "prefix_reader read_u64"
  by unfold_locales (auto simp: read_u64_def split: if_splits)

lemma prefix_u32: "prefix_reader read_u32"
  by unfold_locales (auto simp: read_u32_def split: if_splits)

lemma prefix_str: "prefix_reader read_str"
  by unfold_locales (auto simp: read_str_def Let_def split: list.splits if_splits)

lemma prefix_section: "prefix_reader r \<Longrightarrow> prefix_reader (read_section cap r)"
  unfolding read_section_def [abs_def] by (intro prefix_bind prefix_u32 prefix_times)

lemmas prefix_intros = prefix_bind prefix_return prefix_times prefix_section prefix_u64 prefix_u32 prefix_str

section \<open>The contract of a writer and its reader\<close>

text \<open>
  \<open>norm x\<close> is what reading gives back for a written \<open>x\<close>; \<open>ok\<close> is what the writer needs of its
  argument. Most codecs have \<open>norm x = x\<close>; strings lose what is cut or not valid.
\<close>

locale stream_codec = prefix_reader dec for dec :: "'a reader" +
  fixes enc :: "'a \<Rightarrow> bytes" and norm :: "'a \<Rightarrow> 'a" and ok :: "'a \<Rightarrow> bool"
  assumes dec_enc: "ok x \<Longrightarrow> dec (enc x @ rest) = Some (norm x, rest)"
begin

lemma times_enc:
  "\<forall>x \<in> set xs. ok x \<Longrightarrow> n = length xs \<Longrightarrow> read_times n dec (concat (map enc xs) @ rest) = Some (map norm xs, rest)"
  by (induction xs arbitrary: n) (simp_all add: dec_enc)

end

lemma read_u64_enc [simp]: "read_u64 (u64_to_le v @ rest) = Some (v, rest)"
  by (simp add: read_u64_def)

lemma read_u32_enc [simp]: "read_u32 (u32_to_le v @ rest) = Some (v, rest)"
  by (simp add: read_u32_def)

text \<open>The string that comes back.\<close>

definition stored_name :: "rstring \<Rightarrow> rstring" where
  "stored_name s = utf8_lossy (take 255 s)"

lemma read_push_str [simp]: "read_str (push_str s @ rest) = Some (stored_name s, rest)"
proof -
  have len: "unat (of_nat (min (length s) 255) :: u8) = min (length s) 255"
    by (simp add: unat_of_nat)
  have "take (min (length s) 255) (take (min (length s) 255) s @ rest) = take 255 s"
    "drop (min (length s) 255) (take (min (length s) 255) s @ rest) = rest"
    by (simp_all add: min_def)
  with len show ?thesis
    by (simp add: push_str_def read_str_def Let_def stored_name_def)
qed

lemma stored_name_ascii: "\<forall>b \<in> set s. b < 0x80 \<Longrightarrow> length s \<le> 255 \<Longrightarrow> stored_name s = s"
  by (simp add: stored_name_def utf8_lossy_ascii)

lemma stored_name_Nil [simp]: "stored_name [] = []"
  by (simp add: stored_name_def utf8_lossy_ascii)

interpretation u64_stream: stream_codec read_u64 u64_to_le "\<lambda>v. v" "\<lambda>_. True"
  by (intro stream_codec.intro prefix_u64, unfold_locales) simp

interpretation u32_stream: stream_codec read_u32 u32_to_le "\<lambda>v. v" "\<lambda>_. True"
  by (intro stream_codec.intro prefix_u32, unfold_locales) simp

interpretation str_stream: stream_codec read_str push_str stored_name "\<lambda>_. True"
  by (intro stream_codec.intro prefix_str, unfold_locales) simp

text \<open>A counted section of any codec.\<close>

context stream_codec begin

lemma section_enc:
  assumes "\<forall>x \<in> set xs. ok x" and "cap < 2 ^ 32"
  shows "read_section cap dec (section_bytes cap enc xs @ rest) = Some (map norm (take cap xs), rest)"
proof -
  have "unat (of_nat (min (length xs) cap) :: u32) = min (length xs) cap"
    using assms(2) by (simp add: unat_of_nat min_def)
  moreover have "\<forall>x \<in> set (take cap xs). ok x" using assms(1) by (auto dest: in_set_takeD)
  ultimately show ?thesis
    by (simp add: read_section_def section_bytes_def times_enc)
qed

end

section \<open>Maps from the entries of a stream\<close>

text \<open>A hash map filled by inserting the entries read, in order.\<close>

definition hm_of_list :: "('k \<times> 'v) list \<Rightarrow> ('k, 'v) hmap" where
  "hm_of_list = foldl (\<lambda>m (k, v). hm_insert k v m) []"

lemma foldl_hm_insert:
  "distinct (map fst (m @ xs)) \<Longrightarrow> foldl (\<lambda>m (k, v). hm_insert k v m) m xs = m @ xs"
proof (induction xs arbitrary: m)
  case (Cons p xs)
  obtain k v where p: "p = (k, v)" by fastforce
  have "hm_get m k = None" using Cons.prems by (auto simp: p hm_get_None_iff)
  then show ?case
    using Cons.IH [of "m @ [(k, v)]"] Cons.prems by (simp add: p hm_insert_new)
qed simp

lemma hm_of_list_wf: "hm_wf xs \<Longrightarrow> hm_of_list xs = xs"
  by (simp add: hm_of_list_def foldl_hm_insert hm_wf_def)

lemma hm_wf_take [simp]: "hm_wf m \<Longrightarrow> hm_wf (take n m)"
  by (simp add: hm_wf_def flip: take_map)

lemma hm_wf_map_values: "hm_wf (map (\<lambda>(k, v). (k, g k v)) m) \<longleftrightarrow> hm_wf m"
  by (simp add: hm_wf_def case_prod_unfold comp_def)

end
