(* ===== verification/Ai_Persist.thy ===== *)
theory Ai_Persist
  imports Stream_Codec Markov
begin

text \<open>
  \<open>src/ai/persist.rs\<close>: the files beside the image that keep the transition table, the importance
  statistics and the neural weights between mounts. The \<open>blake3\<close> hash is the parameter \<open>h\<close>; the
  directory the files live in is a map from paths to contents.
\<close>

type_synonym importance_stats = "(u64, rstring \<times> u32 \<times> u64 \<times> u64) hmap"
type_synonym file_store = "(rstring, bytes) hmap"

definition MAGIC_V2 :: bytes where "MAGIC_V2 = ascii ''VEXAI002''"
definition MAGIC_NEURAL :: bytes where "MAGIC_NEURAL = ascii ''VEXNERL1''"

lemma length_magics [simp]: "length MAGIC_V2 = 8" "length MAGIC_NEURAL = 8"
  by (simp_all add: MAGIC_V2_def MAGIC_NEURAL_def ascii_def)

section \<open>The file format\<close>

definition markov_entry_bytes :: "u64 \<times> u64 \<times> rstring \<times> u32 \<Rightarrow> bytes" where
  "markov_entry_bytes = (\<lambda>(from_ino, to_ino, to_name, count).
     u64_to_le from_ino @ u64_to_le to_ino @ u32_to_le count @ push_str to_name)"

definition read_markov_entry :: "(u64 \<times> u64 \<times> rstring \<times> u32) reader" where
  "read_markov_entry c = do {
     (from_ino, c) \<leftarrow> read_u64 c;
     (to_ino, c) \<leftarrow> read_u64 c;
     (count, c) \<leftarrow> read_u32 c;
     (name, c) \<leftarrow> read_str c;
     Some ((from_ino, to_ino, name, count), c)
   }"

definition importance_entry_bytes :: "u64 \<times> rstring \<times> u32 \<times> u64 \<times> u64 \<Rightarrow> bytes" where
  "importance_entry_bytes = (\<lambda>(ino, name, access_count, last_access, total_secs).
     u64_to_le ino @ u32_to_le access_count @ u64_to_le last_access @ u64_to_le total_secs @ push_str name)"

definition read_importance_entry :: "(u64 \<times> rstring \<times> u32 \<times> u64 \<times> u64) reader" where
  "read_importance_entry c = do {
     (ino, c) \<leftarrow> read_u64 c;
     (access_count, c) \<leftarrow> read_u32 c;
     (last_access, c) \<leftarrow> read_u64 c;
     (total_secs, c) \<leftarrow> read_u64 c;
     (name, c) \<leftarrow> read_str c;
     Some ((ino, name, access_count, last_access, total_secs), c)
   }"

text \<open>The entries of the nested map, in the order of the two loops.\<close>

definition markov_entries :: "transitions \<Rightarrow> (u64 \<times> u64 \<times> rstring \<times> u32) list" where
  "markov_entries m = concat (map (\<lambda>(from_ino, ts). map (Pair from_ino) ts) m)"

definition ai_payload :: "transitions \<Rightarrow> importance_stats \<Rightarrow> bytes" where
  "ai_payload m stats =
     MAGIC_V2 @ u32_to_le 2
     @ u32_to_le (of_nat (hm_sum length m)) @ concat (map markov_entry_bytes (markov_entries m))
     @ u32_to_le (of_nat (length stats)) @ concat (map importance_entry_bytes stats)"

text \<open>
  Reading behind the first twelve bytes. The entries of a section are read before they are inserted
  into its map; an early end of the data discards both maps, so this makes no difference.
\<close>

definition parse_ai :: "bytes \<Rightarrow> (transitions \<times> importance_stats) option" where
  "parse_ai payload = do {
     (markov_count, c) \<leftarrow> read_u32 (drop 12 payload);
     (es, c) \<leftarrow> read_times (unat markov_count) read_markov_entry c;
     (imp_count, c) \<leftarrow> read_u32 c;
     (is, c) \<leftarrow> read_times (unat imp_count) read_importance_entry c;
     Some (foldl (\<lambda>m (from_ino, t). hm_push from_ino t m) [] es, hm_of_list is)
   }"

section \<open>Operations\<close>

definition ai_path :: "rstring \<Rightarrow> rstring" where
  "ai_path image_path = image_path @ ascii ''.ai''"

definition ai_save :: "(bytes \<Rightarrow> bytes) \<Rightarrow> rstring \<Rightarrow> transitions \<Rightarrow> importance_stats \<Rightarrow> file_store \<Rightarrow> file_store" where
  "ai_save h path m stats fs = (let buf = ai_payload m stats in hm_insert path (buf @ h buf) fs)"

datatype io_error = UnexpectedEof

definition ai_load :: "(bytes \<Rightarrow> bytes) \<Rightarrow> rstring \<Rightarrow> file_store \<Rightarrow> io_error + transitions \<times> importance_stats" where
  "ai_load h path fs =
     (case hm_get fs path of
        None \<Rightarrow> Inr ([], [])
      | Some raw \<Rightarrow>
          if length raw < 8 + 32 then Inr ([], [])
          else
            (let payload = take (length raw - 32) raw; stored_hash = drop (length raw - 32) raw in
             if h payload \<noteq> stored_hash then Inr ([], [])
             else if take 8 payload \<noteq> MAGIC_V2 then Inr ([], [])
             else (case parse_ai payload of Some r \<Rightarrow> Inr r | None \<Rightarrow> Inl UnexpectedEof)))"

definition ai_exists :: "rstring \<Rightarrow> file_store \<Rightarrow> bool" where
  "ai_exists path fs \<longleftrightarrow> hm_get fs path \<noteq> None"

definition ai_delete :: "rstring \<Rightarrow> file_store \<Rightarrow> file_store" where
  "ai_delete path fs = (if ai_exists path fs then hm_remove path fs else fs)"

text \<open>\<open>str::trim_end_matches\<close> removes the suffix as often as it is there.\<close>

function trim_end_matches :: "rstring \<Rightarrow> rstring \<Rightarrow> rstring" where
  "trim_end_matches pat s =
     (if pat \<noteq> [] \<and> length pat \<le> length s \<and> drop (length s - length pat) s = pat
      then trim_end_matches pat (take (length s - length pat) s) else s)"
  by pat_completeness auto
termination
  by (relation "measure (\<lambda>(pat, s). length s)") (auto intro!: diff_less simp flip: length_greater_0_conv)

declare trim_end_matches.simps [simp del]

definition neural_path :: "rstring \<Rightarrow> rstring" where
  "neural_path path = trim_end_matches (ascii ''.ai'') path @ ascii ''.neural''"

definition save_neural :: "(bytes \<Rightarrow> bytes) \<Rightarrow> rstring \<Rightarrow> bytes \<Rightarrow> file_store \<Rightarrow> file_store" where
  "save_neural h path neural_bytes fs =
     (let buf = MAGIC_NEURAL @ u32_to_le (of_nat (length neural_bytes)) @ neural_bytes
      in hm_insert (neural_path path) (buf @ h buf) fs)"

definition load_neural :: "(bytes \<Rightarrow> bytes) \<Rightarrow> rstring \<Rightarrow> file_store \<Rightarrow> bytes option" where
  "load_neural h path fs =
     (case hm_get fs (neural_path path) of
        None \<Rightarrow> None
      | Some raw \<Rightarrow>
          if length raw < 8 + 4 + 32 then None
          else
            (let payload = take (length raw - 32) raw; stored_hash = drop (length raw - 32) raw in
             if h payload \<noteq> stored_hash then None
             else if take 8 payload \<noteq> MAGIC_NEURAL then None
             else
               (let len = unat (le_to_u32 (sub payload 8 12)) in
                if length payload < 12 + len then None else Some (sub payload 12 (12 + len)))))"

definition delete_neural :: "rstring \<Rightarrow> file_store \<Rightarrow> file_store" where
  "delete_neural path fs = (if hm_get fs (neural_path path) \<noteq> None then hm_remove (neural_path path) fs else fs)"

section \<open>Reading back what was written\<close>

lemma prefix_markov_entry: "prefix_reader read_markov_entry"
  unfolding read_markov_entry_def [abs_def] by (intro prefix_intros)

lemma prefix_importance_entry: "prefix_reader read_importance_entry"
  unfolding read_importance_entry_def [abs_def] by (intro prefix_intros)

interpretation markov_stream: stream_codec read_markov_entry markov_entry_bytes
  "\<lambda>(p, n, name, c). (p, n, stored_name name, c)" "\<lambda>_. True"
  by (intro stream_codec.intro prefix_markov_entry, unfold_locales) (auto simp: markov_entry_bytes_def read_markov_entry_def)

interpretation importance_stream: stream_codec read_importance_entry importance_entry_bytes
  "\<lambda>(ino, name, r). (ino, stored_name name, r)" "\<lambda>_. True"
  by (intro stream_codec.intro prefix_importance_entry, unfold_locales) (auto simp: importance_entry_bytes_def read_importance_entry_def)

lemma hm_push_last: "hm_get m p = None \<Longrightarrow> hm_push p t (m @ [(p, ts)]) = m @ [(p, ts @ [t])]"
  by (induction m) (auto simp: hm_push_def hm_get_def hm_insert_def split: if_splits)

lemma push_file:
  "hm_get m p = None \<Longrightarrow> foldl (\<lambda>m (p, t). hm_push p t m) m (map (Pair p) ts)
    = (if ts = [] then m else m @ [(p, ts)])"
proof (induction ts rule: rev_induct)
  case (snoc t ts)
  then show ?case
    by (cases "ts = []") (simp_all add: hm_push_last, simp add: hm_push_def hm_insert_new)
qed simp

lemma push_entries:
  "distinct (map fst (m @ saved)) \<Longrightarrow> foldl (\<lambda>m (p, t). hm_push p t m) m (markov_entries saved)
    = m @ filter (\<lambda>(_, ts). ts \<noteq> []) saved"
proof (induction saved arbitrary: m)
  case (Cons e saved)
  obtain p ts where e: "e = (p, ts)" by fastforce
  have "hm_get m p = None" using Cons.prems by (auto simp: e hm_get_None_iff)
  then show ?case
    using Cons.IH [of "if ts = [] then m else m @ [(p, ts)]"] Cons.prems
    by (auto simp: markov_entries_def e push_file)
qed (simp add: markov_entries_def)

lemma length_markov_entries: "length (markov_entries m) = hm_sum length m"
  by (induction m) (auto simp: markov_entries_def hm_sum_def)

text \<open>The maps with the names as they come back, and without files that have no transitions.\<close>

definition stored_transitions :: "transitions \<Rightarrow> transitions" where
  "stored_transitions m =
     filter (\<lambda>(_, ts). ts \<noteq> []) (map (\<lambda>(p, ts). (p, map (\<lambda>(n, name, c). (n, stored_name name, c)) ts)) m)"

definition stored_importance :: "importance_stats \<Rightarrow> importance_stats" where
  "stored_importance = map (\<lambda>(ino, name, r). (ino, stored_name name, r))"

lemma markov_entries_map:
  "map (\<lambda>(p, n, name, c). (p, n, stored_name name, c)) (markov_entries m)
    = markov_entries (map (\<lambda>(p, ts). (p, map (\<lambda>(n, name, c). (n, stored_name name, c)) ts)) m)"
  by (induction m) (auto simp: markov_entries_def)

lemma parse_ai_payload:
  assumes "hm_wf m" and "hm_wf stats" and "hm_sum length m < 2 ^ 32" and "length stats < 2 ^ 32"
  shows "parse_ai (ai_payload m stats) = Some (stored_transitions m, stored_importance stats)"
proof -
  let ?es = "markov_entries m"
  have n: "unat (of_nat (hm_sum length m) :: u32) = length ?es" "unat (of_nat (length stats) :: u32) = length stats"
    using assms(3,4) by (simp_all add: unat_of_nat length_markov_entries)
  have "foldl (\<lambda>m (p, t). hm_push p t m) [] (map (\<lambda>(p, n, name, c). (p, n, stored_name name, c)) ?es)
      = stored_transitions m"
    unfolding markov_entries_map stored_transitions_def
    using assms(1) by (subst push_entries) (simp_all add: hm_wf_def case_prod_unfold comp_def)
  moreover have "hm_of_list (map (\<lambda>(ino, name, r). (ino, stored_name name, r)) stats) = stored_importance stats"
    using assms(2) by (simp add: stored_importance_def hm_of_list_wf hm_wf_def case_prod_unfold comp_def)
  moreover have "drop 12 (ai_payload m stats) = u32_to_le (of_nat (hm_sum length m)) @ concat (map markov_entry_bytes ?es)
      @ u32_to_le (of_nat (length stats)) @ concat (map importance_entry_bytes stats) @ []"
    by (simp add: ai_payload_def)
  ultimately show ?thesis
    unfolding parse_ai_def by (simp add: n markov_stream.times_enc importance_stream.times_enc del: append_Nil2)
qed

lemma trim_end_matches_append: "pat \<noteq> [] \<Longrightarrow> trim_end_matches pat (s @ pat) = trim_end_matches pat s"
  by (subst trim_end_matches.simps) simp

lemma sample_hash_length: "length (replicate 32 (sum_list b) :: bytes) = 32"
  by simp

text \<open>Splitting the hash off the end of a file.\<close>

lemma split_hash:
  "length x = 32 \<Longrightarrow> take (length (buf @ x) - 32) (buf @ x) = buf \<and> drop (length (buf @ x) - 32) (buf @ x) = x"
  by simp

lemma ai_save_load_stored:
  assumes "\<forall>b. length (h b) = 32" and "hm_wf m" and "hm_wf stats"
    and "hm_sum length m < 2 ^ 32" and "length stats < 2 ^ 32"
  shows "ai_load h path (ai_save h path m stats fs) = Inr (stored_transitions m, stored_importance stats)"
proof -
  let ?buf = "ai_payload m stats"
  have "take 8 ?buf = MAGIC_V2" "8 \<le> length ?buf" by (simp_all add: ai_payload_def)
  then show ?thesis
    using assms(1) split_hash [of "h ?buf" ?buf] parse_ai_payload [OF assms(2-5)]
    by (simp add: ai_load_def ai_save_def Let_def)
qed

section \<open>Properties\<close>

text \<open>What is saved on unmount is read back on the next mount: the same transitions and the same
  statistics, names as strings of 255 bytes read back, and only files without transitions are gone.\<close>

theorem ai_save_load:
  assumes "\<forall>b. length (h b) = 32" and "hm_wf m" and "hm_wf stats"
    and "hm_sum length m < 2 ^ 32" and "length stats < 2 ^ 32"
  shows "ai_load h path (ai_save h path m stats fs) = Inr (stored_transitions m, stored_importance stats)"
  using assms by (rule ai_save_load_stored)

theorem ai_save_load_witness:
  "ai_load (\<lambda>b. replicate 32 (sum_list b)) [100] (ai_save (\<lambda>b. replicate 32 (sum_list b)) [100]
      [(2, [(3, [97], 10), (4, [98], 5)])] [(3, ([97], 42, 17, 36))] [])
    = Inr ([(2, [(3, [97], 10), (4, [98], 5)])], [(3, ([97], 42, 17, 36))])"
proof -
  have "stored_transitions [(2, [(3, [97], 10), (4, [98], 5)])] = [(2, [(3, [97], 10), (4, [98], 5)])]"
    "stored_importance [(3, ([97], 42, 17, 36))] = [(3, ([97], 42, 17, 36))]"
    by (simp_all add: stored_transitions_def stored_importance_def stored_name_ascii)
  then show ?thesis
    by (subst ai_save_load) (simp_all add: hm_wf_def hm_sum_def)
qed

text \<open>A file that was cut, overwritten or flipped is never loaded as data: unless its last 32 bytes are
  the hash of the rest and the rest starts with the magic number, loading gives empty tables.\<close>

theorem ai_load_rejects:
  assumes "ai_load h path fs \<noteq> Inr ([], [])"
  shows "\<exists>payload x. hm_get fs path = Some (payload @ x) \<and> length x = 32 \<and> x = h payload \<and> take 8 payload = MAGIC_V2
    \<and> ai_load h path fs = (case parse_ai payload of Some r \<Rightarrow> Inr r | None \<Rightarrow> Inl UnexpectedEof)"
proof -
  obtain raw where raw: "hm_get fs path = Some raw" "8 + 32 \<le> length raw"
    "h (take (length raw - 32) raw) = drop (length raw - 32) raw" "take 8 (take (length raw - 32) raw) = MAGIC_V2"
    "ai_load h path fs = (case parse_ai (take (length raw - 32) raw) of Some r \<Rightarrow> Inr r | None \<Rightarrow> Inl UnexpectedEof)"
    using assms by (auto simp: ai_load_def Let_def split: option.splits if_splits)
  then have "hm_get fs path = Some (take (length raw - 32) raw @ drop (length raw - 32) raw)"
    "length (drop (length raw - 32) raw) = 32" by simp_all
  with raw(3-5) show ?thesis by metis
qed

theorem ai_load_rejects_witness:
  "\<exists>payload x. hm_get (ai_save (\<lambda>b. replicate 32 7) [100] [(2, [(3, [97], 10)])] [] []) [100] = Some (payload @ x)
    \<and> length x = 32 \<and> x = replicate 32 7 \<and> take 8 payload = MAGIC_V2"
proof -
  let ?fs = "ai_save (\<lambda>b. replicate 32 7) [100] [(2, [(3, [97], 10)])] [] []"
  have "ai_load (\<lambda>b. replicate 32 7) [100] ?fs = Inr ([(2, [(3, [97], 10)])], [])"
    by (subst ai_save_load) (simp_all add: hm_wf_def hm_sum_def stored_transitions_def stored_importance_def stored_name_ascii)
  then have "ai_load (\<lambda>b. replicate 32 7) [100] ?fs \<noteq> Inr ([], [])" by simp
  from ai_load_rejects [OF this] show ?thesis by auto
qed

text \<open>Neural weights read back as saved, but their path drops every trailing \<open>.ai\<close> of the image's
  name: an image \<open>x\<close> and an image \<open>x.ai\<close> share one weights file, and each loads what the other saved.\<close>

theorem neural_weights_shared:
  assumes "\<forall>b. length (h b) = 32" and "length weights < 2 ^ 32"
  shows "load_neural h (ai_path img) (save_neural h (ai_path img) weights fs) = Some weights
    \<and> load_neural h (ai_path img) (save_neural h (ai_path (img @ ascii ''.ai'')) weights fs) = Some weights"
proof -
  let ?buf = "MAGIC_NEURAL @ u32_to_le (of_nat (length weights)) @ weights"
  have path: "neural_path (ai_path (img @ ascii ''.ai'')) = neural_path (ai_path img)"
    by (simp add: neural_path_def ai_path_def trim_end_matches_append ascii_def flip: append_assoc)
  have n: "unat (le_to_u32 (u32_to_le (of_nat (length weights)))) = length weights"
    using assms(2) by (simp add: unat_of_nat)
  have "sub ?buf 8 12 = u32_to_le (of_nat (length weights))" "sub ?buf 12 (12 + length weights) = weights"
    by (simp_all add: sub_def)
  then have "load_neural h (ai_path img) (hm_insert (neural_path (ai_path img)) (?buf @ h ?buf) fs) = Some weights"
    using assms(1) split_hash [of "h ?buf" ?buf] n by (simp add: load_neural_def Let_def)
  then show ?thesis
    by (simp add: save_neural_def path Let_def)
qed

theorem neural_weights_shared_witness:
  "load_neural (\<lambda>_. zeros 32) (ai_path [120]) (save_neural (\<lambda>_. zeros 32) (ai_path ([120] @ ascii ''.ai'')) [1, 2] [])
    = Some [1, 2]"
  using neural_weights_shared [of "\<lambda>_. zeros 32" "[1, 2]" "[120]" "[]"] by simp

end
