(* ===== verification/Importance.thy ===== *)
theory Importance
  imports Floats Markov Ai_Persist
begin

text \<open>
  \<open>src/ai/importance.rs\<close>: the importance of a file from recency, frequency and time spent, its storage tier
  and the ranking; and the predictions of \<open>src/ai/markov.rs\<close>. The natural logarithm of \<open>f32\<close> is the
  argument \<open>lnf\<close>. An operation reads the clock once; \<open>None\<close> is a panic.
\<close>

section \<open>Scores\<close>

definition f32 :: "rat \<Rightarrow> fp" where "f32 = fp_round binary32"
definition f32_of_nat :: "nat \<Rightarrow> fp" where "f32_of_nat n = f32 (of_nat n)"
definition f32_of :: "'w::len word \<Rightarrow> fp" where "f32_of w = f32_of_nat (unat w)"

abbreviation add32 :: "fp \<Rightarrow> fp \<Rightarrow> fp" where "add32 \<equiv> fp_add binary32"
abbreviation sub32 :: "fp \<Rightarrow> fp \<Rightarrow> fp" where "sub32 \<equiv> fp_sub binary32"
abbreviation mul32 :: "fp \<Rightarrow> fp \<Rightarrow> fp" where "mul32 \<equiv> fp_mul binary32"
abbreviation div32 :: "fp \<Rightarrow> fp \<Rightarrow> fp" where "div32 \<equiv> fp_div binary32"

datatype importance_tier = Hot | Warm | Cold

definition tier_from_score :: "fp \<Rightarrow> importance_tier" where
  "tier_from_score score =
     (if fp_le (f32 (6 / 10)) score then Hot else if fp_le (f32 (3 / 10)) score then Warm else Cold)"

record file_score =
  fs_ino :: u64
  fs_name :: rstring
  fs_score :: fp
  fs_access_count :: u32
  fs_last_access :: u64
  fs_tier :: importance_tier

definition MAX_TRACKED_FILES :: nat where "MAX_TRACKED_FILES = 10000"

definition imp_score :: "(fp \<Rightarrow> fp) \<Rightarrow> u64 \<Rightarrow> u64 \<Rightarrow> importance_stats \<Rightarrow> fp" where
  "imp_score lnf now ino stats =
     (case hm_get stats ino of
        None \<Rightarrow> Fin 0
      | Some (_, hits, last_access, open_secs) \<Rightarrow>
          (let age_secs = f32_of (sat_sub now last_access);
               recency = fp_max (sub32 (Fin 1) (div32 age_secs (mul32 (Fin 30) (Fin 86400)))) (Fin 0);
               frequency = div32 (fp_max (lnf (f32_of hits)) (Fin 0)) (lnf (Fin 10));
               frequency = fp_min frequency (Fin 1);
               engagement = fp_min (div32 (f32_of open_secs) (Fin 3600)) (Fin 1);
               score = add32 (add32 (mul32 recency (f32 (4 / 10))) (mul32 frequency (f32 (4 / 10))))
                         (mul32 engagement (f32 (2 / 10)))
           in fp_min score (Fin 1)))"

text \<open>\<open>min_by(.. partial_cmp(..).unwrap())\<close>: the first of the least ones; comparing a NaN panics.\<close>

definition min_by_score :: "('a \<Rightarrow> fp) \<Rightarrow> 'a list \<Rightarrow> 'a option option" where
  "min_by_score key xs =
     (if 2 \<le> length xs \<and> list_ex (\<lambda>x. key x = NaN) xs then None
      else Some (case xs of [] \<Rightarrow> None
                 | x # ys \<Rightarrow> Some (foldl (\<lambda>m y. if fp_less (key y) (key m) then y else m) x ys)))"

definition imp_record ::
    "(fp \<Rightarrow> fp) \<Rightarrow> u64 \<Rightarrow> u64 \<Rightarrow> rstring \<Rightarrow> u64 \<Rightarrow> importance_stats \<Rightarrow> importance_stats option" where
  "imp_record lnf now ino name open_duration_secs stats =
     (let evicted =
            (if hm_get stats ino = None \<and> MAX_TRACKED_FILES \<le> length stats
             then map_option (\<lambda>r. case r of Some k \<Rightarrow> hm_remove k stats | None \<Rightarrow> stats)
                    (min_by_score (\<lambda>k. imp_score lnf now k stats) (map fst stats))
             else Some stats)
      in map_option (\<lambda>stats.
           case (case hm_get stats ino of Some e \<Rightarrow> e | None \<Rightarrow> (name, 0, 0, 0)) of
             (name, hits, _, secs) \<Rightarrow>
               hm_insert ino (name, hits + 1, now, secs + open_duration_secs) stats) evicted)"

definition ranked_files :: "(fp \<Rightarrow> fp) \<Rightarrow> u64 \<Rightarrow> importance_stats \<Rightarrow> file_score list option" where
  "ranked_files lnf now stats =
     sort_by_score fs_score
       (map (\<lambda>(ino, name, hits, last_access, _).
          let score = imp_score lnf now ino stats
          in \<lparr>fs_ino = ino, fs_name = name, fs_score = score, fs_access_count = hits,
              fs_last_access = last_access, fs_tier = tier_from_score score\<rparr>) stats)"

definition imp_tier :: "(fp \<Rightarrow> fp) \<Rightarrow> u64 \<Rightarrow> u64 \<Rightarrow> importance_stats \<Rightarrow> importance_tier" where
  "imp_tier lnf now ino stats = tier_from_score (imp_score lnf now ino stats)"

definition desktop_files :: "(fp \<Rightarrow> fp) \<Rightarrow> u64 \<Rightarrow> nat \<Rightarrow> importance_stats \<Rightarrow> file_score list option" where
  "desktop_files lnf now limit stats =
     map_option (\<lambda>fs. take limit (filter (\<lambda>f. fp_le (f32 (3 / 10)) (fs_score f)) fs)) (ranked_files lnf now stats)"

section \<open>Predictions\<close>

definition mk_predict :: "u64 \<Rightarrow> markov \<Rightarrow> (u64 \<times> rstring \<times> fp) list option" where
  "mk_predict ino m =
     (case hm_get (mk_transitions m) ino of
        None \<Rightarrow> Some []
      | Some ts \<Rightarrow>
          (let total = sum_list (map (\<lambda>(_, _, c). c) ts) in
           if total = 0 then Some []
           else sort_by_score (\<lambda>(_, _, p). p)
                  (map (\<lambda>(ino, name, hits). (ino, name, div32 (f32_of hits) (f32_of total))) ts)))"

definition mk_top_prediction :: "u64 \<Rightarrow> markov \<Rightarrow> (u64 \<times> rstring \<times> fp) option option" where
  "mk_top_prediction ino m = map_option (\<lambda>ps. case ps of [] \<Rightarrow> None | p # _ \<Rightarrow> Some p) (mk_predict ino m)"

section \<open>Scores lie between zero and one\<close>

lemma f32_nonneg [simp]: "0 \<le> x \<Longrightarrow> fp_nonneg (f32 x)"
  by (simp add: f32_def)

lemma f32_of_nat_nonneg [simp]: "fp_nonneg (f32_of_nat n)"
  by (simp add: f32_of_nat_def)

lemma f32_of_nonneg [simp]: "fp_nonneg (f32_of w)"
  unfolding f32_of_def by (rule f32_of_nat_nonneg)

lemma f32_unit: "0 \<le> x \<Longrightarrow> x \<le> 1 \<Longrightarrow> \<exists>y. f32 x = Fin y \<and> 0 \<le> y \<and> y \<le> 1"
  using fp_round_unit [of x 0 binary32] by (simp add: f32_def)

lemma f32_int: "\<bar>m\<bar> < 2 ^ 24 \<Longrightarrow> fp_round binary32 (of_int m) = Fin (of_int m)"
  by (rule fp_round_int) (simp_all add: binary32_def)

lemma month: "mul32 (Fin 30) (Fin 86400) = Fin 2592000"
  using f32_int [of 2592000] by simp

text \<open>A word is a finite float: \<open>f32\<close> reaches far beyond \<open>2 ^ 64\<close>.\<close>

lemma f32_of_nat_Fin:
  assumes "n < 2 ^ 64"
  shows "\<exists>x. f32_of_nat n = Fin x \<and> 0 \<le> x \<and> (0 < n \<longrightarrow> 1 \<le> x)"
proof -
  have "(of_nat n :: rat) \<le> of_nat (2 ^ 64)" using assms by (simp only: of_nat_le_iff less_imp_le)
  then have "(of_nat n :: rat) \<le> pow2 64" by (simp add: pow2_def)
  then obtain x where x: "f32_of_nat n = Fin x" "0 \<le> x"
    using fp_round_unit [of "of_nat n" 64 binary32] by (auto simp: f32_of_nat_def f32_def)
  have "1 \<le> x" if "0 < n"
  proof -
    have "pow2 0 \<le> of_nat n" using that by simp
    from fp_round_ge [OF this, of binary32] x show ?thesis by (auto simp: f32_of_nat_def f32_def)
  qed
  with x show ?thesis by blast
qed

lemma f32_of_word:
  fixes w :: "'w::len word"
  assumes "LENGTH('w) \<le> 64"
  shows "\<exists>x. f32_of w = Fin x \<and> 0 \<le> x \<and> (w \<noteq> 0 \<longrightarrow> 1 \<le> x)"
proof -
  have "unat w < 2 ^ LENGTH('w)" by (rule unsigned_less)
  also have "\<dots> \<le> (2 :: nat) ^ 64" using assms by (intro power_increasing) simp_all
  finally show ?thesis using f32_of_nat_Fin [of "unat w"] by (auto simp: f32_of_def unat_gt_0)
qed

lemma recency_unit:
  "\<exists>x. fp_max (sub32 (Fin 1) (div32 (f32_of (w :: u64)) (mul32 (Fin 30) (Fin 86400)))) (Fin 0) = Fin x \<and> 0 \<le> x \<and> x \<le> 1"
proof -
  obtain a where a: "f32_of w = Fin a" "0 \<le> a" using f32_of_word [of w] by auto
  have "fp_nonneg (fp_round binary32 (a / 2592000))" using a(2) by simp
  then consider "fp_round binary32 (a / 2592000) = PosInf" | q where "fp_round binary32 (a / 2592000) = Fin q" "0 \<le> q"
    by (auto simp: fp_nonneg_def)
  then show ?thesis
  proof cases
    case 1
    then show ?thesis unfolding month a(1) by (simp add: fp_sub_def fp_max_def)
  next
    case (2 q)
    show ?thesis
    proof (cases "q \<le> 1")
      case True
      then obtain y where "fp_round binary32 (1 - q) = Fin y" "0 \<le> y" "y \<le> 1"
        using 2 fp_round_unit [of "1 - q" 0 binary32] by auto
      then show ?thesis unfolding month a(1) by (simp add: 2 fp_sub_def fp_max_def)
    next
      case False
      then show ?thesis
        unfolding month a(1) using fp_round_nonpos [of "1 - q" binary32] by (auto simp: 2 fp_sub_def fp_max_def)
    qed
  qed
qed


text \<open>A score needs of the logarithm only that \<open>ln 10\<close> is a positive number.\<close>

lemma imp_score_unit:
  assumes "lnf (Fin 10) = Fin l" and "0 < l"
  shows "\<exists>x. imp_score lnf now ino stats = Fin x \<and> 0 \<le> x \<and> x \<le> 1"
proof (cases "hm_get stats ino")
  case (Some e)
  obtain name hits last secs where e: "e = (name, hits, last, secs)" by (cases e) auto
  let ?r = "fp_max (sub32 (Fin 1) (div32 (f32_of (sat_sub now last)) (mul32 (Fin 30) (Fin 86400)))) (Fin 0)"
  let ?f = "fp_min (div32 (fp_max (lnf (f32_of hits)) (Fin 0)) (lnf (Fin 10))) (Fin 1)"
  let ?g = "fp_min (div32 (f32_of secs) (Fin 3600)) (Fin 1)"
  obtain r where r: "?r = Fin r" "0 \<le> r" using recency_unit by blast
  obtain f where f: "?f = Fin f" "0 \<le> f"
    using fp_min_1 [OF fp_nonneg_div [OF fp_nonneg_max_0 assms(2)]] assms(1) by metis
  obtain g where g: "?g = Fin g" "0 \<le> g"
    using fp_min_1 [OF fp_nonneg_div [OF f32_of_nonneg, of 3600]] by auto
  obtain c d where c: "f32 (4 / 10) = Fin c" "0 \<le> c" and d: "f32 (2 / 10) = Fin d" "0 \<le> d"
    using f32_unit [of "4 / 10"] f32_unit [of "2 / 10"] by auto
  have "fp_nonneg (add32 (add32 (mul32 ?r (f32 (4 / 10))) (mul32 ?f (f32 (4 / 10)))) (mul32 ?g (f32 (2 / 10))))"
    unfolding r(1) f(1) g(1) c(1) d(1) using r f g c d by (intro fp_nonneg_add fp_nonneg_mul_Fin) auto
  from fp_min_1 [OF this] show ?thesis by (simp add: imp_score_def Some e)
qed (simp add: imp_score_def)

lemma imp_score_not_NaN: "lnf (Fin 10) = Fin l \<Longrightarrow> 0 < l \<Longrightarrow> imp_score lnf now ino stats \<noteq> NaN"
  using imp_score_unit [of lnf l now ino stats] by auto


lemma f32_step:
  assumes "pow2 k \<le> x" and "x < pow2 (k + 1)" and "- 126 \<le> k"
    and "of_int n - 1 / 2 < x / pow2 (k - 23)" and "x / pow2 (k - 23) < of_int n + 1 / 2" and "\<bar>of_int n * pow2 (k - 23)\<bar> < pow2 128"
  shows "fp_round binary32 x = Fin (of_int n * pow2 (k - 23))"
proof -
  have "0 < x" using assms(1) pow2_pos(1) [of k] by linarith
  then show ?thesis using assms binade_eq [OF assms(1,2)] round_even_near [OF assms(4,5)] by (simp add: fp_round_def binary32_def Let_def)
qed

lemma f32_tenths:
  "f32 (4 / 10) = Fin (13421773 / 33554432)" "fp_round binary32 (13421773 / 33554432) = Fin (13421773 / 33554432)"
  "f32 (6 / 10) = Fin (10066330 / 16777216)" "f32 (3 / 10) = Fin (10066330 / 33554432)" "f32 (1 / 1000) = Fin (8589935 / 8589934592)"
  using f32_step [of "- 2" "4 / 10" 13421773] f32_step [of "- 2" "13421773 / 33554432" 13421773] f32_step [of "- 1" "6 / 10" 10066330]
    f32_step [of "- 2" "3 / 10" 10066330] f32_step [of "- 10" "1 / 1000" 8589935]
  by (simp_all add: f32_def pow2_def)

lemma first_access_score:
  assumes "lnf (Fin 10) = Fin l" and "0 < l" and "lnf (Fin 1) = Fin 0" and "hm_get stats ino = Some (name, 1, now, 0)"
  shows "imp_score lnf now ino stats = f32 (4 / 10)"
proof -
  have r: "fp_round binary32 0 = Fin 0" "fp_round binary32 1 = Fin 1" "fp_round binary32 2592000 = Fin 2592000"
    using f32_int [of 0] f32_int [of 1] f32_int [of 2592000] by simp_all
  have one: "f32_of (1 :: u32) = Fin 1" "f32_of (0 :: u64) = Fin 0"
    by (simp_all add: f32_of_def f32_of_nat_def f32_def r)
  have c: "f32 (2 / 5) = Fin (13421773 / 33554432)" using f32_tenths(1) by simp
  obtain e where e: "f32 (1 / 5) = Fin e" using f32_unit [of "1 / 5"] by auto
  show ?thesis
    using assms(2) f32_tenths(2)
    by (simp add: imp_score_def assms(1,3,4) sat_sub_def one Let_def c e r fp_max_def fp_min_def fp_sub_def)
qed

section \<open>Properties\<close>

lemma length_hm_insert: "length (hm_insert k v m) = (if hm_get m k = None then Suc (length m) else length m)"
  by (induction m) (auto simp: hm_insert_def hm_get_def)

lemma min_by_score_in:
  assumes "\<And>x. x \<in> set xs \<Longrightarrow> key x \<noteq> NaN" and "xs \<noteq> []"
  shows "\<exists>m \<in> set xs. min_by_score key xs = Some (Some m) \<and> (\<forall>y \<in> set xs. fp_le (key m) (key y))"
proof -
  have "\<exists>m \<in> insert x (set ys). foldl (\<lambda>m y. if fp_less (key y) (key m) then y else m) x ys = m
      \<and> (\<forall>y \<in> insert x (set ys). fp_le (key m) (key y))"
    if "\<forall>z \<in> insert x (set ys). key z \<noteq> NaN" for x ys
    using that
  proof (induction ys arbitrary: x)
    case Nil
    then show ?case by (simp add: fp_le_def)
  next
    case (Cons y ys)
    let ?z = "if fp_less (key y) (key x) then y else x"
    have "\<forall>z \<in> insert ?z (set ys). key z \<noteq> NaN" using Cons.prems by auto
    from Cons.IH [OF this] obtain m where m: "m \<in> insert ?z (set ys)"
      "foldl (\<lambda>m y. if fp_less (key y) (key m) then y else m) ?z ys = m" "\<forall>y \<in> insert ?z (set ys). fp_le (key m) (key y)"
      by blast
    have "fp_le (key ?z) (key x)" "fp_le (key ?z) (key y)"
      using Cons.prems fp_le_iff [of "key x" "key y"] by (auto simp: fp_le_def)
    with m(3) have "\<forall>w \<in> insert x (set (y # ys)). fp_le (key m) (key w)" using fp_le_trans by fastforce
    with m(1,2) show ?case by (intro bexI [of _ m]) auto
  qed
  with assms show ?thesis by (cases xs) (force simp: min_by_score_def list_ex_iff)+
qed

text \<open>A score is a number between zero and one, whatever the logarithm does on other arguments, so
  ranking never panics: it lists every tracked file once, by falling score, with the tier of its score.\<close>

theorem ranked_files_correct:
  assumes "lnf (Fin 10) = Fin l" and "0 < l" and "hm_wf stats"
  shows "\<exists>fs. ranked_files lnf now stats = Some fs \<and> falling fs_score fs
    \<and> mset (map fs_ino fs) = mset (map fst stats)
    \<and> (\<forall>f \<in> set fs. fs_score f = imp_score lnf now (fs_ino f) stats \<and> fs_tier f = imp_tier lnf now (fs_ino f) stats
        \<and> (\<exists>x. fs_score f = Fin x \<and> 0 \<le> x \<and> x \<le> 1))"
proof -
  let ?file = "\<lambda>(ino, name, hits, last_access, _). let score = imp_score lnf now ino stats
     in \<lparr>fs_ino = ino, fs_name = name, fs_score = score, fs_access_count = hits,
         fs_last_access = last_access, fs_tier = tier_from_score score\<rparr>"
  have entry: "fs_score (?file e) = imp_score lnf now (fst e) stats" "fs_ino (?file e) = fst e"
    "fs_tier (?file e) = imp_tier lnf now (fst e) stats" for e
    by (simp_all add: case_prod_unfold Let_def imp_tier_def)
  have "fs_score f \<noteq> NaN" if "f \<in> set (map ?file stats)" for f
    using that imp_score_not_NaN [of lnf, OF assms(1,2)] entry(1) by auto
  then obtain fs where fs: "sort_by_score fs_score (map ?file stats) = Some fs"
    "mset fs = mset (map ?file stats)" "falling fs_score fs"
    using sort_by_score_sorts by blast
  have "mset (map fs_ino fs) = image_mset fs_ino (mset (map ?file stats))" using fs(2) by simp
  also have "\<dots> = mset (map fst stats)" by (simp add: multiset.map_comp comp_def entry)
  finally have inos: "mset (map fs_ino fs) = mset (map fst stats)" .
  have img: "set fs = ?file ` set stats" using mset_eq_setD [OF fs(2)] by simp
  have "fs_score f = imp_score lnf now (fs_ino f) stats \<and> fs_tier f = imp_tier lnf now (fs_ino f) stats
      \<and> (\<exists>x. fs_score f = Fin x \<and> 0 \<le> x \<and> x \<le> 1)" if "f \<in> set fs" for f
  proof -
    from that have "f \<in> ?file ` set stats" unfolding img .
    then obtain e :: "u64 \<times> rstring \<times> u32 \<times> u64 \<times> u64" where "f = ?file e" by (rule imageE)
    then show ?thesis using imp_score_unit [of lnf, OF assms(1,2)] by (simp only: entry)
  qed
  moreover have "ranked_files lnf now stats = Some fs" using fs(1) by (simp add: ranked_files_def)
  ultimately show ?thesis using fs(3) inos by blast
qed

text \<open>A stand-in for the logarithm: constant one.\<close>

definition ln_one :: "fp \<Rightarrow> fp" where "ln_one _ = Fin 1"

theorem ranked_files_correct_witness:
  "\<exists>fs. ranked_files ln_one 9 [(2, [97], 1, 5, 0), (3, [98], 4, 7, 60)] = Some fs \<and> falling fs_score fs"
proof -
  have "ln_one (Fin 10) = Fin 1" "hm_wf [(2 :: u64, [97 :: u8], 1 :: u32, 5 :: u64, 0 :: u64), (3, [98], 4, 7, 60)]"
    by (simp_all add: ln_one_def hm_wf_def)
  from ranked_files_correct [where lnf = ln_one, OF this(1) _ this(2), of 9] show ?thesis by auto
qed

text \<open>Recording an access never panics and keeps the table within its cap: a new file at the cap evicts
  one with the least score, and of the other files nothing changes.\<close>

theorem imp_record_correct:
  assumes "lnf (Fin 10) = Fin l" and "0 < l" and "hm_wf stats" and "length stats \<le> MAX_TRACKED_FILES"
  shows "\<exists>stats'. imp_record lnf now ino name secs stats = Some stats' \<and> hm_wf stats' \<and> length stats' \<le> MAX_TRACKED_FILES
    \<and> hm_get stats' ino = Some (case hm_get stats ino of
          Some (name', hits, _, secs') \<Rightarrow> (name', hits + 1, now, secs' + secs) | None \<Rightarrow> (name, 1, now, secs))
    \<and> (if hm_get stats ino = None \<and> length stats = MAX_TRACKED_FILES
       then \<exists>k \<in> fst ` set stats. (\<forall>j \<in> fst ` set stats. fp_le (imp_score lnf now k stats) (imp_score lnf now j stats))
              \<and> (\<forall>j. j \<noteq> ino \<longrightarrow> hm_get stats' j = (if j = k then None else hm_get stats j))
       else \<forall>j. j \<noteq> ino \<longrightarrow> hm_get stats' j = hm_get stats j)"
proof -
  define upd where "upd m = (case (case hm_get m ino of Some e \<Rightarrow> e | None \<Rightarrow> (name, 0, 0, 0)) of
      (name, hits, _, secs0) \<Rightarrow> hm_insert ino (name, hits + 1, now, secs0 + secs) m)" for m :: importance_stats
  have upd: "hm_wf m \<Longrightarrow> hm_wf (upd m)" "j \<noteq> ino \<Longrightarrow> hm_get (upd m) j = hm_get m j"
    "hm_get (upd m) ino = Some (case hm_get m ino of
        Some (name', hits, _, secs') \<Rightarrow> (name', hits + 1, now, secs' + secs) | None \<Rightarrow> (name, 1, now, secs))"
    "length (upd m) = (if hm_get m ino = None then Suc (length m) else length m)" for m j
    by (simp_all add: upd_def length_hm_insert split: option.split prod.split)
  show ?thesis
  proof (cases "hm_get stats ino = None \<and> MAX_TRACKED_FILES \<le> length stats")
    case True
    let ?score = "\<lambda>k. imp_score lnf now k stats"
    have "map fst stats \<noteq> []" using True by (auto simp: MAX_TRACKED_FILES_def)
    then obtain k where k: "k \<in> set (map fst stats)" "min_by_score ?score (map fst stats) = Some (Some k)"
      "\<forall>j \<in> set (map fst stats). fp_le (?score k) (?score j)"
      using min_by_score_in [of "map fst stats" ?score] imp_score_not_NaN [of lnf, OF assms(1,2)] by blast
    have ne: "k \<noteq> ino" using True k(1) by (auto simp: hm_get_None_iff)
    have run: "imp_record lnf now ino name secs stats = Some (upd (hm_remove k stats))"
      using True k(2) by (simp add: imp_record_def upd_def)
    obtain v where "hm_get stats k = Some v"
      using k(1) hm_get_None_iff [of stats k] by auto
    then have "length (hm_remove k stats) < length stats" by (rule length_hm_remove)
    then have "length (upd (hm_remove k stats)) \<le> MAX_TRACKED_FILES"
      using assms(4) by (simp add: upd(4))
    with run k ne True assms(3,4) upd show ?thesis
      by (intro exI [of _ "upd (hm_remove k stats)"]) auto
  next
    case False
    have "imp_record lnf now ino name secs stats = Some (upd stats)"
      using False by (auto simp: imp_record_def upd_def)
    moreover have "length (upd stats) \<le> MAX_TRACKED_FILES"
      using False assms(4) by (cases "hm_get stats ino") (simp_all add: upd(4))
    moreover have "\<not> (hm_get stats ino = None \<and> length stats = MAX_TRACKED_FILES)" using False by linarith
    ultimately show ?thesis using upd(1) [OF assms(3)] upd(2,3) by (intro exI [of _ "upd stats"]) (simp only: if_False simp_thms, blast)
  qed
qed

theorem imp_record_correct_witness:
  "\<exists>stats'. imp_record ln_one 9 2 [97] 5 [(2, [97], 1, 5, 0)] = Some stats' \<and> hm_get stats' 2 = Some ([97], 2, 9, 5)"
proof -
  have "ln_one (Fin 10) = Fin 1" "hm_wf [(2 :: u64, [97 :: u8], 1 :: u32, 5 :: u64, 0 :: u64)]"
    "length [(2 :: u64, [97 :: u8], 1 :: u32, 5 :: u64, 0 :: u64)] \<le> MAX_TRACKED_FILES"
    by (simp_all add: ln_one_def hm_wf_def MAX_TRACKED_FILES_def)
  from imp_record_correct [where lnf = ln_one, OF this(1) _ this(2,3), of 9 2 "[97]" 5] show ?thesis by (auto simp: hm_get_def)
qed

text \<open>The predictions for a file are its successors by falling probability, and asking never panics.\<close>

theorem mk_predict_sorted:
  "\<exists>ps. mk_predict ino m = Some ps \<and> falling (\<lambda>(_, _, p). p) ps \<and> (\<forall>(_, _, p) \<in> set ps. fp_nonneg p)
    \<and> (ps = [] \<or> mset (map (\<lambda>(i, n, _). (i, n)) ps)
        = mset (map (\<lambda>(i, n, _). (i, n)) (the (hm_get (mk_transitions m) ino))))"
proof (cases "\<exists>ts. hm_get (mk_transitions m) ino = Some ts \<and> sum_list (map (\<lambda>(_, _, c). c) ts) \<noteq> 0")
  case True
  then obtain ts where ts: "hm_get (mk_transitions m) ino = Some ts" "sum_list (map (\<lambda>(_, _, c). c) ts) \<noteq> 0" by blast
  let ?total = "sum_list (map (\<lambda>(_, _, c). c) ts)"
  let ?p = "\<lambda>(ino, name, hits). (ino, name, div32 (f32_of hits) (f32_of ?total))"
  obtain t where t: "f32_of ?total = Fin t" "1 \<le> t" using f32_of_word [of ?total] ts(2) by auto
  have nonneg: "fp_nonneg (snd (snd (?p e)))" for e
    using fp_nonneg_div [OF f32_of_nonneg, of t] t by (simp add: case_prod_unfold)
  then have key: "(\<lambda>(_, _, p). p) e \<noteq> NaN" if "e \<in> set (map ?p ts)" for e
    using that fp_nonneg_not_NaN by (force simp: case_prod_unfold)
  obtain ps where ps: "sort_by_score (\<lambda>(_, _, p). p) (map ?p ts) = Some ps"
    "mset ps = mset (map ?p ts)" "falling (\<lambda>(_, _, p). p) ps"
    using sort_by_score_sorts [of "map ?p ts" "\<lambda>(_, _, p). p"] key by blast
  have "mset (map (\<lambda>(i, n, _). (i, n)) ps) = image_mset (\<lambda>(i, n, _). (i, n)) (mset (map ?p ts))" using ps(2) by simp
  then have "mset (map (\<lambda>(i, n, _). (i, n)) ps) = mset (map (\<lambda>(i, n, _). (i, n)) ts)"
    by (simp add: multiset.map_comp comp_def case_prod_unfold)
  moreover have "\<forall>(_, _, p) \<in> set ps. fp_nonneg p"
    using mset_eq_setD [OF ps(2)] nonneg by (auto simp: case_prod_unfold)
  ultimately show ?thesis using ts ps by (simp add: mk_predict_def Let_def)
next
  case False
  then have "mk_predict ino m = Some []" by (auto simp: mk_predict_def Let_def split: option.splits)
  then show ?thesis by simp
qed

end
