(* ===== verification/Text.thy ===== *)
theory Text
  imports Utf8
begin

text \<open>
  String functions of the Rust standard library that the search index, the ransomware guard and the
  command line use, on UTF-8 bytes. Of the Unicode tables only the ASCII part is written out; what
  \<open>to_lowercase\<close> does with other text, and which other characters are alphanumeric, are arguments.
\<close>

record unicode =
  uc_lower :: "rstring \<Rightarrow> rstring"
  uc_alphanumeric :: "rstring \<Rightarrow> bool"

section \<open>Characters\<close>

definition char_width :: "u8 \<Rightarrow> nat" where
  "char_width b = (if b < 0x80 then 1 else if b < 0xE0 then 2 else if b < 0xF0 then 3 else 4)"

fun chars_of :: "rstring \<Rightarrow> rstring list" where
  "chars_of [] = []"
| "chars_of (b # bs) = take (char_width b) (b # bs) # chars_of (drop (char_width b - 1) bs)"

declare chars_of.simps [simp del]

definition ascii_alphanumeric :: "u8 \<Rightarrow> bool" where
  "ascii_alphanumeric c \<longleftrightarrow> between 0x30 0x39 c \<or> between 0x41 0x5A c \<or> between 0x61 0x7A c"

definition alphanumeric :: "unicode \<Rightarrow> rstring \<Rightarrow> bool" where
  "alphanumeric uc c = (case c of [b] \<Rightarrow> ascii_alphanumeric b | _ \<Rightarrow> uc_alphanumeric uc c)"

definition ascii_lower :: "u8 \<Rightarrow> u8" where
  "ascii_lower c = (if between 0x41 0x5A c then c + 0x20 else c)"

definition to_lowercase :: "unicode \<Rightarrow> rstring \<Rightarrow> rstring" where
  "to_lowercase uc s = (if \<forall>c \<in> set s. c < 0x80 then map ascii_lower s else uc_lower uc s)"

section \<open>Splitting\<close>

text \<open>\<open>split(|c| ..)\<close>: the pieces between the characters that satisfy the test, the empty ones included.\<close>

fun split_chars :: "(rstring \<Rightarrow> bool) \<Rightarrow> rstring list \<Rightarrow> rstring list" where
  "split_chars sep [] = [[]]"
| "split_chars sep (c # cs) =
     (if sep c then [] # split_chars sep cs
      else case split_chars sep cs of w # ws \<Rightarrow> (c @ w) # ws | [] \<Rightarrow> [c])"

definition words_of :: "unicode \<Rightarrow> rstring \<Rightarrow> rstring list" where
  "words_of uc s = split_chars (\<lambda>c. \<not> alphanumeric uc c) (chars_of s)"

section \<open>Prefixes, suffixes and patterns\<close>

definition starts_with :: "rstring \<Rightarrow> rstring \<Rightarrow> bool" where
  "starts_with pat s \<longleftrightarrow> take (length pat) s = pat"

definition ends_with :: "rstring \<Rightarrow> rstring \<Rightarrow> bool" where
  "ends_with pat s \<longleftrightarrow> length pat \<le> length s \<and> drop (length s - length pat) s = pat"

text \<open>\<open>find\<close>: the first position of a pattern.\<close>

fun str_find :: "rstring \<Rightarrow> rstring \<Rightarrow> nat option" where
  "str_find pat [] = (if pat = [] then Some 0 else None)"
| "str_find pat (c # s) = (if starts_with pat (c # s) then Some 0 else map_option Suc (str_find pat s))"

text \<open>\<open>split(pat)\<close> for a pattern that is not empty.\<close>

function str_split :: "rstring \<Rightarrow> rstring \<Rightarrow> rstring list" where
  "str_split pat s =
     (case str_find pat s of
        Some n \<Rightarrow> if pat = [] then [s] else take n s # str_split pat (drop (n + length pat) s)
      | None \<Rightarrow> [s])"
  by pat_completeness auto

lemma str_find_Some: "str_find pat s = Some n \<Longrightarrow> s = take n s @ pat @ drop (n + length pat) s"
proof (induction pat s arbitrary: n rule: str_find.induct)
  case (2 pat c s)
  show ?case
  proof (cases "starts_with pat (c # s)")
    case True
    with 2 show ?thesis by (simp add: starts_with_def) (metis append_take_drop_id)
  next
    case False
    with "2.prems" obtain m where m: "str_find pat s = Some m" "n = Suc m" by auto
    from "2.IH" [OF False m(1)] m(2) show ?thesis by simp
  qed
qed (auto split: if_splits)

termination str_split
proof (relation "measure (\<lambda>(pat, s). length s)")
  fix pat s :: rstring and n
  assume "str_find pat s = Some n" "pat \<noteq> []"
  then show "((pat, drop (n + length pat) s), (pat, s)) \<in> measure (\<lambda>(pat, s). length s)"
    using str_find_Some [of pat s n] by (cases pat; cases s) auto
qed simp

declare str_split.simps [simp del]

definition trim_start_char :: "u8 \<Rightarrow> rstring \<Rightarrow> rstring" where
  "trim_start_char c s = dropWhile (\<lambda>x. x = c) s"

definition trim_end_char :: "u8 \<Rightarrow> rstring \<Rightarrow> rstring" where
  "trim_end_char c s = rev (dropWhile (\<lambda>x. x = c) (rev s))"

fun join_strs :: "rstring \<Rightarrow> rstring list \<Rightarrow> rstring" where
  "join_strs sep [] = []"
| "join_strs sep [x] = x"
| "join_strs sep (x # y # xs) = x @ sep @ join_strs sep (y # xs)"

section \<open>What they find\<close>

lemma starts_with_iff: "starts_with pat s \<longleftrightarrow> (\<exists>b. s = pat @ b)"
  by (auto simp: starts_with_def) (metis append_take_drop_id)

lemma ends_with_iff: "ends_with pat s \<longleftrightarrow> (\<exists>a. s = a @ pat)"
  by (auto simp: ends_with_def) (metis append_take_drop_id)

lemma str_find_None: "str_find pat s = None \<longleftrightarrow> \<not> str_contains pat s"
  by (induction pat s rule: str_find.induct) (auto simp: starts_with_def)

lemma str_find_least: "str_find pat s = Some n \<Longrightarrow> s = a @ pat @ b \<Longrightarrow> n \<le> length a"
proof (induction pat s arbitrary: n a rule: str_find.induct)
  case (2 pat c s)
  show ?case
  proof (cases "starts_with pat (c # s)")
    case True
    with "2.prems"(1) show ?thesis by simp
  next
    case False
    with "2.prems"(1) obtain m where m: "str_find pat s = Some m" "n = Suc m" by auto
    have "a \<noteq> []" using False "2.prems"(2) by (auto simp: starts_with_iff)
    then obtain a' where "a = c # a'" "s = a' @ pat @ b" using "2.prems"(2) by (cases a) auto
    with "2.IH" [OF False m(1), of a'] m(2) show ?thesis by simp
  qed
qed (auto split: if_splits)

end
