(* ===== verification/Search.thy ===== *)
theory Search
  imports Importance Text
begin

text \<open>
  \<open>src/ai/search.rs\<close>: the index of words with their frequencies and the ranking of a query by the sum of
  term frequency times inverse document frequency. \<open>usize\<close> counts are \<open>nat\<close>; \<open>None\<close> is a panic.
\<close>

section \<open>The index\<close>

record indexed_file =
  ix_ino :: u64
  ix_name :: rstring
  ix_word_freq :: "(rstring, fp) hmap"
  ix_total_words :: nat
  ix_last_modified :: u64

record search_index =
  si_files :: "(u64, indexed_file) hmap"
  si_doc_freq :: "(rstring, nat) hmap"
  si_last_query_result :: bytes
  si_last_ask_result :: bytes

definition search_new :: search_index where
  "search_new = \<lparr>si_files = [], si_doc_freq = [], si_last_query_result = [], si_last_ask_result = []\<rparr>"

definition STOPWORDS :: "rstring list" where
  "STOPWORDS = map ascii
     [''the'', ''and'', ''for'', ''are'', ''but'', ''not'', ''you'', ''all'', ''can'', ''had'', ''her'',
      ''was'', ''one'', ''our'', ''out'', ''day'', ''get'', ''has'', ''him'', ''his'', ''how'', ''its'',
      ''may'', ''new'', ''now'', ''old'', ''see'', ''two'', ''who'', ''boy'', ''did'', ''she'', ''use'',
      ''way'', ''will'']"

definition is_stopword :: "rstring \<Rightarrow> bool" where
  "is_stopword w \<longleftrightarrow> w \<in> set STOPWORDS"

text \<open>The words of a text or a query, and those of a file name.\<close>

definition terms_of :: "unicode \<Rightarrow> rstring \<Rightarrow> rstring list" where
  "terms_of uc s = filter (\<lambda>w. \<not> is_stopword w) (filter (\<lambda>w. 2 < length w) (words_of uc s))"

definition name_words_of :: "unicode \<Rightarrow> rstring \<Rightarrow> rstring list" where
  "name_words_of uc name = map (to_lowercase uc) (filter (\<lambda>w. 1 < length w) (words_of uc name))"

definition freq_add :: "fp \<Rightarrow> rstring \<Rightarrow> (rstring, fp) hmap \<Rightarrow> (rstring, fp) hmap" where
  "freq_add x w m = hm_insert w (add32 (case hm_get m w of Some f \<Rightarrow> f | None \<Rightarrow> Fin 0) x) m"

definition doc_inc :: "rstring \<Rightarrow> (rstring, nat) hmap \<Rightarrow> (rstring, nat) hmap" where
  "doc_inc w m = hm_insert w ((case hm_get m w of Some n \<Rightarrow> n | None \<Rightarrow> 0) + 1) m"

definition doc_dec :: "rstring \<Rightarrow> (rstring, nat) hmap \<Rightarrow> (rstring, nat) hmap" where
  "doc_dec w m = (case hm_get m w of Some n \<Rightarrow> hm_insert w (n - 1) m | None \<Rightarrow> m)"

definition index_by_name :: "unicode \<Rightarrow> u64 \<Rightarrow> rstring \<Rightarrow> u64 \<Rightarrow> search_index \<Rightarrow> search_index" where
  "index_by_name uc ino name last_modified idx =
     (let words = name_words_of uc name in
      idx\<lparr>si_doc_freq := fold doc_inc words (si_doc_freq idx),
          si_files := hm_insert ino \<lparr>ix_ino = ino, ix_name = name, ix_word_freq = fold (freq_add (Fin 1)) words [],
            ix_total_words = length words, ix_last_modified = last_modified\<rparr> (si_files idx)\<rparr>)"

definition index_file :: "unicode \<Rightarrow> u64 \<Rightarrow> rstring \<Rightarrow> bytes \<Rightarrow> u64 \<Rightarrow> search_index \<Rightarrow> search_index" where
  "index_file uc ino name content last_modified idx =
     (let words = terms_of uc (to_lowercase uc (utf8_lossy content)); total_words = length words in
      if total_words = 0 then index_by_name uc ino name last_modified idx
      else
        (let word_freq = fold (freq_add (Fin 1)) words [];
             word_freq = map (\<lambda>(w, f). (w, div32 f (f32_of_nat total_words))) word_freq;
             df = (case hm_get (si_files idx) ino of
                     Some old \<Rightarrow> fold doc_dec (map fst (ix_word_freq old)) (si_doc_freq idx)
                   | None \<Rightarrow> si_doc_freq idx);
             df = fold doc_inc (map fst word_freq) df;
             name_words = name_words_of uc name
         in idx\<lparr>si_doc_freq := fold doc_inc name_words df,
                si_files := hm_insert ino \<lparr>ix_ino = ino, ix_name = name,
                  ix_word_freq = fold (freq_add (f32 (1 / 2))) name_words word_freq,
                  ix_total_words = total_words, ix_last_modified = last_modified\<rparr> (si_files idx)\<rparr>))"

definition index_remove :: "u64 \<Rightarrow> search_index \<Rightarrow> search_index" where
  "index_remove ino idx =
     (case hm_get (si_files idx) ino of
        None \<Rightarrow> idx
      | Some f \<Rightarrow> idx\<lparr>si_files := hm_remove ino (si_files idx),
                      si_doc_freq := fold doc_dec (map fst (ix_word_freq f)) (si_doc_freq idx)\<rparr>)"

definition indexed_count :: "search_index \<Rightarrow> nat" where
  "indexed_count idx = length (si_files idx)"

section \<open>Queries\<close>

record search_result =
  sr_ino :: u64
  sr_name :: rstring
  sr_score :: fp
  sr_matched_terms :: "rstring list"

definition score_term ::
    "(fp \<Rightarrow> fp) \<Rightarrow> unicode \<Rightarrow> search_index \<Rightarrow> indexed_file \<Rightarrow> rstring \<Rightarrow> fp \<times> rstring list \<Rightarrow> fp \<times> rstring list" where
  "score_term lnf uc idx entry term = (\<lambda>(score, matched).
     let tf = (case hm_get (ix_word_freq entry) term of Some f \<Rightarrow> f | None \<Rightarrow> Fin 0);
         (score, matched) =
           (if fp_less (Fin 0) tf
            then (let df = (case hm_get (si_doc_freq idx) term of Some n \<Rightarrow> n | None \<Rightarrow> 1);
                      n_docs = max (length (si_files idx)) 1;
                      idf = fp_max (lnf (div32 (f32_of_nat n_docs) (f32_of_nat df))) (Fin 0)
                  in (add32 score (mul32 tf idf), matched @ [term]))
            else (score, matched))
     in if str_contains term (to_lowercase uc (ix_name entry))
        then (add32 score (f32 (3 / 10)), if term \<in> set matched then matched else matched @ [term])
        else (score, matched))"

definition search_query :: "(fp \<Rightarrow> fp) \<Rightarrow> unicode \<Rightarrow> rstring \<Rightarrow> search_index \<Rightarrow> search_result list option" where
  "search_query lnf uc query idx =
     (let terms = terms_of uc (to_lowercase uc query) in
      if terms = [] then Some []
      else sort_by_score sr_score
             (filter (\<lambda>r. fp_less (Fin 0) (sr_score r))
               (map (\<lambda>(_, f). case fold (score_term lnf uc idx f) terms (Fin 0, []) of
                  (score, matched) \<Rightarrow>
                    \<lparr>sr_ino = ix_ino f, sr_name = ix_name f, sr_score = score, sr_matched_terms = matched\<rparr>)
                 (si_files idx))))"

section \<open>Frequencies stay in range\<close>

text \<open>Adding at most one to a frequency stops at \<open>2 ^ 25\<close>, where the addend is rounded away.\<close>

definition freq_ok :: "fp \<Rightarrow> bool" where
  "freq_ok f \<longleftrightarrow> (\<exists>x. f = Fin x \<and> 0 \<le> x \<and> x \<le> pow2 25)"

definition freqs_ok :: "(rstring, fp) hmap \<Rightarrow> bool" where
  "freqs_ok m \<longleftrightarrow> hm_wf m \<and> (\<forall>(w, f) \<in> set m. freq_ok f)"

definition index_ok :: "search_index \<Rightarrow> bool" where
  "index_ok idx \<longleftrightarrow> hm_wf (si_files idx) \<and> hm_wf (si_doc_freq idx)
     \<and> (\<forall>(ino, f) \<in> set (si_files idx). ix_ino f = ino \<and> freqs_ok (ix_word_freq f))"

lemma round_at_25:
  assumes "pow2 25 \<le> x" and "x < pow2 25 + 2" shows "fp_round binary32 x = Fin (pow2 25)"
proof -
  have x: "0 < x" using assms(1) pow2_pos(1) [of 25] by linarith
  have "pow2 26 = 2 * pow2 25" using pow2_Suc [of 25] by simp
  moreover have "(4 :: rat) \<le> pow2 25" by (simp add: pow2_def)
  ultimately have "x < pow2 26" using assms(2) by linarith
  then have "pow2 25 < pow2 (binade x + 1)" "pow2 (binade x) < pow2 26"
    using binade_le [OF x] binade_gt [OF x] assms(1) by linarith+
  then have "binade x = 25" by (simp add: pow2_less_iff)
  moreover have "\<lfloor>x / 4\<rfloor> = 8388608" using assms by (simp add: floor_eq_iff pow2_def)
  then have "round_even (x / 4) = 8388608" using assms(2) by (simp add: round_even_def Let_def pow2_def)
  ultimately show ?thesis using x by (simp add: fp_round_def binary32_def pow2_def)
qed

lemma freq_ok_add: assumes "freq_ok f" and "0 \<le> y" and "y \<le> 1" shows "freq_ok (add32 f (Fin y))"
proof -
  obtain x where x: "f = Fin x" "0 \<le> x" "x \<le> pow2 25" using assms(1) by (auto simp: freq_ok_def)
  show ?thesis
  proof (cases "x + y \<le> pow2 25")
    case True
    then show ?thesis using fp_round_unit [of "x + y" 25 binary32] x assms(2) by (auto simp: freq_ok_def)
  next
    case False
    then show ?thesis using round_at_25 [of "x + y"] x assms(3) pow2_pos(1) [of 25]
      by (auto simp: freq_ok_def intro!: exI [of _ "pow2 25"])
  qed
qed

lemma freq_ok_div: assumes "freq_ok f" and "0 < n" shows "freq_ok (div32 f (f32_of_nat n))"
proof -
  obtain x where x: "f = Fin x" "0 \<le> x" "x \<le> pow2 25" using assms(1) by (auto simp: freq_ok_def)
  have "pow2 0 \<le> (of_nat n :: rat)" using assms(2) by (simp add: Suc_le_eq)
  then consider "f32_of_nat n = PosInf" | y where "1 \<le> y" "f32_of_nat n = Fin y"
    using fp_round_ge [of 0 "of_nat n" binary32] by (auto simp: f32_of_nat_def f32_def)
  then show ?thesis
  proof cases
    case 1
    then show ?thesis using x by (simp add: freq_ok_def less_imp_le)
  next
    case 2
    have "x / y \<le> x" using 2(1) x(2) by (simp add: divide_le_eq mult_le_cancel_left1)
    then show ?thesis using fp_round_unit [of "x / y" 25 binary32] x 2 by (auto simp: freq_ok_def)
  qed
qed

lemma freqs_ok_get: "freqs_ok m \<Longrightarrow> hm_get m w = Some f \<Longrightarrow> freq_ok f"
  by (auto simp: freqs_ok_def dest: hm_get_in_set)

lemma freqs_ok_add:
  assumes "freqs_ok m" and "0 \<le> y" and "y \<le> 1" shows "freqs_ok (freq_add (Fin y) w m)"
proof -
  have "freq_ok (case hm_get m w of Some f \<Rightarrow> f | None \<Rightarrow> Fin 0)"
    using assms(1) by (auto simp: freq_ok_def [of "Fin 0"] less_imp_le dest: freqs_ok_get split: option.split)
  then have "freq_ok (add32 (case hm_get m w of Some f \<Rightarrow> f | None \<Rightarrow> Fin 0) (Fin y))"
    by (rule freq_ok_add [OF _ assms(2,3)])
  then show ?thesis
    using assms(1) hm_all_insert [of m "\<lambda>(w, f). freq_ok f" w] by (simp add: freqs_ok_def freq_add_def)
qed

lemma freqs_ok_adds: "freqs_ok m \<Longrightarrow> 0 \<le> y \<Longrightarrow> y \<le> 1 \<Longrightarrow> freqs_ok (fold (freq_add (Fin y)) ws m)"
  by (induction ws arbitrary: m) (simp_all add: freqs_ok_add)

lemma freqs_ok_Nil [simp]: "freqs_ok []"
  by (simp add: freqs_ok_def)

lemma hm_wf_docs [simp]: "hm_wf m \<Longrightarrow> hm_wf (fold doc_inc ws m)" "hm_wf m \<Longrightarrow> hm_wf (fold doc_dec ws m)"
  by (induction ws arbitrary: m) (simp_all add: doc_inc_def doc_dec_def split: option.split)

lemma index_insert_ok:
  assumes "index_ok idx" and "ix_ino f = ino" and "freqs_ok (ix_word_freq f)" and "hm_wf df"
  shows "index_ok (idx\<lparr>si_doc_freq := df, si_files := hm_insert ino f (si_files idx)\<rparr>)"
  using assms hm_all_insert [of "si_files idx" "\<lambda>(ino, f). ix_ino f = ino \<and> freqs_ok (ix_word_freq f)" ino f]
  by (simp add: index_ok_def)

lemma index_new_ok: "index_ok search_new"
  by (simp add: index_ok_def search_new_def)

lemma index_by_name_ok: "index_ok idx \<Longrightarrow> index_ok (index_by_name uc ino name ts idx)"
  unfolding index_by_name_def Let_def
  by (rule index_insert_ok) (auto simp: index_ok_def intro: freqs_ok_adds)

lemma index_file_ok:
  assumes "index_ok idx" shows "index_ok (index_file uc ino name content ts idx)"
proof -
  let ?words = "terms_of uc (to_lowercase uc (utf8_lossy content))"
  let ?wf = "fold (freq_add (Fin 1)) ?words []"
  let ?div = "map (\<lambda>(w, f). (w, div32 f (f32_of_nat (length ?words)))) ?wf"
  obtain h where h: "f32 (1 / 2) = Fin h" "0 \<le> h" "h \<le> 1" using f32_unit [of "1 / 2"] by auto
  have base: "freqs_ok ?wf" by (rule freqs_ok_adds) simp_all
  have named: "freqs_ok (fold (freq_add (f32 (1 / 2))) (name_words_of uc name) ?div)" if "?words \<noteq> []"
  proof -
    have "freqs_ok ?div"
      using base that by (auto simp: freqs_ok_def hm_wf_def case_prod_unfold comp_def intro: freq_ok_div)
    then show ?thesis unfolding h(1) by (rule freqs_ok_adds [OF _ h(2,3)])
  qed
  have df: "hm_wf (fold doc_inc (name_words_of uc name) (fold doc_inc (map fst ?div)
      (case hm_get (si_files idx) ino of
         Some old \<Rightarrow> fold doc_dec (map fst (ix_word_freq old)) (si_doc_freq idx) | None \<Rightarrow> si_doc_freq idx)))"
    using assms by (auto simp: index_ok_def split: option.split)
  show ?thesis
  proof (cases "?words = []")
    case True
    then show ?thesis using index_by_name_ok [OF assms] by (simp add: index_file_def)
  next
    case False
    then show ?thesis
      unfolding index_file_def Let_def
      by (simp only: length_0_conv if_False) (rule index_insert_ok [OF assms _ _ df], simp_all only: indexed_file.simps named [OF False])
  qed
qed

lemma set_hm_remove: "set (hm_remove k m) \<subseteq> set m"
  by (auto simp: hm_remove_def AList.delete_eq)

lemma index_remove_ok: "index_ok idx \<Longrightarrow> index_ok (index_remove ino idx)"
  using set_hm_remove [of ino "si_files idx"] by (auto simp: index_ok_def index_remove_def split: option.split)

section \<open>What a query returns\<close>

definition quarter :: "fp \<Rightarrow> bool" where
  "quarter s \<longleftrightarrow> s = PosInf \<or> (\<exists>y. s = Fin y \<and> 1 / 4 \<le> y)"

lemma quarter_round: "1 / 4 \<le> x \<Longrightarrow> quarter (fp_round binary32 x)"
  using fp_round_ge [of "- 2" x binary32] by (auto simp: quarter_def pow2_def)

lemma quarter_nonneg: "quarter s \<Longrightarrow> fp_nonneg s" and quarter_pos: "quarter s \<Longrightarrow> fp_less (Fin 0) s"
  by (auto simp: quarter_def)

lemma quarter_add:
  "quarter a \<Longrightarrow> fp_nonneg b \<Longrightarrow> quarter (add32 a b)" "fp_nonneg a \<Longrightarrow> quarter b \<Longrightarrow> quarter (add32 a b)"
  by (auto simp: quarter_def [of a] quarter_def [of b] fp_nonneg_def intro!: quarter_round) (simp_all add: quarter_def)

lemma name_bonus: "quarter (f32 (3 / 10))"
  unfolding f32_def by (rule quarter_round) simp

lemma weight_nonneg: "freq_ok tf \<Longrightarrow> fp_less (Fin 0) tf \<Longrightarrow> fp_nonneg (mul32 tf (fp_max a (Fin 0)))"
  using fp_nonneg_max_0 [of a] by (auto simp: freq_ok_def fp_nonneg_def [of "fp_max a (Fin 0)"] inf_of_def)

text \<open>One term never lowers a score and never forgets a match; a name that holds the term earns a quarter.\<close>

lemma score_term_step:
  fixes lnf uc idx f w acc
  assumes "freqs_ok (ix_word_freq f)" and "fp_nonneg (fst acc)"
  defines "after \<equiv> score_term lnf uc idx f w acc"
  shows "fp_nonneg (fst after)" and "quarter (fst acc) \<Longrightarrow> quarter (fst after)" and "set (snd acc) \<subseteq> set (snd after)"
    and "str_contains w (to_lowercase uc (ix_name f)) \<Longrightarrow> quarter (fst after) \<and> w \<in> set (snd after)"
    and "set (snd after) \<subseteq> set (snd acc) \<union> {v. v = w \<and> (str_contains v (to_lowercase uc (ix_name f)) \<or> hm_get (ix_word_freq f) v \<noteq> None)}"
proof -
  obtain s matched where acc: "acc = (s, matched)" by fastforce
  note facts = freqs_ok_get [OF assms(1), of w] weight_nonneg quarter_add fp_nonneg_add quarter_nonneg [OF name_bonus] name_bonus
  show "fp_nonneg (fst after)" "quarter (fst acc) \<Longrightarrow> quarter (fst after)" "set (snd acc) \<subseteq> set (snd after)"
    "str_contains w (to_lowercase uc (ix_name f)) \<Longrightarrow> quarter (fst after) \<and> w \<in> set (snd after)"
    "set (snd after) \<subseteq> set (snd acc) \<union> {v. v = w \<and> (str_contains v (to_lowercase uc (ix_name f)) \<or> hm_get (ix_word_freq f) v \<noteq> None)}"
    using assms(2) facts by (auto simp: after_def acc score_term_def Let_def split: option.split)
qed

lemma score_terms:
  fixes lnf uc idx f
  assumes "freqs_ok (ix_word_freq f)" and "fp_nonneg (fst acc)"
  defines "out \<equiv> \<lambda>ws acc. fold (score_term lnf uc idx f) ws acc"
  shows "fp_nonneg (fst (out ws acc))"
    and "quarter (fst acc) \<Longrightarrow> quarter (fst (out ws acc))" and "set (snd acc) \<subseteq> set (snd (out ws acc))"
    and "w \<in> set ws \<Longrightarrow> str_contains w (to_lowercase uc (ix_name f)) \<Longrightarrow> quarter (fst (out ws acc)) \<and> w \<in> set (snd (out ws acc))"
    and "set (snd (out ws acc)) \<subseteq> set (snd acc)
      \<union> {v \<in> set ws. str_contains v (to_lowercase uc (ix_name f)) \<or> hm_get (ix_word_freq f) v \<noteq> None}"
proof -
  have "fp_nonneg (fst (out ws acc)) \<and> (quarter (fst acc) \<longrightarrow> quarter (fst (out ws acc))) \<and> set (snd acc) \<subseteq> set (snd (out ws acc))
    \<and> (w \<in> set ws \<and> str_contains w (to_lowercase uc (ix_name f)) \<longrightarrow> quarter (fst (out ws acc)) \<and> w \<in> set (snd (out ws acc)))
    \<and> set (snd (out ws acc)) \<subseteq> set (snd acc)
      \<union> {v \<in> set ws. str_contains v (to_lowercase uc (ix_name f)) \<or> hm_get (ix_word_freq f) v \<noteq> None}"
    using assms(2)
  proof (induction ws arbitrary: acc)
    case (Cons v ws)
    let ?next = "score_term lnf uc idx f v acc"
    note step = score_term_step [OF assms(1) Cons.prems, where lnf = lnf and uc = uc and idx = idx and w = v]
    have "out (v # ws) acc = out ws ?next" by (simp add: out_def)
    then show ?case using Cons.IH [OF step(1)] step(2-5) by (simp only:) (intro conjI impI; auto)
  qed (simp add: out_def)
  then show "fp_nonneg (fst (out ws acc))"
    "quarter (fst acc) \<Longrightarrow> quarter (fst (out ws acc))" "set (snd acc) \<subseteq> set (snd (out ws acc))"
    "w \<in> set ws \<Longrightarrow> str_contains w (to_lowercase uc (ix_name f)) \<Longrightarrow> quarter (fst (out ws acc)) \<and> w \<in> set (snd (out ws acc))"
    "set (snd (out ws acc)) \<subseteq> set (snd acc)
      \<union> {v \<in> set ws. str_contains v (to_lowercase uc (ix_name f)) \<or> hm_get (ix_word_freq f) v \<noteq> None}" by blast+
qed

definition query_result :: "(fp \<Rightarrow> fp) \<Rightarrow> unicode \<Rightarrow> rstring \<Rightarrow> search_index \<Rightarrow> indexed_file \<Rightarrow> search_result" where
  "query_result lnf uc query idx f =
     (case fold (score_term lnf uc idx f) (terms_of uc (to_lowercase uc query)) (Fin 0, []) of
        (score, matched) \<Rightarrow> \<lparr>sr_ino = ix_ino f, sr_name = ix_name f, sr_score = score, sr_matched_terms = matched\<rparr>)"

lemma query_result_simps [simp]:
  "sr_ino (query_result lnf uc q idx f) = ix_ino f" "sr_name (query_result lnf uc q idx f) = ix_name f"
  "sr_score (query_result lnf uc q idx f) = fst (fold (score_term lnf uc idx f) (terms_of uc (to_lowercase uc q)) (Fin 0, []))"
  "sr_matched_terms (query_result lnf uc q idx f) = snd (fold (score_term lnf uc idx f) (terms_of uc (to_lowercase uc q)) (Fin 0, []))"
  by (simp_all add: query_result_def case_prod_unfold)

lemma search_query_eq:
  "search_query lnf uc q idx =
     (if terms_of uc (to_lowercase uc q) = [] then Some []
      else sort_by_score sr_score (filter (\<lambda>r. fp_less (Fin 0) (sr_score r)) (map (query_result lnf uc q idx \<circ> snd) (si_files idx))))"
  by (simp add: search_query_def Let_def query_result_def comp_def case_prod_unfold)

text \<open>What a list of results must be: files of the index, once each, by falling positive score, with the terms
  found in their name or their words; and every file whose name holds a term of the query is a result.\<close>

definition answers :: "unicode \<Rightarrow> rstring \<Rightarrow> search_index \<Rightarrow> search_result list \<Rightarrow> bool" where
  "answers uc q idx rs \<longleftrightarrow> falling sr_score rs \<and> distinct (map sr_ino rs)
    \<and> (\<forall>r \<in> set rs. fp_less (Fin 0) (sr_score r) \<and> (\<exists>f. hm_get (si_files idx) (sr_ino r) = Some f \<and> sr_name r = ix_name f
         \<and> (\<forall>v \<in> set (sr_matched_terms r). v \<in> set (terms_of uc (to_lowercase uc q))
              \<and> (str_contains v (to_lowercase uc (ix_name f)) \<or> hm_get (ix_word_freq f) v \<noteq> None))))
    \<and> (\<forall>ino f w. hm_get (si_files idx) ino = Some f \<and> w \<in> set (terms_of uc (to_lowercase uc q))
         \<and> str_contains w (to_lowercase uc (ix_name f)) \<longrightarrow> (\<exists>r \<in> set rs. sr_ino r = ino \<and> w \<in> set (sr_matched_terms r)))"

lemma answersD:
  assumes "answers uc q idx rs"
  shows "r \<in> set rs \<Longrightarrow> \<exists>f. hm_get (si_files idx) (sr_ino r) = Some f \<and> sr_name r = ix_name f"
    and "hm_get (si_files idx) ino = Some f \<Longrightarrow> w \<in> set (terms_of uc (to_lowercase uc q))
      \<Longrightarrow> str_contains w (to_lowercase uc (ix_name f)) \<Longrightarrow> \<exists>r \<in> set rs. sr_ino r = ino \<and> w \<in> set (sr_matched_terms r)"
  using assms unfolding answers_def by blast+

lemma search_query_answers:
  assumes "index_ok idx"
  shows "\<exists>rs. search_query lnf uc q idx = Some rs \<and> answers uc q idx rs"
proof (cases "terms_of uc (to_lowercase uc q) = []")
  case True
  then show ?thesis by (simp add: search_query_eq answers_def)
next
  case False
  let ?ts = "terms_of uc (to_lowercase uc q)"
  let ?all = "map (query_result lnf uc q idx \<circ> snd) (si_files idx)"
  let ?pos = "filter (\<lambda>r. fp_less (Fin 0) (sr_score r)) ?all"
  have wf: "hm_wf (si_files idx)" using assms by (simp add: index_ok_def)
  have f: "ix_ino f = ino" "freqs_ok (ix_word_freq f)" if "(ino, f) \<in> set (si_files idx)" for ino f
    using assms that by (auto simp: index_ok_def)
  note scores = score_terms [OF f(2), of _ _ "(Fin 0, [])", simplified]
  have "sr_score r \<noteq> NaN" if "r \<in> set ?pos" for r using that by auto
  then obtain rs where rs: "sort_by_score sr_score ?pos = Some rs" "mset rs = mset ?pos" "falling sr_score rs"
    using sort_by_score_sorts by blast
  have set_rs: "set rs = set ?pos" using mset_eq_setD [OF rs(2)] .
  have "map sr_ino ?all = map fst (si_files idx)" using f(1) by (auto intro!: map_cong)
  then have "distinct (map sr_ino ?all)" using wf unfolding hm_wf_def by (simp only:)
  then have "distinct (map sr_ino ?pos)" by (rule distinct_map_filter)
  moreover have "mset (map sr_ino rs) = mset (map sr_ino ?pos)" using rs(2) by simp
  ultimately have dist: "distinct (map sr_ino rs)" using mset_eq_imp_distinct_iff by blast
  have sound: "\<forall>r \<in> set rs. fp_less (Fin 0) (sr_score r) \<and> (\<exists>f. hm_get (si_files idx) (sr_ino r) = Some f \<and> sr_name r = ix_name f
         \<and> (\<forall>v \<in> set (sr_matched_terms r). v \<in> set ?ts
              \<and> (str_contains v (to_lowercase uc (ix_name f)) \<or> hm_get (ix_word_freq f) v \<noteq> None)))"
  proof
    fix r assume "r \<in> set rs"
    then obtain ino f where r: "(ino, f) \<in> set (si_files idx)" "r = query_result lnf uc q idx f" "fp_less (Fin 0) (sr_score r)"
      by (auto simp: set_rs)
    from scores(5) [OF r(1), where lnf = lnf and uc = uc and idx = idx and ws = ?ts] r(2,3) f(1) [OF r(1)] r(1)
    show "fp_less (Fin 0) (sr_score r) \<and> (\<exists>f. hm_get (si_files idx) (sr_ino r) = Some f \<and> sr_name r = ix_name f
         \<and> (\<forall>v \<in> set (sr_matched_terms r). v \<in> set ?ts
              \<and> (str_contains v (to_lowercase uc (ix_name f)) \<or> hm_get (ix_word_freq f) v \<noteq> None)))"
      by (auto simp: hm_get_Some_iff [OF wf])
  qed
  have complete: "\<exists>r \<in> set rs. sr_ino r = ino \<and> w \<in> set (sr_matched_terms r)"
    if "hm_get (si_files idx) ino = Some f" "w \<in> set ?ts" "str_contains w (to_lowercase uc (ix_name f))" for ino f w
  proof -
    have in_files: "(ino, f) \<in> set (si_files idx)" using that(1) by (simp add: hm_get_Some_iff [OF wf])
    let ?r = "query_result lnf uc q idx f"
    from scores(4) [OF in_files that(2,3), where lnf = lnf and idx = idx]
    have r: "quarter (sr_score ?r)" "w \<in> set (sr_matched_terms ?r)" by simp_all
    then have "?r \<in> set rs" unfolding set_rs using in_files quarter_pos [of "sr_score ?r"] by force
    then show ?thesis using f(1) [OF in_files] r(2) by (intro bexI [of _ ?r]) simp_all
  qed
  have "search_query lnf uc q idx = Some rs" using False rs(1) by (simp only: search_query_eq if_False)
  with rs(3) dist sound complete show ?thesis unfolding answers_def by blast
qed

text \<open>A query does not panic, and its results are the answers to it.\<close>

theorem search_query_correct:
  assumes "index_ok idx"
  shows "\<exists>rs. search_query lnf uc q idx = Some rs \<and> answers uc q idx rs"
  using assms by (rule search_query_answers)

definition ascii_only :: unicode where "ascii_only = \<lparr>uc_lower = id, uc_alphanumeric = (\<lambda>_. False)\<rparr>"

lemma index_file_gets:
  "\<exists>f. hm_get (si_files (index_file uc ino name content ts idx)) ino = Some f \<and> ix_name f = name"
  by (cases "terms_of uc (to_lowercase uc (utf8_lossy content)) = []")
    (simp_all add: index_file_def index_by_name_def Let_def)

lemma sample_index: "index_ok (index_file ascii_only 2 (ascii ''auth.rs'') (ascii ''the login'') 0 search_new)"
  by (intro index_file_ok index_new_ok)

theorem search_query_correct_witness:
  "\<exists>rs. search_query (\<lambda>_. Fin 1) ascii_only (ascii ''Auth'')
     (index_file ascii_only 2 (ascii ''auth.rs'') (ascii ''the login'') 0 search_new) = Some rs \<and> 2 \<in> sr_ino ` set rs"
proof -
  let ?idx = "index_file ascii_only 2 (ascii ''auth.rs'') (ascii ''the login'') 0 search_new"
  obtain f where f: "hm_get (si_files ?idx) 2 = Some f" "ix_name f = ascii ''auth.rs''"
    using index_file_gets by metis
  have "ascii ''auth'' \<in> set (terms_of ascii_only (to_lowercase ascii_only (ascii ''Auth'')))"
    "str_contains (ascii ''auth'') (to_lowercase ascii_only (ascii ''auth.rs''))"
    by code_simp+
  note found = f this
  obtain rs where rs: "search_query (\<lambda>_. Fin 1) ascii_only (ascii ''Auth'') ?idx = Some rs"
    "answers ascii_only (ascii ''Auth'') ?idx rs"
    using search_query_correct [OF sample_index, of "\<lambda>_. Fin 1" ascii_only "ascii ''Auth''"] by blast
  from answersD(2) [OF rs(2) found(1,3)] found(2,4) obtain r where "r \<in> set rs" "sr_ino r = 2" by (simp only:) blast
  then have "2 \<in> sr_ino ` set rs" by force
  with rs(1) show ?thesis by (intro exI [of _ rs]) (rule conjI)
qed

section \<open>Document counts\<close>

definition doc_count :: "rstring \<Rightarrow> search_index \<Rightarrow> nat" where
  "doc_count w idx = (case hm_get (si_doc_freq idx) w of Some n \<Rightarrow> n | None \<Rightarrow> 0)"

lemma doc_incs: "(case hm_get (fold doc_inc ws m) w of Some n \<Rightarrow> n | None \<Rightarrow> 0)
    = (case hm_get m w of Some n \<Rightarrow> n | None \<Rightarrow> 0) + count_list ws w"
  by (induction ws arbitrary: m) (simp_all add: doc_inc_def)

lemma doc_decs: "(case hm_get (fold doc_dec ws m) w of Some n \<Rightarrow> n | None \<Rightarrow> 0)
    = (case hm_get m w of Some n \<Rightarrow> n | None \<Rightarrow> 0) - count_list ws w"
  by (induction ws arbitrary: m) (auto simp: doc_dec_def split: option.split)

lemma freq_adds_keys: "fst ` set (fold (freq_add x) ws m) = fst ` set m \<union> set ws"
  by (induction ws arbitrary: m) (auto simp: freq_add_def hm_keys_insert)

lemma hm_wf_freq_adds [simp]: "hm_wf m \<Longrightarrow> hm_wf (fold (freq_add x) ws m)"
  by (induction ws arbitrary: m) (simp_all add: freq_add_def)

lemma count_keys: "hm_wf m \<Longrightarrow> count_list (map fst m) w = of_bool (w \<in> fst ` set m)"
  by (induction m) (auto simp: hm_wf_def)

text \<open>Removing a file takes one from the count of each of its words, although a word of its name had added one for
  each time it occurs there, and one more when the content holds it too.\<close>

theorem index_remove_doc_count:
  fixes uc name content
  defines "terms \<equiv> terms_of uc (to_lowercase uc (utf8_lossy content))" and "names \<equiv> name_words_of uc name"
  assumes "index_ok idx" and "hm_get (si_files idx) ino = None"
  shows "doc_count w (index_remove ino (index_file uc ino name content ts idx))
    = doc_count w idx + (of_bool (w \<in> set terms) + count_list names w) - of_bool (w \<in> set terms \<union> set names)"
proof -
  let ?wf = "fold (freq_add (Fin 1)) terms []"
  let ?div = "map (\<lambda>(w, f). (w, div32 f (f32_of_nat (length terms)))) ?wf"
  have div: "map fst ?div = map fst ?wf" by (simp add: case_prod_unfold comp_def)
  have wf: "hm_wf ?wf" "hm_wf ?div" using hm_wf_freq_adds [of "[]" "Fin 1" terms] unfolding hm_wf_def [of ?div] div by (simp_all add: hm_wf_def)
  have keys: "fst ` set ?div = set terms" using freq_adds_keys [of "Fin 1" terms "[]"] div by (metis image_empty list.set(1) set_map sup_bot_left)
  obtain d where d: "d = ?div" by blast
  let ?idx = "index_file uc ino name content ts idx"
  have "doc_count w ?idx = doc_count w idx + (of_bool (w \<in> set terms) + count_list names w)
    \<and> (\<exists>f. hm_get (si_files ?idx) ino = Some f \<and> hm_wf (ix_word_freq f) \<and> fst ` set (ix_word_freq f) = set terms \<union> set names)"
  proof (cases "terms = []")
    case True
    then have "?idx = index_by_name uc ino name ts idx" by (simp add: index_file_def flip: terms_def)
    then show ?thesis using True
      by (simp add: index_by_name_def Let_def doc_count_def doc_incs freq_adds_keys flip: names_def)
  next
    case False
    have "?idx = idx\<lparr>si_doc_freq := fold doc_inc names (fold doc_inc (map fst d) (si_doc_freq idx)),
        si_files := hm_insert ino \<lparr>ix_ino = ino, ix_name = name,
          ix_word_freq = fold (freq_add (f32 (1 / 2))) names d, ix_total_words = length terms, ix_last_modified = ts\<rparr>
          (si_files idx)\<rparr>"
      using False assms(4) unfolding index_file_def Let_def terms_def [symmetric] names_def [symmetric] d by simp
    then show ?thesis using wf(2) keys unfolding d [symmetric]
      by (simp add: doc_count_def doc_incs count_keys freq_adds_keys)
  qed
  then show ?thesis by (auto simp: index_remove_def doc_count_def doc_decs count_keys)
qed

end
