(* ===== verification/Entropy.thy ===== *)
theory Entropy
  imports Floats Text
begin

text \<open>
  \<open>src/ai/entropy.rs\<close>: the entropy of a block in \<open>f64\<close> and the guard that classifies writes. The binary
  logarithm is the argument \<open>log2f\<close>, the clock is the argument \<open>now\<close>.
\<close>

section \<open>Entropy\<close>

definition f64 :: "rat \<Rightarrow> fp" where "f64 = fp_round binary64"
definition f64_of :: "u64 \<Rightarrow> fp" where "f64_of w = f64 (of_nat (unat w))"

definition byte_freq :: "bytes \<Rightarrow> u64 list" where
  "byte_freq data = foldl (\<lambda>freq b. freq[unat b := freq ! unat b + 1]) (replicate 256 0) data"

definition entropy_term :: "(fp \<Rightarrow> fp) \<Rightarrow> fp \<Rightarrow> u64 \<Rightarrow> fp" where
  "entropy_term log2f len c = (let p = fp_div binary64 (f64_of c) len in fp_mul binary64 (fp_neg p) (log2f p))"

definition shannon_entropy :: "(fp \<Rightarrow> fp) \<Rightarrow> bytes \<Rightarrow> fp" where
  "shannon_entropy log2f data =
     (if data = [] then Fin 0
      else foldl (fp_add binary64) (Fin 0)
        (map (entropy_term log2f (f64 (of_nat (length data)))) (filter (\<lambda>c. 0 < c) (byte_freq data))))"

definition SUSPICIOUS_EXTENSIONS :: "rstring list" where
  "SUSPICIOUS_EXTENSIONS = map ascii
     [''.locked'', ''.enc'', ''.crypt'', ''.crypted'', ''.encrypt'', ''.crypz'', ''.cerber'', ''.locky'',
      ''.wncry'', ''.wnry'', ''.wcry'', ''.petya'']"

definition is_suspicious_extension :: "unicode \<Rightarrow> rstring \<Rightarrow> bool" where
  "is_suspicious_extension uc name =
     (let s = to_lowercase uc name in list_ex (\<lambda>ext. ends_with ext s) SUSPICIOUS_EXTENSIONS)"

section \<open>The guard\<close>

datatype threat_level = Critical | Warning | Extension | Pattern

text \<open>The labels start with the emoji of the source, in UTF-8.\<close>

fun threat_label :: "threat_level \<Rightarrow> rstring" where
  "threat_label Critical = [0xF0, 0x9F, 0x9A, 0xA8] @ ascii '' CRITICAL''"
| "threat_label Warning = [0xE2, 0x9A, 0xA0, 0xEF, 0xB8, 0x8F] @ ascii ''  WARNING''"
| "threat_label Extension = [0xF0, 0x9F, 0x94, 0x8D] @ ascii '' SUSPICIOUS''"
| "threat_label Pattern = [0xF0, 0x9F, 0x9A, 0xA8] @ ascii '' PATTERN''"

record write_record =
  wr_timestamp :: u64
  wr_entropy :: fp

record entropy_guard =
  eg_history :: "(u64, write_record list) hmap"
  eg_baseline :: "(u64, fp) hmap"
  eg_threat_count :: u64
  eg_threshold_warn :: fp
  eg_threshold_crit :: fp
  eg_pattern_count :: nat
  eg_window_secs :: u64

definition guard_new :: entropy_guard where
  "guard_new = \<lparr>eg_history = [], eg_baseline = [], eg_threat_count = 0, eg_threshold_warn = f64 (72 / 10),
     eg_threshold_crit = f64 (78 / 10), eg_pattern_count = 3, eg_window_secs = 60\<rparr>"

definition flag :: "threat_level \<Rightarrow> threat_level option \<times> entropy_guard \<Rightarrow> threat_level option \<times> entropy_guard" where
  "flag t = (\<lambda>(_, g). (Some t, g\<lparr>eg_threat_count := eg_threat_count g + 1\<rparr>))"

definition check_write ::
    "(fp \<Rightarrow> fp) \<Rightarrow> unicode \<Rightarrow> u64 \<Rightarrow> u64 \<Rightarrow> rstring \<Rightarrow> bytes \<Rightarrow> entropy_guard \<Rightarrow> threat_level option \<times> entropy_guard" where
  "check_write log2f uc now ino name data g =
     (if length data < 512 then (None, g)
      else
        let entropy = shannon_entropy log2f data;
            prev_baseline = (case hm_get (eg_baseline g) ino of Some b \<Rightarrow> b | None \<Rightarrow> entropy);
            g = g\<lparr>eg_baseline := hm_insert ino prev_baseline (eg_baseline g)\<rparr>;
            st = (None, g);
            st = (if is_suspicious_extension uc name then flag Extension st else st);
            st = (if fp_le (eg_threshold_crit g) entropy
                  then if fp_less prev_baseline (Fin 6) then flag Critical st
                       else if fst st = None then flag Warning st else st
                  else if fp_le (eg_threshold_warn g) entropy \<and> fst st = None then flag Warning st
                  else st)
        in if fp_le (eg_threshold_warn g) entropy
           then let records = (case hm_get (eg_history g) ino of Some rs \<Rightarrow> rs | None \<Rightarrow> []);
                    records = filter (\<lambda>r. sat_sub now (wr_timestamp r) \<le> eg_window_secs g) records;
                    records = records @ [\<lparr>wr_timestamp = now, wr_entropy = entropy\<rparr>];
                    st = (fst st, (snd st)\<lparr>eg_history := hm_insert ino records (eg_history g)\<rparr>)
                in if eg_pattern_count g \<le> length records then flag Pattern st else st
           else st)"

definition guard_remove :: "u64 \<Rightarrow> entropy_guard \<Rightarrow> entropy_guard" where
  "guard_remove ino g = g\<lparr>eg_history := hm_remove ino (eg_history g), eg_baseline := hm_remove ino (eg_baseline g)\<rparr>"

section \<open>What a write is classified as\<close>

text \<open>The records of a file still in the window.\<close>

definition recent :: "u64 \<Rightarrow> u64 \<Rightarrow> entropy_guard \<Rightarrow> write_record list" where
  "recent now ino g =
     filter (\<lambda>r. sat_sub now (wr_timestamp r) \<le> eg_window_secs g) (case hm_get (eg_history g) ino of Some rs \<Rightarrow> rs | None \<Rightarrow> [])"

definition was_plaintext :: "u64 \<Rightarrow> entropy_guard \<Rightarrow> bool" where
  "was_plaintext ino g \<longleftrightarrow> (\<exists>b. hm_get (eg_baseline g) ino = Some b \<and> fp_less b (Fin 6))"

definition guard_ok :: "entropy_guard \<Rightarrow> bool" where
  "guard_ok g \<longleftrightarrow> fp_le (eg_threshold_warn g) (eg_threshold_crit g) \<and> fp_le (Fin 6) (eg_threshold_crit g)"

lemma fp_less_not_le: "fp_le a b \<Longrightarrow> \<not> fp_less b a"
  by (cases a; cases b) (auto simp: fp_le_def)

lemma guard_ok_crit: "guard_ok g \<Longrightarrow> fp_le (eg_threshold_crit g) h \<Longrightarrow> fp_le (eg_threshold_warn g) h \<and> \<not> fp_less h (Fin 6)"
  unfolding guard_ok_def by (meson fp_le_trans fp_less_not_le)

lemma hm_get_recent:
  "filter (\<lambda>r. sat_sub now (wr_timestamp r) \<le> eg_window_secs g) (case hm_get (eg_history g) ino of Some rs \<Rightarrow> rs | None \<Rightarrow> [])
    = recent now ino g"
  by (simp add: recent_def)

text \<open>C35: A block of 512 bytes or more is a pattern when it is the third high-entropy write of its file in the
  window, else critical when the entropy is very high and the file began as plaintext, else flagged by its
  extension, else by its high entropy. The guard counts one threat for each of these that it notices.\<close>

theorem check_write_classifies:
  fixes log2f uc now ino name data g
  defines "h \<equiv> shannon_entropy log2f data"
  defines "high \<equiv> fp_le (eg_threshold_warn g) h" and "suspicious \<equiv> is_suspicious_extension uc name"
  defines "critical \<equiv> fp_le (eg_threshold_crit g) h \<and> was_plaintext ino g"
    and "pattern \<equiv> fp_le (eg_threshold_warn g) h \<and> eg_pattern_count g \<le> Suc (length (recent now ino g))"
  assumes "guard_ok g" and "check_write log2f uc now ino name data g = (threat, g')"
  shows "threat = (if length data < 512 then None else if pattern then Some Pattern else if critical then Some Critical
      else if suspicious then Some Extension else if high then Some Warning else None)
    \<and> eg_threat_count g' = (if length data < 512 then eg_threat_count g
      else eg_threat_count g + of_bool pattern + of_bool critical + of_bool suspicious
        + of_bool (high \<and> \<not> critical \<and> \<not> suspicious))"
proof (cases "length data < 512")
  case True
  with assms(7) show ?thesis by (simp add: check_write_def)
next
  case False
  let ?b = "case hm_get (eg_baseline g) ino of Some b \<Rightarrow> b | None \<Rightarrow> h"
  have crit: "fp_le (eg_threshold_crit g) h \<Longrightarrow> high" "fp_le (eg_threshold_crit g) h \<and> fp_less ?b (Fin 6) \<longleftrightarrow> critical"
    using guard_ok_crit [OF assms(6), of h] by (auto simp: high_def critical_def was_plaintext_def split: option.splits)
  have pat: "pattern \<longleftrightarrow> high \<and> eg_pattern_count g \<le> Suc (length (recent now ino g))"
    by (simp add: pattern_def high_def)
  show ?thesis
    using assms(7) False crit pat unfolding check_write_def h_def [symmetric] suspicious_def [symmetric]
    by (auto simp: Let_def flag_def hm_get_recent simp flip: high_def split: if_splits)
qed

lemma guard_new_ok: "guard_ok guard_new"
  by code_simp

lemma byte_freq_constant: "byte_freq (replicate n b) = (replicate 256 0)[unat b := of_nat n]"
proof (induction n)
  case 0
  have "unat b < 256" using unsigned_less [where 'a = nat, of b] by simp
  then have "replicate 256 0 = (replicate 256 (0 :: u64))[unat b := 0]"
    by (intro nth_equalityI) (simp_all add: nth_list_update)
  then show ?case by (simp add: byte_freq_def)
next
  case (Suc n)
  have "replicate (Suc n) b = replicate n b @ [b]" by (simp add: replicate_append_same)
  moreover have "unat b < 256" using unsigned_less [where 'a = nat, of b] by simp
  ultimately show ?case using Suc by (simp add: byte_freq_def ac_simps)
qed

lemma f64_length: assumes "0 < n" and "n < 2 ^ 64" shows "\<exists>y \<ge> 1. f64 (of_nat n) = Fin y"
proof -
  have "(of_nat n :: rat) \<le> of_nat (2 ^ 64)" using assms(2) by (simp only: of_nat_le_iff)
  then have "(of_nat n :: rat) \<le> pow2 64" by (simp add: pow2_def)
  from fp_round_unit [OF _ this, of binary64] have "\<exists>y. f64 (of_nat n) = Fin y" by (auto simp: f64_def)
  moreover have "pow2 0 \<le> (of_nat n :: rat)" using assms(1) by (simp add: Suc_le_eq)
  from fp_round_ge [OF this, of binary64] have "f64 (of_nat n) = PosInf \<or> (\<exists>y \<ge> 1. f64 (of_nat n) = Fin y)"
    by (simp add: f64_def)
  ultimately show ?thesis by auto
qed

lemma fp_round_1: "fp_round binary64 1 = Fin 1" and fp_round_0: "fp_round fmt 0 = Fin 0"
  using fp_round_int [of 1 binary64] by (simp_all add: binary64_def fp_round_def)

text \<open>A block of one byte value has entropy zero, when the logarithm of one is zero.\<close>

lemma constant_entropy:
  assumes "log2f (Fin 1) = Fin 0" and "0 < n" and "n < 2 ^ 64"
  shows "shannon_entropy log2f (replicate n b) = Fin 0"
proof -
  obtain y where y: "1 \<le> y" "f64 (of_nat n) = Fin y" using f64_length [OF assms(2,3)] by blast
  have n: "unat (of_nat n :: u64) = n" using assms(3) by (simp add: unat_of_nat)
  then have pos: "0 < (of_nat n :: u64)" using assms(2) by (simp add: word_less_nat_alt)
  have b: "unat b < 256" using unsigned_less [where 'a = nat, of b] by simp
  have "filter (\<lambda>c. 0 < c) ((replicate 256 0)[i := x]) = [x]" if "i < 256" "0 < x" for i and x :: u64
  proof -
    have "(replicate 256 0)[i := x] = replicate i 0 @ x # replicate (255 - i) 0"
      using that(1) by (simp add: upd_conv_take_nth_drop)
    then show ?thesis using that(2) by simp
  qed
  from this [OF b pos] have "filter (\<lambda>c. 0 < c) (byte_freq (replicate n b)) = [of_nat n]" unfolding byte_freq_constant .
  moreover have "entropy_term log2f (f64 (of_nat n)) (of_nat n) = Fin 0"
    using y assms(1) by (simp add: entropy_term_def Let_def f64_of_def n fp_round_1 fp_round_0)
  ultimately show ?thesis using assms(2) by (simp add: shannon_entropy_def fp_round_0)
qed

theorem check_write_classifies_witness:
  "fst (check_write (\<lambda>_. Fin 0) \<lparr>uc_lower = id, uc_alphanumeric = (\<lambda>_. False)\<rparr> 9 2 (ascii ''a.locked'') (replicate 600 0) guard_new)
    = Some Extension"
proof -
  let ?uc = "\<lparr>uc_lower = id, uc_alphanumeric = (\<lambda>_. False)\<rparr>" and ?data = "replicate 600 0 :: bytes"
  obtain t g' where run: "check_write (\<lambda>_. Fin 0) ?uc 9 2 (ascii ''a.locked'') ?data guard_new = (t, g')" by fastforce
  have four: "\<not> fp_le (f64 x) (Fin 0)" if "4 \<le> x" for x
    using fp_round_ge [of 2 x binary64] that by (auto simp: f64_def fp_le_def pow2_def)
  have "\<not> fp_le (eg_threshold_warn guard_new) (Fin 0)" "\<not> fp_le (eg_threshold_crit guard_new) (Fin 0)"
    using four [of "72 / 10"] four [of "78 / 10"] by (simp_all add: guard_new_def)
  moreover have "is_suspicious_extension ?uc (ascii ''a.locked'')" by code_simp
  moreover have "shannon_entropy (\<lambda>_. Fin 0) ?data = Fin 0" by (rule constant_entropy) simp_all
  ultimately have "t = Some Extension"
    using check_write_classifies [OF guard_new_ok run] by simp
  with run show ?thesis by simp
qed

section \<open>Repeated high-entropy writes\<close>

type_synonym file_write = "u64 \<times> u64 \<times> rstring \<times> bytes"

definition check_writes :: "(fp \<Rightarrow> fp) \<Rightarrow> unicode \<Rightarrow> file_write list \<Rightarrow> entropy_guard \<Rightarrow> entropy_guard" where
  "check_writes log2f uc ws g = fold (\<lambda>(now, ino, name, data) g. snd (check_write log2f uc now ino name data g)) ws g"

definition high_write :: "(fp \<Rightarrow> fp) \<Rightarrow> file_write \<Rightarrow> bool" where
  "high_write log2f = (\<lambda>(_, _, _, data). 512 \<le> length data \<and> fp_le (f64 (72 / 10)) (shannon_entropy log2f data))"

definition guard_std :: "entropy_guard \<Rightarrow> bool" where
  "guard_std g \<longleftrightarrow> eg_threshold_warn g = f64 (72 / 10) \<and> eg_threshold_crit g = f64 (78 / 10)
     \<and> eg_pattern_count g = 3 \<and> eg_window_secs g = 60"

lemma check_write_state:
  defines "g' \<equiv> \<lambda>log2f uc now ino name data g. snd (check_write log2f uc now ino name data g)"
  assumes "guard_std g"
  shows "guard_std (g' log2f uc now ino name data g)"
    and "hm_get (eg_history (g' log2f uc now ino name data g)) i =
      (if i = ino \<and> high_write log2f (now, ino, name, data)
       then Some (recent now ino g @ [\<lparr>wr_timestamp = now, wr_entropy = shannon_entropy log2f data\<rparr>])
       else hm_get (eg_history g) i)"
  using assms(2)
  by (auto simp: g'_def check_write_def Let_def flag_def guard_std_def high_write_def hm_get_recent [symmetric])

lemma recent_after:
  assumes "guard_std g" and "t \<le> now"
  shows "map wr_timestamp (recent now i (snd (check_write log2f uc t ino name data g)))
    = map wr_timestamp (recent now i g) @ (if i = ino \<and> high_write log2f (t, ino, name, data) \<and> sat_sub now t \<le> 60 then [t] else [])"
proof -
  have later: "sat_sub t r \<le> 60" if "sat_sub now r \<le> 60" for r
    using that assms(2) by (auto simp: sat_sub_def word_le_nat_alt word_less_nat_alt unat_sub_if' split: if_splits)
  have std: "guard_std (snd (check_write log2f uc t ino name data g))" by (rule check_write_state(1) [OF assms(1)])
  show ?thesis
    using assms(1) std later
    by (auto simp: recent_def check_write_state(2) [OF assms(1)] guard_std_def filter_filter intro!: arg_cong [where f = "map _"] filter_cong)
qed

lemma recent_writes:
  "\<forall>w \<in> set ws. fst w \<le> now \<Longrightarrow>
    guard_std (check_writes log2f uc ws guard_new)
    \<and> map wr_timestamp (recent now ino (check_writes log2f uc ws guard_new))
      = map fst (filter (\<lambda>w. high_write log2f w \<and> fst (snd w) = ino \<and> sat_sub now (fst w) \<le> 60) ws)"
proof (induction ws rule: rev_induct)
  case Nil
  then show ?case by (simp add: check_writes_def guard_std_def guard_new_def recent_def)
next
  case (snoc w ws)
  obtain t i name data where w: "w = (t, i, name, data)" by (cases w)
  let ?g = "check_writes log2f uc ws guard_new"
  have g: "check_writes log2f uc (ws @ [w]) guard_new = snd (check_write log2f uc t i name data ?g)"
    by (simp add: check_writes_def w)
  have t: "t \<le> now" using snoc.prems w by simp
  from snoc have std: "guard_std ?g" by simp
  show ?case unfolding g recent_after [OF std t] using snoc check_write_state(1) [OF std] by (auto simp: w)
qed

text \<open>After any writes at times that do not fall, a write is a pattern exactly when it has high entropy and two
  earlier high-entropy writes of the same file are at most 60 seconds old.\<close>

theorem pattern_is_third_high_write:
  assumes "\<forall>w \<in> set ws. fst w \<le> now"
  shows "fst (check_write log2f uc now ino name data (check_writes log2f uc ws guard_new)) = Some Pattern \<longleftrightarrow>
    high_write log2f (now, ino, name, data)
    \<and> 2 \<le> length (filter (\<lambda>w. high_write log2f w \<and> fst (snd w) = ino \<and> sat_sub now (fst w) \<le> 60) ws)"
proof -
  let ?g = "check_writes log2f uc ws guard_new"
  have g: "guard_std ?g" "map wr_timestamp (recent now ino ?g)
      = map fst (filter (\<lambda>w. high_write log2f w \<and> fst (snd w) = ino \<and> sat_sub now (fst w) \<le> 60) ws)"
    using recent_writes [OF assms] by blast+
  have len: "length (recent now ino ?g) = length (filter (\<lambda>w. high_write log2f w \<and> fst (snd w) = ino \<and> sat_sub now (fst w) \<le> 60) ws)"
    using arg_cong [OF g(2), of length] by simp
  have "fst (check_write log2f uc now ino name data ?g) = Some Pattern \<longleftrightarrow>
      high_write log2f (now, ino, name, data) \<and> 3 \<le> Suc (length (recent now ino ?g))"
    using g(1) by (auto simp: check_write_def Let_def flag_def recent_def high_write_def guard_std_def)
  then show ?thesis unfolding len by linarith
qed

theorem pattern_is_third_high_write_witness:
  "fst (check_write (\<lambda>_. Fin 0) \<lparr>uc_lower = id, uc_alphanumeric = (\<lambda>_. False)\<rparr> 20 2 [97] []
     (check_writes (\<lambda>_. Fin 0) \<lparr>uc_lower = id, uc_alphanumeric = (\<lambda>_. False)\<rparr> [(10, 2, [97], []), (20, 2, [97], [])] guard_new))
    \<noteq> Some Pattern"
  by (subst pattern_is_third_high_write) (simp_all add: high_write_def)

end
