(* ===== verification/Memory.thy ===== *)
theory Memory
  imports Snapshots
begin

text \<open>
  \<open>src/ai/memory.rs\<close>, without its file format (\<open>Memory_Codec\<close>) and the rendered summary (\<open>Memory_Context\<close>): sessions,
  temporal patterns, streaks of days, files opened together, and the fourteen-day window of access
  counts. The clock is an argument. The two comparisons of a floating-point ratio are modelled
  exactly, rounding included.
\<close>

section \<open>Sessions\<close>

record mem_session =
  se_id :: u64
  se_start_ts :: u64
  se_end_ts :: u64
  se_files_touched :: "(u64 \<times> rstring) list"
  se_peak_files :: nat
  se_total_writes :: u64
  se_total_reads :: u64
  se_focus_file :: "rstring option"

definition session_new :: "u64 \<Rightarrow> u64 \<Rightarrow> mem_session" where
  "session_new now ident =
     \<lparr>se_id = ident, se_start_ts = now, se_end_ts = 0, se_files_touched = [], se_peak_files = 0,
      se_total_writes = 0, se_total_reads = 0, se_focus_file = None\<rparr>"

definition session_duration :: "u64 \<Rightarrow> mem_session \<Rightarrow> u64" where
  "session_duration now s = (let end_at = (if 0 < se_end_ts s then se_end_ts s else now) in sat_sub end_at (se_start_ts s))"

definition session_is_active :: "mem_session \<Rightarrow> bool" where
  "session_is_active s \<longleftrightarrow> se_end_ts s = 0"

definition start_hour :: "mem_session \<Rightarrow> u8" where
  "start_hour s = ucast ((se_start_ts s mod 86400) div 3600)"

definition day_of_week :: "mem_session \<Rightarrow> u8" where
  "day_of_week s = ucast ((se_start_ts s div 86400 + 3) mod 7)"

section \<open>Temporal patterns\<close>

record temporal_pattern =
  tp_by_hour :: "u32 list"
  tp_by_day :: "u32 list"
  tp_total :: u32

definition pattern_default :: temporal_pattern where
  "pattern_default = \<lparr>tp_by_hour = replicate 24 0, tp_by_day = replicate 7 0, tp_total = 0\<rparr>"

definition count_at :: "nat \<Rightarrow> u32 list \<Rightarrow> u32 list" where
  "count_at i xs = xs[i := xs ! i + 1]"

definition pattern_record :: "u64 \<Rightarrow> temporal_pattern \<Rightarrow> temporal_pattern" where
  "pattern_record ts p =
     (let hour = unat ((ts mod 86400) div 3600); day = unat ((ts div 86400 + 3) mod 7)
      in p\<lparr>tp_by_hour := count_at hour (tp_by_hour p), tp_by_day := count_at day (tp_by_day p),
           tp_total := tp_total p + 1\<rparr>)"

text \<open>\<open>iter().enumerate().max_by_key(..)\<close>: the last of several maxima.\<close>

definition max_by_key :: "('a \<Rightarrow> 'k::linorder) \<Rightarrow> 'a list \<Rightarrow> 'a option" where
  "max_by_key key xs =
     (case xs of [] \<Rightarrow> None | y # ys \<Rightarrow> Some (foldl (\<lambda>b c. if key b \<le> key c then c else b) y ys))"

lemma max_by_key_fold_in: "foldl (\<lambda>b c. if key b \<le> key c then c else b) y ys \<in> insert y (set ys)"
  by (induction ys arbitrary: y) auto

lemma max_by_key_in: "max_by_key key xs = Some x \<Longrightarrow> x \<in> set xs"
  using max_by_key_fold_in by (fastforce simp: max_by_key_def split: list.splits)

definition peak_hour :: "temporal_pattern \<Rightarrow> u8" where
  "peak_hour p = (case max_by_key snd (enumerate 0 (tp_by_hour p)) of Some (h, _) \<Rightarrow> of_nat h | None \<Rightarrow> 0)"

definition peak_day :: "temporal_pattern \<Rightarrow> u8" where
  "peak_day p = (case max_by_key snd (enumerate 0 (tp_by_day p)) of Some (d, _) \<Rightarrow> of_nat d | None \<Rightarrow> 0)"

definition day_name :: "u8 \<Rightarrow> rstring" where
  "day_name day = ascii
     (if day = 0 then ''Monday'' else if day = 1 then ''Tuesday'' else if day = 2 then ''Wednesday''
      else if day = 3 then ''Thursday'' else if day = 4 then ''Friday'' else if day = 5 then ''Saturday''
      else if day = 6 then ''Sunday'' else ''Unknown'')"

definition hour_label :: "u8 \<Rightarrow> rstring" where
  "hour_label hour =
     (if hour = 0 then ascii ''midnight''
      else if hour < 12 then decimal (unat hour) @ ascii ''am''
      else if hour = 12 then ascii ''noon''
      else decimal (unat (hour - 12)) @ ascii ''pm'')"

section \<open>Streaks\<close>

record streak =
  sk_current_days :: u32
  sk_longest_days :: u32
  sk_last_touched_day :: u64

definition streak_new :: streak where
  "streak_new = \<lparr>sk_current_days = 0, sk_longest_days = 0, sk_last_touched_day = 0\<rparr>"

definition streak_touch :: "u64 \<Rightarrow> streak \<Rightarrow> streak" where
  "streak_touch ts s =
     (let today = ts div 86400;
          s = (if today = sk_last_touched_day s then s
               else if today = sk_last_touched_day s + 1
               then (let current = sk_current_days s + 1 in
                     s\<lparr>sk_current_days := current,
                       sk_longest_days := (if sk_longest_days s < current then current else sk_longest_days s)\<rparr>)
               else s\<lparr>sk_current_days := 1\<rparr>)
      in s\<lparr>sk_last_touched_day := today\<rparr>)"

section \<open>Files opened together\<close>

type_synonym co_access = "(u64 \<times> u64, u32) hmap"

text \<open>The first occurrences, in order.\<close>

fun unique_inos :: "u64 list \<Rightarrow> u64 list \<Rightarrow> u64 list" where
  "unique_inos seen [] = []"
| "unique_inos seen (x # xs) = (if x \<in> set seen then unique_inos seen xs else x # unique_inos (x # seen) xs)"

text \<open>The pairs of positions \<open>i < j\<close>, each with the smaller inode first.\<close>

fun all_pairs :: "u64 list \<Rightarrow> (u64 \<times> u64) list" where
  "all_pairs [] = []"
| "all_pairs (x # xs) = map (\<lambda>y. (min x y, max x y)) xs @ all_pairs xs"

definition count_pair :: "u64 \<times> u64 \<Rightarrow> co_access \<Rightarrow> co_access" where
  "count_pair k m = hm_insert k ((case hm_get m k of Some c \<Rightarrow> c | None \<Rightarrow> 0) + 1) m"

definition record_session :: "(u64 \<times> rstring) list \<Rightarrow> co_access \<Rightarrow> co_access" where
  "record_session files m =
     (if length files < 2 then m
      else fold count_pair (all_pairs (take 20 (unique_inos [] (map fst files)))) m)"

definition top_partners :: "u64 \<Rightarrow> nat \<Rightarrow> co_access \<Rightarrow> (u64 \<times> u32) list" where
  "top_partners ino limit m =
     take limit (sort_desc snd (List.map_filter (\<lambda>((a, b), count).
       if a = ino then Some (b, count) else if b = ino then Some (a, count) else None) m))"

section \<open>Trends\<close>

record trend_tracker =
  tt_daily :: "(u64, u32 list) hmap"
  tt_last_day :: u64

definition tracker_new :: "u64 \<Rightarrow> trend_tracker" where
  "tracker_new now = \<lparr>tt_daily = [], tt_last_day = now div 86400\<rparr>"

text \<open>\<open>rotate_left(n)\<close>, and zeros for the last \<open>n\<close> days.\<close>

definition advance_days :: "nat \<Rightarrow> u32 list \<Rightarrow> u32 list" where
  "advance_days n counts = take (length counts - n) (rotate n counts) @ replicate n 0"

definition trend_record :: "u64 \<Rightarrow> u64 \<Rightarrow> trend_tracker \<Rightarrow> trend_tracker" where
  "trend_record now ino t =
     (let today = now div 86400;
          t = (if tt_last_day t < today
               then (let advance = unat (min (today - tt_last_day t) 14)
                     in t\<lparr>tt_daily := map (\<lambda>(k, counts). (k, advance_days advance counts)) (tt_daily t),
                          tt_last_day := today\<rparr>)
               else t);
          counts = (case hm_get (tt_daily t) ino of Some c \<Rightarrow> c | None \<Rightarrow> replicate 14 0)
      in t\<lparr>tt_daily := hm_insert ino (count_at 13 counts) (tt_daily t)\<rparr>)"

datatype trend_kind = TrendNew | TrendRising | TrendStable | TrendFalling

text \<open>
  \<open>u32 as f32\<close>: the nearest number of 24 significant bits, ties to even. The division of two such
  numbers rounds to nearest as well, so it reaches 2.0 from the midpoint below it on, and 0.5 up to
  the midpoint above it.
\<close>

function f32_shift :: "nat \<Rightarrow> nat" where
  "f32_shift n = (if n < 2 ^ 24 then 0 else Suc (f32_shift (n div 2)))"
  by pat_completeness auto
termination by (relation "measure id") auto

declare f32_shift.simps [simp del]

definition f32_of_u32 :: "u32 \<Rightarrow> nat" where
  "f32_of_u32 w =
     (let n = unat w; d = 2 ^ f32_shift n; q = n div d; r = n mod d
      in (if d < 2 * r \<or> (2 * r = d \<and> odd q) then q + 1 else q) * d)"

definition ratio_ge_2 :: "nat \<Rightarrow> nat \<Rightarrow> bool" where
  "ratio_ge_2 a b \<longleftrightarrow> b * (2 ^ 25 - 1) \<le> a * 2 ^ 24"

definition ratio_le_half :: "nat \<Rightarrow> nat \<Rightarrow> bool" where
  "ratio_le_half a b \<longleftrightarrow> a * 2 ^ 25 \<le> b * (2 ^ 24 + 1)"

definition recent_sum :: "u32 list \<Rightarrow> u32" where
  "recent_sum counts = sum_list (sub counts 7 14)"

definition trend :: "u64 \<Rightarrow> trend_tracker \<Rightarrow> trend_kind" where
  "trend ino t =
     (case hm_get (tt_daily t) ino of
        None \<Rightarrow> TrendStable
      | Some counts \<Rightarrow>
          (let recent = recent_sum counts; prior = sum_list (sub counts 0 7) in
           if prior = 0 \<and> 2 < recent then TrendNew
           else if prior = 0 then TrendStable
           else if ratio_ge_2 (f32_of_u32 recent) (f32_of_u32 prior) then TrendRising
           else if ratio_le_half (f32_of_u32 recent) (f32_of_u32 prior) then TrendFalling
           else TrendStable))"

definition trending_files :: "trend_tracker \<Rightarrow> (u64 \<times> trend_kind \<times> u32) list" where
  "trending_files t =
     sort_desc (\<lambda>(_, _, n). n) (List.map_filter (\<lambda>(ino, counts).
       (let k = trend ino t in
        if k = TrendRising \<or> k = TrendNew then Some (ino, k, recent_sum counts) else None)) (tt_daily t))"

section \<open>The memory engine\<close>

definition MAX_SESSIONS :: nat where "MAX_SESSIONS = 500"

record memory_engine =
  me_sessions :: "mem_session list"
  me_current :: mem_session
  me_temporal :: "(u64, temporal_pattern) hmap"
  me_streaks :: "(u64, streak) hmap"
  me_co_access :: co_access
  me_trends :: trend_tracker
  me_names :: "(u64, rstring) hmap"
  me_total_sessions :: u64

definition memory_new :: "u64 \<Rightarrow> memory_engine" where
  "memory_new now =
     \<lparr>me_sessions = [], me_current = session_new now now, me_temporal = [], me_streaks = [],
      me_co_access = [], me_trends = tracker_new now, me_names = [], me_total_sessions = 0\<rparr>"

definition record_access :: "u64 \<Rightarrow> u64 \<Rightarrow> rstring \<Rightarrow> memory_engine \<Rightarrow> memory_engine" where
  "record_access ts ino name e =
     (let cur = me_current e;
          cur = (if ino \<in> fst ` set (se_files_touched cur) then cur
                 else cur\<lparr>se_files_touched := se_files_touched cur @ [(ino, name)]\<rparr>);
          pat = (case hm_get (me_temporal e) ino of Some p \<Rightarrow> p | None \<Rightarrow> pattern_default);
          sk = (case hm_get (me_streaks e) ino of Some s \<Rightarrow> s | None \<Rightarrow> streak_new)
      in e\<lparr>me_names := hm_insert ino name (me_names e), me_current := cur,
           me_temporal := hm_insert ino (pattern_record ts pat) (me_temporal e),
           me_streaks := hm_insert ino (streak_touch ts sk) (me_streaks e),
           me_trends := trend_record ts ino (me_trends e)\<rparr>)"

definition record_write :: "u64 \<Rightarrow> memory_engine \<Rightarrow> memory_engine" where
  "record_write ino e = e\<lparr>me_current := (me_current e)\<lparr>se_total_writes := se_total_writes (me_current e) + 1\<rparr>\<rparr>"

definition record_read :: "u64 \<Rightarrow> memory_engine \<Rightarrow> memory_engine" where
  "record_read ino e = e\<lparr>me_current := (me_current e)\<lparr>se_total_reads := se_total_reads (me_current e) + 1\<rparr>\<rparr>"

text \<open>The counts from which \<open>close_session\<close> takes the focus file.\<close>

definition touch_counts :: "(u64 \<times> rstring) list \<Rightarrow> (u64, u32) hmap" where
  "touch_counts files =
     fold (\<lambda>(ino, _) m. hm_insert ino ((case hm_get m ino of Some c \<Rightarrow> c | None \<Rightarrow> 0) + 1) m) files []"

definition focus_of :: "memory_engine \<Rightarrow> rstring option" where
  "focus_of e = (case max_by_key snd (touch_counts (se_files_touched (me_current e))) of
     Some (ino, _) \<Rightarrow> hm_get (me_names e) ino | None \<Rightarrow> None)"

definition close_session :: "u64 \<Rightarrow> memory_engine \<Rightarrow> memory_engine" where
  "close_session ts e =
     (let files = se_files_touched (me_current e);
          archived = (me_current e)\<lparr>se_end_ts := ts, se_focus_file := focus_of e\<rparr>;
          sessions = me_sessions e @ [archived];
          sessions = (if MAX_SESSIONS < length sessions then tl sessions else sessions);
          total = me_total_sessions e + 1
      in e\<lparr>me_co_access := record_session files (me_co_access e), me_sessions := sessions,
           me_total_sessions := total, me_current := session_new ts (ts + total)\<rparr>)"

definition top_cofiles :: "u64 \<Rightarrow> nat \<Rightarrow> memory_engine \<Rightarrow> rstring list" where
  "top_cofiles ino limit e =
     List.map_filter (\<lambda>(partner, _). hm_get (me_names e) partner) (top_partners ino limit (me_co_access e))"

definition streak_of :: "u64 \<Rightarrow> memory_engine \<Rightarrow> u32" where
  "streak_of ino e = (case hm_get (me_streaks e) ino of Some s \<Rightarrow> sk_current_days s | None \<Rightarrow> 0)"

record memory_stats =
  ms_total_sessions :: u64
  ms_current_session_files :: nat
  ms_tracked_files :: nat
  ms_active_streaks :: nat
  ms_trending_count :: nat
  ms_co_access_pairs :: nat

definition memory_stats_of :: "memory_engine \<Rightarrow> memory_stats" where
  "memory_stats_of e =
     \<lparr>ms_total_sessions = me_total_sessions e + 1,
      ms_current_session_files = length (se_files_touched (me_current e)),
      ms_tracked_files = length (me_temporal e),
      ms_active_streaks = length (filter (\<lambda>(_, s). 2 \<le> sk_current_days s) (me_streaks e)),
      ms_trending_count = length (trending_files (me_trends e)),
      ms_co_access_pairs = length (me_co_access e)\<rparr>"

definition stats_map :: "memory_engine \<Rightarrow> (u64, rstring \<times> u32 \<times> u64 \<times> u64) hmap" where
  "stats_map e =
     map (\<lambda>(ino, name).
       (let opens = (case hm_get (me_temporal e) ino of Some p \<Rightarrow> tp_total p | None \<Rightarrow> 0);
            last = (case hm_get (me_streaks e) ino of Some s \<Rightarrow> sk_last_touched_day s * 86400 | None \<Rightarrow> 0)
        in (ino, name, opens, last, ucast opens))) (me_names e)"

section \<open>Co-access counts\<close>

lemma unique_inos_distinct: "distinct (unique_inos seen xs) \<and> set (unique_inos seen xs) = set xs - set seen"
  by (induction seen xs rule: unique_inos.induct) auto

definition pair_count :: "co_access \<Rightarrow> u64 \<times> u64 \<Rightarrow> u32" where
  "pair_count m k = (case hm_get m k of Some c \<Rightarrow> c | None \<Rightarrow> 0)"

lemma count_pair_count [simp]: "pair_count (count_pair k m) k' = pair_count m k' + (if k' = k then 1 else 0)"
  by (simp add: pair_count_def count_pair_def)

lemma count_pairs: "pair_count (fold count_pair ks m) k = pair_count m k + of_nat (count_list ks k)"
  by (induction ks arbitrary: m) auto

lemma count_pairs_wf [simp]: "hm_wf m \<Longrightarrow> hm_wf (fold count_pair ks m)"
  by (induction ks arbitrary: m) (auto simp: count_pair_def)

lemma count_list_map_pair:
  "distinct xs \<Longrightarrow> x \<notin> set xs \<Longrightarrow> count_list (map (\<lambda>y. (min x y, max x y)) xs) (a, b)
    = (if a < b \<and> (a = x \<and> b \<in> set xs \<or> b = x \<and> a \<in> set xs) then 1 else 0)" for a b :: u64
  by (induction xs) (auto simp: min_def max_def)

lemma count_all_pairs:
  "distinct xs \<Longrightarrow> count_list (all_pairs xs) (a, b) = (if a < b \<and> a \<in> set xs \<and> b \<in> set xs then 1 else 0)"
  by (induction xs) (auto simp: count_list_map_pair)

text \<open>Closing a session counts every pair of different files among the first twenty of the session
  exactly once, under the key with the smaller inode first, and no other pair; sessions of a single
  access count nothing.\<close>

theorem co_access_counts_pairs:
  "pair_count (record_session files m) (a, b) = pair_count m (a, b) +
     (if a < b \<and> a \<in> set (take 20 (unique_inos [] (map fst files))) \<and> b \<in> set (take 20 (unique_inos [] (map fst files)))
      then 1 else 0)"
proof -
  let ?us = "take 20 (unique_inos [] (map fst files))"
  have dist: "distinct ?us" using unique_inos_distinct by (simp add: distinct_take)
  show ?thesis
  proof (cases "length files < 2")
    case True
    then consider "files = []" | f where "files = [f]" by (cases files; cases "tl files") auto
    then show ?thesis using True by cases (auto simp: record_session_def)
  next
    case False
    then show ?thesis
      by (simp add: record_session_def count_pairs count_all_pairs [OF dist])
  qed
qed

section \<open>Streaks of days\<close>

lemma streak_touch_next:
  assumes "unat (ts div 86400) = unat (sk_last_touched_day s) + 1"
  shows "streak_touch ts s =
    \<lparr>sk_current_days = sk_current_days s + 1,
     sk_longest_days = (if sk_longest_days s < sk_current_days s + 1 then sk_current_days s + 1 else sk_longest_days s),
     sk_last_touched_day = ts div 86400\<rparr>"
proof -
  have "ts div 86400 \<noteq> sk_last_touched_day s" using assms by auto
  moreover have "ts div 86400 = sk_last_touched_day s + 1"
    using assms unat_lt64 [of "ts div 86400"] by (intro word_unat_eq_iff [THEN iffD2]) (simp add: unat64_add)
  ultimately show ?thesis by (simp add: streak_touch_def Let_def)
qed

text \<open>A file touched on \<open>n\<close> consecutive days has a current streak of \<open>n\<close>; the longest streak says \<open>n\<close> as
  well, except that after the first day it still says 0.\<close>

theorem streak_counts_days:
  assumes "map (\<lambda>t. unat (t div 86400)) ts = [d..<d + length ts]" and "2 \<le> d" and "ts \<noteq> []" and "length ts < 2 ^ 32"
  shows "sk_current_days (fold streak_touch ts streak_new) = of_nat (length ts)
    \<and> sk_longest_days (fold streak_touch ts streak_new) = (if length ts = 1 then 0 else of_nat (length ts))"
proof -
  have "sk_current_days (fold streak_touch ts streak_new) = of_nat (length ts)
    \<and> sk_longest_days (fold streak_touch ts streak_new) = (if length ts = 1 then 0 else of_nat (length ts))
    \<and> unat (sk_last_touched_day (fold streak_touch ts streak_new)) = d + length ts - 1"
    using assms(1,3,4)
  proof (induction ts rule: rev_induct)
    case (snoc t ts)
    have day: "unat (t div 86400) = d + length ts" and days: "map (\<lambda>t. unat (t div 86400)) ts = [d..<d + length ts]"
      using snoc.prems(1) by auto
    show ?case
    proof (cases "ts = []")
      case True
      then have "t div 86400 \<noteq> 0" "t div 86400 \<noteq> 1" using day assms(2) by auto
      then show ?thesis using True day by (simp add: streak_touch_def streak_new_def Let_def)
    next
      case False
      then have len: "0 < length ts" "length ts < 2 ^ 32 - 1" using snoc.prems(3) by auto
      have ih: "sk_current_days (fold streak_touch ts streak_new) = of_nat (length ts)"
        "sk_longest_days (fold streak_touch ts streak_new) = (if length ts = 1 then 0 else of_nat (length ts))"
        "unat (sk_last_touched_day (fold streak_touch ts streak_new)) = d + length ts - 1"
        using snoc.IH [OF days False] len by auto
      have less: "(of_nat (length ts) :: u32) < of_nat (length ts) + 1" "(0 :: u32) < of_nat (length ts) + 1"
        using len by (simp_all add: word_less_nat_alt unat_of_nat unat_word_ariths)
      show ?thesis
        using streak_touch_next [of t "fold streak_touch ts streak_new"] ih day len less by (auto simp: add.commute)
    qed
  qed simp
  then show ?thesis by simp
qed

theorem streak_counts_days_witness:
  "sk_current_days (fold streak_touch [86400 * 20000, 86400 * 20001, 86400 * 20002] streak_new) = 3"
  using streak_counts_days [of "[86400 * 20000, 86400 * 20001, 86400 * 20002]" 20000]
  by (simp add: upt_rec)

section \<open>The window of days\<close>

text \<open>Accesses of a file on a day, and what the window holds for the day \<open>k\<close> days ago.\<close>

definition day_count :: "(u64 \<times> u64) list \<Rightarrow> u64 \<Rightarrow> nat \<Rightarrow> nat" where
  "day_count accesses ino d = length (filter (\<lambda>(now, i). i = ino \<and> unat (now div 86400) = d) accesses)"

definition window :: "trend_tracker \<Rightarrow> u64 \<Rightarrow> nat \<Rightarrow> u32" where
  "window t ino k = (case hm_get (tt_daily t) ino of Some c \<Rightarrow> c ! (13 - k) | None \<Rightarrow> 0)"

definition tracker_wf :: "trend_tracker \<Rightarrow> bool" where
  "tracker_wf t \<longleftrightarrow> hm_wf (tt_daily t) \<and> (\<forall>(ino, c) \<in> set (tt_daily t). length c = 14)"

lemma tracker_wfD: "tracker_wf t \<Longrightarrow> hm_get (tt_daily t) ino = Some c \<Longrightarrow> length c = 14"
  by (auto simp: tracker_wf_def dest: hm_get_in_set)

lemma hm_get_map_values: "hm_get (map (\<lambda>(k, v). (k, g v)) m) k = map_option g (hm_get m k)"
  by (induction m) (auto simp: hm_get_def)

lemma length_advance [simp]: "n \<le> length c \<Longrightarrow> length (advance_days n c) = length c"
  by (simp add: advance_days_def)

lemma nth_advance:
  assumes "length c = 14" and "n \<le> 14" and "k < 14"
  shows "advance_days n c ! (13 - k) = (if k < n then 0 else c ! (13 - (k - n)))"
proof (cases "k < n")
  case True
  then have "\<not> 13 - k < 14 - n" "13 - k - (14 - n) < n" using assms by auto
  with True assms show ?thesis by (simp add: advance_days_def nth_append)
next
  case False
  then have "13 - k < 14 - n" "(n + (13 - k)) mod 14 = 13 - (k - n)" using assms by auto
  with False assms show ?thesis by (simp add: advance_days_def nth_append nth_rotate)
qed

lemma trend_record_window:
  assumes "tracker_wf t" and "tt_last_day t \<le> now div 86400" and "k < 14"
  defines "gap \<equiv> unat (now div 86400) - unat (tt_last_day t)"
  shows "window (trend_record now i t) ino k =
      (if k < gap then 0 else window t ino (k - gap)) + (if ino = i \<and> k = 0 then 1 else 0)"
    and "tracker_wf (trend_record now i t)" and "tt_last_day (trend_record now i t) = now div 86400"
proof -
  let ?today = "now div 86400"
  define n where "n = unat (min (?today - tt_last_day t) 14)"
  define d where "d = (if tt_last_day t < ?today then map (\<lambda>(k, c). (k, advance_days n c)) (tt_daily t) else tt_daily t)"
  define c where "c = (case hm_get d i of Some c \<Rightarrow> c | None \<Rightarrow> replicate 14 0)"
  have run: "trend_record now i t = t\<lparr>tt_daily := hm_insert i (count_at 13 c) d, tt_last_day := ?today\<rparr>"
    using assms(2) by (auto simp: trend_record_def Let_def c_def d_def n_def)
  have n: "n = min gap 14"
    using assms(2) by (auto simp: gap_def n_def min_def word_le_nat_alt unat_sub)
  have same: "gap = 0" "d = tt_daily t" if "\<not> tt_last_day t < ?today"
    using that assms(2) by (auto simp: gap_def d_def)
  have get: "hm_get d ino = map_option (advance_days n) (hm_get (tt_daily t) ino)" if "tt_last_day t < ?today" for ino
    using that by (simp add: d_def hm_get_map_values)
  have wf: "hm_wf d \<and> (\<forall>(ino, c) \<in> set d. length c = 14)"
    using assms(1) n by (auto simp: tracker_wf_def d_def hm_wf_def case_prod_unfold comp_def)
  have len: "length c = 14"
    using wf by (auto simp: c_def dest: hm_get_in_set split: option.splits)
  have shift: "(case hm_get d ino of Some c \<Rightarrow> c ! (13 - k) | None \<Rightarrow> 0) = (if k < gap then 0 else window t ino (k - gap))"
    for ino
  proof (cases "tt_last_day t < ?today")
    case True
    show ?thesis
    proof (cases "hm_get (tt_daily t) ino")
      case (Some x)
      then show ?thesis
        using nth_advance [OF tracker_wfD [OF assms(1) Some], of n k] n assms(3)
        by (simp add: window_def get [OF True])
    qed (simp add: window_def get [OF True])
  qed (simp add: same window_def)
  have "c ! 13 = (case hm_get d i of Some c \<Rightarrow> c ! 13 | None \<Rightarrow> 0)"
    by (simp add: c_def nth_replicate del: replicate.simps split: option.splits)
  moreover have "c ! (13 - k) = (case hm_get d i of Some c \<Rightarrow> c ! (13 - k) | None \<Rightarrow> 0)"
    by (simp add: c_def nth_replicate del: replicate.simps split: option.splits)
  ultimately have "window (trend_record now i t) ino k = (case hm_get d ino of Some c \<Rightarrow> c ! (13 - k) | None \<Rightarrow> 0)
      + (if ino = i \<and> k = 0 then 1 else 0)"
    using len assms(3) by (cases "ino = i"; cases k) (auto simp: run window_def count_at_def nth_list_update split: option.splits)
  with shift show "window (trend_record now i t) ino k =
      (if k < gap then 0 else window t ino (k - gap)) + (if ino = i \<and> k = 0 then 1 else 0)" by simp
  have "\<forall>(ino, c) \<in> set (hm_insert i (count_at 13 c) d). length c = 14"
    using wf len by (intro hm_all_insert) (auto simp: count_at_def)
  then show "tracker_wf (trend_record now i t)"
    using wf by (simp add: run tracker_wf_def)
  show "tt_last_day (trend_record now i t) = ?today" by (simp add: run)
qed

lemma day_count_snoc: "day_count (as @ [(now, i)]) ino d =
    day_count as ino d + (if i = ino \<and> unat (now div 86400) = d then 1 else 0)"
  by (simp add: day_count_def)

lemma day_count_later: "\<forall>(now, i) \<in> set as. unat (now div 86400) < d \<Longrightarrow> day_count as ino d = 0"
  by (auto simp: day_count_def filter_empty_conv)

lemma div_mono_word: "a \<le> b \<Longrightarrow> a div c \<le> b div (c :: u64)"
  by (simp add: word_le_nat_alt unat_div div_le_mono)

lemma sorted_last_max: "sorted (xs :: u64 list) \<Longrightarrow> \<forall>x \<in> set xs. x \<le> last xs"
  by (induction xs rule: rev_induct) (auto simp: sorted_append)

lemma window_counts:
  assumes "sorted (t0 # map fst accesses)"
  defines "t \<equiv> fold (\<lambda>(now, ino). trend_record now ino) accesses (tracker_new t0)"
  shows "tracker_wf t \<and> tt_last_day t = last (t0 # map fst accesses) div 86400
    \<and> (\<forall>ino. \<forall>k < 14. window t ino k = (if k \<le> unat (tt_last_day t)
          then of_nat (day_count accesses ino (unat (tt_last_day t) - k)) else 0))"
  using assms(1) unfolding t_def
proof (induction accesses rule: rev_induct)
  case Nil
  then show ?case by (simp add: tracker_new_def tracker_wf_def window_def day_count_def)
next
  case (snoc a as)
  obtain now i where a: "a = (now, i)" by fastforce
  let ?t = "fold (\<lambda>(now, ino). trend_record now ino) as (tracker_new t0)"
  have sorted: "sorted (t0 # map fst as)" and le: "\<forall>x \<in> set (t0 # map fst as). x \<le> now"
    using snoc.prems by (auto simp: a sorted_append)
  note ih = snoc.IH [OF sorted]
  have day: "tt_last_day ?t \<le> now div 86400"
    using ih le last_in_set [of "t0 # map fst as"] by (auto intro!: div_mono_word)
  have "\<forall>x \<in> set (t0 # map fst as). x \<le> last (t0 # map fst as)"
    by (rule sorted_last_max [OF sorted])
  then have old: "unat (u div 86400) \<le> unat (tt_last_day ?t)" if "(u, j) \<in> set as" for u j
    using that ih by (force simp: word_le_nat_alt [symmetric] intro!: div_mono_word)
  let ?T = "unat (now div 86400)" and ?L = "unat (tt_last_day ?t)"
  have le_day: "?L \<le> ?T" using day by (simp add: word_le_nat_alt)
  have wf: "tracker_wf ?t" using ih by blast
  note step = trend_record_window [OF wf day, of _ i]
  have "window (trend_record now i ?t) ino k
      = (if k \<le> ?T then of_nat (day_count (as @ [(now, i)]) ino (?T - k)) else 0)" if k: "k < 14" for ino k
  proof (cases "k < ?T - ?L")
    case True
    then have "\<forall>(u, j) \<in> set as. unat (u div 86400) < ?T - k" using old by fastforce
    then have "day_count as ino (?T - k) = 0" by (rule day_count_later)
    moreover have "k \<le> ?T" "?T = ?T - k \<longleftrightarrow> k = 0" using True by auto
    ultimately show ?thesis using step(1) [OF k, of ino] True by (auto simp: day_count_snoc)
  next
    case False
    then have eq: "k \<le> ?T \<longleftrightarrow> k - (?T - ?L) \<le> ?L" "k \<le> ?T \<Longrightarrow> ?L - (k - (?T - ?L)) = ?T - k"
      "k \<le> ?T \<Longrightarrow> ?T = ?T - k \<longleftrightarrow> k = 0" "\<not> k \<le> ?T \<Longrightarrow> k \<noteq> 0"
      using le_day by auto
    have "window ?t ino (k - (?T - ?L)) = (if k \<le> ?T then of_nat (day_count as ino (?T - k)) else 0)"
      using ih k eq(1,2) by auto
    with step(1) [OF k, of ino] False eq(3,4) show ?thesis
      by (cases "k \<le> ?T") (auto simp: day_count_snoc)
  qed
  then show ?case using step(2,3) [of 0] by (simp add: a)
qed

text \<open>The fourteen-day window of a file holds, for each of the last fourteen days, the number of its
  accesses on that day, also after gaps of any length, as long as the clock does not run backwards.\<close>

theorem trend_window_counts:
  assumes "sorted (t0 # map fst accesses)" and "k < 14"
    and "t = fold (\<lambda>(now, ino). trend_record now ino) accesses (tracker_new t0)" and "k \<le> unat (tt_last_day t)"
  shows "tt_last_day t = last (t0 # map fst accesses) div 86400
    \<and> window t ino k = of_nat (day_count accesses ino (unat (tt_last_day t) - k))"
  using window_counts [OF assms(1)] assms(2-4) by auto

theorem trend_window_counts_witness:
  "let t = fold (\<lambda>(now, ino). trend_record now ino) [(86400 * 10, 2), (86400 * 10 + 5, 2), (86400 * 12, 3)] (tracker_new 86400)
   in tt_last_day t = 12 \<and> window t 2 2 = 2 \<and> window t 2 0 = 0"
proof -
  let ?as = "[(86400 * 10, 2), (86400 * 10 + 5, 2), (86400 * 12, 3)] :: (u64 \<times> u64) list"
  define t where "t = fold (\<lambda>(now, ino). trend_record now ino) ?as (tracker_new 86400)"
  have "sorted (86400 # map fst ?as)" by simp
  note w = trend_window_counts [OF this _ t_def]
  have last: "tt_last_day t = 12" using w [of 0 2] by simp
  have "day_count ?as 2 10 = 2" "day_count ?as 2 12 = 0" by (simp_all add: day_count_def)
  with last w [of 2 2] w [of 0 2] show ?thesis
    unfolding Let_def t_def [symmetric] by simp
qed

section \<open>Comparing two weeks\<close>

lemma f32_exact: "unat w < 2 ^ 24 \<Longrightarrow> f32_of_u32 w = unat w"
  using f32_shift.simps [of "unat w"] by (simp add: f32_of_u32_def)

lemma ratio_exact:
  assumes "b < 2 ^ 24" and "0 < b"
  shows "ratio_ge_2 a b \<longleftrightarrow> 2 * b \<le> a" and "ratio_le_half a b \<longleftrightarrow> 2 * a \<le> b"
  using assms by (auto simp: ratio_ge_2_def ratio_le_half_def)

text \<open>For weekly counts below \<open>2 ^ 24\<close> the floating-point comparison is exact: a file rises when this week
  has at least twice the accesses of the week before, and fades when it has at most half of them.\<close>

theorem trend_compares_weeks:
  assumes "hm_get (tt_daily t) ino = Some counts"
    and "recent = unat (recent_sum counts)" and "prior = unat (sum_list (sub counts 0 7))"
    and "0 < prior" and "prior < 2 ^ 24" and "recent < 2 ^ 24"
  shows "trend ino t = (if 2 * prior \<le> recent then TrendRising else if 2 * recent \<le> prior then TrendFalling else TrendStable)"
proof -
  have "sum_list (sub counts 0 7) \<noteq> 0" using assms(3,4) by auto
  with assms show ?thesis
    by (simp add: trend_def Let_def f32_exact ratio_exact)
qed

theorem trend_compares_weeks_witness:
  "trend 2 \<lparr>tt_daily = [(2, [0, 0, 0, 0, 0, 0, 3, 0, 0, 0, 0, 0, 0, 6])], tt_last_day = 100\<rparr> = TrendRising"
  by (subst trend_compares_weeks) (auto simp: hm_get_def recent_sum_def sub_def)

section \<open>The invariant of the engine\<close>

definition pattern_ok :: "temporal_pattern \<Rightarrow> bool" where
  "pattern_ok p \<longleftrightarrow> length (tp_by_hour p) = 24 \<and> length (tp_by_day p) = 7
     \<and> sum_list (tp_by_hour p) = tp_total p \<and> sum_list (tp_by_day p) = tp_total p"

definition memory_wf :: "memory_engine \<Rightarrow> bool" where
  "memory_wf e \<longleftrightarrow> hm_wf (me_temporal e) \<and> hm_wf (me_streaks e) \<and> hm_wf (me_co_access e) \<and> hm_wf (me_names e)
     \<and> tracker_wf (me_trends e) \<and> (\<forall>(ino, p) \<in> set (me_temporal e). pattern_ok p)
     \<and> length (me_sessions e) \<le> MAX_SESSIONS
     \<and> (\<forall>s \<in> insert (me_current e) (set (me_sessions e)). distinct (map fst (se_files_touched s)))"

datatype mem_op = MemAccess u64 u64 rstring | MemWrite u64 | MemRead u64 | MemClose u64

fun mem_step :: "mem_op \<Rightarrow> memory_engine \<Rightarrow> memory_engine" where
  "mem_step (MemAccess ts ino name) = record_access ts ino name"
| "mem_step (MemWrite ino) = record_write ino"
| "mem_step (MemRead ino) = record_read ino"
| "mem_step (MemClose ts) = close_session ts"

lemma length_count_at [simp]: "length (count_at i xs) = length xs"
  by (simp add: count_at_def)

lemma sum_count_at: "i < length xs \<Longrightarrow> sum_list (count_at i xs) = sum_list xs + (1 :: u32)"
  by (induction xs arbitrary: i) (auto simp: count_at_def nth_Cons split: nat.splits)

lemma hour_day_range: "unat (((ts :: u64) mod 86400) div 3600) < 24" "unat (((ts :: u64) div 86400 + 3) mod 7) < 7"
proof -
  have "unat ts mod 86400 < 86400" by simp
  then have "unat ts mod 86400 div 3600 < 24" by linarith
  then show "unat ((ts mod 86400) div 3600) < 24" by (simp add: unat_div unat_mod)
  show "unat ((ts div 86400 + 3) mod 7) < 7" by (simp add: unat_mod)
qed

lemma pattern_record_ok [intro]: "pattern_ok p \<Longrightarrow> pattern_ok (pattern_record ts p)"
  using hour_day_range [of ts] by (simp add: pattern_ok_def pattern_record_def Let_def sum_count_at)

lemma pattern_default_ok [simp]: "pattern_ok pattern_default"
  by (simp add: pattern_ok_def pattern_default_def sum_list_replicate)

lemma memory_new_wf [simp]: "memory_wf (memory_new now)"
  by (simp add: memory_wf_def memory_new_def tracker_new_def tracker_wf_def session_new_def)

text \<open>\<open>trend_record\<close> keeps the lengths whatever the clock does.\<close>

lemma trend_record_wf: "tracker_wf t \<Longrightarrow> tracker_wf (trend_record now i t)"
proof -
  assume wf: "tracker_wf t"
  show ?thesis
  proof (cases "tt_last_day t \<le> now div 86400")
    case True
    then show ?thesis using trend_record_window(2) [OF wf, of now 0] by simp
  next
    case False
    let ?c = "case hm_get (tt_daily t) i of Some c \<Rightarrow> c | None \<Rightarrow> replicate 14 0"
    have "length ?c = 14" using tracker_wfD [OF wf, of i] by (auto split: option.splits)
    then have "\<forall>(ino, c) \<in> set (hm_insert i (count_at 13 ?c) (tt_daily t)). length c = 14"
      using wf by (intro hm_all_insert) (auto simp: tracker_wf_def)
    then show ?thesis using False wf by (auto simp: trend_record_def tracker_wf_def Let_def)
  qed
qed

lemma record_access_wf: "memory_wf e \<Longrightarrow> memory_wf (record_access ts ino name e)"
proof -
  assume wf: "memory_wf e"
  let ?p = "case hm_get (me_temporal e) ino of Some p \<Rightarrow> p | None \<Rightarrow> pattern_default"
  have "pattern_ok ?p"
    using wf by (auto simp: memory_wf_def dest: hm_get_in_set split: option.splits)
  then have "\<forall>(i, p) \<in> set (hm_insert ino (pattern_record ts ?p) (me_temporal e)). pattern_ok p"
    using wf by (intro hm_all_insert) (auto simp: memory_wf_def)
  then show ?thesis
    using wf by (auto simp: memory_wf_def record_access_def Let_def trend_record_wf)
qed

lemma drop_excess: "length xs \<le> n + 1 \<Longrightarrow> (if n < length xs then tl xs else xs) = drop (length xs - n) xs"
  by (cases "length xs = Suc n") (auto simp: drop_Suc)

lemma close_session_sessions:
  assumes "length (me_sessions e) \<le> MAX_SESSIONS"
  shows "me_sessions (close_session ts e) =
    (let all = me_sessions e @ [(me_current e)\<lparr>se_end_ts := ts, se_focus_file := focus_of e\<rparr>]
     in drop (length all - MAX_SESSIONS) all)"
  unfolding Let_def using assms
  by (subst drop_excess [symmetric]) (simp_all add: close_session_def Let_def)

lemma close_session_wf: "memory_wf e \<Longrightarrow> memory_wf (close_session ts e)"
proof -
  assume wf: "memory_wf e"
  note sessions = close_session_sessions [of e ts]
  have "hm_wf (record_session files m)" if "hm_wf m" for files m
    using that by (simp add: record_session_def)
  moreover have "\<forall>s \<in> set (me_sessions (close_session ts e)). distinct (map fst (se_files_touched s))"
    using wf sessions by (auto simp: memory_wf_def Let_def dest!: in_set_dropD)
  ultimately show ?thesis
    using wf sessions by (simp add: memory_wf_def Let_def) (simp add: close_session_def Let_def session_new_def)
qed

lemma mem_step_wf: "memory_wf e \<Longrightarrow> memory_wf (mem_step op e)"
  by (cases op) (auto simp: record_access_wf close_session_wf, auto simp: memory_wf_def record_write_def record_read_def)

lemma mem_steps_wf: "memory_wf e \<Longrightarrow> memory_wf (fold mem_step ops e)"
  by (induction ops arbitrary: e) (auto simp: mem_step_wf)

lemma mem_access_total [simp]: "me_total_sessions (record_access ts ino name e) = me_total_sessions e"
  by (simp add: record_access_def Let_def)

lemma memory_new_total [simp]: "me_total_sessions (memory_new now) = 0"
  by (simp add: memory_new_def)

text \<open>C25: Whatever is recorded, the engine stays well formed: hourly and daily counts of every file add up to
  its total, at most 500 sessions are kept, and no session lists a file twice.\<close>

theorem memory_invariant:
  assumes "memory_wf e"
  shows "memory_wf (fold mem_step ops e)"
  using assms by (rule mem_steps_wf)

theorem memory_invariant_witness:
  "memory_wf (fold mem_step [MemAccess 86400 2 [97], MemWrite 2, MemAccess 86500 3 [98], MemClose 90000] (memory_new 86400))"
  by (rule memory_invariant) simp

lemma touch_counts_distinct:
  assumes "distinct (map fst files)"
  shows "touch_counts files = map (\<lambda>(ino, _). (ino, 1)) files"
  using assms unfolding touch_counts_def
proof (induction files rule: rev_induct)
  case (snoc f files)
  obtain ino name where f: "f = (ino, name)" by fastforce
  have "hm_get (map (\<lambda>(i, _). (i, 1 :: u32)) files) ino = None"
    using snoc.prems by (force simp: f hm_get_None_iff)
  with snoc show ?case by (simp add: f hm_insert_new)
qed simp

text \<open>Closing a session archives it with its end, drops the oldest one beyond 500, starts an empty one,
  and counts it. Its focus file is no more than some file of the session: every file is counted once,
  however often it was opened.\<close>

theorem close_session_archives:
  assumes "memory_wf e" and "e' = close_session ts e" and "files = se_files_touched (me_current e)"
  shows "me_current e' = session_new ts (ts + me_total_sessions e') \<and> me_total_sessions e' = me_total_sessions e + 1
    \<and> (\<exists>focus. me_sessions e' = (let all = me_sessions e @ [(me_current e)\<lparr>se_end_ts := ts, se_focus_file := focus\<rparr>]
         in drop (length all - MAX_SESSIONS) all)
       \<and> (\<forall>n. focus = Some n \<longrightarrow> (\<exists>ino \<in> fst ` set files. hm_get (me_names e) ino = Some n)))
    \<and> (\<forall>c \<in> snd ` set (touch_counts files). c = 1)"
proof -
  have counts: "touch_counts files = map (\<lambda>(ino, _). (ino, 1)) files"
    using assms(1,3) by (intro touch_counts_distinct) (auto simp: memory_wf_def)
  have "me_sessions e' = (let all = me_sessions e @ [(me_current e)\<lparr>se_end_ts := ts, se_focus_file := focus_of e\<rparr>]
      in drop (length all - MAX_SESSIONS) all)"
    using assms(1,2) by (simp add: close_session_sessions memory_wf_def)
  moreover have "\<exists>ino \<in> fst ` set files. hm_get (me_names e) ino = Some n" if n: "focus_of e = Some n" for n
  proof (cases "max_by_key snd (touch_counts files)")
    case (Some m)
    then have "m \<in> set (touch_counts files)" by (rule max_by_key_in)
    then have "fst m \<in> fst ` set files" by (force simp: counts)
    moreover have "hm_get (me_names e) (fst m) = Some n"
      using Some n assms(3) by (simp add: focus_of_def case_prod_unfold)
    ultimately show ?thesis by blast
  qed (use n assms(3) in \<open>simp add: focus_of_def\<close>)
  moreover have "me_current e' = session_new ts (ts + me_total_sessions e')" "me_total_sessions e' = me_total_sessions e + 1"
    using assms(2) by (simp_all add: close_session_def Let_def)
  moreover have "\<forall>c \<in> snd ` set (touch_counts files). c = 1" by (auto simp: counts)
  ultimately show ?thesis by blast
qed

theorem close_session_archives_witness:
  "let e = fold mem_step [MemAccess 86400 2 [97], MemAccess 86500 3 [98], MemAccess 86600 2 [97]] (memory_new 86400)
   in me_total_sessions (close_session 90000 e) = 1 \<and> me_current (close_session 90000 e) = session_new 90000 90001"
proof -
  define e where "e = fold mem_step [MemAccess 86400 2 [97], MemAccess 86500 3 [98], MemAccess 86600 2 [97]] (memory_new 86400)"
  have "memory_wf e" unfolding e_def by (rule mem_steps_wf) simp
  from close_session_archives [OF this refl refl, of 90000]
  have "me_current (close_session 90000 e) = session_new 90000 (90000 + me_total_sessions (close_session 90000 e))"
    "me_total_sessions (close_session 90000 e) = me_total_sessions e + 1" by blast+
  moreover have "me_total_sessions e = 0" by (simp add: e_def)
  ultimately show ?thesis unfolding Let_def e_def [symmetric] by simp
qed

end
