(* ===== verification/Memory_Codec.thy ===== *)
theory Memory_Codec
  imports Memory Ai_Persist
begin

text \<open>
  The file format of the memory engine (the second half of \<open>src/ai/memory.rs\<close>) and the file it is kept
  in (\<open>src/ai/memory_persist.rs\<close>). A position in the data is the list of the bytes behind it.
\<close>

definition MAGIC_MEM :: bytes where "MAGIC_MEM = ascii ''VEXMEM01''"

lemma length_magic_mem [simp]: "length MAGIC_MEM = 8"
  by (simp add: MAGIC_MEM_def ascii_def)

section \<open>Writing\<close>

definition named_bytes :: "u64 \<times> rstring \<Rightarrow> bytes" where
  "named_bytes = (\<lambda>(ino, name). u64_to_le ino @ push_str name)"

definition session_bytes :: "mem_session \<Rightarrow> bytes" where
  "session_bytes s =
     u64_to_le (se_id s) @ u64_to_le (se_start_ts s) @ u64_to_le (se_end_ts s) @ u64_to_le (se_total_writes s)
     @ u64_to_le (se_total_reads s) @ section_bytes 100 named_bytes (se_files_touched s)
     @ push_str (case se_focus_file s of Some n \<Rightarrow> n | None \<Rightarrow> [])"

definition pattern_bytes :: "u64 \<times> temporal_pattern \<Rightarrow> bytes" where
  "pattern_bytes = (\<lambda>(ino, p). u64_to_le ino @ concat (map u32_to_le (tp_by_hour p))
     @ concat (map u32_to_le (tp_by_day p)) @ u32_to_le (tp_total p))"

definition streak_bytes :: "u64 \<times> streak \<Rightarrow> bytes" where
  "streak_bytes = (\<lambda>(ino, s). u64_to_le ino @ u32_to_le (sk_current_days s) @ u32_to_le (sk_longest_days s)
     @ u64_to_le (sk_last_touched_day s))"

definition pair_bytes :: "(u64 \<times> u64) \<times> u32 \<Rightarrow> bytes" where
  "pair_bytes = (\<lambda>((a, b), count). u64_to_le a @ u64_to_le b @ u32_to_le count)"

definition daily_bytes :: "u64 \<times> u32 list \<Rightarrow> bytes" where
  "daily_bytes = (\<lambda>(ino, counts). u64_to_le ino @ concat (map u32_to_le counts))"

definition memory_to_bytes :: "memory_engine \<Rightarrow> bytes" where
  "memory_to_bytes e =
     MAGIC_MEM @ u64_to_le (me_total_sessions e)
     @ section_bytes 500 session_bytes (me_sessions e)
     @ section_bytes 10000 pattern_bytes (me_temporal e)
     @ section_bytes 10000 streak_bytes (me_streaks e)
     @ section_bytes 50000 pair_bytes (me_co_access e)
     @ u64_to_le (tt_last_day (me_trends e))
     @ section_bytes 10000 daily_bytes (tt_daily (me_trends e))
     @ section_bytes 10000 named_bytes (me_names e)"

section \<open>Reading\<close>

definition read_named :: "(u64 \<times> rstring) reader" where
  "read_named bs = do { (ino, bs) \<leftarrow> read_u64 bs; (name, bs) \<leftarrow> read_str bs; Some ((ino, name), bs) }"

definition read_session :: "mem_session reader" where
  "read_session bs = do {
     (ident, bs) \<leftarrow> read_u64 bs;
     (start_ts, bs) \<leftarrow> read_u64 bs;
     (end_ts, bs) \<leftarrow> read_u64 bs;
     (total_writes, bs) \<leftarrow> read_u64 bs;
     (total_reads, bs) \<leftarrow> read_u64 bs;
     (files, bs) \<leftarrow> read_section 100 read_named bs;
     (focus_raw, bs) \<leftarrow> read_str bs;
     Some (\<lparr>se_id = ident, se_start_ts = start_ts, se_end_ts = end_ts, se_files_touched = files, se_peak_files = 0,
            se_total_writes = total_writes, se_total_reads = total_reads,
            se_focus_file = (if focus_raw = [] then None else Some focus_raw)\<rparr>, bs)
   }"

definition read_pattern :: "(u64 \<times> temporal_pattern) reader" where
  "read_pattern bs = do {
     (ino, bs) \<leftarrow> read_u64 bs;
     (by_hour, bs) \<leftarrow> read_times 24 read_u32 bs;
     (by_day, bs) \<leftarrow> read_times 7 read_u32 bs;
     (total, bs) \<leftarrow> read_u32 bs;
     Some ((ino, \<lparr>tp_by_hour = by_hour, tp_by_day = by_day, tp_total = total\<rparr>), bs)
   }"

definition read_streak :: "(u64 \<times> streak) reader" where
  "read_streak bs = do {
     (ino, bs) \<leftarrow> read_u64 bs;
     (current_days, bs) \<leftarrow> read_u32 bs;
     (longest_days, bs) \<leftarrow> read_u32 bs;
     (last_touched_day, bs) \<leftarrow> read_u64 bs;
     Some ((ino, \<lparr>sk_current_days = current_days, sk_longest_days = longest_days,
                  sk_last_touched_day = last_touched_day\<rparr>), bs)
   }"

definition read_pair :: "((u64 \<times> u64) \<times> u32) reader" where
  "read_pair bs = do {
     (a, bs) \<leftarrow> read_u64 bs; (b, bs) \<leftarrow> read_u64 bs; (count, bs) \<leftarrow> read_u32 bs; Some (((a, b), count), bs) }"

definition read_daily :: "(u64 \<times> u32 list) reader" where
  "read_daily bs = do { (ino, bs) \<leftarrow> read_u64 bs; (counts, bs) \<leftarrow> read_times 14 read_u32 bs; Some ((ino, counts), bs) }"

definition read_memory :: "u64 \<Rightarrow> memory_engine reader" where
  "read_memory now bs = do {
     (total_sessions, bs) \<leftarrow> read_u64 bs;
     (sessions, bs) \<leftarrow> read_section 500 read_session bs;
     (temporal, bs) \<leftarrow> read_section 10000 read_pattern bs;
     (streaks, bs) \<leftarrow> read_section 10000 read_streak bs;
     (pairs, bs) \<leftarrow> read_section 50000 read_pair bs;
     (last_day, bs) \<leftarrow> read_u64 bs;
     (daily, bs) \<leftarrow> read_section 10000 read_daily bs;
     (names, bs) \<leftarrow> read_section 10000 read_named bs;
     Some (\<lparr>me_sessions = sessions, me_current = session_new now now, me_temporal = hm_of_list temporal,
            me_streaks = hm_of_list streaks, me_co_access = hm_of_list pairs,
            me_trends = \<lparr>tt_daily = hm_of_list daily, tt_last_day = last_day\<rparr>, me_names = hm_of_list names,
            me_total_sessions = total_sessions\<rparr>, bs)
   }"

definition memory_from_bytes :: "u64 \<Rightarrow> bytes \<Rightarrow> memory_engine option" where
  "memory_from_bytes now data =
     (if length data < 8 then None
      else if take 8 data \<noteq> MAGIC_MEM then None
      else map_option fst (read_memory now (drop 8 data)))"

section \<open>The codecs\<close>

text \<open>What a session keeps: 100 files, no count of open files, names as strings read back.\<close>

definition stored_session :: "mem_session \<Rightarrow> mem_session" where
  "stored_session s = s\<lparr>se_files_touched := map (\<lambda>(ino, n). (ino, stored_name n)) (take 100 (se_files_touched s)),
     se_peak_files := 0,
     se_focus_file := (case se_focus_file s of None \<Rightarrow> None
                       | Some n \<Rightarrow> if stored_name n = [] then None else Some (stored_name n))\<rparr>"

definition stored_memory :: "u64 \<Rightarrow> memory_engine \<Rightarrow> memory_engine" where
  "stored_memory now e =
     \<lparr>me_sessions = map stored_session (take 500 (me_sessions e)), me_current = session_new now now,
      me_temporal = take 10000 (me_temporal e), me_streaks = take 10000 (me_streaks e),
      me_co_access = take 50000 (me_co_access e),
      me_trends = \<lparr>tt_daily = take 10000 (tt_daily (me_trends e)), tt_last_day = tt_last_day (me_trends e)\<rparr>,
      me_names = map (\<lambda>(ino, n). (ino, stored_name n)) (take 10000 (me_names e)),
      me_total_sessions = me_total_sessions e\<rparr>"

lemma prefix_named: "prefix_reader read_named"
  unfolding read_named_def [abs_def] by (intro prefix_intros)

interpretation named_stream: stream_codec read_named named_bytes "\<lambda>(ino, n). (ino, stored_name n)" "\<lambda>_. True"
  by (intro stream_codec.intro prefix_named, unfold_locales) (auto simp: named_bytes_def read_named_def)

lemma prefix_session: "prefix_reader read_session"
  unfolding read_session_def [abs_def] by (intro prefix_intros prefix_named)

interpretation session_stream: stream_codec read_session session_bytes stored_session "\<lambda>_. True"
  by (intro stream_codec.intro prefix_session, unfold_locales)
    (auto simp: session_bytes_def read_session_def stored_session_def named_stream.section_enc split: option.splits)

lemma prefix_pattern: "prefix_reader read_pattern"
  unfolding read_pattern_def [abs_def] by (intro prefix_intros)

interpretation pattern_stream: stream_codec read_pattern pattern_bytes "\<lambda>p. p"
    "\<lambda>(_, p). length (tp_by_hour p) = 24 \<and> length (tp_by_day p) = 7"
  by (intro stream_codec.intro prefix_pattern, unfold_locales)
    (auto simp: pattern_bytes_def read_pattern_def u32_stream.times_enc)

lemma prefix_streak: "prefix_reader read_streak"
  unfolding read_streak_def [abs_def] by (intro prefix_intros)

interpretation streak_stream: stream_codec read_streak streak_bytes "\<lambda>s. s" "\<lambda>_. True"
  by (intro stream_codec.intro prefix_streak, unfold_locales) (auto simp: streak_bytes_def read_streak_def)

lemma prefix_pair: "prefix_reader read_pair"
  unfolding read_pair_def [abs_def] by (intro prefix_intros)

interpretation pair_stream: stream_codec read_pair pair_bytes "\<lambda>p. p" "\<lambda>_. True"
  by (intro stream_codec.intro prefix_pair, unfold_locales) (auto simp: pair_bytes_def read_pair_def)

lemma prefix_daily: "prefix_reader read_daily"
  unfolding read_daily_def [abs_def] by (intro prefix_intros)

interpretation daily_stream: stream_codec read_daily daily_bytes "\<lambda>p. p" "\<lambda>(_, c). length c = 14"
  by (intro stream_codec.intro prefix_daily, unfold_locales) (auto simp: daily_bytes_def read_daily_def u32_stream.times_enc)

lemma prefix_memory: "prefix_reader (read_memory now)"
  unfolding read_memory_def [abs_def]
  by (intro prefix_intros prefix_session prefix_pattern prefix_streak prefix_pair prefix_daily prefix_named)

lemma hm_wf_named: "hm_wf m \<Longrightarrow> hm_wf (map (\<lambda>(ino, n). (ino, stored_name n)) (take k m))"
  using hm_wf_take [of m k] by (simp add: hm_wf_def case_prod_unfold comp_def)

lemma read_memory_to_bytes:
  assumes "memory_wf e"
  shows "read_memory now (drop 8 (memory_to_bytes e)) = Some (stored_memory now e, [])"
proof -
  have ok: "\<forall>x \<in> set (me_temporal e). case x of (_, p) \<Rightarrow> length (tp_by_hour p) = 24 \<and> length (tp_by_day p) = 7"
    "\<forall>x \<in> set (tt_daily (me_trends e)). case x of (_, c) \<Rightarrow> length c = 14"
    using assms by (auto simp: memory_wf_def pattern_ok_def tracker_wf_def)
  have maps: "hm_wf (me_temporal e)" "hm_wf (me_streaks e)" "hm_wf (me_co_access e)" "hm_wf (me_names e)"
    "hm_wf (tt_daily (me_trends e))"
    using assms by (auto simp: memory_wf_def tracker_wf_def)
  have "drop 8 (memory_to_bytes e) = u64_to_le (me_total_sessions e)
     @ section_bytes 500 session_bytes (me_sessions e) @ section_bytes 10000 pattern_bytes (me_temporal e)
     @ section_bytes 10000 streak_bytes (me_streaks e) @ section_bytes 50000 pair_bytes (me_co_access e)
     @ u64_to_le (tt_last_day (me_trends e)) @ section_bytes 10000 daily_bytes (tt_daily (me_trends e))
     @ section_bytes 10000 named_bytes (me_names e) @ []"
    by (simp add: memory_to_bytes_def)
  then show ?thesis
    unfolding read_memory_def
    by (simp add: session_stream.section_enc pattern_stream.section_enc ok streak_stream.section_enc
        pair_stream.section_enc daily_stream.section_enc named_stream.section_enc stored_memory_def
        hm_of_list_wf maps hm_wf_named del: append_Nil2)
qed

section \<open>Reading back what was written\<close>

text \<open>An engine all of which fits the format: within the caps, and with names that read back.\<close>

definition readable :: "rstring \<Rightarrow> bool" where
  "readable n \<longleftrightarrow> stored_name n = n"

definition session_fits :: "mem_session \<Rightarrow> bool" where
  "session_fits s \<longleftrightarrow> length (se_files_touched s) \<le> 100 \<and> (\<forall>(_, n) \<in> set (se_files_touched s). readable n)
     \<and> se_peak_files s = 0 \<and> (\<forall>n. se_focus_file s = Some n \<longrightarrow> n \<noteq> [] \<and> readable n)"

definition memory_fits :: "memory_engine \<Rightarrow> bool" where
  "memory_fits e \<longleftrightarrow> (\<forall>s \<in> set (me_sessions e). session_fits s) \<and> length (me_temporal e) \<le> 10000
     \<and> length (me_streaks e) \<le> 10000 \<and> length (me_co_access e) \<le> 50000
     \<and> length (tt_daily (me_trends e)) \<le> 10000 \<and> length (me_names e) \<le> 10000
     \<and> (\<forall>(_, n) \<in> set (me_names e). readable n)"

lemma map_named_id: "\<forall>(_, n) \<in> set xs. readable n \<Longrightarrow> map (\<lambda>(ino, n). (ino, stored_name n)) xs = xs"
  by (induction xs) (auto simp: readable_def)

lemma stored_session_id: "session_fits s \<Longrightarrow> stored_session s = s"
  by (simp add: session_fits_def stored_session_def map_named_id readable_def split: option.splits)

lemma stored_memory_id:
  assumes "memory_wf e" and "memory_fits e"
  shows "stored_memory now e = e\<lparr>me_current := session_new now now\<rparr>"
proof -
  have "map stored_session (take 500 (me_sessions e)) = me_sessions e"
    using assms by (auto simp: memory_wf_def memory_fits_def MAX_SESSIONS_def stored_session_id intro!: map_idI)
  with assms(2) show ?thesis
    by (simp add: stored_memory_def memory_fits_def map_named_id)
qed

lemma memory_bytes_read:
  "memory_wf e \<Longrightarrow> memory_from_bytes now (memory_to_bytes e) = Some (stored_memory now e)"
  using read_memory_to_bytes [of e now] by (simp add: memory_from_bytes_def) (simp add: memory_to_bytes_def)

text \<open>The engine's bytes decode to the engine with a fresh current session, cut at the caps of the
  format; within the caps, and with names that are valid and short enough, nothing is lost.\<close>

theorem memory_roundtrip:
  assumes "memory_wf e"
  shows "memory_from_bytes now (memory_to_bytes e) = Some (stored_memory now e)
    \<and> (memory_fits e \<longrightarrow> memory_from_bytes now (memory_to_bytes e) = Some (e\<lparr>me_current := session_new now now\<rparr>))"
  using memory_bytes_read [OF assms] stored_memory_id [OF assms] by simp

theorem memory_roundtrip_witness:
  "let e = fold mem_step [MemAccess 86400 2 [97], MemWrite 2, MemAccess 86500 3 [98], MemClose 90000] (memory_new 86400)
   in memory_from_bytes 95000 (memory_to_bytes e) = Some (stored_memory 95000 e)"
  using memory_roundtrip [OF mem_steps_wf [OF memory_new_wf]] unfolding Let_def by blast

text \<open>Data that was cut anywhere is rejected: no proper prefix of the engine's bytes decodes.\<close>

theorem memory_cut_rejected:
  assumes "memory_wf e" and "n < length (memory_to_bytes e)"
  shows "memory_from_bytes now (take n (memory_to_bytes e)) = None"
proof (cases "n < 8")
  case False
  let ?b = "drop 8 (memory_to_bytes e)"
  have "read_memory now (take (n - 8) ?b @ drop (n - 8) ?b) = Some (stored_memory now e, [])"
    unfolding append_take_drop_id by (rule read_memory_to_bytes [OF assms(1)])
  moreover have "drop (n - 8) ?b \<noteq> []" using False assms(2) by simp
  ultimately have "read_memory now (take (n - 8) ?b) = None"
    by (rule prefix_reader.strict_prefix_fails [OF prefix_memory])
  then show ?thesis using False by (simp add: memory_from_bytes_def drop_take)
qed (simp add: memory_from_bytes_def)

theorem memory_cut_rejected_witness:
  "memory_from_bytes 95000 (take 30 (memory_to_bytes (fold mem_step [MemAccess 86400 2 [97]] (memory_new 86400)))) = None"
proof (rule memory_cut_rejected [OF mem_steps_wf [OF memory_new_wf]])
  show "30 < length (memory_to_bytes (fold mem_step [MemAccess 86400 2 [97]] (memory_new 86400)))"
    by (simp add: memory_to_bytes_def section_bytes_def)
qed

section \<open>The memory file\<close>

definition mem_path :: "rstring \<Rightarrow> rstring" where
  "mem_path image_path = image_path @ ascii ''.mem''"

definition mem_save :: "(bytes \<Rightarrow> bytes) \<Rightarrow> rstring \<Rightarrow> memory_engine \<Rightarrow> file_store \<Rightarrow> file_store" where
  "mem_save h path engine fs = (let payload = memory_to_bytes engine in hm_insert path (payload @ h payload) fs)"

definition mem_load :: "(bytes \<Rightarrow> bytes) \<Rightarrow> u64 \<Rightarrow> rstring \<Rightarrow> file_store \<Rightarrow> memory_engine option" where
  "mem_load h now path fs =
     (case hm_get fs path of
        None \<Rightarrow> None
      | Some raw \<Rightarrow>
          if length raw < 8 + 32 then None
          else
            (let payload = take (length raw - 32) raw; stored_hash = drop (length raw - 32) raw in
             if h payload \<noteq> stored_hash then None else memory_from_bytes now payload))"

definition mem_exists :: "rstring \<Rightarrow> file_store \<Rightarrow> bool" where
  "mem_exists path fs \<longleftrightarrow> hm_get fs path \<noteq> None"

definition mem_delete :: "rstring \<Rightarrow> file_store \<Rightarrow> file_store" where
  "mem_delete path fs = (if mem_exists path fs then hm_remove path fs else fs)"

lemma length_memory_to_bytes: "8 \<le> length (memory_to_bytes e)"
  by (simp add: memory_to_bytes_def)

lemma mem_save_load:
  assumes "\<forall>b. length (h b) = 32" and "hm_get fs path = Some (memory_to_bytes e @ h (memory_to_bytes e))" and "memory_wf e"
  shows "mem_load h now path fs = Some (stored_memory now e)"
  using assms length_memory_to_bytes [of e] split_hash [of "h (memory_to_bytes e)" "memory_to_bytes e"]
  by (simp add: mem_load_def memory_bytes_read Let_def)

section \<open>From one mount to the next\<close>

text \<open>What the AI thread publishes for the unmount (\<open>SharedAIState\<close>, its last fields), the saving in
  \<open>flush_all\<close>, and the restoring in \<open>VexFS::load\<close>; the neural weights are decoded in \<open>Neural\<close>.\<close>

record saved_state =
  sv_markov_data :: transitions
  sv_importance_data :: importance_stats
  sv_neural_weights :: bytes
  sv_memory_bytes :: bytes

definition save_ai :: "(bytes \<Rightarrow> bytes) \<Rightarrow> u64 \<Rightarrow> rstring \<Rightarrow> saved_state \<Rightarrow> file_store \<Rightarrow> file_store" where
  "save_ai h now image_path st fs =
     (let fs = ai_save h (ai_path image_path) (sv_markov_data st) (sv_importance_data st) fs;
          fs = save_neural h (ai_path image_path) (sv_neural_weights st) fs
      in if sv_memory_bytes st \<noteq> []
         then (case memory_from_bytes now (sv_memory_bytes st) of
                 Some engine \<Rightarrow> mem_save h (mem_path image_path) engine fs | None \<Rightarrow> fs)
         else fs)"

definition restore_ai :: "(bytes \<Rightarrow> bytes) \<Rightarrow> u64 \<Rightarrow> rstring \<Rightarrow> file_store \<Rightarrow> markov \<times> importance_stats \<times> memory_engine" where
  "restore_ai h now image_path fs =
     (let (saved_markov, saved_importance) =
            (case ai_load h (ai_path image_path) fs of Inr r \<Rightarrow> r | Inl _ \<Rightarrow> ([], []));
          memory = (case mem_load h now (mem_path image_path) fs of Some e \<Rightarrow> e | None \<Rightarrow> memory_new now)
      in (restore_markov saved_markov (markov_new 50000), hm_of_list saved_importance, memory))"

lemma paths_differ:
  "ai_path i \<noteq> mem_path j" "ai_path i \<noteq> neural_path p" "mem_path j \<noteq> neural_path p"
proof -
  have "last (ai_path i) = 105" "last (mem_path j) = 109" "last (neural_path p) = 108"
    by (simp_all add: ai_path_def mem_path_def neural_path_def ascii_def)
  then show "ai_path i \<noteq> mem_path j" "ai_path i \<noteq> neural_path p" "mem_path j \<noteq> neural_path p" by auto
qed

lemma ai_load_cong: "hm_get fs path = hm_get gs path \<Longrightarrow> ai_load h path fs = ai_load h path gs"
  by (simp add: ai_load_def)

lemma mem_load_cong: "hm_get fs path = hm_get gs path \<Longrightarrow> mem_load h now path fs = mem_load h now path gs"
  by (simp add: mem_load_def)

text \<open>The state of the AI thread that a remount keeps.\<close>

definition keeps_on_remount :: "markov \<Rightarrow> importance_stats \<Rightarrow> memory_engine \<Rightarrow> bool" where
  "keeps_on_remount m stats e \<longleftrightarrow>
     markov_inv m \<and> mk_entry_count m < 50000 \<and> (\<forall>p n name. transition m p n \<noteq> Some (name, 0))
     \<and> (\<forall>(_, ts) \<in> set (mk_transitions m). ts \<noteq> [] \<and> (\<forall>(_, n, _) \<in> set ts. readable n))
     \<and> hm_wf stats \<and> length stats < 2 ^ 32 \<and> (\<forall>(_, n, _) \<in> set stats. readable n)
     \<and> memory_wf e \<and> memory_fits e"

lemma stored_transitions_id:
  assumes "\<forall>(_, ts) \<in> set m. ts \<noteq> [] \<and> (\<forall>(_, n, _) \<in> set ts. readable n)"
  shows "stored_transitions m = m"
proof -
  have "map (\<lambda>(n, name, c). (n, stored_name name, c)) ts = ts" if "(p, ts) \<in> set m" for p ts
    using assms that by (intro map_idI) (fastforce simp: readable_def)
  then have "map (\<lambda>(p, ts). (p, map (\<lambda>(n, name, c). (n, stored_name name, c)) ts)) m = m"
    by (intro map_idI) auto
  with assms show ?thesis by (auto simp: stored_transitions_def filter_id_conv)
qed

lemma stored_importance_id: "\<forall>(_, n, _) \<in> set stats. readable n \<Longrightarrow> stored_importance stats = stats"
  unfolding stored_importance_def by (intro map_idI) (fastforce simp: readable_def)

lemma fits_current: "memory_fits (e\<lparr>me_current := s\<rparr>) \<longleftrightarrow> memory_fits e"
  by (simp add: memory_fits_def)

lemma wf_fresh_session: "memory_wf e \<Longrightarrow> memory_wf (e\<lparr>me_current := session_new now now\<rparr>)"
  by (simp add: memory_wf_def session_new_def)

text \<open>Unmounting and mounting again keeps what was learnt: every transition with its name and count, the
  importance statistics, and the memory of sessions, patterns, streaks, pairs and names, with a fresh
  current session.\<close>

theorem ai_state_survives_remount:
  assumes "\<forall>b. length (h b) = 32" and "keeps_on_remount m stats e"
    and "st = \<lparr>sv_markov_data = mk_transitions m, sv_importance_data = stats, sv_neural_weights = weights,
               sv_memory_bytes = memory_to_bytes e\<rparr>"
    and "restore_ai h now' img (save_ai h now img st fs) = (m', stats', e')"
  shows "transition m' = transition m \<and> stats' = stats \<and> e' = e\<lparr>me_current := session_new now' now'\<rparr>"
proof -
  let ?e = "e\<lparr>me_current := session_new now now\<rparr>" and ?fs = "save_ai h now img st fs"
  have k: "markov_inv m" "mk_entry_count m < 50000" "\<forall>p n name. transition m p n \<noteq> Some (name, 0)"
    "stored_transitions (mk_transitions m) = mk_transitions m" "stored_importance stats = stats"
    "hm_wf stats" "length stats < 2 ^ 32" "memory_wf e" "memory_fits e"
    using assms(2) stored_transitions_id stored_importance_id by (auto simp: keeps_on_remount_def)
  have saved: "?fs = mem_save h (mem_path img) ?e
      (save_neural h (ai_path img) weights (ai_save h (ai_path img) (mk_transitions m) stats fs))"
    using length_memory_to_bytes [of e] memory_bytes_read [OF k(8), of now] stored_memory_id [OF k(8,9), of now]
    by (auto simp: save_ai_def assms(3) Let_def)
  have "hm_get ?fs (ai_path img) = hm_get (ai_save h (ai_path img) (mk_transitions m) stats fs) (ai_path img)"
    by (simp add: saved mem_save_def save_neural_def Let_def paths_differ)
  then have "ai_load h (ai_path img) ?fs = ai_load h (ai_path img) (ai_save h (ai_path img) (mk_transitions m) stats fs)"
    by (rule ai_load_cong)
  also have "\<dots> = Inr (mk_transitions m, stats)"
    using k by (subst ai_save_load_stored [OF assms(1)]) (auto simp: markov_inv_def)
  finally have ai: "ai_load h (ai_path img) ?fs = Inr (mk_transitions m, stats)" .
  have "hm_get ?fs (mem_path img) = Some (memory_to_bytes ?e @ h (memory_to_bytes ?e))"
    by (simp add: saved mem_save_def Let_def)
  from mem_save_load [OF assms(1) this wf_fresh_session [OF k(8)]]
  have "mem_load h now' (mem_path img) ?fs = Some (e\<lparr>me_current := session_new now' now'\<rparr>)"
    using stored_memory_id [OF wf_fresh_session [OF k(8)]] k(9) by (simp add: fits_current)
  moreover have "transition (restore_markov (mk_transitions m) (markov_new 50000)) = transition m"
    using k by (intro ext restored_transition) auto
  ultimately show ?thesis
    using assms(4) ai k by (auto simp: restore_ai_def hm_of_list_wf)
qed

theorem ai_state_survives_remount_witness:
  "let m = record_transition 2 3 [98] (markov_new 10);
       e = fold mem_step [MemAccess 86400 2 [97]] (memory_new 86400);
       st = \<lparr>sv_markov_data = mk_transitions m, sv_importance_data = [(2, ([97], 1, 86400, 0))], sv_neural_weights = [],
             sv_memory_bytes = memory_to_bytes e\<rparr>;
       (m', stats', e') = restore_ai (\<lambda>_. zeros 32) 95000 [100] (save_ai (\<lambda>_. zeros 32) 90000 [100] st [])
   in transition m' 2 3 = Some ([98], 1) \<and> stats' = [(2, ([97], 1, 86400, 0))]
      \<and> e' = e\<lparr>me_current := session_new 95000 95000\<rparr>"
proof -
  define m where "m = record_transition 2 3 [98] (markov_new 10)"
  define e where "e = fold mem_step [MemAccess 86400 2 [97]] (memory_new 86400)"
  define st where "st = \<lparr>sv_markov_data = mk_transitions m, sv_importance_data = [(2, ([97], 1, 86400, 0))],
     sv_neural_weights = [], sv_memory_bytes = memory_to_bytes e\<rparr>"
  have t: "transition m p n = (if p = 2 \<and> n = 3 then Some ([98], 1) else None)" for p n
    by (simp add: m_def transition_record) (simp add: markov_new_def transition_def)
  have m: "markov_inv m" "mk_entry_count m = 1" "mk_transitions m = [(2, [(3, [98], 1)])]"
    by (simp add: m_def record_transition_inv)
      (simp_all add: m_def record_transition_def markov_new_def hm_insert_def)
  have "memory_fits e"
    by (simp add: e_def memory_fits_def record_access_def memory_new_def trend_record_def tracker_new_def hm_insert_def
        readable_def stored_name_ascii Let_def)
  moreover have "memory_wf e" unfolding e_def by (rule mem_steps_wf) simp
  ultimately have keeps: "keeps_on_remount m [(2, ([97], 1, 86400, 0))] e"
    using m t by (simp add: keeps_on_remount_def readable_def stored_name_ascii hm_wf_def)
  have hash: "\<forall>b. length (zeros 32) = 32" by simp
  obtain m' stats' e' where r: "restore_ai (\<lambda>_. zeros 32) 95000 [100] (save_ai (\<lambda>_. zeros 32) 90000 [100] st []) = (m', stats', e')"
    by (metis prod_cases3)
  from ai_state_survives_remount [OF hash keeps st_def r] show ?thesis
    unfolding Let_def m_def [symmetric] e_def [symmetric] st_def [symmetric] r prod.case by (simp add: t)
qed

end
