(* ===== verification/Union_Find.thy ===== *)
theory Union_Find
  imports Prelude "HOL-Library.Monad_Syntax"
begin

text \<open>
  The union-find forest of \<open>discover_projects\<close> in \<open>src/ai/workspace.rs\<close>: the functions \<open>find\<close> and
  \<open>union\<close> over a map of parents, and the components of a graph that they compute. \<open>None\<close> is a panic
  (the parent of an absent key) or a search that does not end (a cycle of parents).
\<close>

type_synonym forest = "(u64, u64) hmap"

partial_function (option) uf_find :: "forest \<Rightarrow> u64 \<Rightarrow> (u64 \<times> forest) option" where
  "uf_find parent x =
     (case hm_get parent x of
        None \<Rightarrow> None
      | Some p \<Rightarrow>
          if p = x then Some (x, parent)
          else do { (r, parent) \<leftarrow> uf_find parent p; Some (r, hm_insert x r parent) })"

definition uf_union :: "forest \<Rightarrow> u64 \<Rightarrow> u64 \<Rightarrow> forest option" where
  "uf_union parent a b =
     do { (ra, parent) \<leftarrow> uf_find parent a;
          (rb, parent) \<leftarrow> uf_find parent b;
          Some (if ra \<noteq> rb then hm_insert ra rb parent else parent) }"

fun uf_unions :: "(u64 \<times> u64) list \<Rightarrow> forest \<Rightarrow> forest option" where
  "uf_unions [] parent = Some parent"
| "uf_unions ((a, b) # es) parent = do { parent \<leftarrow> uf_union parent a b; uf_unions es parent }"

section \<open>Roots\<close>

inductive rep :: "forest \<Rightarrow> u64 \<Rightarrow> u64 \<Rightarrow> bool" for parent where
  root: "hm_get parent x = Some x \<Longrightarrow> rep parent x x"
| step: "hm_get parent x = Some p \<Longrightarrow> p \<noteq> x \<Longrightarrow> rep parent p r \<Longrightarrow> rep parent x r"

inductive_cases rep_cases [elim]: "rep parent x r"

definition uf_ok :: "u64 set \<Rightarrow> forest \<Rightarrow> bool" where
  "uf_ok D parent \<longleftrightarrow> hm_wf parent \<and> (\<forall>x. hm_get parent x = None \<longleftrightarrow> x \<notin> D) \<and> (\<forall>x \<in> D. \<exists>r. rep parent x r)"

lemma rep_root: "rep parent x r \<Longrightarrow> hm_get parent r = Some r"
  by (induction rule: rep.induct) simp_all

lemma rep_self: "rep parent x r \<Longrightarrow> rep parent r r"
  by (intro root rep_root)

lemma rep_unique: "rep parent x r \<Longrightarrow> rep parent x s \<Longrightarrow> r = s"
proof (induction rule: rep.induct)
  case (root x)
  then show ?case by (auto elim: rep.cases)
next
  case (step x p r)
  from step.prems show ?case by (cases rule: rep.cases) (use step in auto)
qed

lemma uf_okD: "uf_ok D parent \<Longrightarrow> hm_wf parent" "uf_ok D parent \<Longrightarrow> hm_get parent x = None \<longleftrightarrow> x \<notin> D"
  "uf_ok D parent \<Longrightarrow> x \<in> D \<Longrightarrow> \<exists>r. rep parent x r"
  by (auto simp: uf_ok_def)

lemma rep_in: "uf_ok D parent \<Longrightarrow> rep parent x r \<Longrightarrow> x \<in> D \<and> r \<in> D"
  using uf_okD(2) [of D parent r] rep_root [of parent x r] uf_okD(2) [of D parent x] by (auto elim: rep.cases)

section \<open>Finding compresses and keeps the roots\<close>

lemma rep_compress1:
  assumes "rep parent x r" and "rep parent y s" shows "rep (hm_insert x r parent) y s"
  using assms(2,1)
proof (induction rule: rep.induct)
  case (root y)
  show ?case
  proof (cases "y = x")
    case True
    with root rep_unique [OF rep.root [OF root(1)]] have "r = y" by blast
    then show ?thesis using True by (intro rep.root) simp
  qed (use root in \<open>auto intro: rep.root\<close>)
next
  case (step y p s)
  have rr: "rep (hm_insert x r parent) r r" using rep_root [OF step.prems] by (intro rep.root) simp
  show ?case
  proof (cases "y = x")
    case True
    have "s = r" using rep_unique [OF rep.step [OF step.hyps(1-3)]] True step.prems by blast
    moreover have "r \<noteq> x" using rep_root [OF step.prems] step.hyps(1,2) True by auto
    ultimately show ?thesis using True rr by (intro rep.step [of _ y r]) auto
  next
    case False
    then show ?thesis using step by (intro rep.step [of _ y p]) auto
  qed
qed

lemma uf_compress:
  assumes "uf_ok D parent" and "rep parent x r"
  shows "uf_ok D (hm_insert x r parent)" and "rep (hm_insert x r parent) y s \<longleftrightarrow> rep parent y s"
proof -
  note keep = rep_compress1 [OF assms(2)]
  have x: "x \<in> D" using rep_in [OF assms] by simp
  show ok: "uf_ok D (hm_insert x r parent)"
    using assms(1) x keep unfolding uf_ok_def by (simp del: not_None_eq) metis
  show "rep (hm_insert x r parent) y s \<longleftrightarrow> rep parent y s"
  proof
    assume s: "rep (hm_insert x r parent) y s"
    then obtain s' where "rep parent y s'" using rep_in [OF ok s] uf_okD(3) [OF assms(1)] by blast
    with keep rep_unique [OF s] show "rep parent y s" by blast
  qed (rule keep)
qed

lemma uf_find_rep:
  assumes "rep parent x r" and "uf_ok D parent"
  shows "\<exists>parent'. uf_find parent x = Some (r, parent') \<and> uf_ok D parent' \<and> rep parent' = rep parent"
  using assms
proof (induction rule: rep.induct)
  case (root x)
  then show ?case by (subst uf_find.simps) simp
next
  case (step x p r)
  then obtain parent' where p: "uf_find parent p = Some (r, parent')" "uf_ok D parent'" "rep parent' = rep parent" by blast
  have "rep parent' x r" unfolding p(3) using step.hyps by (rule rep.step)
  note compress = uf_compress [OF p(2) this]
  have "uf_find parent x = Some (r, hm_insert x r parent')" using step.hyps(1,2) p(1) by (subst uf_find.simps) simp
  moreover have "rep (hm_insert x r parent') = rep parent" using compress(2) p(3) by (intro ext) simp
  ultimately show ?case using compress(1) by blast
qed

lemma uf_find_outside: "uf_ok D parent \<Longrightarrow> x \<notin> D \<Longrightarrow> uf_find parent x = None"
  using uf_okD(2) [of D parent x] by (subst uf_find.simps) simp

lemma uf_find_Some:
  assumes "uf_ok D parent" and "x \<in> D"
  obtains r parent' where "uf_find parent x = Some (r, parent')" "rep parent x r" "uf_ok D parent'" "rep parent' = rep parent"
  using uf_okD(3) [OF assms] uf_find_rep [OF _ assms(1)] by metis

section \<open>Union joins two classes\<close>

lemma rep_link:
  assumes "uf_ok D parent" and "rep parent ra ra" and "rep parent rb rb" and "ra \<noteq> rb"
  shows "uf_ok D (hm_insert ra rb parent)"
    and "rep (hm_insert ra rb parent) y s \<longleftrightarrow> (\<exists>t. rep parent y t \<and> s = (if t = ra then rb else t))"
proof -
  have root: "hm_get parent ra = Some ra" "hm_get parent rb = Some rb" using rep_root assms(2,3) by blast+
  have keep: "rep (hm_insert ra rb parent) y (if t = ra then rb else t)" if "rep parent y t" for y t
    using that
  proof (induction rule: rep.induct)
    case (root y)
    have "rep (hm_insert ra rb parent) rb rb" using assms(4) \<open>hm_get parent rb = Some rb\<close> by (intro rep.root) simp
    with root assms(4) show ?case by (auto intro: rep.root rep.step [of _ ra rb])
  next
    case (step y p t)
    then show ?case using \<open>hm_get parent ra = Some ra\<close> by (intro rep.step [of _ y p]) auto
  qed
  have D: "ra \<in> D" "rb \<in> D" using rep_in [OF assms(1)] assms(2,3) by blast+
  show ok: "uf_ok D (hm_insert ra rb parent)"
    using assms(1) D keep unfolding uf_ok_def by (simp del: not_None_eq) metis
  show "rep (hm_insert ra rb parent) y s \<longleftrightarrow> (\<exists>t. rep parent y t \<and> s = (if t = ra then rb else t))"
  proof
    assume s: "rep (hm_insert ra rb parent) y s"
    then obtain t where "rep parent y t" using rep_in [OF ok s] uf_okD(3) [OF assms(1)] by blast
    with keep rep_unique [OF s] show "\<exists>t. rep parent y t \<and> s = (if t = ra then rb else t)" by blast
  qed (use keep in blast)
qed

definition same_root :: "forest \<Rightarrow> u64 \<Rightarrow> u64 \<Rightarrow> bool" where
  "same_root parent y z \<longleftrightarrow> (\<exists>r. rep parent y r \<and> rep parent z r)"

lemma uf_union_joins:
  assumes "uf_ok D parent" and "a \<in> D" and "b \<in> D"
  shows "\<exists>parent'. uf_union parent a b = Some parent' \<and> uf_ok D parent'
    \<and> (\<forall>y \<in> D. \<forall>z \<in> D. same_root parent' y z \<longleftrightarrow> same_root parent y z
         \<or> (same_root parent y a \<and> same_root parent b z) \<or> (same_root parent y b \<and> same_root parent a z))"
proof -
  obtain ra pa where a: "uf_find parent a = Some (ra, pa)" "rep parent a ra" "uf_ok D pa" "rep pa = rep parent"
    using uf_find_Some [OF assms(1,2)] by blast
  obtain rb pb where b: "uf_find pa b = Some (rb, pb)" "rep parent b rb" "uf_ok D pb" "rep pb = rep parent"
    using uf_find_Some [OF a(3) assms(3)] a(4) by metis
  have cls: "same_root parent y z \<longleftrightarrow> (\<exists>r. rep parent y r \<and> rep parent z r)" for y z by (simp add: same_root_def)
  have roots: "\<exists>r. rep parent y r" if "y \<in> D" for y using uf_okD(3) [OF assms(1) that] .
  show ?thesis
  proof (cases "ra = rb")
    case True
    then have "uf_union parent a b = Some pb" using a b by (simp add: uf_union_def)
    moreover have "same_root pb y z \<longleftrightarrow> same_root parent y z
         \<or> (same_root parent y a \<and> same_root parent b z) \<or> (same_root parent y b \<and> same_root parent a z)" for y z
      using a(2) b(2,4) True unfolding same_root_def by (metis rep_unique)
    ultimately show ?thesis using b(3) by blast
  next
    case False
    let ?p = "hm_insert ra rb pb"
    have "rep pb ra ra" "rep pb rb rb" unfolding b(4) using rep_self a(2) b(2) by blast+
    note link = rep_link [OF b(3) this False]
    have "uf_union parent a b = Some ?p" using a b False by (simp add: uf_union_def)
    moreover have "same_root ?p y z \<longleftrightarrow> same_root parent y z
         \<or> (same_root parent y a \<and> same_root parent b z) \<or> (same_root parent y b \<and> same_root parent a z)"
      if "y \<in> D" "z \<in> D" for y z
    proof -
      note yz = that
      obtain ry rz where r: "rep parent y ry" "rep parent z rz" using roots [OF yz(1)] roots [OF yz(2)] by blast
      have reps: "rep parent y t \<longleftrightarrow> t = ry" "rep parent z t \<longleftrightarrow> t = rz"
        "rep parent a t \<longleftrightarrow> t = ra" "rep parent b t \<longleftrightarrow> t = rb" for t
        using r a(2) b(2) by (auto dest: rep_unique)
      have "same_root ?p y z \<longleftrightarrow> (if ry = ra then rb else ry) = (if rz = ra then rb else rz)"
        by (simp only: same_root_def link(2) b(4) reps simp_thms ex_simps)
      moreover have "same_root parent y z \<longleftrightarrow> ry = rz" "same_root parent y a \<longleftrightarrow> ry = ra" "same_root parent b z \<longleftrightarrow> rz = rb"
        "same_root parent y b \<longleftrightarrow> ry = rb" "same_root parent a z \<longleftrightarrow> rz = ra"
        by (auto simp: same_root_def reps)
      ultimately show ?thesis using False by auto
    qed
    ultimately show ?thesis using link(1) by blast
  qed
qed

section \<open>Components\<close>

definition component :: "(u64 \<times> u64) set \<Rightarrow> (u64 \<times> u64) set" where
  "component E = (E \<union> E\<inverse>)\<^sup>*"

lemma component_sym: "(y, z) \<in> component E \<Longrightarrow> (z, y) \<in> component E"
proof -
  have "sym (component E)" unfolding component_def by (intro sym_rtrancl) (auto simp: sym_def)
  then show "(y, z) \<in> component E \<Longrightarrow> (z, y) \<in> component E" by (rule symD)
qed

lemma component_trans: "(x, y) \<in> component E \<Longrightarrow> (y, z) \<in> component E \<Longrightarrow> (x, z) \<in> component E"
  unfolding component_def by (rule rtrancl_trans)

lemma component_mono: "E \<subseteq> F \<Longrightarrow> (y, z) \<in> component E \<Longrightarrow> (y, z) \<in> component F"
  unfolding component_def by (erule rtrancl_mono [THEN subsetD, rotated]) blast

lemma component_refl [simp]: "(y, y) \<in> component E"
  by (simp add: component_def)

lemma component_edge: "(a, b) \<in> E \<Longrightarrow> (a, b) \<in> component E"
  unfolding component_def by blast

lemma component_insert:
  "(y, z) \<in> component (insert (a, b) E) \<longleftrightarrow> (y, z) \<in> component E
     \<or> ((y, a) \<in> component E \<and> (b, z) \<in> component E) \<or> ((y, b) \<in> component E \<and> (a, z) \<in> component E)" (is "?L \<longleftrightarrow> ?R z")
proof
  assume ?L
  then show "?R z" unfolding component_def [of "insert (a, b) E"]
  proof (induction rule: rtrancl_induct)
    case (step u v)
    then consider "u = a" "v = b" | "u = b" "v = a" | "(u, v) \<in> component E"
      unfolding component_def by blast
    then show ?case using step.IH component_trans component_sym component_refl by cases metis+
  qed simp
next
  have "(a, b) \<in> component (insert (a, b) E)" "(b, a) \<in> component (insert (a, b) E)"
    using component_edge [of a b "insert (a, b) E"] component_sym by auto
  moreover have "(u, v) \<in> component E \<Longrightarrow> (u, v) \<in> component (insert (a, b) E)" for u v
    using component_mono [of E "insert (a, b) E" u v] by blast
  moreover assume "?R z"
  ultimately show ?L by (blast intro: component_trans)
qed

lemma uf_unions_components:
  assumes "uf_ok D parent" and "set es \<subseteq> D \<times> D"
    and "\<forall>y \<in> D. \<forall>z \<in> D. same_root parent y z \<longleftrightarrow> (y, z) \<in> component E"
  shows "\<exists>parent'. uf_unions es parent = Some parent' \<and> uf_ok D parent'
    \<and> (\<forall>y \<in> D. \<forall>z \<in> D. same_root parent' y z \<longleftrightarrow> (y, z) \<in> component (E \<union> set es))"
  using assms
proof (induction es arbitrary: parent E)
  case (Cons e es)
  obtain a b where e: "e = (a, b)" "a \<in> D" "b \<in> D" using Cons.prems(2) by (cases e) auto
  obtain p where p: "uf_union parent a b = Some p" "uf_ok D p"
    "\<forall>y \<in> D. \<forall>z \<in> D. same_root p y z \<longleftrightarrow> same_root parent y z
         \<or> (same_root parent y a \<and> same_root parent b z) \<or> (same_root parent y b \<and> same_root parent a z)"
    using uf_union_joins [OF Cons.prems(1) e(2,3)] by blast
  have "\<forall>y \<in> D. \<forall>z \<in> D. same_root p y z \<longleftrightarrow> (y, z) \<in> component (insert e E)"
    using p(3) Cons.prems(3) e unfolding e(1) component_insert by simp
  from Cons.IH [OF p(2) _ this] Cons.prems(2) obtain p' where
    "uf_unions es p = Some p'" "uf_ok D p'"
    "\<forall>y \<in> D. \<forall>z \<in> D. same_root p' y z \<longleftrightarrow> (y, z) \<in> component (insert e E \<union> set es)" by auto
  then show ?case using p(1) e(1) by simp
qed simp

lemma uf_union_panic:
  assumes "uf_ok D parent" and "a \<notin> D \<or> b \<notin> D" shows "uf_union parent a b = None"
proof (cases "a \<in> D")
  case True
  obtain ra pa where "uf_find parent a = Some (ra, pa)" "uf_ok D pa" using uf_find_Some [OF assms(1) True] by blast
  with True assms(2) uf_find_outside [of D pa b] show ?thesis by (simp add: uf_union_def)
qed (simp add: uf_union_def uf_find_outside [OF assms(1)])

lemma uf_unions_panic: "uf_ok D parent \<Longrightarrow> \<not> set es \<subseteq> D \<times> D \<Longrightarrow> uf_unions es parent = None"
proof (induction es arbitrary: parent)
  case (Cons e es)
  obtain a b where e: "e = (a, b)" by fastforce
  show ?case
  proof (cases "a \<in> D \<and> b \<in> D")
    case True
    then obtain p where "uf_union parent a b = Some p" "uf_ok D p" using uf_union_joins [OF Cons.prems(1)] by blast
    with Cons True e show ?thesis by auto
  qed (use e uf_union_panic [OF Cons.prems(1)] in auto)
qed simp

text \<open>The forest in which every key is its own parent.\<close>

definition uf_init :: "u64 list \<Rightarrow> forest" where
  "uf_init xs = map (\<lambda>i. (i, i)) xs"

lemma uf_init_get: "hm_get (uf_init xs) x = (if x \<in> set xs then Some x else None)"
  by (induction xs) (auto simp: uf_init_def hm_get_def)

lemma uf_init_ok: "distinct xs \<Longrightarrow> uf_ok (set xs) (uf_init xs)"
proof -
  assume "distinct xs"
  then have "hm_wf (uf_init xs)" by (simp add: hm_wf_def uf_init_def comp_def)
  moreover have "\<exists>r. rep (uf_init xs) x r" if "x \<in> set xs" for x
    using rep.root [of "uf_init xs" x] that by (auto simp: uf_init_get)
  ultimately show "uf_ok (set xs) (uf_init xs)" by (simp add: uf_ok_def uf_init_get)
qed

lemma uf_init_rep: "rep (uf_init xs) v s \<longleftrightarrow> v \<in> set xs \<and> s = v"
proof
  assume "rep (uf_init xs) v s"
  then show "v \<in> set xs \<and> s = v" by (cases rule: rep.cases) (auto simp: uf_init_get split: if_splits)
qed (use rep.root [of "uf_init xs" v] in \<open>simp add: uf_init_get\<close>)

lemma uf_init_same: "y \<in> set xs \<Longrightarrow> same_root (uf_init xs) y z \<longleftrightarrow> z = y"
  by (auto simp: same_root_def uf_init_rep)

lemma component_empty [simp]: "component {} = Id"
  by (simp add: component_def)

lemma uf_init_components:
  assumes "distinct xs" and "set es \<subseteq> set xs \<times> set xs"
  shows "\<exists>parent. uf_unions es (uf_init xs) = Some parent \<and> uf_ok (set xs) parent
    \<and> (\<forall>y \<in> set xs. \<forall>z \<in> set xs. same_root parent y z \<longleftrightarrow> (y, z) \<in> component (set es))"
  using uf_unions_components [OF uf_init_ok [OF assms(1)] assms(2), of "{}"] uf_init_same by auto

end
