(* ===== verification/Workspace.thy ===== *)
theory Workspace
  imports Importance Memory_Codec Union_Find
begin

text \<open>
  \<open>src/ai/workspace.rs\<close>: project clusters, the profile of a session and stalled files, computed from the counts
  of \<open>Memory\<close>. Maps are \<open>hmap\<close>s in the order of their entries, \<open>None\<close> is a panic.
\<close>

section \<open>State\<close>

type_synonym access_counts = "(u64, rstring \<times> u32 \<times> u64 \<times> u64) hmap"

record project =
  pj_name :: rstring
  pj_files :: "u64 list"
  pj_file_names :: "rstring list"
  pj_last_active_ts :: u64
  pj_days_inactive :: u64
  pj_velocity :: fp
  pj_velocity_rising :: bool

datatype session_kind = Focus | Exploration | Debugging | Mixed

definition session_kind_label :: "session_kind \<Rightarrow> rstring" where
  "session_kind_label k = ascii (case k of
     Focus \<Rightarrow> ''Focus'' | Exploration \<Rightarrow> ''Exploration'' | Debugging \<Rightarrow> ''Debugging'' | Mixed \<Rightarrow> ''Mixed'')"

record session_profile =
  sp_kind :: session_kind
  sp_primary_project :: rstring
  sp_files_touched :: nat
  sp_writes_made :: nat
  sp_reopen_without_write :: "rstring list"

record stall_record =
  st_ino :: u64
  st_name :: rstring
  st_stall_session_count :: nat
  st_open_without_write :: nat

record workspace_model =
  wm_projects :: "project list"
  wm_last_session :: "session_profile option"
  wm_stalls :: "stall_record list"
  wm_unfinished_files :: "rstring list"
  wm_computed_at :: u64

definition workspace_new :: workspace_model where
  "workspace_new = \<lparr>wm_projects = [], wm_last_session = None, wm_stalls = [], wm_unfinished_files = [], wm_computed_at = 0\<rparr>"

section \<open>Project clusters\<close>

definition CO_THRESHOLD :: u32 where "CO_THRESHOLD = 3"

definition strong_pairs :: "co_access \<Rightarrow> (u64 \<times> u64) list" where
  "strong_pairs co = map fst (filter (\<lambda>(_, n). CO_THRESHOLD \<le> n) co)"

fun group_roots :: "u64 list \<Rightarrow> forest \<Rightarrow> (u64, u64 list) hmap \<Rightarrow> (u64, u64 list) hmap option" where
  "group_roots [] parent clusters = Some clusters"
| "group_roots (ino # inos) parent clusters =
     do { (r, parent) \<leftarrow> uf_find parent ino; group_roots inos parent (hm_push r ino clusters) }"

definition cluster_project :: "access_counts \<Rightarrow> (u64, rstring) hmap \<Rightarrow> u64 \<Rightarrow> u64 list \<Rightarrow> project" where
  "cluster_project access_counts names now_ts file_inos =
     (let primary_ino = (case max_by_key (\<lambda>ino. case hm_get access_counts ino of Some (_, _, _, secs) \<Rightarrow> secs | None \<Rightarrow> 0) file_inos of
            Some ino \<Rightarrow> ino | None \<Rightarrow> hd file_inos);
          name = (case hm_get names primary_ino of
            Some n \<Rightarrow> n | None \<Rightarrow> ascii ''project_'' @ decimal (unat primary_ino));
          last_active_ts = (case List.map_filter (\<lambda>ino. map_option (\<lambda>(_, _, ts, _). ts) (hm_get access_counts ino)) file_inos of
            [] \<Rightarrow> 0 | t # ts \<Rightarrow> foldl max t ts);
          days_inactive = (if 0 < last_active_ts \<and> last_active_ts < now_ts then (now_ts - last_active_ts) div 86400 else 0);
          opens = List.map_filter (\<lambda>ino. map_option (\<lambda>(_, n, _, _). f32_of n) (hm_get access_counts ino)) file_inos
      in \<lparr>pj_name = name, pj_files = file_inos, pj_file_names = List.map_filter (hm_get names) file_inos,
          pj_last_active_ts = last_active_ts, pj_days_inactive = days_inactive,
          pj_velocity = div32 (foldl add32 (Fin 0) opens) (f32_of_nat (length file_inos)),
          pj_velocity_rising = (days_inactive < 2)\<rparr>)"

definition discover_projects :: "co_access \<Rightarrow> access_counts \<Rightarrow> (u64, rstring) hmap \<Rightarrow> u64 \<Rightarrow> project list option" where
  "discover_projects co access_counts names now_ts =
     (let all_inos = map fst access_counts in
      if all_inos = [] then Some []
      else do {
        parent \<leftarrow> uf_unions (strong_pairs co) (uf_init all_inos);
        clusters \<leftarrow> group_roots all_inos parent [];
        Some (map (cluster_project access_counts names now_ts) (filter (\<lambda>c. 2 \<le> length c) (map snd clusters)))
      })"

section \<open>Sessions and stalls\<close>

definition count_of :: "(u64, u32) hmap \<Rightarrow> u64 \<Rightarrow> u32" where
  "count_of m ino = (case hm_get m ino of Some n \<Rightarrow> n | None \<Rightarrow> 0)"

definition profile_session ::
    "u64 list \<Rightarrow> (u64, u32) hmap \<Rightarrow> (u64, u32) hmap \<Rightarrow> (u64, rstring) hmap \<Rightarrow> project list \<Rightarrow> session_profile" where
  "profile_session session_files write_counts open_counts names projects =
     (let files_touched = length session_files;
          writes_made = sum_list (map snd write_counts);
          reopen_without_write = List.map_filter (hm_get names)
            (filter (\<lambda>ino. 3 \<le> count_of open_counts ino \<and> count_of write_counts ino = 0) session_files);
          kind = (if reopen_without_write \<noteq> [] then Debugging
                  else if files_touched \<le> 3 \<and> 5 \<le> writes_made then Focus
                  else if 6 \<le> files_touched \<and> writes_made \<le> of_nat files_touched then Exploration
                  else Mixed);
          primary_project = (case max_by_key (\<lambda>p. length (filter (\<lambda>f. f \<in> set session_files) (pj_files p))) projects of
            Some p \<Rightarrow> pj_name p | None \<Rightarrow> ascii ''unknown'')
      in \<lparr>sp_kind = kind, sp_primary_project = primary_project, sp_files_touched = files_touched,
          sp_writes_made = unat writes_made, sp_reopen_without_write = reopen_without_write\<rparr>)"

definition MIN_OPENS_FOR_STALL :: u32 where "MIN_OPENS_FOR_STALL = 4"
definition MAX_WRITES_FOR_STALL :: u32 where "MAX_WRITES_FOR_STALL = 1"

definition stall_of ::
    "(u64, u32) hmap \<Rightarrow> (u64, u32) hmap \<Rightarrow> (u64, rstring) hmap \<Rightarrow> u64 \<times> rstring \<times> u32 \<times> u64 \<times> u64 \<Rightarrow> stall_record option" where
  "stall_of write_counts open_counts names = (\<lambda>(ino, _, total_opens, _, _).
     let session_opens = count_of open_counts ino; session_writes = count_of write_counts ino in
     if MIN_OPENS_FOR_STALL \<le> total_opens \<and> 2 \<le> session_opens \<and> session_writes \<le> MAX_WRITES_FOR_STALL
     then Some \<lparr>st_ino = ino,
       st_name = (case hm_get names ino of Some n \<Rightarrow> n | None \<Rightarrow> ascii ''ino_'' @ decimal (unat ino)),
       st_stall_session_count = unat (session_opens div 2), st_open_without_write = unat session_opens\<rparr>
     else None)"

definition detect_stalls ::
    "access_counts \<Rightarrow> (u64, u32) hmap \<Rightarrow> (u64, u32) hmap \<Rightarrow> (u64, rstring) hmap \<Rightarrow> stall_record list" where
  "detect_stalls access_counts write_counts open_counts names =
     List.map_filter (stall_of write_counts open_counts names) access_counts"

definition recompute ::
    "co_access \<Rightarrow> access_counts \<Rightarrow> (u64, u32) hmap \<Rightarrow> (u64, u32) hmap \<Rightarrow> (u64, rstring) hmap \<Rightarrow> u64 list \<Rightarrow> u64
     \<Rightarrow> workspace_model option" where
  "recompute co access_counts write_counts open_counts names session_files now_ts =
     do {
       projects \<leftarrow> discover_projects co access_counts names now_ts;
       Some \<lparr>wm_projects = projects,
         wm_last_session = Some (profile_session session_files write_counts open_counts names projects),
         wm_stalls = detect_stalls access_counts write_counts open_counts names,
         wm_unfinished_files = List.map_filter (hm_get names)
           (filter (\<lambda>ino. 0 < count_of write_counts ino \<and> 2 \<le> count_of open_counts ino) session_files),
         wm_computed_at = now_ts\<rparr>
     }"

section \<open>Clusters are the components of the strong pairs\<close>

definition root_of :: "forest \<Rightarrow> u64 \<Rightarrow> u64" where
  "root_of parent x = (THE r. rep parent x r)"

lemma root_of_eq: "rep parent x r \<Longrightarrow> root_of parent x = r"
  unfolding root_of_def by (blast intro: the_equality dest: rep_unique)

lemma group_roots_by:
  "uf_ok D parent \<Longrightarrow> set inos \<subseteq> D
    \<Longrightarrow> group_roots inos parent m = Some (foldl (\<lambda>m x. hm_push (root_of parent x) x m) m inos)"
proof (induction inos arbitrary: parent m)
  case (Cons x inos)
  obtain r parent' where f: "uf_find parent x = Some (r, parent')" "rep parent x r" "uf_ok D parent'" "rep parent' = rep parent"
    using uf_find_Some [OF Cons.prems(1), of x] Cons.prems(2) by auto
  have "root_of parent' = root_of parent" unfolding root_of_def [abs_def] f(4) ..
  with Cons.IH [OF f(3), of "hm_push r x m"] Cons.prems(2) f root_of_eq [OF f(2)] show ?case by simp
qed simp

lemma same_root_iff:
  assumes "uf_ok D parent" and "y \<in> D" and "z \<in> D"
  shows "same_root parent y z \<longleftrightarrow> root_of parent y = root_of parent z"
proof -
  obtain r s where "rep parent y r" "rep parent z s" using uf_okD(3) [OF assms(1)] assms(2,3) by blast
  then show ?thesis unfolding same_root_def using root_of_eq rep_unique by metis
qed

lemma cluster_project_files [simp]: "pj_files (cluster_project ac names now c) = c"
  by (simp add: cluster_project_def Let_def)

lemma group_by_entries:
  "(k, c) \<in> set (group_by key xs) \<longleftrightarrow> k \<in> key ` set xs \<and> c = filter (\<lambda>x. key x = k) xs"
  unfolding hm_get_Some_iff [OF hm_wf_group_by, symmetric] hm_get_group_by by auto

lemma group_by_values: "set (map snd (group_by key xs)) = (\<lambda>y. filter (\<lambda>x. key x = key y) xs) ` set xs"
proof (rule set_eqI)
  fix c
  have "c \<in> set (map snd (group_by key xs)) \<longleftrightarrow> (\<exists>k. (k, c) \<in> set (group_by key xs))" by force
  then show "c \<in> set (map snd (group_by key xs)) \<longleftrightarrow> c \<in> (\<lambda>y. filter (\<lambda>x. key x = key y) xs) ` set xs"
    unfolding group_by_entries by blast
qed

lemma group_by_key_unique: "(k, c) \<in> set (group_by key xs) \<Longrightarrow> (l, c) \<in> set (group_by key xs) \<Longrightarrow> k = l"
proof -
  assume kl: "(k, c) \<in> set (group_by key xs)" "(l, c) \<in> set (group_by key xs)"
  then obtain x where "x \<in> set xs" "key x = k" unfolding group_by_entries by blast
  then have "x \<in> set c" using kl(1) unfolding group_by_entries by simp
  then have "key x = l" using kl(2) unfolding group_by_entries by simp
  with \<open>key x = k\<close> show "k = l" by simp
qed

lemma set_filter_image: "set cs = f ` A \<Longrightarrow> set (filter P cs) = {f y | y. y \<in> A \<and> P (f y)}"
  by auto

lemma discover_projects_files:
  assumes "hm_wf ac" and "set (strong_pairs co) \<subseteq> (fst ` set ac) \<times> (fst ` set ac)"
  shows "\<exists>ps. discover_projects co ac names now = Some ps
    \<and> set (map pj_files ps) = {filter (\<lambda>z. (y, z) \<in> component (set (strong_pairs co))) (map fst ac) | y.
        y \<in> fst ` set ac \<and> 2 \<le> length (filter (\<lambda>z. (y, z) \<in> component (set (strong_pairs co))) (map fst ac))}
    \<and> distinct (map pj_files ps)"
proof (cases "ac = []")
  case True
  then show ?thesis by (simp add: discover_projects_def)
next
  case False
  let ?inos = "map fst ac" and ?E = "set (strong_pairs co)"
  have dist: "distinct ?inos" using assms(1) by (simp add: hm_wf_def)
  obtain parent where p: "uf_unions (strong_pairs co) (uf_init ?inos) = Some parent" "uf_ok (set ?inos) parent"
    "\<forall>y \<in> set ?inos. \<forall>z \<in> set ?inos. same_root parent y z \<longleftrightarrow> (y, z) \<in> component ?E"
    using uf_init_components [OF dist, of "strong_pairs co"] assms(2) unfolding set_map by blast
  let ?groups = "group_by (root_of parent) ?inos"
  have groups: "group_roots ?inos parent [] = Some ?groups"
    using group_roots_by [OF p(2)] by (simp add: group_by_def)
  have cls: "filter (\<lambda>x. root_of parent x = root_of parent y) ?inos = filter (\<lambda>z. (y, z) \<in> component ?E) ?inos"
    if "y \<in> set ?inos" for y
  proof (rule filter_cong)
    fix z assume "z \<in> set ?inos"
    with that p(3) same_root_iff [OF p(2)] show "root_of parent z = root_of parent y \<longleftrightarrow> (y, z) \<in> component ?E" by metis
  qed simp
  let ?cs = "filter (\<lambda>c. 2 \<le> length c) (map snd ?groups)"
  have run: "discover_projects co ac names now = Some (map (cluster_project ac names now) ?cs)"
    using False p(1) groups by (simp add: discover_projects_def Let_def)
  have "set (map snd ?groups) = (\<lambda>y. filter (\<lambda>x. root_of parent x = root_of parent y) ?inos) ` set ?inos"
    by (rule group_by_values)
  also have "\<dots> = (\<lambda>y. filter (\<lambda>z. (y, z) \<in> component ?E) ?inos) ` set ?inos" using cls by (intro image_cong refl)
  finally have "set (map snd ?groups) = (\<lambda>y. filter (\<lambda>z. (y, z) \<in> component ?E) ?inos) ` fst ` set ac" unfolding set_map .
  then have sets: "set ?cs = {filter (\<lambda>z. (y, z) \<in> component ?E) ?inos | y. y \<in> fst ` set ac
      \<and> 2 \<le> length (filter (\<lambda>z. (y, z) \<in> component ?E) ?inos)}"
    by (rule set_filter_image)
  have "inj_on snd (set ?groups)"
    by (rule inj_onI) (metis group_by_key_unique prod.collapse)
  moreover have "distinct ?groups" using hm_wf_group_by [of "root_of parent" ?inos] by (simp add: hm_wf_def distinct_map)
  ultimately have "distinct ?cs" by (simp add: distinct_map)
  moreover have "map pj_files (map (cluster_project ac names now) ?cs) = ?cs" by (simp add: comp_def)
  ultimately show ?thesis using run sets
    by (intro exI [of _ "map (cluster_project ac names now) ?cs"]) (simp only: simp_thms)
qed

lemma component_closed:
  assumes "E \<subseteq> D \<times> D" and "(y, z) \<in> component E" and "y \<in> D" shows "z \<in> D"
  using assms(2,3) unfolding component_def by (induction rule: rtrancl_induct) (use assms(1) in auto)

text \<open>C33: When every pair seen together three times is of tracked files, the projects are exactly the connected
  components of those pairs that have two files or more, and no file is in two of them.\<close>

theorem projects_are_components:
  fixes co :: co_access and ac :: access_counts
  defines "E \<equiv> set (strong_pairs co)" and "tracked \<equiv> fst ` set ac"
  assumes "hm_wf ac" and "E \<subseteq> tracked \<times> tracked"
  shows "\<exists>ps. discover_projects co ac names now = Some ps \<and> distinct (concat (map pj_files ps))
    \<and> (\<lambda>p. set (pj_files p)) ` set ps = {C. \<exists>y \<in> tracked. C = {z. (y, z) \<in> component E} \<and> 2 \<le> card C}"
proof -
  let ?cls = "\<lambda>y. filter (\<lambda>z. (y, z) \<in> component E) (map fst ac)"
  have dist: "distinct (map fst ac)" using assms(3) by (simp add: hm_wf_def)
  have cls: "set (?cls y) = {z. (y, z) \<in> component E}" "length (?cls y) = card {z. (y, z) \<in> component E}"
    if "y \<in> tracked" for y
  proof -
    show eq: "set (?cls y) = {z. (y, z) \<in> component E}"
      using component_closed [OF assms(4) _ that] by (auto simp: tracked_def)
    have "distinct (?cls y)" using dist by (rule distinct_filter)
    then have "length (?cls y) = card (set (?cls y))" by (rule distinct_card [symmetric])
    with eq show "length (?cls y) = card {z. (y, z) \<in> component E}" by (simp only:)
  qed
  obtain ps where ps: "discover_projects co ac names now = Some ps" "distinct (map pj_files ps)"
    "set (map pj_files ps) = {?cls y | y. y \<in> tracked \<and> 2 \<le> length (?cls y)}"
    using discover_projects_files [OF assms(3), of co names now] assms(4) unfolding E_def tracked_def by blast
  have "distinct (concat (map pj_files ps))"
  proof (rule distinct_concat [OF ps(2)])
    fix ys assume "ys \<in> set (map pj_files ps)"
    then show "distinct ys" unfolding ps(3) using dist by auto
  next
    fix ys zs assume "ys \<in> set (map pj_files ps)" "zs \<in> set (map pj_files ps)" and ne: "ys \<noteq> zs"
    then obtain y z where yz: "ys = ?cls y" "zs = ?cls z" unfolding ps(3) by blast
    have "?cls y = ?cls z" if "(y, v) \<in> component E" "(z, v) \<in> component E" for v
      using that component_sym component_trans by (intro filter_cong refl) metis
    then show "set ys \<inter> set zs = {}" using ne yz by auto
  qed
  moreover have "(\<lambda>p. set (pj_files p)) ` set ps = set ` set (map pj_files ps)" by (simp add: image_image)
  moreover have "\<dots> = {C. \<exists>y \<in> tracked. C = {z. (y, z) \<in> component E} \<and> 2 \<le> card C}"
  proof (rule set_eqI)
    fix C
    have "C \<in> set ` set (map pj_files ps) \<longleftrightarrow> (\<exists>y \<in> tracked. C = set (?cls y) \<and> 2 \<le> length (?cls y))"
      unfolding ps(3) by blast
    also have "\<dots> \<longleftrightarrow> (\<exists>y \<in> tracked. C = {z. (y, z) \<in> component E} \<and> 2 \<le> card C)"
      by (rule bex_cong) (use cls in \<open>simp_all only: cong: conj_cong\<close>)
    finally show "C \<in> set ` set (map pj_files ps) \<longleftrightarrow> C \<in> {C. \<exists>y \<in> tracked. C = {z. (y, z) \<in> component E} \<and> 2 \<le> card C}"
      by (simp only: mem_Collect_eq)
  qed
  ultimately show ?thesis using ps(1) by (intro exI [of _ ps]) (simp only: simp_thms)
qed

theorem projects_are_components_witness:
  "\<exists>ps. discover_projects [((2, 3), 3), ((3, 4), 2)] [(2, [97], 5, 0, 5), (3, [98], 5, 0, 5), (4, [99], 1, 0, 1)] [] 9 = Some ps
    \<and> distinct (concat (map pj_files ps))"
proof -
  let ?co = "[((2, 3), 3), ((3, 4), 2)] :: co_access"
    and ?ac = "[(2, [97], 5, 0, 5), (3, [98], 5, 0, 5), (4, [99], 1, 0, 1)] :: access_counts"
  have "hm_wf ?ac" "set (strong_pairs ?co) \<subseteq> fst ` set ?ac \<times> fst ` set ?ac"
    by (simp_all add: hm_wf_def strong_pairs_def CO_THRESHOLD_def)
  from projects_are_components [OF this, of "[]" 9] show ?thesis by (elim exE conjE) (intro exI conjI)
qed

lemma discover_projects_None:
  assumes "hm_wf ac" and "ac \<noteq> []"
  shows "discover_projects co ac names now = None \<longleftrightarrow> \<not> set (strong_pairs co) \<subseteq> (fst ` set ac) \<times> (fst ` set ac)"
proof
  assume "discover_projects co ac names now = None"
  then show "\<not> set (strong_pairs co) \<subseteq> (fst ` set ac) \<times> (fst ` set ac)"
    using discover_projects_files [OF assms(1), of co names now] by auto
next
  assume "\<not> set (strong_pairs co) \<subseteq> (fst ` set ac) \<times> (fst ` set ac)"
  moreover have "uf_ok (set (map fst ac)) (uf_init (map fst ac))"
    using assms(1) by (intro uf_init_ok) (simp add: hm_wf_def)
  ultimately have "uf_unions (strong_pairs co) (uf_init (map fst ac)) = None" using uf_unions_panic by simp
  then show "discover_projects co ac names now = None" using assms(2) by (simp add: discover_projects_def Let_def)
qed

section \<open>From the sessions of the memory engine\<close>

definition strongly_paired :: "co_access \<Rightarrow> u64 \<Rightarrow> bool" where
  "strongly_paired co x \<longleftrightarrow> (\<exists>a b. (a, b) \<in> set (strong_pairs co) \<and> (x = a \<or> x = b))"

definition pairs_tracked :: "memory_engine \<Rightarrow> bool" where
  "pairs_tracked e \<longleftrightarrow> fst ` set (me_co_access e) \<subseteq> fst ` set (me_names e) \<times> fst ` set (me_names e)
     \<and> fst ` set (se_files_touched (me_current e)) \<subseteq> fst ` set (me_names e)"

lemma stats_map_keys [simp]: "map fst (stats_map e) = map fst (me_names e)"
  by (simp add: stats_map_def Let_def case_prod_unfold comp_def)

lemma stats_map_wf: "memory_wf e \<Longrightarrow> hm_wf (stats_map e)"
  by (simp add: hm_wf_def memory_wf_def)

lemma stats_map_tracked: "fst ` set (stats_map e) = fst ` set (me_names e)"
  by (metis set_map stats_map_keys)

lemma strong_pairs_in: "set (strong_pairs co) \<subseteq> fst ` set co"
  by (auto simp: strong_pairs_def)

lemma all_pairs_in: "set (all_pairs xs) \<subseteq> set xs \<times> set xs"
  by (induction xs) (auto simp: min_def max_def split: if_splits)

lemma count_pairs_keys: "fst ` set (fold count_pair ks m) = fst ` set m \<union> set ks"
  by (induction ks arbitrary: m) (auto simp: count_pair_def hm_keys_insert)

lemma count_pairs_other: "k \<notin> set ks \<Longrightarrow> hm_get (fold count_pair ks m) k = hm_get m k"
  by (induction ks arbitrary: m) (auto simp: count_pair_def)

lemma session_pairs_in: "set (all_pairs (take n (unique_inos [] (map fst files)))) \<subseteq> fst ` set files \<times> fst ` set files"
  using all_pairs_in [of "take n (unique_inos [] (map fst files))"] set_take_subset [of n "unique_inos [] (map fst files)"]
    unique_inos_distinct [of "[]" "map fst files"] by fastforce

lemma record_session_keys: "fst ` set (record_session files m) \<subseteq> fst ` set m \<union> fst ` set files \<times> fst ` set files"
  unfolding record_session_def using session_pairs_in [of 20 files] by (auto simp: count_pairs_keys)

lemma pairs_tracked_step: "pairs_tracked e \<Longrightarrow> pairs_tracked (mem_step op e)"
proof (cases op)
  case (MemAccess ts ino name)
  moreover assume "pairs_tracked e"
  ultimately show "pairs_tracked (mem_step op e)"
    by (auto simp: pairs_tracked_def record_access_def Let_def hm_keys_insert)
next
  case (MemClose ts)
  assume e: "pairs_tracked e"
  let ?files = "se_files_touched (me_current e)" and ?names = "fst ` set (me_names e)"
  have co: "fst ` set (me_co_access e) \<subseteq> ?names \<times> ?names" and files: "fst ` set ?files \<subseteq> ?names"
    using e by (simp_all add: pairs_tracked_def)
  have "fst ` set (record_session ?files (me_co_access e)) \<subseteq> ?names \<times> ?names"
    by (rule subset_trans [OF record_session_keys Un_least [OF co Sigma_mono [OF files files]]])
  then show "pairs_tracked (mem_step op e)"
    using MemClose by (simp add: pairs_tracked_def close_session_def session_new_def Let_def)
qed (simp_all add: pairs_tracked_def record_write_def record_read_def)

lemma pairs_tracked_steps: "pairs_tracked e \<Longrightarrow> pairs_tracked (fold mem_step ops e)"
  by (induction ops arbitrary: e) (simp_all add: pairs_tracked_step)

lemma recompute_total:
  assumes "memory_wf e" and "pairs_tracked e"
  shows "recompute (me_co_access e) (stats_map e) w op (me_names e) fs now \<noteq> None"
proof -
  have "set (strong_pairs (me_co_access e)) \<subseteq> fst ` set (stats_map e) \<times> fst ` set (stats_map e)"
    unfolding stats_map_tracked using strong_pairs_in [of "me_co_access e"] assms(2) by (simp add: pairs_tracked_def) blast
  with discover_projects_files [OF stats_map_wf [OF assms(1)], of "me_co_access e" "me_names e" now]
  show ?thesis by (auto simp: recompute_def)
qed

text \<open>Whatever the sessions of an engine that was never cut short, the workspace is computed without a panic.\<close>

theorem recompute_never_panics:
  assumes "memory_wf e" and "pairs_tracked e" and "e' = fold mem_step ops e"
  shows "\<exists>m. recompute (me_co_access e') (stats_map e') writes opens (me_names e') files now = Some m"
  using recompute_total [OF mem_steps_wf [OF assms(1)] pairs_tracked_steps [OF assms(2)]] by (simp add: assms(3))

theorem recompute_never_panics_witness:
  "let e = fold mem_step [MemAccess 86400 2 [97], MemAccess 86500 3 [98], MemClose 90000] (memory_new 86400)
   in \<exists>m. recompute (me_co_access e) (stats_map e) [] [] (me_names e) [2, 3] 90000 = Some m"
  unfolding Let_def
  by (rule recompute_never_panics [OF memory_new_wf _ refl]) (simp add: pairs_tracked_def memory_new_def session_new_def)

section \<open>After a reload that cuts the names\<close>

text \<open>A pair on record one file of which is in neither the names nor the session.\<close>

definition orphan_pair :: "u64 \<Rightarrow> u64 \<times> u64 \<Rightarrow> u32 \<Rightarrow> memory_engine \<Rightarrow> bool" where
  "orphan_pair x k n e \<longleftrightarrow> memory_wf e \<and> me_names e \<noteq> [] \<and> x \<in> {fst k, snd k} \<and> hm_get (me_co_access e) k = Some n
     \<and> x \<notin> fst ` set (me_names e) \<and> x \<notin> fst ` set (se_files_touched (me_current e))"

lemma hm_insert_not_Nil [simp]: "hm_insert k v m \<noteq> []"
  using hm_get_insert [of k v m k] by (metis hm_get_Nil option.distinct(1))

lemma orphan_pair_step:
  assumes "orphan_pair x k n e" and "\<forall>ts name. op \<noteq> MemAccess ts x name"
  shows "orphan_pair x k n (mem_step op e)"
proof (cases op)
  case (MemClose ts)
  let ?files = "se_files_touched (me_current e)"
  have "k \<notin> set (all_pairs (take 20 (unique_inos [] (map fst ?files))))"
    using session_pairs_in [of 20 ?files] assms(1) by (cases k) (auto simp: orphan_pair_def)
  then have "hm_get (record_session ?files (me_co_access e)) k = hm_get (me_co_access e) k"
    by (simp add: record_session_def count_pairs_other)
  then show ?thesis using assms(1) mem_step_wf [of e op] MemClose
    by (simp add: orphan_pair_def close_session_def session_new_def Let_def)
qed (use assms mem_step_wf [of e op] in
  \<open>simp_all add: orphan_pair_def record_access_def record_write_def record_read_def Let_def hm_keys_insert\<close>)

lemma orphan_pair_steps:
  "orphan_pair x k n e \<Longrightarrow> \<forall>op \<in> set ops. \<forall>ts name. op \<noteq> MemAccess ts x name \<Longrightarrow> orphan_pair x k n (fold mem_step ops e)"
  by (induction ops arbitrary: e) (simp_all add: orphan_pair_step)

lemma orphan_pair_panics:
  assumes "orphan_pair x k n e" and "CO_THRESHOLD \<le> n"
  shows "recompute (me_co_access e) (stats_map e) w op (me_names e) fs now = None"
proof -
  have "k \<in> set (strong_pairs (me_co_access e))"
    using assms hm_get_in_set [of "me_co_access e" k n] by (force simp: orphan_pair_def strong_pairs_def)
  moreover have "k \<notin> fst ` set (stats_map e) \<times> fst ` set (stats_map e)"
    using assms(1) unfolding stats_map_tracked by (cases k) (auto simp: orphan_pair_def)
  moreover have "stats_map e \<noteq> []" "hm_wf (stats_map e)"
    using assms(1) stats_map_keys [of e] stats_map_wf by (auto simp: orphan_pair_def simp del: stats_map_keys)
  ultimately have "discover_projects (me_co_access e) (stats_map e) (me_names e) now = None"
    using discover_projects_None by blast
  then show ?thesis by (simp add: recompute_def)
qed

lemma stored_session_inos: "map fst (se_files_touched (stored_session s)) = take 100 (map fst (se_files_touched s))"
  by (simp add: stored_session_def case_prod_unfold comp_def flip: take_map)

lemma stored_memory_wf: assumes "memory_wf e" shows "memory_wf (stored_memory now e)"
proof -
  have "distinct (map fst (se_files_touched s))"
    if "s \<in> insert (session_new now now) (set (map stored_session (take 500 (me_sessions e))))" for s
    using that assms
    by (auto simp: session_new_def memory_wf_def stored_session_inos simp del: map_map dest!: in_set_takeD)
  then show ?thesis
    using assms hm_wf_named [of "me_names e" 10000]
    by (auto simp: memory_wf_def stored_memory_def tracker_wf_def MAX_SESSIONS_def dest: in_set_takeD)
qed

text \<open>C34: An engine is saved with at most 10,000 names but 50,000 pairs. When a pair seen together three times loses
  the name of one of its files this way, closing any later session panics, until that file is opened again.\<close>

theorem recompute_panics_after_reload:
  assumes "memory_wf e" and "((a, b), n) \<in> set (take 50000 (me_co_access e))" and "CO_THRESHOLD \<le> n" and "x \<in> {a, b}"
    and "x \<notin> fst ` set (take 10000 (me_names e))" and "me_names e \<noteq> []"
    and "\<forall>op \<in> set ops. \<forall>ts name. op \<noteq> MemAccess ts x name"
  shows "\<exists>e'. memory_from_bytes now (memory_to_bytes e) = Some e'
    \<and> (let e'' = fold mem_step ops e' in
       recompute (me_co_access e'') (stats_map e'') writes opens (me_names e'') files t = None)"
proof -
  let ?e = "stored_memory now e"
  have "hm_wf (take 50000 (me_co_access e))" using assms(1) by (simp add: memory_wf_def)
  then have "hm_get (take 50000 (me_co_access e)) (a, b) = Some n" using assms(2) by (simp add: hm_get_Some_iff)
  then have "orphan_pair x (a, b) n ?e"
    using assms(4-6) stored_memory_wf [OF assms(1)]
    by (auto simp: orphan_pair_def) (auto simp: stored_memory_def session_new_def image_image case_prod_unfold)
  from orphan_pair_panics [OF orphan_pair_steps [OF this assms(7)] assms(3)]
  show ?thesis using memory_bytes_read [OF assms(1)] by (simp add: Let_def)
qed

definition sample_names :: "nat \<Rightarrow> (u64, rstring) hmap" where
  "sample_names n = map (\<lambda>i. (of_nat i, [])) [0..<n]"

lemma sample_names_facts:
  "k \<le> n \<Longrightarrow> take k (sample_names n) = sample_names k" "0 < n \<Longrightarrow> sample_names n \<noteq> []"
  by (simp_all add: sample_names_def take_map min_def)

lemma sample_names_keys: "n < 2 ^ 64 \<Longrightarrow> hm_wf (sample_names n) \<and> of_nat n \<notin> fst ` set (sample_names n)"
proof -
  assume n: "n < 2 ^ 64"
  have inj: "i = j" if "(of_nat i :: u64) = of_nat j" "i \<le> n" "j \<le> n" for i j
    using that n by (simp add: of_nat_inverse word_unat_eq_iff unat_of_nat)
  then have "inj_on (of_nat :: nat \<Rightarrow> u64) {0..<n}" by (intro inj_onI) simp
  moreover have "of_nat n \<notin> (of_nat :: nat \<Rightarrow> u64) ` {0..<n}" using inj by fastforce
  ultimately show ?thesis by (simp add: hm_wf_def sample_names_def comp_def distinct_map image_image)
qed

theorem recompute_panics_after_reload_witness:
  "\<exists>e'. memory_from_bytes 9 (memory_to_bytes ((memory_new 5)\<lparr>me_names := sample_names 10001, me_co_access := [((0, 10000), 3)]\<rparr>)) = Some e'
    \<and> recompute (me_co_access e') (stats_map e') [] [] (me_names e') [] 9 = None"
proof -
  let ?e = "(memory_new 5)\<lparr>me_names := sample_names 10001, me_co_access := [((0, 10000), 3)]\<rparr>"
  have "memory_wf ?e"
    using memory_new_wf [of 5] sample_names_keys [of 10001] by (simp add: memory_wf_def) (simp add: hm_wf_def)
  moreover have "10000 \<notin> fst ` set (take 10000 (me_names ?e))"
    using sample_names_keys [of 10000] by (simp add: sample_names_facts)
  ultimately show ?thesis
    using recompute_panics_after_reload [of ?e 0 10000 3 10000 "[]" 9 "[]" "[]" "[]" 9] sample_names_facts(2) [of 10001]
    by (simp add: CO_THRESHOLD_def)
qed

end
