(* ===== verification/Text_Format.thy ===== *)
theory Text_Format
  imports Importance Text Snapshots
begin

text \<open>
  What \<open>format!\<close> and \<open>join\<close> give for the texts the AI thread publishes. Characters outside ASCII are written as
  their UTF-8 bytes.
\<close>

definition NL :: rstring where "NL = [0x0A]"
definition QUOTE :: rstring where "QUOTE = [0x27]"
definition EM_DASH :: rstring where "EM_DASH = [0xE2, 0x80, 0x94]"
definition LESS_EQ :: rstring where "LESS_EQ = [0xE2, 0x89, 0xA4]"

definition quoted :: "rstring \<Rightarrow> rstring" where
  "quoted s = QUOTE @ s @ QUOTE"

text \<open>\<open>{:.d}\<close>: the decimal of \<open>d\<close> places nearest to the value, ties to even.\<close>

definition pad_zeros :: "nat \<Rightarrow> rstring \<Rightarrow> rstring" where
  "pad_zeros d s = replicate (d - length s) 0x30 @ s"

fun fmt_fixed :: "nat \<Rightarrow> fp \<Rightarrow> rstring" where
  "fmt_fixed d (Fin x) =
     (let n = nat (round_even (\<bar>x\<bar> * 10 ^ d)) in
      (if x < 0 then ascii ''-'' else []) @ decimal (n div 10 ^ d)
        @ (if d = 0 then [] else ascii ''.'' @ pad_zeros d (decimal (n mod 10 ^ d))))"
| "fmt_fixed d PosInf = ascii ''inf''"
| "fmt_fixed d NegInf = ascii ''-inf''"
| "fmt_fixed d NaN = ascii ''NaN''"

definition join_comma :: "rstring list \<Rightarrow> rstring" where
  "join_comma = join_strs (ascii '', '')"

declare fmt_fixed.simps [simp del]

end
