(* ===== verification/Jarvis.thy ===== *)
theory Jarvis
  imports Workspace Text_Format
begin

text \<open>
  \<open>src/ai/jarvis.rs\<close>: the suggestions drawn from a workspace model and the text of \<open>.vexfs-jarvis\<close>.
\<close>

section \<open>Suggestions\<close>

datatype suggestion_priority = High | Medium | Low

text \<open>The derived order is that of the constructors.\<close>

fun priority_rank :: "suggestion_priority \<Rightarrow> nat" where
  "priority_rank High = 0" | "priority_rank Medium = 1" | "priority_rank Low = 2"

instantiation suggestion_priority :: linorder
begin

definition less_eq_suggestion_priority :: "suggestion_priority \<Rightarrow> suggestion_priority \<Rightarrow> bool" where
  "less_eq_suggestion_priority p q \<longleftrightarrow> priority_rank p \<le> priority_rank q"

definition less_suggestion_priority :: "suggestion_priority \<Rightarrow> suggestion_priority \<Rightarrow> bool" where
  "less_suggestion_priority p q \<longleftrightarrow> priority_rank p < priority_rank q"

instance
proof
  fix p q :: suggestion_priority
  assume "p \<le> q" "q \<le> p"
  then show "p = q" by (cases p; cases q) (auto simp: less_eq_suggestion_priority_def)
qed (auto simp: less_eq_suggestion_priority_def less_suggestion_priority_def)

end

fun priority_label :: "suggestion_priority \<Rightarrow> rstring" where
  "priority_label High = [0xE2, 0x9A, 0xA0] @ ascii '' HIGH''"
| "priority_label Medium = [0xE2, 0x86, 0x92] @ ascii '' MED''"
| "priority_label Low = [0xC2, 0xB7] @ ascii '' LOW''"

datatype suggestion_kind = StallBreaker | Continuity | Neglect | PreWarm | FocusHint

definition suggestion_kind_label :: "suggestion_kind \<Rightarrow> rstring" where
  "suggestion_kind_label k = ascii (case k of
     StallBreaker \<Rightarrow> ''StallBreaker'' | Continuity \<Rightarrow> ''Continuity'' | Neglect \<Rightarrow> ''Neglect''
   | PreWarm \<Rightarrow> ''PreWarm'' | FocusHint \<Rightarrow> ''FocusHint'')"

record suggestion =
  sg_priority :: suggestion_priority
  sg_kind :: suggestion_kind
  sg_message :: rstring
  sg_related_files :: "rstring list"
  sg_basis :: rstring

section \<open>The checks\<close>

definition stall_suggestion :: "stall_record \<Rightarrow> suggestion" where
  "stall_suggestion st =
     \<lparr>sg_priority = (if 5 \<le> st_open_without_write st then High else Medium), sg_kind = StallBreaker,
      sg_message = quoted (st_name st) @ ascii '' opened '' @ decimal (st_open_without_write st) @ ascii ''x across ''
        @ decimal (st_stall_session_count st)
        @ ascii '' sessions with almost no writes. Something is blocking you here.'',
      sg_related_files = [st_name st],
      sg_basis = decimal (st_open_without_write st) @ ascii '' opens, '' @ LESS_EQ
        @ ascii ''1 write detected across recent sessions''\<rparr>"

definition check_stalls :: "workspace_model \<Rightarrow> suggestion list" where
  "check_stalls m = map stall_suggestion (wm_stalls m)"

definition check_continuity :: "workspace_model \<Rightarrow> suggestion list" where
  "check_continuity m =
     (if wm_unfinished_files m = [] then []
      else [\<lparr>sg_priority = Medium, sg_kind = Continuity,
        sg_message = ascii ''Last session ended mid-flow on '' @ decimal (length (wm_unfinished_files m))
          @ ascii '' file(s). Resuming from where you left off.'',
        sg_related_files = wm_unfinished_files m,
        sg_basis = ascii ''Files were written to and reopened multiple times without a clean close sequence: ''
          @ join_comma (wm_unfinished_files m)\<rparr>])"

definition neglect_suggestion :: "project \<Rightarrow> suggestion" where
  "neglect_suggestion p =
     \<lparr>sg_priority = (if 14 < pj_days_inactive p then Medium else Low), sg_kind = Neglect,
      sg_message = ascii ''Project cluster '' @ quoted (pj_name p) @ ascii '' untouched for ''
        @ decimal (unat (pj_days_inactive p)) @ ascii '' day(s). Was actively worked on before.'',
      sg_related_files = take 4 (pj_file_names p),
      sg_basis = ascii ''Last active '' @ decimal (unat (pj_days_inactive p)) @ ascii '' day(s) ago, velocity was ''
        @ fmt_fixed 1 (pj_velocity p) @ ascii '' accesses/session''\<rparr>"

definition check_neglect :: "workspace_model \<Rightarrow> suggestion list" where
  "check_neglect m = map neglect_suggestion
     (filter (\<lambda>p. \<not> fp_less (pj_velocity p) (Fin 1)) (filter (\<lambda>p. \<not> pj_days_inactive p < 5) (wm_projects m)))"

definition check_focus_pattern :: "workspace_model \<Rightarrow> suggestion list" where
  "check_focus_pattern m =
     (case wm_last_session m of
        None \<Rightarrow> []
      | Some s \<Rightarrow>
          if sp_kind s = Debugging \<and> sp_reopen_without_write s \<noteq> []
          then [\<lparr>sg_priority = Medium, sg_kind = FocusHint,
            sg_message = ascii ''Last session was Debugging mode '' @ EM_DASH @ ascii '' ''
              @ decimal (length (sp_reopen_without_write s))
              @ ascii '' file(s) reopened repeatedly with no writes. Consider breaking the problem into a smaller isolated test.'',
            sg_related_files = sp_reopen_without_write s,
            sg_basis = ascii ''Files reopened 3+ times with 0 writes this session: '' @ join_comma (sp_reopen_without_write s)\<rparr>]
          else if sp_kind s = Exploration \<and> sp_writes_made s = 0
          then [\<lparr>sg_priority = Low, sg_kind = FocusHint,
            sg_message = ascii ''Last session was pure Exploration '' @ EM_DASH @ ascii '' '' @ decimal (sp_files_touched s)
              @ ascii '' files touched, 0 writes. If you found what you were looking for, consider committing to one area next session.'',
            sg_related_files = [],
            sg_basis = ascii ''Session had many file opens and zero writes''\<rparr>]
          else [])"

definition check_prewarm :: "workspace_model \<Rightarrow> suggestion list" where
  "check_prewarm m =
     (case wm_last_session m of
        None \<Rightarrow> []
      | Some s \<Rightarrow>
          (case find (\<lambda>p. pj_name p = sp_primary_project s) (wm_projects m) of
             None \<Rightarrow> []
           | Some p \<Rightarrow>
               if 1 < length (pj_file_names p)
               then [\<lparr>sg_priority = Low, sg_kind = PreWarm,
                 sg_message = decimal (length (pj_file_names p)) @ ascii '' file(s) from '' @ quoted (pj_name p)
                   @ ascii '' cluster pre-warmed into cache.'',
                 sg_related_files = take 5 (pj_file_names p),
                 sg_basis = ascii ''These files co-occur in '' @ fmt_fixed 0 (Fin 75) @ ascii ''%+ of sessions that touch ''
                   @ quoted (pj_name p)\<rparr>]
               else []))"

definition analyse :: "workspace_model \<Rightarrow> suggestion list" where
  "analyse m = sort_key sg_priority
     (check_stalls m @ check_continuity m @ check_neglect m @ check_focus_pattern m @ check_prewarm m)"

section \<open>Rendering\<close>

definition render_suggestion :: "suggestion \<Rightarrow> rstring" where
  "render_suggestion s =
     priority_label (sg_priority s) @ ascii ''  '' @ suggestion_kind_label (sg_kind s) @ NL @ ascii ''  '' @ sg_message s @ NL
     @ (if sg_related_files s \<noteq> [] then ascii ''  Files: '' @ join_comma (sg_related_files s) @ NL else [])
     @ ascii ''  Why: '' @ sg_basis s @ NL @ NL"

definition render :: "suggestion list \<Rightarrow> workspace_model \<Rightarrow> rstring" where
  "render suggestions m =
     ascii ''=== VexFS Jarvis '' @ EM_DASH @ ascii '' Workspace Brief ==='' @ NL
     @ (case wm_last_session m of
          Some s \<Rightarrow> ascii ''Last session: '' @ session_kind_label (sp_kind s) @ ascii '' | primary: '' @ sp_primary_project s
            @ ascii '' | '' @ decimal (sp_files_touched s) @ ascii '' files, '' @ decimal (sp_writes_made s) @ ascii '' writes'' @ NL
        | None \<Rightarrow> [])
     @ NL
     @ (if suggestions = []
        then ascii ''No suggestions '' @ EM_DASH @ ascii '' workspace looks healthy.'' @ NL
        else concat (map render_suggestion suggestions) @ ascii ''======================================'' @ NL)"

section \<open>What comes first\<close>

definition stall_name :: "(u64, rstring) hmap \<Rightarrow> u64 \<Rightarrow> rstring" where
  "stall_name names ino = (case hm_get names ino of Some n \<Rightarrow> n | None \<Rightarrow> ascii ''ino_'' @ decimal (unat ino))"

definition blocked :: "(u64, u32) hmap \<Rightarrow> (u64, u32) hmap \<Rightarrow> u64 \<times> rstring \<times> u32 \<times> u64 \<times> u64 \<Rightarrow> bool" where
  "blocked writes opens = (\<lambda>(ino, _, total, _, _). 4 \<le> total \<and> 5 \<le> count_of opens ino \<and> count_of writes ino \<le> 1)"

lemma not_high_continuity: "s \<in> set (check_continuity m) \<Longrightarrow> sg_priority s \<noteq> High"
  unfolding check_continuity_def by (cases "wm_unfinished_files m = []") simp_all

lemma not_high_neglect: "s \<in> set (check_neglect m) \<Longrightarrow> sg_priority s \<noteq> High"
  unfolding check_neglect_def by (auto simp only: set_map neglect_suggestion_def suggestion.simps split: if_splits)

lemma not_high_focus: "s \<in> set (check_focus_pattern m) \<Longrightarrow> sg_priority s \<noteq> High"
  unfolding check_focus_pattern_def by (cases "wm_last_session m") (simp_all split: if_splits)

lemma not_high_prewarm: "s \<in> set (check_prewarm m) \<Longrightarrow> sg_priority s \<noteq> High"
  unfolding check_prewarm_def by (auto split: if_splits option.splits)

lemma stall_high: "sg_priority (stall_suggestion st) = High \<longleftrightarrow> 5 \<le> st_open_without_write st"
  by (simp add: stall_suggestion_def)

lemma filter_high: "filter (\<lambda>s. sg_priority s = High) (analyse m)
    = map stall_suggestion (filter (\<lambda>st. 5 \<le> st_open_without_write st) (wm_stalls m))"
proof -
  have none: "filter (\<lambda>s. sg_priority s = High) xs = []" if "\<And>s. s \<in> set xs \<Longrightarrow> sg_priority s \<noteq> High" for xs
    using that by (simp add: filter_empty_conv)
  have "filter (\<lambda>s. sg_priority s = High) (check_stalls m)
      = map stall_suggestion (filter (\<lambda>st. 5 \<le> st_open_without_write st) (wm_stalls m))"
    by (simp add: check_stalls_def filter_map comp_def stall_high)
  then show ?thesis
    unfolding analyse_def sort_key_stable
    by (simp only: filter_append none [OF not_high_continuity] none [OF not_high_neglect]
        none [OF not_high_focus] none [OF not_high_prewarm] append_Nil2)
qed

lemma stall_of_blocked:
  "(case stall_of writes opens names x of
      Some st \<Rightarrow> if 5 \<le> st_open_without_write st then [[st_name st]] else [] | None \<Rightarrow> [])
    = (if blocked writes opens x then [[stall_name names (fst x)]] else [])"
proof -
  obtain ino n total ts secs where x: "x = (ino, n, total, ts, secs)" by (cases x)
  let ?o = "count_of opens ino"
  have five: "(5 :: nat) \<le> unat ?o \<longleftrightarrow> 5 \<le> ?o" by (simp add: word_le_nat_alt)
  have "2 \<le> ?o" if "5 \<le> ?o" using that by (simp add: word_le_nat_alt)
  then show ?thesis
    by (simp add: x stall_of_def Let_def blocked_def five MIN_OPENS_FOR_STALL_def MAX_WRITES_FOR_STALL_def
        flip: stall_name_def)
qed

lemma stalls_blocked:
  "map (\<lambda>st. [st_name st]) (filter (\<lambda>st. 5 \<le> st_open_without_write st) (detect_stalls ac writes opens names))
    = map (\<lambda>(ino, _). [stall_name names ino]) (filter (blocked writes opens) ac)"
  unfolding detect_stalls_def
proof (induction ac)
  case (Cons x ac)
  then show ?case using stall_of_blocked [of writes opens names x]
    by (cases "stall_of writes opens names x"; cases "blocked writes opens x")
      (simp_all add: case_prod_unfold split: if_splits)
qed simp

text \<open>The suggestions of a session are by falling priority, and the urgent ones are those for the files opened four
  times in all and five times in the session with at most one write, in the order of the counts.\<close>

theorem urgent_suggestions:
  assumes "recompute co ac writes opens names files now = Some m"
  shows "sorted (map sg_priority (analyse m))
    \<and> takeWhile (\<lambda>s. sg_priority s = High) (analyse m) = filter (\<lambda>s. sg_priority s = High) (analyse m)
    \<and> map sg_related_files (filter (\<lambda>s. sg_priority s = High) (analyse m))
      = map (\<lambda>(ino, _). [stall_name names ino]) (filter (blocked writes opens) ac)"
proof -
  have sorted: "sorted (map sg_priority (analyse m))" by (simp add: analyse_def)
  have first: "takeWhile (\<lambda>s. sg_priority s = High) xs = filter (\<lambda>s. sg_priority s = High) xs"
    if "sorted (map sg_priority xs)" for xs
    using that
  proof (induction xs)
    case (Cons x xs)
    have le: "y \<le> High \<Longrightarrow> y = High" for y by (cases y) (simp_all add: less_eq_suggestion_priority_def)
    show ?case
    proof (cases "sg_priority x = High")
      case False
      then have "sg_priority y \<noteq> High" if "y \<in> set xs" for y using that Cons.prems le by fastforce
      with False show ?thesis by (simp add: filter_empty_conv)
    qed (use Cons in simp)
  qed simp
  have "wm_stalls m = detect_stalls ac writes opens names"
    using assms by (auto simp: recompute_def bind_eq_Some_conv)
  moreover have "map sg_related_files (map stall_suggestion xs) = map (\<lambda>st. [st_name st]) xs" for xs
    by (simp add: stall_suggestion_def)
  ultimately show ?thesis using sorted first [OF sorted] by (simp only: filter_high stalls_blocked simp_thms)
qed

theorem urgent_suggestions_witness:
  "\<exists>m. recompute [] [(2, [97], 9, 0, 9)] [] [(2, 6)] [(2, [97])] [2] 9 = Some m
    \<and> map sg_related_files (filter (\<lambda>s. sg_priority s = High) (analyse m)) = [[[97]]]"
proof -
  have "discover_projects [] [(2, [97], 9, 0, 9)] [(2, [97])] 9 \<noteq> None"
    by (subst discover_projects_None) (simp_all add: hm_wf_def strong_pairs_def)
  then obtain m where m: "recompute [] [(2, [97], 9, 0, 9)] [] [(2, 6)] [(2, [97])] [2] 9 = Some m"
    by (auto simp: recompute_def)
  have "map (\<lambda>(ino, _). [stall_name [(2, [97])] ino]) (filter (blocked [] [(2, 6)]) [(2, [97], 9, 0, 9)]) = [[[97]]]"
    by (simp add: blocked_def stall_name_def count_of_def hm_get_def)
  with m urgent_suggestions [OF m] show ?thesis by simp
qed

end
