(* ===== verification/F32_Bits.thy ===== *)
theory F32_Bits
  imports Floats
begin

text \<open>
  The bit patterns of \<open>f32\<close>, as \<open>to_le_bytes\<close> and \<open>from_le_bytes\<close> see them: a sign, eight bits of exponent and 23
  bits of fraction. The zero of negative sign reads as zero, and every NaN as one value.
\<close>

definition f32_from_bits :: "u32 \<Rightarrow> fp" where
  "f32_from_bits w =
     (let n = unat w; s = n div 2 ^ 31; e = n div 2 ^ 23 mod 2 ^ 8; m = n mod 2 ^ 23;
          sign = (\<lambda>x. if s = 0 then x else - x)
      in if e = 255 then (if m \<noteq> 0 then NaN else if s = 0 then PosInf else NegInf)
         else if e = 0 then Fin (sign (of_nat m * pow2 (- 149)))
         else Fin (sign (of_nat (2 ^ 23 + m) * pow2 (int e - 150))))"

fun f32_to_bits :: "fp \<Rightarrow> u32" where
  "f32_to_bits (Fin x) =
     (if x = 0 then 0
      else (let k = binade \<bar>x\<bar>; s = (if x < 0 then 2 ^ 31 else 0)
            in if - 126 \<le> k
               then of_nat (s + nat (k + 127) * 2 ^ 23 + (nat \<lfloor>\<bar>x\<bar> / pow2 (k - 23)\<rfloor> - 2 ^ 23))
               else of_nat (s + nat \<lfloor>\<bar>x\<bar> / pow2 (- 149)\<rfloor>)))"
| "f32_to_bits PosInf = 0x7F800000"
| "f32_to_bits NegInf = 0xFF800000"
| "f32_to_bits NaN = 0x7FC00000"

declare f32_to_bits.simps(1) [simp del]

text \<open>The values a float of 32 bits can have.\<close>

definition is_f32 :: "fp \<Rightarrow> bool" where
  "is_f32 a \<longleftrightarrow> (\<exists>w. a = f32_from_bits w)"

lemma binade_unique: assumes "pow2 k \<le> x" and "x < pow2 (k + 1)" shows "binade x = k"
proof -
  have x: "0 < x" using assms(1) pow2_pos(1) [of k] by linarith
  have "pow2 k < pow2 (binade x + 1)" "pow2 (binade x) < pow2 (k + 1)"
    using binade_gt [OF x] binade_le [OF x] assms by linarith+
  then show ?thesis by (simp add: pow2_less_iff)
qed

text \<open>Assembling the fields and reading them back.\<close>

lemma fields:
  assumes "s \<le> 1" and "e < 256" and "m < 2 ^ 23"
  defines "n \<equiv> unat (of_nat (s * 2 ^ 31 + e * 2 ^ 23 + m) :: u32)"
  shows "n div 2 ^ 31 = s" and "n div 2 ^ 23 mod 2 ^ 8 = e" and "n mod 2 ^ 23 = m"
proof -
  have "s * 2 ^ 31 + e * 2 ^ 23 + m < 2 ^ 32" using assms(1-3) by simp
  then have n: "n = s * 2 ^ 31 + e * 2 ^ 23 + m" unfolding n_def unat_of_nat by simp
  then have "n = (s * 2 ^ 8 + e) * 2 ^ 23 + m" by simp
  then have d: "n div 2 ^ 23 = s * 2 ^ 8 + e" "n mod 2 ^ 23 = m"
    using assms(3) div_mult_self3 [of "2 ^ 23" "s * 2 ^ 8 + e" m] mod_mult_self3 [of "s * 2 ^ 8 + e" "2 ^ 23" m]
    by (simp_all only: power_not_zero div_less mod_less add_0_right) simp_all
  show "n mod 2 ^ 23 = m" by (rule d(2))
  show "n div 2 ^ 23 mod 2 ^ 8 = e" using d(1) assms(2) by simp
  have "n div 2 ^ 31 = n div 2 ^ 23 div 2 ^ 8" by (simp flip: div_mult2_eq)
  then show "n div 2 ^ 31 = s" using d(1) assms(2) by simp
qed

lemma from_fields:
  assumes "s \<le> 1" and "e < 256" and "m < 2 ^ 23"
  shows "f32_from_bits (of_nat (s * 2 ^ 31 + e * 2 ^ 23 + m)) =
    (if e = 255 then (if m \<noteq> 0 then NaN else if s = 0 then PosInf else NegInf)
     else if e = 0 then Fin ((if s = 0 then 1 else - 1) * (of_nat m * pow2 (- 149)))
     else Fin ((if s = 0 then 1 else - 1) * (of_nat (2 ^ 23 + m) * pow2 (int e - 150))))"
  unfolding f32_from_bits_def Let_def fields [OF assms] by simp

lemma signed_abs:
  "0 < (a :: rat) \<Longrightarrow> x = (if s = 0 then 1 else - 1) * a \<Longrightarrow> \<bar>x\<bar> = a \<and> (x < 0 \<longleftrightarrow> s \<noteq> (0 :: nat)) \<and> x \<noteq> 0"
  by auto

text \<open>A value read from bits is written as bits that read the same.\<close>

lemma f32_from_to_fields:
  assumes "s \<le> 1" and "e < 255" and "m < 2 ^ 23" and "e \<noteq> 0 \<or> m \<noteq> 0"
  defines "x \<equiv> (if s = 0 then 1 else - 1) * (if e = 0 then of_nat m * pow2 (- 149) else of_nat (2 ^ 23 + m) * pow2 (int e - 150))"
  shows "f32_to_bits (Fin x) = of_nat (s * 2 ^ 31 + e * 2 ^ 23 + m)"
proof (cases "e = 0")
  case True
  let ?a = "of_nat m * pow2 (- 149)"
  have m: "0 < m" using True assms(4) by simp
  then have a: "0 < ?a" by simp
  have "x = (if s = 0 then 1 else - 1) * ?a" using True by (simp add: x_def)
  note ax = signed_abs [OF a this]
  have "(of_nat m :: rat) < of_nat (2 ^ 23)" using assms(3) by (simp only: of_nat_less_iff)
  then have "?a < 2 ^ 23 * pow2 (- 149)" by simp
  also have "\<dots> = pow2 (- 126)" using pow2_add_nat [of "- 149" 23] by simp
  finally have "pow2 (binade ?a) < pow2 (- 126)" using binade_le [OF a] by linarith
  then have "\<not> - 126 \<le> binade ?a" by (simp add: pow2_less_iff)
  moreover have "s = 0 \<or> s = 1" using assms(1) by linarith
  ultimately show ?thesis using ax True by (auto simp: f32_to_bits.simps Let_def)
next
  case False
  let ?a = "of_nat (2 ^ 23 + m) * pow2 (int e - 150)"
  have a: "0 < ?a" by (intro mult_pos_pos) simp_all
  have "x = (if s = 0 then 1 else - 1) * ?a" using False by (simp add: x_def)
  note ax = signed_abs [OF a this]
  have two: "pow2 (int e - 127) = 2 ^ 23 * pow2 (int e - 150)" "pow2 (int e - 127 + 1) = 2 ^ 24 * pow2 (int e - 150)"
    using pow2_add_nat [of "int e - 150" 23] pow2_add_nat [of "int e - 150" 24] by (simp_all add: ac_simps)
  have "(of_nat (2 ^ 23 + m) :: rat) < of_nat (2 ^ 24)" using assms(3) by (simp only: of_nat_less_iff) simp
  then have "?a < pow2 (int e - 127 + 1)" unfolding two by simp
  moreover have "pow2 (int e - 127) \<le> ?a" unfolding two by simp
  ultimately have k: "binade ?a = int e - 127" by (intro binade_unique) simp_all
  have "?a / pow2 (int e - 127 - 23) = of_nat (2 ^ 23 + m)" by simp
  then have "nat \<lfloor>?a / pow2 (int e - 127 - 23)\<rfloor> = 2 ^ 23 + m" by (simp only: floor_of_nat nat_int)
  then have fl: "nat \<lfloor>?a / pow2 (int e - 150)\<rfloor> = 2 ^ 23 + m" by simp
  obtain a where "a = ?a" by blast
  then have "\<bar>x\<bar> = a" "x < 0 \<longleftrightarrow> s \<noteq> 0" "x \<noteq> 0" "binade a = int e - 127" "nat \<lfloor>a / pow2 (int e - 150)\<rfloor> = 2 ^ 23 + m"
    using ax k fl by (simp_all only: simp_thms)
  moreover have "s = 0 \<or> s = 1" using assms(1) by linarith
  ultimately show ?thesis using False by (auto simp: f32_to_bits.simps Let_def)
qed

lemma is_f32_roundtrip: assumes "is_f32 a" shows "f32_from_bits (f32_to_bits a) = a"
proof -
  obtain w where w: "a = f32_from_bits w" using assms by (auto simp: is_f32_def)
  define n where "n = unat w"
  define s e m where "s = n div 2 ^ 31" and "e = n div 2 ^ 23 mod 2 ^ 8" and "m = n mod 2 ^ 23"
  have n: "n < 2 ^ 32" using unsigned_less [where 'a = nat, of w] by (simp add: n_def)
  have s: "s \<le> 1" and e: "e < 256" and m: "m < 2 ^ 23" using n by (simp_all add: s_def e_def m_def)
  have "n = s * 2 ^ 31 + e * 2 ^ 23 + m"
  proof -
    have "n = n div 2 ^ 23 * 2 ^ 23 + m" by (simp add: m_def)
    moreover have "n div 2 ^ 23 = n div 2 ^ 23 div 2 ^ 8 * 2 ^ 8 + e" by (simp add: e_def)
    moreover have "n div 2 ^ 23 div 2 ^ 8 = s" by (simp add: s_def flip: div_mult2_eq)
    ultimately show ?thesis by simp
  qed
  then have wn: "w = of_nat (s * 2 ^ 31 + e * 2 ^ 23 + m)" using n by (simp only: word_unat_eq_iff unat_of_nat n_def [symmetric]) simp
  note val = from_fields [OF s e m]
  show ?thesis
  proof (cases "e = 255")
    case True
    have "f32_from_bits 0x7F800000 = PosInf" "f32_from_bits 0xFF800000 = NegInf" "f32_from_bits 0x7FC00000 = NaN"
      using from_fields [of 0 255 0] from_fields [of 1 255 0] from_fields [of 0 255 "2 ^ 22"] by simp_all
    then show ?thesis using True val unfolding w wn by auto
  next
    case False
    then have e': "e < 255" using e by simp
    show ?thesis
    proof (cases "e = 0 \<and> m = 0")
      case True
      then have "a = Fin 0" using val unfolding w wn by simp
      moreover have "f32_from_bits 0 = Fin 0" using from_fields [of 0 0 0] by simp
      ultimately show ?thesis by (simp add: f32_to_bits.simps)
    next
      case nonzero: False
      let ?x = "(if s = 0 then 1 else - 1) * (if e = 0 then of_nat m * pow2 (- 149) else of_nat (2 ^ 23 + m) * pow2 (int e - 150))"
      have "a = Fin ?x" using val False unfolding w wn by simp
      moreover have "e \<noteq> 0 \<or> m \<noteq> 0" using nonzero by auto
      ultimately have "f32_to_bits a = w" unfolding wn by (simp only: f32_from_to_fields [OF s e' m])
      then show ?thesis by (simp add: w)
    qed
  qed
qed

section \<open>Results of arithmetic are such values\<close>

lemma is_f32_special [simp]: "is_f32 (Fin 0)" "is_f32 PosInf" "is_f32 NegInf" "is_f32 NaN"
proof -
  have "f32_from_bits (of_nat (0 * 2 ^ 31 + 0 * 2 ^ 23 + 0)) = Fin 0" "f32_from_bits (of_nat (0 * 2 ^ 31 + 255 * 2 ^ 23 + 0)) = PosInf"
    "f32_from_bits (of_nat (1 * 2 ^ 31 + 255 * 2 ^ 23 + 0)) = NegInf" "f32_from_bits (of_nat (0 * 2 ^ 31 + 255 * 2 ^ 23 + 1)) = NaN"
    by (subst from_fields, simp, simp, simp, simp)+
  then show "is_f32 (Fin 0)" "is_f32 PosInf" "is_f32 NegInf" "is_f32 NaN" unfolding is_f32_def by metis+
qed

lemma is_f32_subnormal: "m < 2 ^ 23 \<Longrightarrow> \<bar>y\<bar> = of_nat m * pow2 (- 149) \<Longrightarrow> is_f32 (Fin y)"
proof -
  assume m: "m < 2 ^ 23" "\<bar>y\<bar> = of_nat m * pow2 (- 149)"
  have "f32_from_bits (of_nat (of_bool (y < 0) * 2 ^ 31 + 0 * 2 ^ 23 + m)) = Fin y"
    using m by (subst from_fields) auto
  then show "is_f32 (Fin y)" unfolding is_f32_def by metis
qed

lemma is_f32_normal: "e < 255 \<Longrightarrow> 0 < e \<Longrightarrow> m < 2 ^ 23 \<Longrightarrow> \<bar>y\<bar> = of_nat (2 ^ 23 + m) * pow2 (int e - 150) \<Longrightarrow> is_f32 (Fin y)"
proof -
  assume e: "e < 255" "0 < e" and m: "m < 2 ^ 23" and y: "\<bar>y\<bar> = of_nat (2 ^ 23 + m) * pow2 (int e - 150)"
  have "f32_from_bits (of_nat (of_bool (y < 0) * 2 ^ 31 + e * 2 ^ 23 + m)) = Fin y"
    using e m y by (subst from_fields) (auto simp: not_less)
  then show "is_f32 (Fin y)" unfolding is_f32_def by metis
qed

lemma is_f32_scaled:
  assumes "n \<le> 2 ^ 24" and "- 149 \<le> k" and "2 ^ 23 \<le> n \<or> k = - 149" and "\<bar>y\<bar> = of_nat n * pow2 k" and "\<bar>y\<bar> < pow2 128"
  shows "is_f32 (Fin y)"
proof -
  consider "n < 2 ^ 23" | "2 ^ 23 \<le> n" "n < 2 ^ 24" | "n = 2 ^ 24" using assms(1) by linarith
  then show ?thesis
  proof cases
    case 1
    then show ?thesis using assms(3,4) by (intro is_f32_subnormal [of n]) auto
  next
    case 2
    have "(of_nat (2 ^ 23) :: rat) \<le> of_nat n" using 2(1) by (simp only: of_nat_le_iff)
    then have "2 ^ 23 * pow2 k \<le> \<bar>y\<bar>" unfolding assms(4) by (intro mult_right_mono less_imp_le [OF pow2_pos(1)]) simp
    then have "pow2 (k + 23) < pow2 128" using pow2_add_nat [of k 23] assms(5) by (simp add: ac_simps)
    then have k: "k < 105" by (simp add: pow2_less_iff)
    show ?thesis
      by (rule is_f32_normal [of "nat (k + 150)" "n - 2 ^ 23"]) (use k assms(2,4) 2 in \<open>simp_all add: of_nat_diff\<close>)
  next
    case 3
    have y: "\<bar>y\<bar> = 2 ^ 23 * pow2 (k + 1)" unfolding assms(4) 3 pow2_Suc by simp
    then have "pow2 (k + 24) < pow2 128" using pow2_add_nat [of "k + 1" 23] assms(5) by (simp add: ac_simps)
    then have k: "k < 104" by (simp add: pow2_less_iff)
    show ?thesis
      by (rule is_f32_normal [of "nat (k + 151)" 0]) (use k assms(2) y in \<open>simp_all add: add.commute\<close>)
  qed
qed

lemma nat_abs_bounds:
  fixes n :: int
  shows "n \<le> 2 ^ 24 \<Longrightarrow> - (2 ^ 24) \<le> n \<Longrightarrow> nat \<bar>n\<bar> \<le> 2 ^ 24" and "2 ^ 23 \<le> n \<or> n \<le> - (2 ^ 23) \<Longrightarrow> 2 ^ 23 \<le> nat \<bar>n\<bar>"
  by auto

lemma is_f32_round [simp]: "is_f32 (fp_round binary32 x)"
proof (cases "x = 0")
  case False
  let ?step = "max (binade \<bar>x\<bar> - 23) (- 149)"
  let ?n = "round_even (x / pow2 ?step)"
  have ax: "0 < \<bar>x\<bar>" using False by simp
  have "\<bar>x\<bar> < pow2 (binade \<bar>x\<bar> + 1)" by (rule binade_gt [OF ax])
  also have "\<dots> \<le> pow2 (?step + 24)" by (intro pow2_mono) simp
  also have "\<dots> = 2 ^ 24 * pow2 ?step" using pow2_add_nat [of ?step 24] by simp
  finally have bound: "\<bar>x / pow2 ?step\<bar> \<le> 2 ^ 24" by (simp add: abs_divide divide_le_eq)
  then have "x / pow2 ?step \<le> of_int (2 ^ 24)" "of_int (- (2 ^ 24)) \<le> x / pow2 ?step" unfolding abs_le_iff by simp_all
  from round_even_bounds(1) [OF this(1)] round_even_bounds(2) [OF this(2)]
  have n: "nat \<bar>?n\<bar> \<le> 2 ^ 24" by (intro nat_abs_bounds(1))
  have big: "2 ^ 23 \<le> nat \<bar>?n\<bar>" if "?step \<noteq> - 149"
  proof -
    have "?step = binade \<bar>x\<bar> - 23" using that by linarith
    then have "2 ^ 23 * pow2 ?step \<le> \<bar>x\<bar>" using pow2_add_nat [of ?step 23] binade_le [OF ax] by simp
    then have "2 ^ 23 \<le> \<bar>x / pow2 ?step\<bar>" by (simp add: abs_divide le_divide_eq abs_of_pos)
    then have "of_int (2 ^ 23) \<le> x / pow2 ?step \<or> x / pow2 ?step \<le> of_int (- (2 ^ 23))" by (cases "0 \<le> x / pow2 ?step") (simp_all only: abs_of_nonneg not_le abs_of_neg, simp_all)
    then have "2 ^ 23 \<le> ?n \<or> ?n \<le> - (2 ^ 23)" using round_even_bounds by blast
    then show ?thesis by (rule nat_abs_bounds(2))
  qed
  let ?y = "of_int ?n * pow2 ?step"
  show ?thesis
  proof (cases "\<bar>?y\<bar> < pow2 128")
    case True
    have "\<bar>?y\<bar> = of_nat (nat \<bar>?n\<bar>) * pow2 ?step" by (simp add: abs_mult abs_of_pos)
    from is_f32_scaled [OF n _ _ this True] big have "is_f32 (Fin ?y)" by linarith
    then show ?thesis using True False by (simp add: fp_round_def binary32_def Let_def)
  qed (use False in \<open>auto simp: fp_round_def binary32_def Let_def\<close>)
qed (simp add: fp_round_def)

lemma is_f32_add [simp]: "is_f32 (fp_add binary32 a b)"
  by (cases a; cases b) simp_all

lemma is_f32_mul [simp]: "is_f32 (fp_mul binary32 a b)"
  by (cases a; cases b) (simp_all add: inf_of_def)

lemma is_f32_div [simp]: "is_f32 (fp_div binary32 a b)"
  by (cases a; cases b) (simp_all add: inf_of_def)

lemma is_f32_sub [simp]: "is_f32 (fp_sub binary32 a b)"
  by (simp add: fp_sub_def)

end
