(* ===== verification/Neural.thy ===== *)
theory Neural
  imports Importance F32_Bits
begin

text \<open>
  \<open>src/ai/neural.rs\<close>: a perceptron of one hidden layer that is trained on every access and predicts the next file,
  in \<open>f32\<close> with rounding, and its byte format. The square root, sine and exponential are the fields of \<open>fm\<close>;
  \<open>None\<close> is a panic.
\<close>

record float_math =
  fm_sqrt :: "fp \<Rightarrow> fp"
  fm_sin :: "fp \<Rightarrow> fp"
  fm_exp :: "fp \<Rightarrow> fp"

section \<open>State\<close>

definition INPUT_SIZE :: nat where "INPUT_SIZE = 8"
definition HIDDEN_SIZE :: nat where "HIDDEN_SIZE = 32"
definition LR :: fp where "LR = f32 (5 / 100)"

text \<open>\<open>std::f32::consts::PI\<close>.\<close>

definition PI32 :: fp where "PI32 = Fin (13176795 / 4194304)"

record neural =
  nn_w1 :: "fp list list"
  nn_b1 :: "fp list"
  nn_w2 :: "fp list list"
  nn_b2 :: "fp list"
  nn_ino_to_idx :: "(u64, nat) hmap"
  nn_idx_to_ino :: "u64 list"
  nn_idx_to_name :: "rstring list"
  nn_history :: "u64 list"
  nn_total_accesses :: u64
  nn_correct_predictions :: u64

definition relu :: "fp \<Rightarrow> fp" where "relu x = fp_max x (Fin 0)"
definition relu_grad :: "fp \<Rightarrow> fp" where "relu_grad x = (if fp_less (Fin 0) x then Fin 1 else Fin 0)"

definition softmax :: "float_math \<Rightarrow> fp list \<Rightarrow> fp list" where
  "softmax fm v =
     (let top = foldl fp_max NegInf v;
          exps = map (\<lambda>x. fm_exp fm (sub32 x top)) v;
          total = foldl add32 (Fin 0) exps
      in map (\<lambda>e. div32 e total) exps)"

definition neural_new :: "float_math \<Rightarrow> neural" where
  "neural_new fm =
     (let scale1 = fm_sqrt fm (div32 (Fin 2) (f32_of_nat INPUT_SIZE)) in
      \<lparr>nn_w1 = map (\<lambda>i. map (\<lambda>j. mul32 (fm_sin fm (mul32 (mul32 (f32_of_nat (i * INPUT_SIZE + j + 1)) PI32) (f32 (17321 / 100000)))) scale1)
                     [0..<INPUT_SIZE]) [0..<HIDDEN_SIZE],
       nn_b1 = replicate HIDDEN_SIZE (Fin 0), nn_w2 = [], nn_b2 = [], nn_ino_to_idx = [], nn_idx_to_ino = [],
       nn_idx_to_name = [], nn_history = [], nn_total_accesses = 0, nn_correct_predictions = 0\<rparr>)"

definition neural_register :: "float_math \<Rightarrow> u64 \<Rightarrow> rstring \<Rightarrow> neural \<Rightarrow> nat \<times> neural" where
  "neural_register fm ino name n =
     (case hm_get (nn_ino_to_idx n) ino of
        Some idx \<Rightarrow> (idx, n)
      | None \<Rightarrow>
          (let idx = length (nn_idx_to_ino n);
               scale2 = fm_sqrt fm (div32 (Fin 2) (f32_of_nat HIDDEN_SIZE));
               new_weights = map (\<lambda>k. mul32 (fm_sin fm (mul32 (f32_of_nat (idx * HIDDEN_SIZE + k + 1)) (f32 (29731 / 100000)))) scale2)
                               [0..<HIDDEN_SIZE]
           in (idx, n\<lparr>nn_ino_to_idx := hm_insert ino idx (nn_ino_to_idx n),
                      nn_idx_to_ino := nn_idx_to_ino n @ [ino], nn_idx_to_name := nn_idx_to_name n @ [name],
                      nn_w2 := nn_w2 n @ [new_weights], nn_b2 := nn_b2 n @ [Fin 0]\<rparr>)))"

definition encode_history :: "neural \<Rightarrow> fp list" where
  "encode_history n =
     (let vocab = f32_of_nat (max (length (nn_idx_to_ino n)) 1);
          recent = take INPUT_SIZE (rev (nn_history n))
      in map (\<lambda>i. if i < length recent
                  then (case hm_get (nn_ino_to_idx n) (recent ! i) of
                          Some idx \<Rightarrow> div32 (f32_of_nat idx) vocab | None \<Rightarrow> Fin 0)
                  else Fin 0) [0..<INPUT_SIZE])"

section \<open>Forward pass and training\<close>

definition dot :: "fp \<Rightarrow> fp list \<Rightarrow> fp list \<Rightarrow> fp" where
  "dot b ws xs = foldl (\<lambda>s (w, x). add32 s (mul32 w x)) b (zip ws xs)"

definition layer :: "fp list list \<Rightarrow> fp list \<Rightarrow> fp list \<Rightarrow> fp list" where
  "layer ws bs xs = map2 (\<lambda>row b. dot b row xs) ws bs"

definition forward :: "float_math \<Rightarrow> fp list \<Rightarrow> neural \<Rightarrow> fp list \<times> fp list \<times> fp list" where
  "forward fm input n =
     (let hidden = map relu (layer (nn_w1 n) (nn_b1 n) input) in
      if nn_w2 n = [] then (hidden, [], [])
      else let logits = layer (nn_w2 n) (nn_b2 n) hidden in (hidden, logits, softmax fm logits))"

definition axpy :: "fp \<Rightarrow> fp list \<Rightarrow> fp list \<Rightarrow> fp list" where
  "axpy d ws xs = map2 (\<lambda>w x. sub32 w (mul32 (mul32 LR d) x)) ws xs"

text \<open>The hidden gradient is taken from the output weights after their update.\<close>

definition train_step :: "float_math \<Rightarrow> fp list \<Rightarrow> nat \<Rightarrow> neural \<Rightarrow> neural option" where
  "train_step fm input target n =
     (if length (nn_w2 n) < 2 then Some n
      else case forward fm input n of (hidden, _, probs) \<Rightarrow>
        if length probs \<le> target then None
        else
          (let d_logits = probs[target := sub32 (probs ! target) (Fin 1)];
               b2 = map2 (\<lambda>b d. sub32 b (mul32 LR d)) (nn_b2 n) d_logits;
               w2 = map2 (\<lambda>row d. axpy d row hidden) (nn_w2 n) d_logits;
               d_hidden = map (\<lambda>j. foldl (\<lambda>s (d, row). add32 s (mul32 d (row ! j))) (Fin 0) (zip d_logits w2)) [0..<HIDDEN_SIZE];
               pre_hidden = layer (nn_w1 n) (nn_b1 n) input;
               grads = map2 (\<lambda>d p. mul32 d (relu_grad p)) d_hidden pre_hidden
           in Some (n\<lparr>nn_w2 := w2, nn_b2 := b2, nn_w1 := map2 (\<lambda>row g. axpy g row input) (nn_w1 n) grads,
                      nn_b1 := map2 (\<lambda>b g. sub32 b (mul32 LR g)) (nn_b1 n) grads\<rparr>)))"

definition neural_record :: "float_math \<Rightarrow> u64 \<Rightarrow> rstring \<Rightarrow> neural \<Rightarrow> neural option" where
  "neural_record fm ino name n =
     (case neural_register fm ino name n of (target, n) \<Rightarrow>
        map_option (\<lambda>n. let history = nn_history n @ [ino] in
            n\<lparr>nn_history := (if INPUT_SIZE < length history then tl history else history),
              nn_total_accesses := nn_total_accesses n + 1\<rparr>)
          (if 2 \<le> length (nn_history n) \<and> 2 \<le> length (nn_w2 n)
           then train_step fm (encode_history n) target n else Some n))"

section \<open>Prediction\<close>

text \<open>\<open>max_by(partial_cmp(..).unwrap())\<close>: the last of several maxima; comparing a NaN panics.\<close>

definition max_by_score :: "('a \<Rightarrow> fp) \<Rightarrow> 'a list \<Rightarrow> 'a option option" where
  "max_by_score key xs =
     (if 2 \<le> length xs \<and> list_ex (\<lambda>x. key x = NaN) xs then None
      else Some (case xs of [] \<Rightarrow> None
                 | x # ys \<Rightarrow> Some (foldl (\<lambda>m y. if fp_less (key y) (key m) then m else y) x ys)))"

definition neural_top_prediction :: "float_math \<Rightarrow> neural \<Rightarrow> (u64 \<times> rstring \<times> fp) option option" where
  "neural_top_prediction fm n =
     (if length (nn_w2 n) < 2 then Some None
      else case forward fm (encode_history n) n of (_, _, probs) \<Rightarrow>
        if probs = [] then Some None
        else Option.bind (max_by_score snd (enumerate 0 probs)) (\<lambda>best. case best of
            None \<Rightarrow> Some None
          | Some (best_idx, best_prob) \<Rightarrow>
              (let last_ino = (if nn_history n = [] then None else Some (last (nn_history n)));
                   best_ino = nn_idx_to_ino n ! best_idx
               in if Some best_ino = last_ino
                  then map_option (\<lambda>ranked. case take 1 (drop 1 ranked) of
                           (idx, prob) # _ \<Rightarrow> Some (nn_idx_to_ino n ! idx, nn_idx_to_name n ! idx, prob)
                         | [] \<Rightarrow> None)
                         (sort_by_score snd (enumerate 0 probs))
                  else Some (Some (best_ino, nn_idx_to_name n ! best_idx, best_prob)))))"

definition neural_accuracy :: "neural \<Rightarrow> fp" where
  "neural_accuracy n =
     (if nn_total_accesses n < 2 then Fin 0
      else fp_div binary64 (fp_round binary64 (of_nat (unat (nn_correct_predictions n))))
             (fp_round binary64 (of_nat (unat (nn_total_accesses n - 1)))))"

definition vocab_size :: "neural \<Rightarrow> nat" where
  "vocab_size n = length (nn_idx_to_ino n)"

section \<open>The byte format\<close>

definition f32_to_le :: "fp \<Rightarrow> bytes" where
  "f32_to_le a = u32_to_le (f32_to_bits a)"

definition row_bytes :: "fp list \<times> fp \<Rightarrow> bytes" where
  "row_bytes = (\<lambda>(row, b). concat (map f32_to_le row) @ f32_to_le b)"

definition vocab_bytes :: "u64 \<times> rstring \<Rightarrow> bytes" where
  "vocab_bytes = (\<lambda>(ino, name). u64_to_le ino @ u32_to_le (of_nat (length name)) @ name)"

definition neural_to_bytes :: "neural \<Rightarrow> bytes" where
  "neural_to_bytes n =
     u64_to_le (nn_total_accesses n) @ u64_to_le (nn_correct_predictions n)
     @ u32_to_le (of_nat (length (nn_idx_to_ino n)))
     @ concat (map vocab_bytes (zip (nn_idx_to_ino n) (nn_idx_to_name n)))
     @ concat (map row_bytes (zip (nn_w1 n) (nn_b1 n)))
     @ concat (map row_bytes (zip (nn_w2 n) (nn_b2 n)))"

definition read_f32 :: "fp reader" where
  "read_f32 bs = do { (w, bs) \<leftarrow> read_u32 bs; Some (f32_from_bits w, bs) }"

definition read_lossy :: "nat \<Rightarrow> rstring reader" where
  "read_lossy len bs = (if length bs < len then None else Some (utf8_lossy (take len bs), drop len bs))"

definition read_vocab :: "(u64 \<times> rstring) reader" where
  "read_vocab bs = do {
     (ino, bs) \<leftarrow> read_u64 bs;
     (n_len, bs) \<leftarrow> read_u32 bs;
     (name, bs) \<leftarrow> read_lossy (unat n_len) bs;
     Some ((ino, name), bs)
   }"

definition read_row :: "nat \<Rightarrow> (fp list \<times> fp) reader" where
  "read_row width bs = do {
     (row, bs) \<leftarrow> read_times width read_f32 bs;
     (b, bs) \<leftarrow> read_f32 bs;
     Some ((row, b), bs)
   }"

definition neural_from_bytes :: "bytes \<Rightarrow> neural option" where
  "neural_from_bytes data =
     (if length data < 16 then None
      else do {
        (total_accesses, bs) \<leftarrow> read_u64 data;
        (correct_predictions, bs) \<leftarrow> read_u64 bs;
        (vocab_len, bs) \<leftarrow> read_u32 bs;
        (vocab, bs) \<leftarrow> read_times (unat vocab_len) read_vocab bs;
        (rows1, bs) \<leftarrow> read_times HIDDEN_SIZE (read_row INPUT_SIZE) bs;
        (rows2, bs) \<leftarrow> read_times (unat vocab_len) (read_row HIDDEN_SIZE) bs;
        Some \<lparr>nn_w1 = map fst rows1, nn_b1 = map snd rows1, nn_w2 = map fst rows2, nn_b2 = map snd rows2,
              nn_ino_to_idx = foldl (\<lambda>m (i, ino). hm_insert ino i m) [] (enumerate 0 (map fst vocab)),
              nn_idx_to_ino = map fst vocab, nn_idx_to_name = map snd vocab, nn_history = [],
              nn_total_accesses = total_accesses, nn_correct_predictions = correct_predictions\<rparr>
      })"

section \<open>The shape of the network\<close>

definition matrix_ok :: "nat \<Rightarrow> nat \<Rightarrow> fp list list \<Rightarrow> bool" where
  "matrix_ok rows cols m \<longleftrightarrow> length m = rows \<and> (\<forall>row \<in> set m. length row = cols \<and> list_all is_f32 row)"

definition neural_ok :: "neural \<Rightarrow> bool" where
  "neural_ok n \<longleftrightarrow> matrix_ok HIDDEN_SIZE INPUT_SIZE (nn_w1 n) \<and> length (nn_b1 n) = HIDDEN_SIZE \<and> list_all is_f32 (nn_b1 n)
     \<and> matrix_ok (vocab_size n) HIDDEN_SIZE (nn_w2 n) \<and> length (nn_b2 n) = vocab_size n \<and> list_all is_f32 (nn_b2 n)
     \<and> length (nn_idx_to_name n) = vocab_size n \<and> distinct (nn_idx_to_ino n)
     \<and> nn_ino_to_idx n = zip (nn_idx_to_ino n) [0..<vocab_size n]
     \<and> length (nn_history n) \<le> INPUT_SIZE \<and> set (nn_history n) \<subseteq> set (nn_idx_to_ino n)"

lemma matrix_ok_map2:
  assumes "matrix_ok rows cols m" and "length xs = rows"
    and "\<And>row x. length row = cols \<Longrightarrow> list_all is_f32 row \<Longrightarrow> length (f row x) = cols \<and> list_all is_f32 (f row x)"
  shows "matrix_ok rows cols (map2 f m xs)"
  using assms by (auto simp: matrix_ok_def dest: set_zip_leftD)

lemma axpy_ok: "length ws = k \<Longrightarrow> length xs = k \<Longrightarrow> length (axpy d ws xs) = k \<and> list_all is_f32 (axpy d ws xs)"
  by (auto simp: axpy_def list_all_iff)

lemma matrix_ok_axpy: "matrix_ok rows cols m \<Longrightarrow> length xs = rows \<Longrightarrow> length v = cols \<Longrightarrow> matrix_ok rows cols (map2 (\<lambda>row d. axpy d row v) m xs)"
  by (rule matrix_ok_map2) (simp_all add: axpy_ok)

lemma length_layer [simp]: "length (layer ws bs xs) = min (length ws) (length bs)"
  by (simp add: layer_def)

lemma length_softmax [simp]: "length (softmax fm v) = length v"
  by (simp add: softmax_def Let_def)

lemma length_encode_history [simp]: "length (encode_history n) = INPUT_SIZE"
  by (simp add: encode_history_def Let_def)

lemma neural_new_ok: "neural_ok (neural_new fm)"
  by (simp add: neural_ok_def neural_new_def matrix_ok_def vocab_size_def list_all_iff HIDDEN_SIZE_def INPUT_SIZE_def)

lemma index_of_zip: "distinct xs \<Longrightarrow> hm_get (zip xs [0..<length xs]) x = Some i \<longleftrightarrow> i < length xs \<and> xs ! i = x"
proof
  assume dist: "distinct xs" and i: "hm_get (zip xs [0..<length xs]) x = Some i"
  then have "x \<in> set xs" using map_of_zip_is_None [of xs "[0..<length xs]" x] by (force simp: hm_get_def)
  then obtain j where "j < length xs" "xs ! j = x" by (auto simp: in_set_conv_nth)
  then show "i < length xs \<and> xs ! i = x"
    using map_of_zip_nth [of xs "[0..<length xs]" j] dist i by (auto simp: hm_get_def)
next
  assume "distinct xs" "i < length xs \<and> xs ! i = x"
  then show "hm_get (zip xs [0..<length xs]) x = Some i"
    using map_of_zip_nth [of xs "[0..<length xs]" i] by (auto simp: hm_get_def)
qed

lemma register_ok:
  assumes "neural_ok n" and "neural_register fm ino name n = (target, n')"
  shows "neural_ok n' \<and> target < vocab_size n' \<and> nn_idx_to_ino n' ! target = ino
    \<and> nn_history n' = nn_history n \<and> nn_correct_predictions n' = nn_correct_predictions n
    \<and> set (nn_idx_to_ino n') = insert ino (set (nn_idx_to_ino n))"
proof (cases "hm_get (nn_ino_to_idx n) ino")
  case (Some idx)
  then have "idx < vocab_size n" "nn_idx_to_ino n ! idx = ino"
    using assms(1) index_of_zip [of "nn_idx_to_ino n" ino idx] by (auto simp: neural_ok_def vocab_size_def)
  moreover from this have "ino \<in> set (nn_idx_to_ino n)" by (auto simp: vocab_size_def dest: nth_mem)
  ultimately show ?thesis using Some assms by (simp add: neural_register_def insert_absorb)
next
  case None
  then have new: "ino \<notin> set (nn_idx_to_ino n)"
    using assms(1) map_of_zip_is_None [of "nn_idx_to_ino n" "[0..<vocab_size n]" ino]
    by (simp add: neural_ok_def hm_get_def vocab_size_def)
  show ?thesis
    using assms None new
    by (auto simp: neural_register_def Let_def neural_ok_def vocab_size_def matrix_ok_def list_all_iff hm_insert_new)
qed

lemma train_step_ok:
  assumes "neural_ok n" and "target < vocab_size n" and "length input = INPUT_SIZE"
  shows "\<exists>n'. train_step fm input target n = Some n' \<and> neural_ok n' \<and> nn_history n' = nn_history n
    \<and> nn_correct_predictions n' = nn_correct_predictions n \<and> nn_idx_to_ino n' = nn_idx_to_ino n"
proof (cases "length (nn_w2 n) < 2")
  case True
  then show ?thesis using assms(1) by (simp add: train_step_def)
next
  case False
  have w2: "length (nn_w2 n) = vocab_size n" "length (nn_b2 n) = vocab_size n" "length (nn_w1 n) = HIDDEN_SIZE" "length (nn_b1 n) = HIDDEN_SIZE"
    using assms(1) by (simp_all add: neural_ok_def matrix_ok_def)
  obtain hidden logits probs where f: "forward fm input n = (hidden, logits, probs)" by (cases "forward fm input n")
  have len: "length hidden = HIDDEN_SIZE" "length probs = vocab_size n"
    using f w2 False by (auto simp: forward_def Let_def split: if_splits)
  show ?thesis
    using False assms f len w2
    by (auto simp: train_step_def Let_def neural_ok_def vocab_size_def list_all_iff set_zip intro!: matrix_ok_axpy)
qed

text \<open>Recording an access never panics and keeps the shape of the network, its vocabulary without duplicates, its
  weights floats of 32 bits; the count of correct predictions is never touched, so the accuracy stays zero.\<close>

lemma neural_record_ok:
  assumes "neural_ok n"
  shows "\<exists>n'. neural_record fm ino name n = Some n' \<and> neural_ok n' \<and> last (nn_history n') = ino
    \<and> nn_correct_predictions n' = nn_correct_predictions n \<and> set (nn_idx_to_ino n') = insert ino (set (nn_idx_to_ino n))"
proof -
  obtain target n1 where r: "neural_register fm ino name n = (target, n1)" by fastforce
  note reg = register_ok [OF assms r]
  have "\<exists>n2. (if 2 \<le> length (nn_history n1) \<and> 2 \<le> length (nn_w2 n1) then train_step fm (encode_history n1) target n1 else Some n1)
      = Some n2 \<and> neural_ok n2 \<and> nn_history n2 = nn_history n1 \<and> nn_correct_predictions n2 = nn_correct_predictions n1
        \<and> nn_idx_to_ino n2 = nn_idx_to_ino n1"
    using train_step_ok [of n1 target "encode_history n1" fm] reg by simp
  then obtain n2 where n2: "(if 2 \<le> length (nn_history n1) \<and> 2 \<le> length (nn_w2 n1) then train_step fm (encode_history n1) target n1 else Some n1)
      = Some n2" "neural_ok n2" "nn_history n2 = nn_history n1" "nn_correct_predictions n2 = nn_correct_predictions n1"
      "nn_idx_to_ino n2 = nn_idx_to_ino n1" by blast
  let ?h = "nn_history n2 @ [ino]"
  let ?n = "n2\<lparr>nn_history := (if INPUT_SIZE < length ?h then tl ?h else ?h), nn_total_accesses := nn_total_accesses n2 + 1\<rparr>"
  have "neural_record fm ino name n = Some ?n" using r n2(1) by (simp add: neural_record_def Let_def)
  moreover have "ino \<in> set (nn_idx_to_ino n2)" using reg n2(5) by (auto simp: vocab_size_def dest: nth_mem)
  then have "neural_ok ?n"
    using n2(2) by (cases "nn_history n2") (auto simp: neural_ok_def vocab_size_def INPUT_SIZE_def)
  moreover have "last (nn_history ?n) = ino" by (cases "nn_history n2") (simp_all add: INPUT_SIZE_def)
  moreover have "nn_correct_predictions ?n = nn_correct_predictions n" "set (nn_idx_to_ino ?n) = insert ino (set (nn_idx_to_ino n))"
    using reg n2(4,5) by simp_all
  ultimately show ?thesis by blast
qed

definition no_math :: float_math where "no_math = \<lparr>fm_sqrt = id, fm_sin = id, fm_exp = id\<rparr>"

lemma zero_div_count:
  assumes "0 < m" shows "fp_div binary64 (Fin 0) (fp_round binary64 (of_nat m)) = Fin 0"
proof -
  have "pow2 0 \<le> (of_nat m :: rat)" using assms by simp
  from fp_round_ge [OF this, of binary64]
  show ?thesis by (auto simp: fp_round_def [of _ 0])
qed

definition record_all :: "float_math \<Rightarrow> (u64 \<times> rstring) list \<Rightarrow> neural \<Rightarrow> neural option" where
  "record_all fm accesses n = fold (\<lambda>(ino, name) r. Option.bind r (neural_record fm ino name)) accesses (Some n)"

text \<open>C31: Along any accesses from a new network recording never panics, the matrices keep their shapes with one output
  for each file of the vocabulary, and the accuracy is zero: correct predictions are never counted.\<close>

theorem neural_keeps_shape:
  "\<exists>n. record_all fm accesses (neural_new fm) = Some n \<and> neural_ok n \<and> fst ` set accesses \<subseteq> set (nn_idx_to_ino n)
    \<and> neural_accuracy n = Fin 0"
proof -
  have "\<exists>n. record_all fm accesses (neural_new fm) = Some n \<and> neural_ok n \<and> fst ` set accesses \<subseteq> set (nn_idx_to_ino n)
      \<and> nn_correct_predictions n = 0"
  proof (induction accesses rule: rev_induct)
    case Nil
    have "nn_correct_predictions (neural_new fm) = 0" by (simp add: neural_new_def Let_def)
    then show ?case using neural_new_ok by (simp add: record_all_def)
  next
    case (snoc x xs)
    obtain ino name where x: "x = (ino, name)" by fastforce
    from snoc obtain n where n: "record_all fm xs (neural_new fm) = Some n" "neural_ok n"
      "fst ` set xs \<subseteq> set (nn_idx_to_ino n)" "nn_correct_predictions n = 0" by blast
    from neural_record_ok [OF n(2), of fm ino name] obtain n' where n': "neural_record fm ino name n = Some n'" "neural_ok n'"
      "nn_correct_predictions n' = nn_correct_predictions n" "set (nn_idx_to_ino n') = insert ino (set (nn_idx_to_ino n))" by blast
    then show ?case using n by (auto simp: record_all_def x)
  qed
  moreover have "neural_accuracy n = Fin 0" if "nn_correct_predictions n = 0" for n
  proof (cases "nn_total_accesses n < 2")
    case False
    then have "nn_total_accesses n \<noteq> 1" by auto
    then have "0 < unat (nn_total_accesses n - 1)" by (simp add: unat_gt_0)
    from zero_div_count [OF this] show ?thesis using that False by (simp add: neural_accuracy_def fp_round_def [of _ 0])
  qed (simp add: neural_accuracy_def)
  ultimately show ?thesis by metis
qed

section \<open>What is predicted\<close>

lemma max_by_score_max:
  assumes "xs \<noteq> []" and "\<And>x. x \<in> set xs \<Longrightarrow> key x \<noteq> NaN"
  shows "\<exists>m \<in> set xs. max_by_score key xs = Some (Some m) \<and> (\<forall>x \<in> set xs. fp_le (key x) (key m))"
proof -
  have fold_max: "\<exists>m \<in> insert x (set ys). foldl (\<lambda>m y. if fp_less (key y) (key m) then m else y) x ys = m
      \<and> (\<forall>y \<in> insert x (set ys). fp_le (key y) (key m))"
    if "\<forall>z \<in> insert x (set ys). key z \<noteq> NaN" for x ys
    using that
  proof (induction ys arbitrary: x)
    case (Cons y ys)
    let ?z = "if fp_less (key y) (key x) then x else y"
    have "\<forall>z \<in> insert ?z (set ys). key z \<noteq> NaN" using Cons.prems by auto
    from Cons.IH [OF this] obtain m where m: "m \<in> insert ?z (set ys)"
      "foldl (\<lambda>m y. if fp_less (key y) (key m) then m else y) ?z ys = m" "\<forall>y \<in> insert ?z (set ys). fp_le (key y) (key m)"
      by blast
    have "fp_le (key x) (key ?z)" "fp_le (key y) (key ?z)"
      using Cons.prems fp_le_iff [of "key x" "key y"] by (auto simp: fp_le_def)
    moreover have "fp_le (key ?z) (key m)" using m(3) by blast
    ultimately have "fp_le (key x) (key m)" "fp_le (key y) (key m)" using fp_le_trans by blast+
    with m(3) have "\<forall>w \<in> insert x (set (y # ys)). fp_le (key w) (key m)" by simp
    with m(1,2) show ?case by (intro bexI [of _ m]) auto
  qed (simp add: fp_le_def)
  with assms show ?thesis by (cases xs) (force simp: max_by_score_def list_ex_iff)+
qed

text \<open>The ranking of a list of scores by position: what its greatest entry and the second of its
falling order are.\<close>

lemma in_enumerate: "(i, p) \<in> set (enumerate 0 ps) \<longleftrightarrow> i < length ps \<and> p = ps ! i"
  by (auto simp: in_set_enumerate_eq)

lemma enumerate_no_nan: "NaN \<notin> set ps \<Longrightarrow> x \<in> set (enumerate 0 ps) \<Longrightarrow> snd x \<noteq> NaN"
  by (cases x) (metis in_enumerate nth_mem snd_conv)

lemma best_of_nan:
  assumes "NaN \<in> set ps" and "2 \<le> length ps"
  shows "max_by_score snd (enumerate 0 ps) = None"
proof -
  obtain j where "(j, NaN) \<in> set (enumerate 0 ps)" using assms(1) by (metis in_enumerate in_set_conv_nth)
  then have "list_ex (\<lambda>x. snd x = NaN) (enumerate 0 ps)" unfolding list_ex_iff by (intro bexI [of _ "(j, NaN)"]) simp_all
  then show ?thesis using assms(2) by (simp add: max_by_score_def)
qed

lemma best_of_scores:
  assumes "NaN \<notin> set ps" and "ps \<noteq> []"
  obtains b where "b < length ps" "max_by_score snd (enumerate 0 ps) = Some (Some (b, ps ! b))"
    "\<forall>j < length ps. fp_le (ps ! j) (ps ! b)"
proof -
  have "enumerate 0 ps \<noteq> []" using assms(2) by (cases ps) auto
  from max_by_score_max [OF this enumerate_no_nan [OF assms(1)], of "\<lambda>x. x"] that show thesis
    by (auto simp: in_enumerate Ball_def)
qed

lemma second_of_scores:
  assumes "NaN \<notin> set ps" and "2 \<le> length ps"
  obtains a i rest where "sort_by_score snd (enumerate 0 ps) = Some ((a, ps ! a) # (i, ps ! i) # rest)"
    "a < length ps" "i < length ps" "a \<noteq> i" "fp_le (ps ! i) (ps ! a)"
    "\<forall>j < length ps. j \<noteq> a \<longrightarrow> fp_le (ps ! j) (ps ! i)"
proof -
  obtain ranked where r: "sort_by_score snd (enumerate 0 ps) = Some ranked" "mset ranked = mset (enumerate 0 ps)" "falling snd ranked"
    using sort_by_score_sorts [of "enumerate 0 ps" snd] enumerate_no_nan [OF assms(1)] by blast
  have "length ranked = length ps" using mset_eq_length [OF r(2)] by simp
  then obtain p q rest where ranked: "ranked = p # q # rest"
    using assms(2) by (metis Suc_le_length_iff numeral_2_eq_2)
  have all: "insert p (insert q (set rest)) = set (enumerate 0 ps)" using mset_eq_setD [OF r(2)] by (simp add: ranked)
  then obtain a i where pq: "p = (a, ps ! a)" "q = (i, ps ! i)" "a < length ps" "i < length ps"
    by (cases p; cases q) (metis in_enumerate insertCI)
  have "mset (map fst ranked) = mset (map fst (enumerate 0 ps))" unfolding mset_map r(2) ..
  then have "distinct (map fst ranked)" 
    using mset_eq_imp_distinct_iff [of "map fst ranked" "map fst (enumerate 0 ps)"] by simp
  then have "a \<noteq> i" using pq by (simp add: ranked)
  moreover have "fp_le (ps ! i) (ps ! a)" "\<forall>x \<in> set rest. fp_le (snd x) (ps ! i)" using r(3) pq by (auto simp: ranked)
  moreover have "fp_le (ps ! i) (ps ! i)"
    using assms(1) pq(4) nth_mem [of i ps] by (cases "ps ! i") (auto simp: fp_le_def)
  ultimately have "fp_le (ps ! j) (ps ! i)" if "j < length ps" "j \<noteq> a" for j
  proof -
    have "(j, ps ! j) \<in> insert p (insert q (set rest))" unfolding all using that by (simp add: in_enumerate)
    then show ?thesis using that(2) pq \<open>fp_le (ps ! i) (ps ! i)\<close> \<open>\<forall>x \<in> set rest. fp_le (snd x) (ps ! i)\<close> by force
  qed
  then show thesis
    using that r(1) pq \<open>a \<noteq> i\<close> \<open>fp_le (ps ! i) (ps ! a)\<close> by (auto simp: ranked)
qed

text \<open>C32: Once two files are known, the network predicts one that no file but the last opened can beat; it predicts the
  last opened file itself only when another has the same probability. A NaN among the probabilities panics.\<close>

theorem neural_prediction:
  fixes fm n
  assumes "neural_ok n" and "2 \<le> vocab_size n" and "nn_history n \<noteq> []"
  defines "probs \<equiv> snd (snd (forward fm (encode_history n) n))"
  shows "if NaN \<in> set probs then neural_top_prediction fm n = None
    else \<exists>i < vocab_size n. neural_top_prediction fm n = Some (Some (nn_idx_to_ino n ! i, nn_idx_to_name n ! i, probs ! i))
      \<and> (\<forall>j < vocab_size n. nn_idx_to_ino n ! j = last (nn_history n) \<or> fp_le (probs ! j) (probs ! i))
      \<and> (nn_idx_to_ino n ! i = last (nn_history n) \<longrightarrow> (\<exists>j < vocab_size n. j \<noteq> i \<and> probs ! j = probs ! i))"
proof -
  let ?inos = "nn_idx_to_ino n" and ?V = "vocab_size n" and ?last = "last (nn_history n)"
  have w2: "length (nn_w2 n) = ?V" "length (nn_b2 n) = ?V" using assms(1) by (simp_all add: neural_ok_def matrix_ok_def)
  obtain hidden logits where f: "forward fm (encode_history n) n = (hidden, logits, probs)"
    by (metis probs_def prod.collapse)
  have len: "length probs = ?V" using f w2 assms(2) by (auto simp: forward_def Let_def split: if_splits)
  then have ne: "probs \<noteq> []" and two: "\<not> length (nn_w2 n) < 2" "2 \<le> length probs" using assms(2) w2 by auto
  show ?thesis
  proof (cases "NaN \<in> set probs")
    case True
    then show ?thesis using best_of_nan [OF True two(2)] f two(1) ne by (simp add: neural_top_prediction_def)
  next
    case False
    obtain b where b: "b < ?V" "max_by_score snd (enumerate 0 probs) = Some (Some (b, probs ! b))"
      "\<forall>j < ?V. fp_le (probs ! j) (probs ! b)" using best_of_scores [OF False ne] unfolding len by blast
    obtain a i rest where s: "sort_by_score snd (enumerate 0 probs) = Some ((a, probs ! a) # (i, probs ! i) # rest)"
      "a < ?V" "i < ?V" "a \<noteq> i" "fp_le (probs ! i) (probs ! a)" "\<forall>j < ?V. j \<noteq> a \<longrightarrow> fp_le (probs ! j) (probs ! i)"
      using second_of_scores [OF False two(2)] unfolding len by blast
    show ?thesis
    proof (cases "?inos ! b = ?last")
      case other: False
      then have "neural_top_prediction fm n = Some (Some (?inos ! b, nn_idx_to_name n ! b, probs ! b))"
        using two f ne b(2) assms(3) by (simp add: neural_top_prediction_def Let_def)
      with False b other show ?thesis by (auto intro!: exI [of _ b])
    next
      case True
      have run: "neural_top_prediction fm n = Some (Some (?inos ! i, nn_idx_to_name n ! i, probs ! i))"
        using two f ne b(2) assms(3) True s(1) by (simp add: neural_top_prediction_def Let_def)
      have upper: "?inos ! j = ?last \<or> fp_le (probs ! j) (probs ! i)" if "j < ?V" for j
        using that s(6) True b fp_le_trans by metis
      have "probs ! a = probs ! i" if "?inos ! i = ?last"
      proof -
        have "i = b" using that True s(3) b(1) assms(1) nth_eq_iff_index_eq [of ?inos i b] by (simp add: neural_ok_def vocab_size_def)
        then show ?thesis using b(3) s(2,5) by (cases "probs ! i"; cases "probs ! a") (auto simp: fp_le_def)
      qed
      then have "\<exists>j < ?V. j \<noteq> i \<and> probs ! j = probs ! i" if "?inos ! i = ?last" using that s(2,4) by blast
      then show ?thesis using False run s(3) upper by auto
    qed
  qed
qed

section \<open>Saving and loading\<close>

interpretation f32_stream: stream_codec read_f32 f32_to_le "\<lambda>a. a" is_f32
proof (intro stream_codec.intro)
  show "prefix_reader read_f32" unfolding read_f32_def [abs_def] by (intro prefix_intros)
qed (unfold_locales, simp add: read_f32_def f32_to_le_def is_f32_roundtrip)

lemma prefix_lossy: "prefix_reader (read_lossy k)"
  by unfold_locales (auto simp: read_lossy_def split: if_splits)

lemma prefix_row: "prefix_reader (read_row k)"
  unfolding read_row_def [abs_def] by (intro prefix_intros f32_stream.prefix_reader_axioms)

interpretation row_stream: stream_codec "read_row k" row_bytes "\<lambda>r. r" "\<lambda>(row, b). length row = k \<and> list_all is_f32 row \<and> is_f32 b" for k
  by (intro stream_codec.intro prefix_row, unfold_locales)
    (auto simp: row_bytes_def read_row_def f32_stream.times_enc f32_stream.dec_enc list_all_iff)

lemma prefix_vocab: "prefix_reader read_vocab"
  unfolding read_vocab_def [abs_def] by (intro prefix_intros prefix_lossy)

interpretation vocab_stream: stream_codec read_vocab vocab_bytes "\<lambda>(ino, name). (ino, utf8_lossy name)"
    "\<lambda>(_, name). length name < 2 ^ 32"
  by (intro stream_codec.intro prefix_vocab, unfold_locales)
    (auto simp: vocab_bytes_def read_vocab_def read_lossy_def unat_of_nat)

lemma index_map_zip: "foldl (\<lambda>m (i, ino). hm_insert ino i m) [] (enumerate 0 xs) = zip xs [0..<length xs]" if "distinct xs"
  using that
proof (induction xs rule: rev_induct)
  case (snoc x xs)
  then have "hm_get (zip xs [0..<length xs]) x = None"
    using map_of_zip_is_None [of xs "[0..<length xs]" x] by (simp add: hm_get_def)
  with snoc show ?case by (simp add: enumerate_append_eq hm_insert_new)
qed simp

text \<open>A network reads back as written, with an empty history.\<close>

theorem neural_roundtrip:
  assumes "neural_ok n" and "vocab_size n < 2 ^ 32"
    and "\<forall>name \<in> set (nn_idx_to_name n). length name < 2 ^ 32 \<and> utf8_lossy name = name"
  shows "neural_from_bytes (neural_to_bytes n) = Some (n\<lparr>nn_history := []\<rparr>)"
proof -
  let ?V = "vocab_size n"
  have V: "unat (of_nat ?V :: u32) = ?V" using assms(2) by (simp add: unat_of_nat)
  have len: "length (nn_w1 n) = HIDDEN_SIZE" "length (nn_b1 n) = HIDDEN_SIZE" "length (nn_w2 n) = ?V" "length (nn_b2 n) = ?V"
    "length (nn_idx_to_ino n) = ?V" "length (nn_idx_to_name n) = ?V"
    using assms(1) by (auto simp: neural_ok_def matrix_ok_def vocab_size_def)
  have rows: "\<forall>x \<in> set (zip (nn_w1 n) (nn_b1 n)). case x of (row, b) \<Rightarrow> length row = INPUT_SIZE \<and> list_all is_f32 row \<and> is_f32 b"
    "\<forall>x \<in> set (zip (nn_w2 n) (nn_b2 n)). case x of (row, b) \<Rightarrow> length row = HIDDEN_SIZE \<and> list_all is_f32 row \<and> is_f32 b"
    using assms(1) by (auto simp: neural_ok_def matrix_ok_def list_all_iff dest: set_zip_leftD set_zip_rightD)
  have vocab: "\<forall>x \<in> set (zip (nn_idx_to_ino n) (nn_idx_to_name n)). case x of (_, name) \<Rightarrow> length name < 2 ^ 32"
    using assms(3) by (auto dest: set_zip_rightD)
  have names: "map (\<lambda>(ino, name). (ino, utf8_lossy name)) (zip (nn_idx_to_ino n) (nn_idx_to_name n)) = zip (nn_idx_to_ino n) (nn_idx_to_name n)"
    using assms(3) by (intro map_idI) (auto dest: set_zip_rightD)
  let ?vs = "zip (nn_idx_to_ino n) (nn_idx_to_name n)" and ?r1 = "zip (nn_w1 n) (nn_b1 n)" and ?r2 = "zip (nn_w2 n) (nn_b2 n)"
  have v: "read_times ?V read_vocab (concat (map vocab_bytes ?vs) @ rest) = Some (?vs, rest)" for rest
    using vocab_stream.times_enc [OF vocab, of ?V rest] len names by simp
  have r1: "read_times HIDDEN_SIZE (read_row INPUT_SIZE) (concat (map row_bytes ?r1) @ rest) = Some (?r1, rest)" for rest
    using row_stream.times_enc [OF rows(1), of HIDDEN_SIZE rest] len by simp
  have r2: "read_times ?V (read_row HIDDEN_SIZE) (concat (map row_bytes ?r2)) = Some (?r2, [])"
    using row_stream.times_enc [OF rows(2), of ?V "[]"] len by simp
  have maps: "map fst ?r1 = nn_w1 n" "map snd ?r1 = nn_b1 n" "map fst ?r2 = nn_w2 n" "map snd ?r2 = nn_b2 n"
    "map fst ?vs = nn_idx_to_ino n" "map snd ?vs = nn_idx_to_name n" using len by simp_all
  have "distinct (nn_idx_to_ino n)" "nn_ino_to_idx n = zip (nn_idx_to_ino n) [0..<length (nn_idx_to_ino n)]"
    using assms(1) by (simp_all add: neural_ok_def vocab_size_def)
  then have idx: "foldl (\<lambda>m (i, ino). hm_insert ino i m) [] (enumerate 0 (nn_idx_to_ino n)) = nn_ino_to_idx n"
    using index_map_zip by simp
  have bytes: "neural_to_bytes n = u64_to_le (nn_total_accesses n) @ u64_to_le (nn_correct_predictions n) @ u32_to_le (of_nat ?V)
     @ concat (map vocab_bytes ?vs) @ concat (map row_bytes ?r1) @ concat (map row_bytes ?r2)"
    by (simp add: neural_to_bytes_def vocab_size_def)
  have size: "\<not> length (neural_to_bytes n) < 16" by (simp add: neural_to_bytes_def)
  show ?thesis
    unfolding neural_from_bytes_def if_not_P [OF size] unfolding bytes
    by (simp only: read_u64_enc read_u32_enc bind.bind_lunit case_prod_conv V v r1 r2 idx maps) simp
qed

theorem neural_roundtrip_witness:
  "neural_from_bytes (neural_to_bytes (neural_new no_math)) = Some (neural_new no_math)"
proof -
  have "vocab_size (neural_new no_math) < 2 ^ 32"
    "\<forall>name \<in> set (nn_idx_to_name (neural_new no_math)). length name < 2 ^ 32 \<and> utf8_lossy name = name"
    "(neural_new no_math)\<lparr>nn_history := []\<rparr> = neural_new no_math"
    by (simp_all add: neural_new_def vocab_size_def Let_def)
  with neural_roundtrip [OF neural_new_ok this(1,2)] show ?thesis by simp
qed

definition sample_net :: neural where
  "sample_net = (snd (neural_register no_math 3 [98] (snd (neural_register no_math 2 [97] (neural_new no_math)))))\<lparr>nn_history := [2, 3]\<rparr>"

theorem neural_prediction_witness:
  "neural_top_prediction no_math sample_net \<noteq> Some None"
proof -
  let ?n1 = "snd (neural_register no_math 2 [97] (neural_new no_math))"
  let ?n2 = "snd (neural_register no_math 3 [98] ?n1)"
  have "neural_ok ?n1" using register_ok [OF neural_new_ok, of no_math 2 "[97]" no_math] by (metis prod.collapse)
  then have "neural_ok ?n2" using register_ok [of ?n1 no_math 3 "[98]"] by (metis prod.collapse)
  moreover have inos: "nn_idx_to_ino ?n2 = [2, 3]"
    by (simp add: neural_register_def neural_new_def Let_def hm_insert_def)
      (simp add: hm_get_def)
  ultimately have ok: "neural_ok sample_net" by (simp add: neural_ok_def sample_net_def vocab_size_def INPUT_SIZE_def)
  have "2 \<le> vocab_size sample_net" "nn_history sample_net \<noteq> []"
    using inos by (simp_all add: sample_net_def vocab_size_def)
  from neural_prediction [OF ok this, of no_math] show ?thesis by (auto split: if_splits)
qed

end
