(* ===== verification/Memory_Context.thy ===== *)
theory Memory_Context
  imports Memory Text_Format
begin

text \<open>
  The text of \<open>.vexfs-context\<close>: \<open>context_summary\<close> of \<open>src/ai/memory.rs\<close>, with the clock as an argument.
\<close>

definition trend_label :: "trend_kind \<Rightarrow> rstring" where
  "trend_label k = (case k of
     TrendNew \<Rightarrow> [0xE2, 0xAD, 0x90] @ ascii '' new''
   | TrendRising \<Rightarrow> [0xF0, 0x9F, 0x93, 0x88] @ ascii '' rising''
   | TrendStable \<Rightarrow> [0xE2, 0x86, 0x92] @ ascii '' stable''
   | TrendFalling \<Rightarrow> [0xF0, 0x9F, 0x93, 0x89] @ ascii '' fading'')"

definition format_age :: "u64 \<Rightarrow> rstring" where
  "format_age secs =
     (let n = unat secs in
      if n < 60 then decimal n @ ascii ''s''
      else if n < 3600 then decimal (n div 60) @ ascii ''m''
      else if n < 86400 then decimal (n div 3600) @ ascii ''h''
      else decimal (n div 86400) @ ascii ''d'')"

definition lookup_name :: "(u64, rstring) hmap \<Rightarrow> memory_engine \<Rightarrow> rstring \<Rightarrow> u64 \<Rightarrow> rstring" where
  "lookup_name name_lookup e other ino =
     (case hm_get name_lookup ino of
        Some n \<Rightarrow> n
      | None \<Rightarrow> (case hm_get (me_names e) ino of Some n \<Rightarrow> n | None \<Rightarrow> other))"

definition session_line :: "u64 \<Rightarrow> mem_session \<Rightarrow> rstring" where
  "session_line now s =
     (let dur = unat (session_duration now s);
          dur_str = (if dur < 60 then decimal dur @ ascii ''s''
                     else if dur < 3600 then decimal (dur div 60) @ ascii ''m''
                     else decimal (dur div 3600) @ ascii ''h'')
      in ascii ''  '' @ format_age (sat_sub now (se_start_ts s)) @ ascii '' ago '' @ EM_DASH @ ascii '' '' @ dur_str
         @ ascii ''  focus: '' @ (case se_focus_file s of Some f \<Rightarrow> f | None \<Rightarrow> EM_DASH)
         @ ascii ''  ('' @ decimal (length (se_files_touched s)) @ ascii '' files)'' @ NL)"

definition context_summary :: "u64 \<Rightarrow> (u64, rstring) hmap \<Rightarrow> memory_engine \<Rightarrow> rstring" where
  "context_summary now name_lookup e =
     (let cur = me_current e;
          dur = unat (session_duration now cur);
          dur_str = (if dur < 60 then decimal dur @ ascii ''s''
                     else if dur < 3600 then decimal (dur div 60) @ ascii ''m''
                     else decimal (dur div 3600) @ ascii ''h '' @ decimal (dur mod 3600 div 60) @ ascii ''m'');
          touched = se_files_touched cur;
          trending = trending_files (me_trends e);
          streaks = sort_desc (\<lambda>(_, s). sk_current_days s) (filter (\<lambda>(_, s). 2 \<le> sk_current_days s) (me_streaks e))
      in ascii ''## Current session ('' @ dur_str @ ascii '')'' @ NL
         @ (if touched = [] then ascii ''No files opened yet.'' @ NL
            else ascii ''Files touched: '' @ join_comma (map snd touched) @ NL)
         @ ascii ''Writes: '' @ decimal (unat (se_total_writes cur)) @ ascii ''  Reads: '' @ decimal (unat (se_total_reads cur)) @ NL
         @ NL @ ascii ''## Memory ('' @ decimal (unat (me_total_sessions e + 1)) @ ascii '' sessions total)'' @ NL
         @ (if trending = [] then []
            else ascii ''Trending:'' @ NL
              @ concat (map (\<lambda>(ino, k, n). ascii ''  '' @ trend_label k @ ascii '' '' @ lookup_name name_lookup e (ascii ''unknown'') ino
                  @ ascii '' ('' @ decimal (unat n) @ ascii '' accesses this week)'' @ NL) (take 3 trending)))
         @ (if streaks = [] then []
            else ascii ''Streaks:'' @ NL
              @ concat (map (\<lambda>(ino, s). ascii ''  '' @ [0xF0, 0x9F, 0x94, 0xA5] @ ascii '' ''
                  @ lookup_name name_lookup e (ascii ''unknown'') ino @ ascii '' '' @ EM_DASH @ ascii '' ''
                  @ decimal (unat (sk_current_days s)) @ ascii '' days in a row (best: '' @ decimal (unat (sk_longest_days s))
                  @ ascii '')'' @ NL) (take 3 streaks)))
         @ (if me_sessions e = [] then []
            else NL @ ascii ''Recent sessions:'' @ NL @ concat (map (session_line now) (take 3 (rev (me_sessions e)))))
         @ (case max_by_key (\<lambda>(_, p). tp_total p) (filter (\<lambda>(_, p). 5 \<le> tp_total p) (me_temporal e)) of
              None \<Rightarrow> []
            | Some (ino, pat) \<Rightarrow>
                NL @ ascii ''Insight: you usually work on '' @ quoted (lookup_name name_lookup e (ascii ''your most-used file'') ino)
                @ ascii '' on '' @ day_name (peak_day pat) @ ascii ''s around '' @ hour_label (peak_hour pat) @ NL))"

end
