(* ===== verification/Engine.thy ===== *)
theory Engine
  imports Vex_State Access_Log Search Entropy Jarvis Neural Memory_Context Memory_Codec
begin

text \<open>
  \<open>src/ai/engine.rs\<close>: the AI thread. It takes the events of the file system one by one, updates its models
  and publishes what the file system reads back. The clock is read once per event, console output is left
  out, and \<open>None\<close> is a panic of the thread.
\<close>

section \<open>The state of the thread\<close>

text \<open>What the thread uses of the platform: the logarithms, the functions of the network, the Unicode tables and
  how an \<open>f32\<close> is printed.\<close>

record platform =
  pl_ln :: "fp \<Rightarrow> fp"
  pl_log2 :: "fp \<Rightarrow> fp"
  pl_math :: float_math
  pl_unicode :: unicode
  pl_show :: "fp \<Rightarrow> rstring"

record ai_engine =
  en_markov :: markov
  en_neural :: neural
  en_importance :: importance_stats
  en_guard :: entropy_guard
  en_search :: search_index
  en_log :: access_log
  en_memory :: memory_engine
  en_last_opened_ino :: "u64 option"
  en_write_accumulator :: "(u64, bytes) hmap"
  en_workspace :: workspace_model
  en_session_files :: "u64 list"
  en_session_writes :: "(u64, u32) hmap"
  en_session_opens :: "(u64, u32) hmap"
  en_workspace_rendered :: bytes

definition engine_new ::
    "markov \<Rightarrow> neural \<Rightarrow> importance_stats \<Rightarrow> entropy_guard \<Rightarrow> search_index \<Rightarrow> access_log \<Rightarrow> memory_engine \<Rightarrow> ai_engine" where
  "engine_new m n stats g idx l mem =
     \<lparr>en_markov = m, en_neural = n, en_importance = stats, en_guard = g, en_search = idx, en_log = l, en_memory = mem,
      en_last_opened_ino = None, en_write_accumulator = [], en_workspace = workspace_new, en_session_files = [],
      en_session_writes = [], en_session_opens = [], en_workspace_rendered = []\<rparr>"

section \<open>Events\<close>

definition count_up :: "u64 \<Rightarrow> (u64, u32) hmap \<Rightarrow> (u64, u32) hmap" where
  "count_up ino m = hm_insert ino (count_of m ino + 1) m"

text \<open>The predictions are only printed, but computing them may panic.\<close>

definition on_open :: "platform \<Rightarrow> u64 \<Rightarrow> u64 \<Rightarrow> rstring \<Rightarrow> u64 \<Rightarrow> ai_engine \<Rightarrow> ai_engine option" where
  "on_open pf now ino name sz e =
     (let l = al_record (event_now now ino name AccessOpen sz) (en_log e);
          m = (case en_last_opened_ino e of
                 Some prev \<Rightarrow> if prev \<noteq> ino then record_transition prev ino name (en_markov e) else en_markov e
               | None \<Rightarrow> en_markov e)
      in do {
        stats \<leftarrow> imp_record (pl_ln pf) now ino name 0 (en_importance e);
        n \<leftarrow> neural_record (pl_math pf) ino name (en_neural e);
        let mem = record_read ino (record_access now ino name (en_memory e));
        p \<leftarrow> neural_top_prediction (pl_math pf) n;
        (case p of Some _ \<Rightarrow> Some () | None \<Rightarrow> map_option (\<lambda>_. ()) (mk_top_prediction ino m));
        Some (e\<lparr>en_log := l, en_markov := m, en_last_opened_ino := Some ino, en_importance := stats, en_neural := n,
                en_memory := mem,
                en_session_files := (if ino \<in> set (en_session_files e) then en_session_files e
                                     else en_session_files e @ [ino]),
                en_session_opens := count_up ino (en_session_opens e)\<rparr>)
      })"

definition on_write :: "platform \<Rightarrow> u64 \<Rightarrow> u64 \<Rightarrow> rstring \<Rightarrow> bytes \<Rightarrow> ai_engine \<Rightarrow> ai_engine" where
  "on_write pf now ino name data e =
     (let g = snd (check_write (pl_log2 pf) (pl_unicode pf) now ino name data (en_guard e));
          full_content = (case hm_get (en_write_accumulator e) ino of Some acc \<Rightarrow> acc | None \<Rightarrow> []) @ data
      in e\<lparr>en_guard := g,
           en_write_accumulator := hm_insert ino full_content (en_write_accumulator e),
           en_search := index_file (pl_unicode pf) ino name full_content now (en_search e),
           en_log := al_record (event_now now ino name AccessWrite (of_nat (length data))) (en_log e),
           en_memory := record_write ino (en_memory e),
           en_session_writes := count_up ino (en_session_writes e)\<rparr>)"

definition on_close :: "platform \<Rightarrow> u64 \<Rightarrow> u64 \<Rightarrow> rstring \<Rightarrow> u64 \<Rightarrow> ai_engine \<Rightarrow> ai_engine option" where
  "on_close pf now ino name duration e = do {
     stats \<leftarrow> imp_record (pl_ln pf) now ino name duration (en_importance e);
     Some (e\<lparr>en_log := al_record (event_now now ino name AccessClose 0) (en_log e), en_importance := stats,
             en_write_accumulator := hm_remove ino (en_write_accumulator e)\<rparr>)
   }"

definition on_delete :: "u64 \<Rightarrow> u64 \<Rightarrow> rstring \<Rightarrow> ai_engine \<Rightarrow> ai_engine" where
  "on_delete now ino name e =
     e\<lparr>en_search := index_remove ino (en_search e),
       en_write_accumulator := hm_remove ino (en_write_accumulator e),
       en_log := al_record (event_now now ino name AccessDelete 0) (en_log e)\<rparr>"

definition result_line :: "nat \<Rightarrow> search_result \<Rightarrow> rstring" where
  "result_line i r =
     ascii ''  '' @ decimal i @ ascii ''. '' @ sr_name r @ ascii '' (score: '' @ fmt_fixed 3 (sr_score r) @ ascii '')'' @ NL
     @ (if sr_matched_terms r = [] then [] else ascii ''     terms: '' @ join_comma (sr_matched_terms r) @ NL)"

definition search_text :: "rstring \<Rightarrow> search_result list \<Rightarrow> rstring" where
  "search_text query results =
     ascii ''VexFS Search: \"'' @ query @ ascii ''\" -- '' @ decimal (length results) @ ascii '' result(s)'' @ NL
     @ replicate 48 0x2D @ NL
     @ (if results = [] then ascii ''  No results found.'' @ NL
        else concat (map (\<lambda>(i, r). result_line (i + 1) r) (enumerate 0 results)))"

definition on_search :: "platform \<Rightarrow> rstring \<Rightarrow> ai_engine \<Rightarrow> ai_engine option" where
  "on_search pf query e = do {
     results \<leftarrow> search_query (pl_ln pf) (pl_unicode pf) query (en_search e);
     Some (e\<lparr>en_search := (en_search e)\<lparr>si_last_query_result := search_text query results\<rparr>\<rparr>)
   }"

section \<open>Questions\<close>

definition ANSWER_BULB :: rstring where "ANSWER_BULB = [0xF0, 0x9F, 0x92, 0xA1]"
definition TREND_CHART :: rstring where "TREND_CHART = [0xF0, 0x9F, 0x93, 0x88]"

definition answer_line :: "nat \<Rightarrow> search_result \<Rightarrow> rstring" where
  "answer_line i r =
     ascii ''  '' @ decimal i @ ascii ''. '' @ sr_name r @ ascii '' (relevance: ''
     @ fmt_fixed 1 (mul32 (sr_score r) (Fin 100)) @ ascii ''%)''
     @ (if sr_matched_terms r = [] then []
        else ascii '' '' @ EM_DASH @ ascii '' keywords: '' @ join_comma (sr_matched_terms r)) @ NL"

definition neural_hint :: "(u64 \<times> rstring \<times> fp) option \<Rightarrow> rstring" where
  "neural_hint p = (case p of
     None \<Rightarrow> []
   | Some (_, name, conf) \<Rightarrow>
       ascii ''Neural prefetcher predicts '' @ quoted name @ ascii '' is next (confidence: ''
       @ fmt_fixed 0 (mul32 conf (Fin 100)) @ ascii ''%)'')"

definition memory_hint :: "memory_engine \<Rightarrow> rstring" where
  "memory_hint mem =
     (let names = List.map_filter (\<lambda>(ino, _, _). hm_get (me_names mem) ino) (take 2 (trending_files (me_trends mem)))
      in if names = [] then [] else NL @ TREND_CHART @ ascii '' Trending this week: '' @ join_comma names)"

definition answer_text ::
    "rstring \<Rightarrow> search_result list \<Rightarrow> (u64 \<times> rstring \<times> fp) option \<Rightarrow> memory_engine \<Rightarrow> rstring" where
  "answer_text question results p mem =
     ascii ''[VexFS Ask '' @ EM_DASH @ ascii '' Semantic Search]'' @ NL @ NL @ ascii ''Q: '' @ question @ NL @ NL
     @ (if results = [] then ascii ''No relevant files found for that query.'' @ NL
        else ascii ''Most relevant files:'' @ NL @ NL
          @ concat (map (\<lambda>(i, r). answer_line (i + 1) r) (enumerate 0 (take 5 results))))
     @ (let hint = neural_hint p in if hint = [] then [] else NL @ ANSWER_BULB @ ascii '' '' @ hint @ NL)
     @ (let context = memory_hint mem in if context = [] then [] else context @ NL)"

definition run_ask_query :: "platform \<Rightarrow> rstring \<Rightarrow> ai_engine \<Rightarrow> ai_engine option" where
  "run_ask_query pf question e = do {
     results \<leftarrow> search_query (pl_ln pf) (pl_unicode pf) question (en_search e);
     p \<leftarrow> neural_top_prediction (pl_math pf) (en_neural e);
     Some (e\<lparr>en_search := (en_search e)\<lparr>si_last_ask_result := answer_text question results p (en_memory e)\<rparr>\<rparr>)
   }"

section \<open>The end of a session\<close>

definition on_end_session :: "u64 \<Rightarrow> ai_engine \<Rightarrow> ai_engine option" where
  "on_end_session now e =
     (let mem = close_session now (en_memory e)
      in do {
        model \<leftarrow> recompute (me_co_access mem) (stats_map mem) (en_session_writes e) (en_session_opens e) (me_names mem)
          (en_session_files e) now;
        Some (e\<lparr>en_memory := mem, en_workspace := model, en_workspace_rendered := render (analyse model) model,
                en_session_files := [], en_session_writes := [], en_session_opens := []\<rparr>)
      })"

fun handle_event :: "platform \<Rightarrow> u64 \<Rightarrow> fs_event \<Rightarrow> ai_engine \<Rightarrow> ai_engine option" where
  "handle_event pf now (EvOpen ino name sz) e = on_open pf now ino name sz e"
| "handle_event pf now (EvWrite ino name data) e = Some (on_write pf now ino name data e)"
| "handle_event pf now (EvClose ino name duration) e = on_close pf now ino name duration e"
| "handle_event pf now (EvDelete ino name) e = Some (on_delete now ino name e)"
| "handle_event pf now (EvSearchQuery query) e = on_search pf query e"
| "handle_event pf now (EvAskQuery query file_list) e = run_ask_query pf query e"
| "handle_event pf now EvEndSession e = on_end_session now e"
| "handle_event pf now EvSyncAI e = Some e"
| "handle_event pf now (EvSyncCacheSize used cap) e = Some e"

section \<open>The published state\<close>

text \<open>\<open>SharedAIState\<close>: what the file system displays (\<open>ai_state\<close>), what it saves (\<open>saved_state\<close>), and the rest.\<close>

record shared_ai_state = ai_state +
  sh_neural_vocab :: nat
  sh_cache_used :: u64
  sh_cache_max :: u64
  sh_saved :: saved_state
  sh_memory_co_access_pairs :: nat

definition shared_default :: shared_ai_state where
  "shared_default =
     \<lparr>sa_markov_entries = 0, sa_search_indexed = 0, sa_entropy_threats = 0, sa_ranked_files = [], sa_search_result = [],
      sa_ask_result = [], sa_context_result = [], sa_jarvis_result = [], sa_memory_total_sessions = 0,
      sa_memory_tracked_files = 0, sa_memory_active_streaks = 0, sa_memory_trending_count = 0,
      sh_neural_vocab = 0, sh_cache_used = 0, sh_cache_max = 0,
      sh_saved = \<lparr>sv_markov_data = [], sv_importance_data = [], sv_neural_weights = [], sv_memory_bytes = []\<rparr>,
      sh_memory_co_access_pairs = 0\<rparr>"

fun tier_label :: "importance_tier \<Rightarrow> rstring" where
  "tier_label Hot = [0xF0, 0x9F, 0x94, 0xA5] @ ascii '' HOT''"
| "tier_label Warm = [0xF0, 0x9F, 0x8C, 0xA4] @ ascii '' WARM''"
| "tier_label Cold = [0xF0, 0x9F, 0xA7, 0x8A] @ ascii '' COLD''"

definition saved_of :: "ai_engine \<Rightarrow> saved_state" where
  "saved_of e =
     \<lparr>sv_markov_data = mk_transitions (en_markov e), sv_importance_data = en_importance e,
      sv_neural_weights = neural_to_bytes (en_neural e), sv_memory_bytes = memory_to_bytes (en_memory e)\<rparr>"

definition sync_state :: "platform \<Rightarrow> u64 \<Rightarrow> ai_engine \<Rightarrow> shared_ai_state \<Rightarrow> shared_ai_state option" where
  "sync_state pf now e w = do {
     ranked \<leftarrow> ranked_files (pl_ln pf) now (en_importance e);
     let stats = memory_stats_of (en_memory e);
     Some (w\<lparr>sa_markov_entries := mk_entry_count (en_markov e),
             sh_neural_vocab := vocab_size (en_neural e),
             sa_search_indexed := indexed_count (en_search e),
             sa_entropy_threats := unat (eg_threat_count (en_guard e)),
             sa_ranked_files := map (\<lambda>f. (fs_name f, pl_show pf (fs_score f), tier_label (fs_tier f))) (take 10 ranked),
             sa_search_result := si_last_query_result (en_search e),
             sa_ask_result := si_last_ask_result (en_search e),
             sh_saved := saved_of e,
             sa_memory_total_sessions := unat (ms_total_sessions stats),
             sa_memory_tracked_files := ms_tracked_files stats,
             sa_memory_active_streaks := ms_active_streaks stats,
             sa_memory_trending_count := ms_trending_count stats,
             sh_memory_co_access_pairs := ms_co_access_pairs stats,
             sa_context_result := context_summary now (me_names (en_memory e)) (en_memory e),
             sa_jarvis_result := en_workspace_rendered e\<rparr>)
   }"

text \<open>\<open>run_loop\<close> on the events received, each with the time of the clock when it is handled.\<close>

definition engine_step ::
    "platform \<Rightarrow> u64 \<times> fs_event \<Rightarrow> ai_engine \<times> shared_ai_state \<Rightarrow> (ai_engine \<times> shared_ai_state) option" where
  "engine_step pf = (\<lambda>(now, ev) (e, w). do {
     e \<leftarrow> handle_event pf now ev e;
     w \<leftarrow> sync_state pf now e w;
     Some (e, w)
   })"

fun run_loop ::
    "platform \<Rightarrow> (u64 \<times> fs_event) list \<Rightarrow> ai_engine \<times> shared_ai_state \<Rightarrow> (ai_engine \<times> shared_ai_state) option" where
  "run_loop pf [] s = Some s"
| "run_loop pf (x # xs) s = do { s \<leftarrow> engine_step pf x s; run_loop pf xs s }"

section \<open>Starting the thread\<close>

text \<open>\<open>VexFS::new\<close> on a new image, and \<open>VexFS::load\<close>, which restores the saved models and indexes the files.\<close>

definition engine_fresh :: "platform \<Rightarrow> u64 \<Rightarrow> ai_engine" where
  "engine_fresh pf now =
     engine_new (markov_new 50000) (neural_new (pl_math pf)) [] guard_new search_new (al_new 10000) (memory_new now)"

definition index_documents :: "platform \<Rightarrow> (u64 \<times> rstring \<times> bytes \<times> u64) list \<Rightarrow> search_index" where
  "index_documents pf docs =
     fold (\<lambda>(ino, name, data, modified_at). index_file (pl_unicode pf) ino name data modified_at) docs search_new"

definition engine_load ::
    "platform \<Rightarrow> (bytes \<Rightarrow> bytes) \<Rightarrow> u64 \<Rightarrow> rstring \<Rightarrow> file_store \<Rightarrow> (u64 \<times> rstring \<times> bytes \<times> u64) list \<Rightarrow> ai_engine" where
  "engine_load pf h now image_path fs docs =
     (let n = (case Option.bind (load_neural h (ai_path image_path) fs) neural_from_bytes of
                 Some n \<Rightarrow> n | None \<Rightarrow> neural_new (pl_math pf));
          (m, stats, mem) = restore_ai h now image_path fs
      in engine_new m n stats guard_new (index_documents pf docs) (al_new 10000) mem)"

end
