(* ===== verification/Cli_Query.thy ===== *)
theory Cli_Query
  imports Cli_Snapshots Engine
begin

text \<open>
  The commands of \<open>src/bin/vexfs.rs\<close> that read an image: \<open>find\<close>, \<open>search\<close>, \<open>status\<close>, \<open>info\<close>, \<open>heat\<close> and
  \<open>graph\<close>. A command returns the error it dies with or the rows it prints; frames and colours are left out. The
  clock is read once per command.
\<close>

section \<open>Sizes and names as printed\<close>

definition fmt_size :: "u64 \<Rightarrow> rstring" where
  "fmt_size n =
     (if n < 1024 then decimal (unat n) @ ascii ''B''
      else if n < 1024 * 1024 then fmt_fixed 1 (fp_div binary64 (f64_of n) (Fin 1024)) @ ascii ''K''
      else fmt_fixed 1 (fp_div binary64 (f64_of n) (Fin (1024 * 1024))) @ ascii ''M'')"

definition cli_age_str :: "u64 \<Rightarrow> u64 \<Rightarrow> rstring" where
  "cli_age_str now timestamp =
     (let age = unat (sat_sub now timestamp) in
      if age < 60 then decimal age @ ascii ''s ago''
      else if age < 3600 then decimal (age div 60) @ ascii ''m ago''
      else if age < 86400 then decimal (age div 3600) @ ascii ''h ago''
      else decimal (age div 86400) @ ascii ''d ago'')"

text \<open>Slicing a string inside a character panics.\<close>

definition trunc :: "rstring \<Rightarrow> nat \<Rightarrow> rstring option" where
  "trunc s cap =
     (if length s \<le> cap then Some s
      else if continuation s (cap - 1) then None
      else Some (take (cap - 1) s @ [0xE2, 0x80, 0xA6]))"

section \<open>Scanning\<close>

text \<open>The valid inodes with a name, and those merely in use, in the order of their slots.\<close>

definition named_inodes :: "(bytes \<Rightarrow> u32) \<Rightarrow> disk_manager \<Rightarrow> inode_raw list" where
  "named_inodes crc d = filter (\<lambda>n. inode_get_name n \<noteq> []) (map snd (inode_slots crc d))"

definition inodes_in_use :: "(bytes \<Rightarrow> u32) \<Rightarrow> disk_manager \<Rightarrow> inode_raw list" where
  "inodes_in_use crc d =
     filter (\<lambda>n. in_is_used n \<noteq> 0 \<and> inode_get_name n \<noteq> []) (map snd (readable_slots (\<lambda>i. dm_read_inode crc i d) [0..<MAX_FILES]))"

definition read_or_none :: "disk_manager \<Rightarrow> inode_raw \<Rightarrow> bytes" where
  "read_or_none d n = (case read_file_data (in_data_offset n) (unat (in_size n)) d of Inr data \<Rightarrow> data | Inl _ \<Rightarrow> [])"

text \<open>A new importance engine that records one access of each file.\<close>

definition count_each :: "(fp \<Rightarrow> fp) \<Rightarrow> u64 \<Rightarrow> inode_raw list \<Rightarrow> importance_stats option" where
  "count_each lnf now ns =
     fold (\<lambda>n stats. Option.bind stats (imp_record lnf now (in_ino n) (inode_get_name n) 0)) ns (Some [])"

section \<open>find\<close>

record find_args =
  fa_pattern :: rstring
  fa_regex :: bool
  fa_min_size :: u64
  fa_files_only :: bool
  fa_dirs_only :: bool

record find_entry =
  fe_name :: rstring
  fe_parent :: u64
  fe_is_dir :: bool
  fe_size :: u64

type_synonym find_entries = "(u64, find_entry) hmap"

definition find_entries :: "(bytes \<Rightarrow> u32) \<Rightarrow> disk_manager \<Rightarrow> find_entries" where
  "find_entries crc d =
     fold (\<lambda>n. hm_insert (in_ino n) \<lparr>fe_name = inode_get_name n, fe_parent = inode_get_parent_ino n,
                                      fe_is_dir = (in_is_dir n = 1), fe_size = in_size n\<rparr>) (named_inodes crc d) []"

text \<open>The walk up the parents, which the guard stops after 64 steps.\<close>

fun path_parts :: "nat \<Rightarrow> find_entries \<Rightarrow> u64 \<Rightarrow> rstring list" where
  "path_parts 0 entries ino = []"
| "path_parts (Suc guard) entries ino =
     (case hm_get entries ino of
        None \<Rightarrow> []
      | Some e \<Rightarrow> fe_name e # (if fe_parent e = 1 \<or> fe_parent e = ino then [] else path_parts guard entries (fe_parent e)))"

definition build_path :: "find_entries \<Rightarrow> u64 \<Rightarrow> rstring" where
  "build_path entries ino = ascii ''/'' @ join_strs (ascii ''/'') (rev (path_parts 64 entries ino))"

definition WILDCARD :: rstring where "WILDCARD = ascii ''.*''"

text \<open>The loop over the parts between wildcards; only the first part can be anchored.\<close>

fun match_parts :: "bool \<Rightarrow> rstring list \<Rightarrow> rstring \<Rightarrow> rstring option" where
  "match_parts anchored [] remaining = Some remaining"
| "match_parts anchored (part # parts) remaining =
     (if part = [] then match_parts False parts remaining
      else if anchored
      then (if starts_with part remaining then match_parts False parts (drop (length part) remaining) else None)
      else (case str_find part remaining of
              Some pos \<Rightarrow> match_parts False parts (drop (pos + length part) remaining)
            | None \<Rightarrow> None))"

definition regex_match :: "rstring \<Rightarrow> rstring \<Rightarrow> bool" where
  "regex_match pattern text =
     (let anchored_start = starts_with (ascii ''^'') pattern;
          anchored_end = ends_with (ascii ''$'') pattern;
          core = trim_end_char 0x24 (trim_start_char 0x5E pattern)
      in if str_contains WILDCARD core
         then (case match_parts anchored_start (str_split WILDCARD core) text of
                 None \<Rightarrow> False
               | Some remaining \<Rightarrow> \<not> (anchored_end \<and> remaining \<noteq> []))
         else if anchored_start \<and> anchored_end then text = core
         else if anchored_start then starts_with core text
         else if anchored_end then ends_with core text
         else str_contains core text)"

definition find_selects :: "unicode \<Rightarrow> find_args \<Rightarrow> find_entry \<Rightarrow> bool" where
  "find_selects uc a e \<longleftrightarrow> \<not> (fa_files_only a \<and> fe_is_dir e) \<and> \<not> (fa_dirs_only a \<and> \<not> fe_is_dir e)
     \<and> \<not> fe_size e < fa_min_size a
     \<and> (if fa_regex a then regex_match (fa_pattern a) (fe_name e)
        else str_contains (to_lowercase uc (fa_pattern a)) (to_lowercase uc (fe_name e)))"

definition FOLDER :: rstring where "FOLDER = [0xF0, 0x9F, 0x93, 0x81]"
definition PAGE :: rstring where "PAGE = [0xF0, 0x9F, 0x93, 0x84]"

definition find_line :: "find_entries \<Rightarrow> u64 \<Rightarrow> find_entry \<Rightarrow> rstring" where
  "find_line entries ino e =
     ascii ''  '' @ (if fe_is_dir e then FOLDER else PAGE) @ ascii '' '' @ build_path entries ino
     @ (if fe_is_dir e then [] else ascii ''  ('' @ fmt_size (fe_size e) @ ascii '')'') @ NL"

definition cmd_find :: "(bytes \<Rightarrow> u32) \<Rightarrow> unicode \<Rightarrow> find_args \<Rightarrow> image \<Rightarrow> cli_error + rstring list" where
  "cmd_find crc uc a f =
     (case dm_open crc f of
        (Inl e, _) \<Rightarrow> Inl (CannotOpen e)
      | (Inr d, _) \<Rightarrow>
          (let entries = find_entries crc d in
           Inr (List.map_filter (\<lambda>ino. case hm_get entries ino of
                    Some e \<Rightarrow> if find_selects uc a e then Some (find_line entries ino e) else None | None \<Rightarrow> None)
                  (sort (map fst entries)))))"

section \<open>search and status\<close>

definition search_lines :: "rstring \<Rightarrow> search_result list \<Rightarrow> rstring list" where
  "search_lines indent rs =
     concat (map (\<lambda>(i, r).
       (indent @ decimal (i + 1) @ ascii ''. '' @ sr_name r @ ascii '' (score: '' @ fmt_fixed 3 (sr_score r) @ ascii '')'')
       # (if sr_matched_terms r = [] then []
          else [indent @ ascii ''   matched: '' @ join_strs (ascii '', '') (sr_matched_terms r)])) (enumerate 0 rs))"

definition cli_index :: "(bytes \<Rightarrow> u32) \<Rightarrow> unicode \<Rightarrow> disk_manager \<Rightarrow> search_index" where
  "cli_index crc uc d =
     fold (\<lambda>n. index_file uc (in_ino n) (inode_get_name n) (if 0 < in_size n then read_or_none d n else []) (in_modified_at n))
       (inodes_in_use crc d) search_new"

text \<open>The number of files indexed and the lines of the results; \<open>None\<close> is a panic.\<close>

definition cmd_search ::
    "(bytes \<Rightarrow> u32) \<Rightarrow> (fp \<Rightarrow> fp) \<Rightarrow> unicode \<Rightarrow> rstring list \<Rightarrow> image \<Rightarrow> (cli_error + nat \<times> rstring list) option" where
  "cmd_search crc lnf uc query f =
     (case dm_open crc f of
        (Inl e, _) \<Rightarrow> Some (Inl (CannotOpen e))
      | (Inr d, _) \<Rightarrow>
          map_option (\<lambda>rs. Inr (length (inodes_in_use crc d), search_lines [] rs))
            (search_query lnf uc (join_strs (ascii '' '') query) (cli_index crc uc d)))"

definition plain_name :: "rstring \<Rightarrow> bool" where
  "plain_name name = list_all (\<lambda>b. ascii_alphanumeric b \<or> b \<in> set (ascii ''._- '')) name"

definition status_files :: "(bytes \<Rightarrow> u32) \<Rightarrow> disk_manager \<Rightarrow> inode_raw list" where
  "status_files crc d = filter (\<lambda>n. plain_name (inode_get_name n)) (inodes_in_use crc d)"

record status_row =
  sw_tier :: "importance_tier option"
  sw_parent :: u64
  sw_name :: rstring
  sw_size :: rstring
  sw_score :: "fp option"

definition status_rows :: "file_score list \<Rightarrow> inode_raw list \<Rightarrow> status_row list option" where
  "status_rows ranked files =
     (if ranked = []
      then those (map (\<lambda>n. map_option (\<lambda>name. \<lparr>sw_tier = None, sw_parent = inode_get_parent_ino n, sw_name = name,
                                               sw_size = fmt_size (in_size n), sw_score = None\<rparr>)
                             (trunc (inode_get_name n) 22)) files)
      else those (map (\<lambda>r.
             let (sz, parent) = (case find (\<lambda>n. in_ino n = fs_ino r) files of
                                   Some n \<Rightarrow> (in_size n, inode_get_parent_ino n) | None \<Rightarrow> (0, 1))
             in map_option (\<lambda>name. \<lparr>sw_tier = Some (fs_tier r), sw_parent = parent, sw_name = name, sw_size = fmt_size sz,
                                    sw_score = Some (fs_score r)\<rparr>) (trunc (fs_name r) 22)) ranked))"

definition status_index :: "unicode \<Rightarrow> disk_manager \<Rightarrow> inode_raw list \<Rightarrow> search_index" where
  "status_index uc d files =
     fold (\<lambda>n. index_file uc (in_ino n) (inode_get_name n)
                (if 0 < in_size n \<and> in_size n < 10000000 then read_or_none d n else []) (in_modified_at n)) files search_new"

text \<open>The number of files, of indexed files, the table and the lines of the results of a query.\<close>

definition cmd_status ::
    "(bytes \<Rightarrow> u32) \<Rightarrow> (fp \<Rightarrow> fp) \<Rightarrow> unicode \<Rightarrow> u64 \<Rightarrow> rstring list \<Rightarrow> image
      \<Rightarrow> (cli_error + nat \<times> nat \<times> status_row list \<times> rstring list) option" where
  "cmd_status crc lnf uc now query f =
     (case dm_open crc f of
        (Inl e, _) \<Rightarrow> Some (Inl (CannotOpen e))
      | (Inr d, _) \<Rightarrow>
          (let files = status_files crc d; idx = status_index uc d files in
           do {
             stats \<leftarrow> count_each lnf now files;
             ranked \<leftarrow> ranked_files lnf now stats;
             rows \<leftarrow> status_rows ranked files;
             found \<leftarrow> (if query = [] then Some [] else search_query lnf uc (join_strs (ascii '' '') query) idx);
             Some (Inr (length files, indexed_count idx, rows, search_lines (ascii ''  '') found))
           }))"

section \<open>info\<close>

record file_info =
  fi_ino :: u64
  fi_parent :: u64
  fi_size :: rstring
  fi_modified :: rstring
  fi_tier :: "importance_tier option"
  fi_score :: fp
  fi_versions :: "(u32 \<times> rstring \<times> rstring) list"

definition cmd_info ::
    "(bytes \<Rightarrow> u32) \<Rightarrow> (fp \<Rightarrow> fp) \<Rightarrow> u64 \<Rightarrow> rstring \<Rightarrow> image \<Rightarrow> (cli_error + file_info) option" where
  "cmd_info crc lnf now filename f =
     (case dm_open crc f of
        (Inl e, _) \<Rightarrow> Some (Inl (CannotOpen e))
      | (Inr d, _) \<Rightarrow>
     (case inode_named crc filename d of
        None \<Rightarrow> Some (Inl FileNotFound)
      | Some (_, n) \<Rightarrow>
          do {
            stats \<leftarrow> imp_record lnf now (in_ino n) filename 0 [];
            ranked \<leftarrow> ranked_files lnf now stats;
            let r = find (\<lambda>r. fs_ino r = in_ino n) ranked;
            Some (Inr \<lparr>fi_ino = in_ino n, fi_parent = inode_get_parent_ino n, fi_size = fmt_size (in_size n),
                       fi_modified = cli_age_str now (in_modified_at n), fi_tier = map_option fs_tier r,
                       fi_score = (case r of Some r \<Rightarrow> fs_score r | None \<Rightarrow> Fin 0),
                       fi_versions = map (\<lambda>(v, sz, ts). (v, fmt_size sz, cli_age_str now ts)) (snap_history crc filename d)\<rparr>)
          }))"

section \<open>heat\<close>

record heat_row =
  hr_tier :: importance_tier
  hr_name :: rstring
  hr_fill :: nat
  hr_empty :: nat
  hr_score :: fp
  hr_size :: rstring

text \<open>The cast \<open>as usize\<close> truncates and saturates.\<close>

fun fp_as_usize :: "fp \<Rightarrow> nat" where
  "fp_as_usize (Fin x) = min (nat \<lfloor>x\<rfloor>) (2 ^ 64 - 1)"
| "fp_as_usize PosInf = 2 ^ 64 - 1"
| "fp_as_usize _ = 0"

definition heat_files :: "(bytes \<Rightarrow> u32) \<Rightarrow> disk_manager \<Rightarrow> inode_raw list" where
  "heat_files crc d = filter (\<lambda>n. in_is_dir n \<noteq> 1) (named_inodes crc d)"

definition heat_row_of :: "fp \<Rightarrow> (u64, u64) hmap \<Rightarrow> file_score \<Rightarrow> heat_row option" where
  "heat_row_of max_score file_sizes f =
     (let fill = fp_as_usize (mul32 (div32 (fs_score f) max_score) (Fin 40))
      in map_option (\<lambda>name. \<lparr>hr_tier = fs_tier f, hr_name = name, hr_fill = fill, hr_empty = 40 - fill, hr_score = fs_score f,
                             hr_size = (case hm_get file_sizes (fs_ino f) of Some sz \<Rightarrow> fmt_size sz | None \<Rightarrow> [])\<rparr>)
           (trunc (fs_name f) 22))"

definition cmd_heat ::
    "(bytes \<Rightarrow> u32) \<Rightarrow> (fp \<Rightarrow> fp) \<Rightarrow> u64 \<Rightarrow> nat \<Rightarrow> image \<Rightarrow> (cli_error + heat_row list) option" where
  "cmd_heat crc lnf now n_top f =
     (case dm_open crc f of
        (Inl e, _) \<Rightarrow> Some (Inl (CannotOpen e))
      | (Inr d, _) \<Rightarrow>
          (let files = heat_files crc d;
               file_sizes = fold (\<lambda>n. hm_insert (in_ino n) (in_size n)) files []
           in do {
             stats \<leftarrow> count_each lnf now files;
             ranked \<leftarrow> ranked_files lnf now stats;
             let shown = take n_top ranked;
             let max_score = fp_max (foldl fp_max (Fin 0) (map fs_score shown)) (f32 (1 / 1000));
             map_option Inr (those (map (heat_row_of max_score file_sizes) shown))
           }))"

section \<open>graph\<close>

definition names_by_ino :: "inode_raw list \<Rightarrow> (u64, rstring) hmap" where
  "names_by_ino ns = fold (\<lambda>n. hm_insert (in_ino n) (inode_get_name n)) ns []"

definition graph_edges :: "(u64, rstring) hmap \<Rightarrow> nat \<Rightarrow> (u64 \<times> rstring \<times> u32) list \<Rightarrow> (u32 \<times> rstring) list" where
  "graph_edges names max_edges ts =
     map (\<lambda>(to_ino, to_name, count). (count, case hm_get names to_ino of Some name \<Rightarrow> name | None \<Rightarrow> to_name))
       (take max_edges (sort_desc (\<lambda>(_, _, count). count) ts))"

text \<open>The nodes with their edges, and the numbers of nodes and edges; \<open>None\<close>: there is no transition yet.\<close>

definition cmd_graph ::
    "(bytes \<Rightarrow> u32) \<Rightarrow> (bytes \<Rightarrow> bytes) \<Rightarrow> rstring \<Rightarrow> nat \<Rightarrow> file_store \<Rightarrow> image
      \<Rightarrow> cli_error + ((rstring \<times> (u32 \<times> rstring) list) list \<times> nat \<times> nat) option" where
  "cmd_graph crc h image_path max_edges fs f =
     (let (markov_data, _) = (case ai_load h (ai_path image_path) fs of Inr r \<Rightarrow> r | Inl _ \<Rightarrow> ([], []))
      in if markov_data = [] then Inr None
      else case dm_open crc f of
             (Inl e, _) \<Rightarrow> Inl (CannotOpen e)
           | (Inr d, _) \<Rightarrow>
               (let names = names_by_ino (named_inodes crc d);
                    nodes = List.map_filter (\<lambda>ino.
                      case hm_get markov_data ino of
                        None \<Rightarrow> None
                      | Some ts \<Rightarrow>
                          (if ts = [] then None
                           else Some (case hm_get names ino of Some name \<Rightarrow> name | None \<Rightarrow> ascii ''(unknown)'',
                                      graph_edges names max_edges ts))) (sort (map fst markov_data))
                in Inr (Some (nodes, length markov_data, sum_list (map (length \<circ> snd) nodes)))))"

section \<open>What a pattern matches\<close>

text \<open>What is left of a text after reading the parts in order, with any gap before each but an anchored first one.\<close>

fun reads :: "bool \<Rightarrow> rstring list \<Rightarrow> rstring \<Rightarrow> rstring \<Rightarrow> bool" where
  "reads anchored [] s r \<longleftrightarrow> r = s"
| "reads anchored (p # ps) s r \<longleftrightarrow> (\<exists>g t. s = g @ p @ t \<and> (anchored \<longrightarrow> g = []) \<and> reads False ps t r)"

text \<open>The language of a pattern: the parts in order, with a gap at each wildcard and at each end without an anchor.\<close>

definition pattern_language :: "bool \<Rightarrow> rstring list \<Rightarrow> bool \<Rightarrow> rstring \<Rightarrow> bool" where
  "pattern_language anchored_start parts anchored_end text \<longleftrightarrow> (\<exists>r. reads anchored_start parts text r \<and> (anchored_end \<longrightarrow> r = []))"

lemma str_find_drop: "str_find pat s = Some n \<Longrightarrow> s = a @ pat @ b \<Longrightarrow> \<exists>c. drop (n + length pat) s = c @ b"
  using str_find_least [of pat s n a b] by (intro exI [of _ "take (length a - n) (drop (n + length pat) s)"]) (simp add: drop_append)

lemma match_parts_reads: "match_parts anchored ps s = Some r \<Longrightarrow> reads anchored ps s r"
proof (induction anchored ps s rule: match_parts.induct)
  case (2 anchored p ps s)
  consider "p = []" | "p \<noteq> []" "anchored" | "p \<noteq> []" "\<not> anchored" by blast
  then show ?case
  proof cases
    case 1
    then show ?thesis using 2 by auto
  next
    case 2
    then obtain t where "s = p @ t" "match_parts False ps t = Some r"
      using "2.prems" by (auto simp: starts_with_iff split: if_splits)
    then show ?thesis using "2.IH"(2) [OF 2] by (auto simp: starts_with_iff)
  next
    case 3
    then obtain n where n: "str_find p s = Some n" "match_parts False ps (drop (n + length p) s) = Some r"
      using "2.prems" by (auto split: option.splits)
    then have "reads False ps (drop (n + length p) s) r" using "2.IH"(3) [OF 3] by simp
    then show ?thesis using str_find_Some [OF n(1)] 3(2) by auto
  qed
qed simp

lemma reads_match_later: "reads False ps s r \<Longrightarrow> match_parts False ps (t @ s) \<noteq> None"
proof (induction ps arbitrary: s t)
  case (Cons p ps)
  from Cons.prems obtain g b where s: "s = g @ p @ b" "reads False ps b r" by auto
  show ?case
  proof (cases "p = []")
    case True
    then show ?thesis using Cons.IH [OF s(2), of "t @ g"] s(1) by simp
  next
    case False
    have whole: "t @ s = (t @ g) @ p @ b" using s(1) by simp
    have "str_contains p (t @ s)" unfolding str_contains_iff using whole by blast
    then obtain n where n: "str_find p (t @ s) = Some n" using str_find_None [of p "t @ s"] by blast
    obtain c where "drop (n + length p) (t @ s) = c @ b" using str_find_drop [OF n whole] by blast
    then show ?thesis using Cons.IH [OF s(2), of c] False n by simp
  qed
qed simp

lemma reads_match: "reads anchored ps s r \<Longrightarrow> match_parts anchored ps s \<noteq> None"
proof (cases ps)
  case (Cons p qs)
  assume reads: "reads anchored ps s r"
  show ?thesis
  proof (cases anchored)
    case True
    then obtain t where "s = p @ t" "reads False qs t r" using reads Cons by auto
    then show ?thesis using reads_match_later [of qs t r "[]"] Cons True by (auto simp: starts_with_iff)
  next
    case False
    then show ?thesis using reads_match_later [of ps s r "[]"] reads by simp
  qed
qed simp

lemma split_single: "\<not> str_contains pat s \<Longrightarrow> str_split pat s = [s]"
  by (simp add: str_split.simps [of pat s] str_find_None [symmetric])


lemma reads_single: "reads anchored [p] s r \<longleftrightarrow> (\<exists>g. s = g @ p @ r \<and> (anchored \<longrightarrow> g = []))"
  by auto

definition core_of :: "rstring \<Rightarrow> rstring" where
  "core_of pattern = trim_end_char 0x24 (trim_start_char 0x5E pattern)"

definition in_language :: "rstring \<Rightarrow> rstring \<Rightarrow> bool" where
  "in_language pattern s =
     pattern_language (starts_with (ascii ''^'') pattern) (str_split WILDCARD (core_of pattern)) (ends_with (ascii ''$'') pattern) s"

lemma regex_match_plain:
  assumes "\<not> str_contains WILDCARD (core_of pattern)"
  shows "regex_match pattern s \<longleftrightarrow> in_language pattern s"
proof -
  define from_start and to_end where "from_start = starts_with (ascii ''^'') pattern" and "to_end = ends_with (ascii ''$'') pattern"
  have "regex_match pattern s \<longleftrightarrow>
      (if from_start \<and> to_end then s = core_of pattern else if from_start then starts_with (core_of pattern) s
       else if to_end then ends_with (core_of pattern) s else str_contains (core_of pattern) s)"
    using assms unfolding regex_match_def Let_def core_of_def from_start_def to_end_def by simp
  also have "\<dots> \<longleftrightarrow> pattern_language from_start [core_of pattern] to_end s"
    unfolding pattern_language_def reads_single by (auto simp: starts_with_iff ends_with_iff str_contains_iff)
  finally show ?thesis using split_single [OF assms] by (simp add: in_language_def from_start_def to_end_def)
qed

text \<open>C38: A match is in the language of the pattern, and without both a wildcard and an end anchor every text of the
  language matches. With both, the leftmost place of the last part decides, so \<open>^a.*$\<close> does not match \<open>abc\<close>.\<close>

theorem regex_match_language:
  "(regex_match pattern s \<longrightarrow> in_language pattern s)
    \<and> (\<not> (ends_with (ascii ''$'') pattern \<and> str_contains WILDCARD (core_of pattern))
        \<longrightarrow> in_language pattern s \<longrightarrow> regex_match pattern s)"
proof (cases "str_contains WILDCARD (core_of pattern)")
  case True
  let ?from_start = "starts_with (ascii ''^'') pattern" and ?parts = "str_split WILDCARD (core_of pattern)"
  have run: "regex_match pattern s \<longleftrightarrow>
      (case match_parts ?from_start ?parts s of None \<Rightarrow> False | Some r \<Rightarrow> \<not> (ends_with (ascii ''$'') pattern \<and> r \<noteq> []))"
    using True unfolding regex_match_def Let_def core_of_def by simp
  show ?thesis
    unfolding run in_language_def pattern_language_def
    using True match_parts_reads [of ?from_start ?parts s] reads_match [of ?from_start ?parts s] by (auto split: option.splits)
qed (simp add: regex_match_plain)

lemma regex_match_misses:
  "in_language (ascii ''^a.*$'') (ascii ''abc'') \<and> \<not> regex_match (ascii ''^a.*$'') (ascii ''abc'')"
proof -
  have "str_split WILDCARD (core_of (ascii ''^a.*$'')) = [ascii ''a'', []]" "starts_with (ascii ''^'') (ascii ''^a.*$'')"
    "ends_with (ascii ''$'') (ascii ''^a.*$'')" "\<not> regex_match (ascii ''^a.*$'') (ascii ''abc'')"
    by code_simp+
  moreover have "reads True [ascii ''a'', []] (ascii ''abc'') []" by (auto simp: ascii_def)
  ultimately show ?thesis by (simp add: in_language_def pattern_language_def)
qed

theorem regex_match_language_witness:
  "regex_match (ascii ''^a.*c'') (ascii ''abcd'') \<and> \<not> regex_match (ascii ''^b.*'') (ascii ''abcd'')"
proof -
  have parts: "str_split WILDCARD (core_of (ascii ''^a.*c'')) = [ascii ''a'', ascii ''c'']"
    "str_split WILDCARD (core_of (ascii ''^b.*'')) = [ascii ''b'', []]"
    "starts_with (ascii ''^'') (ascii ''^a.*c'')" "\<not> ends_with (ascii ''$'') (ascii ''^a.*c'')" "starts_with (ascii ''^'') (ascii ''^b.*'')"
    by code_simp+
  have "reads True [ascii ''a'', ascii ''c''] (ascii ''abcd'') (ascii ''d'')" by (auto simp: ascii_def intro: exI [of _ "[98]"])
  then have "in_language (ascii ''^a.*c'') (ascii ''abcd'')"
    using parts unfolding in_language_def pattern_language_def by auto
  then have "regex_match (ascii ''^a.*c'') (ascii ''abcd'')"
    using regex_match_language [of "ascii ''^a.*c''" "ascii ''abcd''"] parts(4) by blast
  moreover have "\<not> in_language (ascii ''^b.*'') (ascii ''abcd'')"
    using parts unfolding in_language_def pattern_language_def by (auto simp: ascii_def)
  then have "\<not> regex_match (ascii ''^b.*'') (ascii ''abcd'')"
    using regex_match_language [of "ascii ''^b.*''" "ascii ''abcd''"] by blast
  ultimately show ?thesis by blast
qed

section \<open>Paths\<close>

text \<open>The names from the root down to an inode.\<close>

inductive lies_at :: "find_entries \<Rightarrow> u64 \<Rightarrow> rstring list \<Rightarrow> bool" for entries where
  in_root: "hm_get entries ino = Some e \<Longrightarrow> fe_parent e = 1 \<Longrightarrow> lies_at entries ino [fe_name e]"
| below: "hm_get entries ino = Some e \<Longrightarrow> fe_parent e \<noteq> 1 \<Longrightarrow> lies_at entries (fe_parent e) p
    \<Longrightarrow> lies_at entries ino (p @ [fe_name e])"

lemma lies_at_unique: "lies_at entries ino p \<Longrightarrow> lies_at entries ino q \<Longrightarrow> p = q"
proof (induction arbitrary: q rule: lies_at.induct)
  case (in_root ino e)
  from in_root.prems show ?case
  proof (cases rule: lies_at.cases)
    case (in_root e')
    then show ?thesis using \<open>hm_get entries ino = Some e\<close> by simp
  next
    case (below e' p)
    then show ?thesis using in_root.hyps by simp
  qed
next
  case (below ino e p)
  from below.prems show ?case
  proof (cases rule: lies_at.cases)
    case (in_root e')
    then show ?thesis using below.hyps by simp
  next
    case (below e' r)
    then have "p = r" using below.IH \<open>hm_get entries ino = Some e\<close> by simp
    then show ?thesis using below \<open>hm_get entries ino = Some e\<close> by simp
  qed
qed

lemma path_parts_lies:
  "lies_at entries ino p \<Longrightarrow> rev (path_parts guard entries ino) = drop (length p - guard) p"
proof (induction arbitrary: guard rule: lies_at.induct)
  case (in_root ino e)
  then show ?case by (cases guard) simp_all
next
  case (below ino e p)
  have "fe_parent e \<noteq> ino"
  proof
    assume "fe_parent e = ino"
    then have "lies_at entries ino p" "lies_at entries ino (p @ [fe_name e])"
      using below.hyps lies_at.below [OF below.hyps] by simp_all
    from lies_at_unique [OF this] show False by simp
  qed
  then show ?case using below by (cases guard) (simp_all add: Suc_diff_le)
qed

lemma hm_wf_find_entries [simp]: "hm_wf (find_entries crc d)"
proof -
  have "hm_wf (fold (\<lambda>n. hm_insert (in_ino n) (g n)) ns m)" if "hm_wf m" for g :: "inode_raw \<Rightarrow> find_entry" and ns m
    using that by (induction ns arbitrary: m) simp_all
  then show ?thesis by (simp add: find_entries_def)
qed

text \<open>\<open>find\<close> prints one line for each entry it selects, by rising inode number; the path of a file that hangs below
  the root is its names from the root, of which at most the last 64 are shown.\<close>

theorem cmd_find_lists:
  assumes "dm_open crc f = (Inr d, g)"
  shows "\<exists>inos. cmd_find crc uc a f = Inr (map (\<lambda>ino. find_line (find_entries crc d) ino (the (hm_get (find_entries crc d) ino))) inos)
    \<and> sorted_wrt (<) inos
    \<and> set inos = {ino. \<exists>e. hm_get (find_entries crc d) ino = Some e \<and> find_selects uc a e}
    \<and> (\<forall>ino p. lies_at (find_entries crc d) ino p
        \<longrightarrow> build_path (find_entries crc d) ino = ascii ''/'' @ join_strs (ascii ''/'') (drop (length p - 64) p))"
proof -
  let ?es = "find_entries crc d"
  let ?sel = "\<lambda>ino. \<exists>e. hm_get ?es ino = Some e \<and> find_selects uc a e"
  let ?inos = "filter ?sel (sort (map fst ?es))"
  have lines: "List.map_filter (\<lambda>ino. case hm_get ?es ino of
        Some e \<Rightarrow> if find_selects uc a e then Some (find_line ?es ino e) else None | None \<Rightarrow> None) xs
      = map (\<lambda>ino. find_line ?es ino (the (hm_get ?es ino))) (filter ?sel xs)" for xs
    by (induction xs) (auto simp: List.map_filter_simps split: option.split)
  have "sorted_wrt (<) (sort (map fst ?es))" by (simp add: strict_sorted_iff flip: hm_wf_def)
  then have "sorted_wrt (<) ?inos" by (rule sorted_wrt_filter)
  moreover have "set ?inos = {ino. ?sel ino}"
    using hm_get_None_iff [of ?es] by (auto simp: image_iff) (metis option.distinct(1) hm_get_None_iff image_iff fst_conv prod.collapse)
  moreover have "cmd_find crc uc a f = Inr (map (\<lambda>ino. find_line ?es ino (the (hm_get ?es ino))) ?inos)"
    by (simp add: cmd_find_def assms Let_def lines)
  ultimately show ?thesis using path_parts_lies [of ?es _ _ 64] by (intro exI [of _ ?inos]) (simp add: build_path_def)
qed


section \<open>What heat shows\<close>

lemma those_map: "\<forall>x \<in> set xs. \<exists>y. f x = Some y \<Longrightarrow> those (map f xs) = Some (map (the \<circ> f) xs)"
  by (induction xs) auto

lemma count_each_once:
  assumes "distinct (map in_ino ns)" and "length ns \<le> MAX_TRACKED_FILES"
  shows "\<exists>stats. count_each lnf now ns = Some stats \<and> hm_wf stats \<and> length stats = length ns
    \<and> (\<forall>e \<in> set stats. \<exists>n \<in> set ns. e = (in_ino n, inode_get_name n, 1, now, 0))"
proof -
  let ?count = "\<lambda>n stats. Option.bind stats (imp_record lnf now (in_ino n) (inode_get_name n) 0)"
  have "\<exists>stats. fold ?count ns (Some m) = Some stats \<and> hm_wf stats \<and> length stats = length m + length ns
      \<and> (\<forall>e \<in> set stats. e \<in> set m \<or> (\<exists>n \<in> set ns. e = (in_ino n, inode_get_name n, 1, now, 0)))"
    if "hm_wf m" "distinct (map in_ino ns)" "fst ` set m \<inter> in_ino ` set ns = {}" "length m + length ns \<le> MAX_TRACKED_FILES"
    for m :: importance_stats
    using that
  proof (induction ns arbitrary: m)
    case (Cons n ns)
    let ?m = "m @ [(in_ino n, inode_get_name n, 1, now, 0)]"
    have new: "hm_get m (in_ino n) = None" using Cons.prems(3) by (auto simp: hm_get_None_iff)
    then have run: "imp_record lnf now (in_ino n) (inode_get_name n) 0 m = Some ?m"
      using Cons.prems(4) by (simp add: imp_record_def hm_insert_new)
    have "hm_wf ?m" using Cons.prems(1,3) by (auto simp: hm_wf_def)
    moreover have "fst ` set ?m \<inter> in_ino ` set ns = {}" using Cons.prems(2,3) by auto
    ultimately obtain stats where "fold ?count ns (Some ?m) = Some stats" "hm_wf stats" "length stats = length ?m + length ns"
      "\<forall>e \<in> set stats. e \<in> set ?m \<or> (\<exists>n \<in> set ns. e = (in_ino n, inode_get_name n, 1, now, 0))"
      using Cons.IH [of ?m] Cons.prems(2,4) by auto
    then show ?case using run by (intro exI [of _ stats]) auto
  qed simp
  from this [of "[]"] assms show ?thesis by (simp add: count_each_def hm_wf_def)
qed

lemma foldl_max_same: "\<forall>y \<in> set ys. y = Fin c \<Longrightarrow> 0 < c \<Longrightarrow> ys \<noteq> [] \<Longrightarrow> foldl fp_max (Fin 0) ys = Fin c"
proof -
  have "foldl fp_max (Fin c) ys = Fin c" if "\<forall>y \<in> set ys. y = Fin c" for ys using that by (induction ys) (auto simp: fp_max_def)
  then show "\<forall>y \<in> set ys. y = Fin c \<Longrightarrow> 0 < c \<Longrightarrow> ys \<noteq> [] \<Longrightarrow> foldl fp_max (Fin 0) ys = Fin c"
    by (cases ys) (auto simp: fp_max_def)
qed

lemma first_access_ranked:
  assumes "lnf (Fin 10) = Fin l" and "0 < l" and "lnf (Fin 1) = Fin 0" and "hm_wf stats"
    and once: "\<forall>e \<in> set stats. \<exists>n \<in> set ns. e = (in_ino n, inode_get_name n, 1, now, 0)"
  shows "\<exists>ranked. ranked_files lnf now stats = Some ranked \<and> length ranked = length stats
    \<and> (\<forall>r \<in> set ranked. fs_score r = f32 (4 / 10) \<and> fs_tier r = Warm \<and> (\<exists>n \<in> set ns. fs_name r = inode_get_name n))"
proof -
  let ?file = "\<lambda>(ino, name, hits, last_access, _). let score = imp_score lnf now ino stats
     in \<lparr>fs_ino = ino, fs_name = name, fs_score = score, fs_access_count = hits,
         fs_last_access = last_access, fs_tier = tier_from_score score\<rparr>"
  have made: "fs_score (?file e) = f32 (4 / 10) \<and> fs_tier (?file e) = Warm \<and> (\<exists>n \<in> set ns. fs_name (?file e) = inode_get_name n)"
    if "e \<in> set stats" for e
  proof -
    obtain n where n: "n \<in> set ns" "e = (in_ino n, inode_get_name n, 1, now, 0)" using once \<open>e \<in> set stats\<close> by blast
    then have "hm_get stats (in_ino n) = Some (inode_get_name n, 1, now, 0)"
      using that hm_get_Some_iff [OF assms(4)] by auto
    from first_access_score [of lnf, OF assms(1-3) this] n show ?thesis
      using f32_tenths by (auto simp: Let_def tier_from_score_def fp_le_def)
  qed
  have from_stats: "\<exists>e \<in> set stats. r = ?file e" if "r \<in> set (map ?file stats)" for r using that unfolding set_map by blast
  have "fs_score r \<noteq> NaN" if "r \<in> set (map ?file stats)" for r
    using made from_stats [OF that] f32_tenths(1) by fastforce
  then obtain ranked where ranked: "sort_by_score fs_score (map ?file stats) = Some ranked" "mset ranked = mset (map ?file stats)"
    using sort_by_score_sorts [of "map ?file stats" fs_score] by blast
  have "length ranked = length stats" using arg_cong [OF ranked(2), of size] by simp
  moreover have "\<forall>r \<in> set ranked. fs_score r = f32 (4 / 10) \<and> fs_tier r = Warm \<and> (\<exists>n \<in> set ns. fs_name r = inode_get_name n)"
    unfolding mset_eq_setD [OF ranked(2)] using made from_stats by fast
  ultimately show ?thesis using ranked(1) unfolding ranked_files_def by blast
qed

text \<open>A heatmap counts one access of each file, made now: every file it shows is warm, with the same score and a full bar.\<close>

theorem heat_is_uniform:
  assumes "dm_open crc f = (Inr d, g)" and "distinct (map in_ino (heat_files crc d))"
    and "length (heat_files crc d) \<le> MAX_TRACKED_FILES" and "\<forall>n \<in> set (heat_files crc d). trunc (inode_get_name n) 22 \<noteq> None"
    and "lnf (Fin 10) = Fin l" and "0 < l" and "lnf (Fin 1) = Fin 0"
  shows "\<exists>rows. cmd_heat crc lnf now n_top f = Some (Inr rows) \<and> length rows = min n_top (length (heat_files crc d))
    \<and> (\<forall>r \<in> set rows. hr_tier r = Warm \<and> hr_score r = f32 (4 / 10) \<and> hr_fill r = 40 \<and> hr_empty r = 0)"
proof -
  let ?files = "heat_files crc d" and ?c = "13421773 / 33554432 :: rat"
  obtain stats where stats: "count_each lnf now ?files = Some stats" "hm_wf stats" "length stats = length ?files"
    "\<forall>e \<in> set stats. \<exists>n \<in> set ?files. e = (in_ino n, inode_get_name n, 1, now, 0)"
    using count_each_once [OF assms(2,3)] by blast
  obtain ranked where ranked: "ranked_files lnf now stats = Some ranked" "length ranked = length stats"
    and each: "\<forall>r \<in> set ranked. fs_score r = f32 (4 / 10) \<and> fs_tier r = Warm \<and> (\<exists>n \<in> set ?files. fs_name r = inode_get_name n)"
    using first_access_ranked [of lnf, OF assms(5-7) stats(2,4)] by blast
  define shown where "shown = take n_top ranked"
  define max_score where "max_score = fp_max (foldl fp_max (Fin 0) (map fs_score shown)) (f32 (1 / 1000))"
  define sizes where "sizes = fold (\<lambda>n. hm_insert (in_ino n) (in_size n)) ?files []"
  have shown: "r \<in> set ranked" if "r \<in> set shown" for r using that set_take_subset [of n_top ranked] by (auto simp: shown_def)
  have row: "\<exists>row. heat_row_of max_score sizes r = Some row \<and> hr_tier row = Warm \<and> hr_score row = f32 (4 / 10)
      \<and> hr_fill row = 40 \<and> hr_empty row = 0" if r: "r \<in> set shown" for r
  proof -
    have "map fs_score shown \<noteq> []" "\<forall>y \<in> set (map fs_score shown). y = Fin ?c"
      using r each shown unfolding f32_tenths(1) by auto
    then have "max_score = Fin ?c"
      unfolding max_score_def f32_tenths(5) by (subst foldl_max_same [of _ ?c]) (auto simp: fp_max_def)
    moreover have "fp_round binary32 1 = Fin 1" "fp_round binary32 40 = Fin 40" using f32_int [of 1] f32_int [of 40] by simp_all
    ultimately show ?thesis
      using each shown [OF r] assms(4) unfolding f32_tenths(1) by (fastforce simp: heat_row_of_def Let_def)
  qed
  have "cmd_heat crc lnf now n_top f = map_option Inr (those (map (heat_row_of max_score sizes) shown))"
    using assms(1) stats(1) ranked(1) by (simp add: cmd_heat_def Let_def max_score_def sizes_def shown_def)
  also have "those (map (heat_row_of max_score sizes) shown) = Some (map (the \<circ> heat_row_of max_score sizes) shown)"
    using row by (intro those_map) blast
  finally have run: "cmd_heat crc lnf now n_top f = Some (Inr (map (the \<circ> heat_row_of max_score sizes) shown))" by simp
  have "length shown = min n_top (length ?files)" using ranked(2) stats(3) by (simp add: shown_def)
  moreover have "\<forall>x \<in> set (map (the \<circ> heat_row_of max_score sizes) shown).
      hr_tier x = Warm \<and> hr_score x = f32 (4 / 10) \<and> hr_fill x = 40 \<and> hr_empty x = 0"
    using row by fastforce
  ultimately show ?thesis using run by auto
qed

section \<open>On an image with one file\<close>

lemma sample_image_lists:
  obtains d where "dm_open sum_crc (dm_file (dm_flush sum_crc sample_image)) = (Inr d, dm_file d)"
    and "named_inodes sum_crc d = [sample_inode]"
    and "in_ino sample_inode = 2" and "inode_get_parent_ino sample_inode = 1" and "in_is_dir sample_inode = 0"
    and "inode_get_name sample_inode = [97]" and "in_size sample_inode = 0"
proof -
  obtain d where d: "dm_open sum_crc (dm_file (dm_flush sum_crc sample_image)) = (Inr d, dm_file d)"
    "inode_slots sum_crc d = [(0, sample_inode)]"
    using sample_image_opens by metis
  then have "named_inodes sum_crc d = [sample_inode]" by (simp add: named_inodes_def sample_records(3))
  from that [OF d(1) this _ _ _ sample_records(3)] show thesis
    by (simp add: sample_inode_def inode_set_name_def inode_empty_def inode_get_parent_ino_def)
qed

text \<open>A stand-in for the logarithm: zero at one.\<close>

definition ln_step :: "fp \<Rightarrow> fp" where "ln_step x = (if x = Fin 1 then Fin 0 else Fin 2)"

theorem cmd_find_lists_witness:
  "\<exists>line. cmd_find sum_crc ascii_only \<lparr>fa_pattern = ascii ''A'', fa_regex = False, fa_min_size = 0, fa_files_only = True,
     fa_dirs_only = False\<rparr> (dm_file (dm_flush sum_crc sample_image)) = Inr [line]"
proof -
  let ?a = "\<lparr>fa_pattern = ascii ''A'', fa_regex = False, fa_min_size = 0, fa_files_only = True, fa_dirs_only = False\<rparr>"
  obtain d where d: "dm_open sum_crc (dm_file (dm_flush sum_crc sample_image)) = (Inr d, dm_file d)"
    "named_inodes sum_crc d = [sample_inode]"
    "in_ino sample_inode = 2" "inode_get_parent_ino sample_inode = 1" "in_is_dir sample_inode = 0"
    "inode_get_name sample_inode = [97]" "in_size sample_inode = 0" by (rule sample_image_lists)
  let ?e = "\<lparr>fe_name = [97], fe_parent = 1, fe_is_dir = False, fe_size = 0\<rparr>"
  have es: "find_entries sum_crc d = [(2, ?e)]" by (simp add: find_entries_def d(2-7) hm_insert_def)
  have sel: "find_selects ascii_only ?a ?e" by code_simp
  obtain inos where inos: "cmd_find sum_crc ascii_only ?a (dm_file (dm_flush sum_crc sample_image))
      = Inr (map (\<lambda>ino. find_line (find_entries sum_crc d) ino (the (hm_get (find_entries sum_crc d) ino))) inos)"
    "sorted_wrt (<) inos" "set inos = {ino. \<exists>e. hm_get (find_entries sum_crc d) ino = Some e \<and> find_selects ascii_only ?a e}"
    using cmd_find_lists [OF d(1), of ascii_only ?a] by blast
  have "set inos = {2}" unfolding inos(3) es using sel by (auto simp: hm_get_def split: if_splits)
  then have "inos = [2]" using inos(2) by (cases inos; cases "tl inos") (auto simp: strict_sorted_iff)
  then show ?thesis using inos(1) by auto
qed

theorem heat_is_uniform_witness:
  "\<exists>row. cmd_heat sum_crc ln_step 0 20 (dm_file (dm_flush sum_crc sample_image)) = Some (Inr [row]) \<and> hr_tier row = Warm"
proof -
  obtain d where d: "dm_open sum_crc (dm_file (dm_flush sum_crc sample_image)) = (Inr d, dm_file d)"
    "named_inodes sum_crc d = [sample_inode]"
    "in_ino sample_inode = 2" "inode_get_parent_ino sample_inode = 1" "in_is_dir sample_inode = 0"
    "inode_get_name sample_inode = [97]" "in_size sample_inode = 0" by (rule sample_image_lists)
  have files: "heat_files sum_crc d = [sample_inode]" using d(2,5) by (simp add: heat_files_def)
  show ?thesis
    using heat_is_uniform [OF d(1), of ln_step 2 0 20] files d(6)
    by (auto simp: ln_step_def MAX_TRACKED_FILES_def trunc_def length_Suc_conv)
qed

end
