(* ===== verification/Cli_Tree.thy ===== *)
theory Cli_Tree
  imports Cli_Query
begin

text \<open>
  \<open>vexfs tree\<close> of \<open>src/bin/vexfs.rs\<close>: the lines it draws, and that its recursion ends and shows every inode below the
  root once.
\<close>

section \<open>tree\<close>

record tree_args =
  ta_depth :: nat
  ta_tiers :: bool
  ta_sizes :: bool

record tree_entry =
  te_ino :: u64
  te_name :: rstring
  te_size :: u64
  te_is_dir :: bool
  te_score :: fp
  te_tier :: rstring

type_synonym tree_map = "(u64, tree_entry list) hmap"

fun tier_icon :: "importance_tier \<Rightarrow> rstring" where
  "tier_icon Hot = [0xF0, 0x9F, 0x94, 0xA5]"
| "tier_icon Warm = [0xF0, 0x9F, 0x8C, 0xA4]"
| "tier_icon Cold = [0xF0, 0x9F, 0xA7, 0x8A]"

definition tree_entry_of :: "file_score list \<Rightarrow> inode_raw \<Rightarrow> tree_entry" where
  "tree_entry_of ranked n =
     (case find (\<lambda>f. fs_ino f = in_ino n) ranked of
        Some f \<Rightarrow> \<lparr>te_ino = in_ino n, te_name = inode_get_name n, te_size = in_size n, te_is_dir = (in_is_dir n = 1),
                  te_score = fs_score f, te_tier = tier_icon (fs_tier f)\<rparr>
      | None \<Rightarrow> \<lparr>te_ino = in_ino n, te_name = inode_get_name n, te_size = in_size n, te_is_dir = (in_is_dir n = 1),
                  te_score = Fin 0, te_tier = []\<rparr>)"

text \<open>Directories first, then by name: two stable sorts.\<close>

definition sort_entries :: "tree_entry list \<Rightarrow> tree_entry list" where
  "sort_entries es = sort_key (\<lambda>e. \<not> te_is_dir e) (sort_key te_name es)"

definition tree_children :: "file_score list \<Rightarrow> inode_raw list \<Rightarrow> tree_map" where
  "tree_children ranked ns =
     map (\<lambda>(p, cs). (p, sort_entries (map (tree_entry_of ranked) cs))) (group_by inode_get_parent_ino ns)"

definition BRANCH :: rstring where "BRANCH = [0xE2, 0x94, 0x9C, 0xE2, 0x94, 0x80, 0xE2, 0x94, 0x80, 0x20]"
definition CORNER :: rstring where "CORNER = [0xE2, 0x94, 0x94, 0xE2, 0x94, 0x80, 0xE2, 0x94, 0x80, 0x20]"
definition BAR :: rstring where "BAR = [0xE2, 0x94, 0x82, 0x20, 0x20, 0x20]"

definition tree_line :: "tree_args \<Rightarrow> rstring \<Rightarrow> bool \<Rightarrow> tree_entry \<Rightarrow> rstring" where
  "tree_line a prefix last_one e =
     prefix @ (if last_one then CORNER else BRANCH)
     @ (if te_is_dir e then FOLDER else if ta_tiers a \<and> te_tier e \<noteq> [] then te_tier e else PAGE) @ ascii '' '' @ te_name e
     @ (if ta_sizes a \<and> \<not> te_is_dir e then ascii '' ('' @ fmt_size (te_size e) @ ascii '')'' else [])
     @ (if ta_tiers a \<and> fp_less (Fin 0) (te_score e) then ascii '' ['' @ fmt_fixed 2 (te_score e) @ ascii '']'' else [])"

text \<open>The rows of one entry out of \<open>n\<close>; \<open>descend\<close> prints what is below it.\<close>

definition tree_item ::
    "tree_args \<Rightarrow> (u64 \<Rightarrow> rstring \<Rightarrow> nat \<Rightarrow> (tree_entry \<times> rstring) list option) \<Rightarrow> rstring \<Rightarrow> nat \<Rightarrow> nat \<Rightarrow> nat \<times> tree_entry
      \<Rightarrow> (tree_entry \<times> rstring) list option" where
  "tree_item a descend prefix depth n = (\<lambda>(i, e).
     let last_one = (i = n - 1); row = (e, tree_line a prefix last_one e)
     in if te_is_dir e \<and> (ta_depth a = 0 \<or> depth < ta_depth a)
        then map_option ((#) row) (descend (te_ino e) (prefix @ (if last_one then ascii ''    '' else BAR)) (Suc depth))
        else Some [row])"

text \<open>The recursion follows the children of a directory. \<open>None\<close>: the fuel, which stands for the stack, runs out.\<close>

primrec print_tree :: "nat \<Rightarrow> tree_args \<Rightarrow> tree_map \<Rightarrow> u64 \<Rightarrow> rstring \<Rightarrow> nat \<Rightarrow> (tree_entry \<times> rstring) list option" where
  "print_tree 0 a children node prefix depth = None"
| "print_tree (Suc fuel) a children node prefix depth =
     (case hm_get children node of
        None \<Rightarrow> Some []
      | Some entries \<Rightarrow>
          map_option concat (those (map (tree_item a (print_tree fuel a children) prefix depth (length entries))
                                        (enumerate 0 entries))))"

text \<open>The lines with the numbers of directories and files; \<open>None\<close> is a crash.\<close>

definition cmd_tree ::
    "(bytes \<Rightarrow> u32) \<Rightarrow> (fp \<Rightarrow> fp) \<Rightarrow> u64 \<Rightarrow> nat \<Rightarrow> tree_args \<Rightarrow> image \<Rightarrow> (cli_error + rstring list \<times> nat \<times> nat) option" where
  "cmd_tree crc lnf now fuel a f =
     (case dm_open crc f of
        (Inl e, _) \<Rightarrow> Some (Inl (CannotOpen e))
      | (Inr d, _) \<Rightarrow>
          (let ns = named_inodes crc d in
           case count_each lnf now ns of
             None \<Rightarrow> None
           | Some stats \<Rightarrow>
               (case (if ta_tiers a then ranked_files lnf now stats else Some []) of
                  None \<Rightarrow> None
                | Some ranked \<Rightarrow>
                    map_option (\<lambda>rows. Inr (map snd rows, length (filter (te_is_dir \<circ> fst) rows),
                                           length (filter (Not \<circ> te_is_dir \<circ> fst) rows)))
                      (print_tree fuel a (tree_children ranked ns) 1 [] 0))))"



section \<open>What tree shows\<close>

text \<open>A directory that hangs below the root, with the inode numbers on the way to it.\<close>

inductive folder :: "inode_raw list \<Rightarrow> u64 list \<Rightarrow> u64 \<Rightarrow> bool" for ns where
  top: "folder ns [] 1"
| child: "folder ns p (inode_get_parent_ino n) \<Longrightarrow> n \<in> set ns \<Longrightarrow> in_is_dir n = 1 \<Longrightarrow> folder ns (p @ [in_ino n]) (in_ino n)"

text \<open>The inodes somewhere below the directory at a path.\<close>

definition inside :: "inode_raw list \<Rightarrow> u64 list \<Rightarrow> inode_raw set" where
  "inside ns p = {n \<in> set ns. \<exists>q. folder ns (p @ q) (inode_get_parent_ino n)}"

definition rooted :: "inode_raw list \<Rightarrow> bool" where
  "rooted ns \<longleftrightarrow> distinct (map in_ino ns) \<and> 1 \<notin> in_ino ` set ns"

lemma rooted_same: "rooted ns \<Longrightarrow> m \<in> set ns \<Longrightarrow> n \<in> set ns \<Longrightarrow> in_ino m = in_ino n \<Longrightarrow> m = n"
  by (auto simp: rooted_def distinct_map dest: inj_onD)

lemma folder_end: "folder ns p d \<Longrightarrow> d = (if p = [] then 1 else last p)"
  by (cases rule: folder.cases) auto

lemma folder_unique: "folder ns p d \<Longrightarrow> rooted ns \<Longrightarrow> folder ns q d \<Longrightarrow> p = q"
proof (induction arbitrary: q rule: folder.induct)
  case top
  from top(2) show ?case by (cases rule: folder.cases) (use top(1) in \<open>force simp: rooted_def\<close>)+
next
  case (child p n)
  have one: "in_ino n \<noteq> 1" using child.prems(1) child.hyps(2) by (force simp: rooted_def)
  obtain r where r: "q = r @ [in_ino n]" "folder ns r (inode_get_parent_ino n)"
    using child.prems(2)
  proof (cases rule: folder.cases)
    case top
    then show ?thesis using one by simp
  next
    case (child r m)
    with rooted_same [OF \<open>rooted ns\<close> _ \<open>n \<in> set ns\<close>, of m] that show ?thesis by metis
  qed
  then show ?case using child.IH [OF child.prems(1)] by simp
qed

lemma folder_prefix: "folder ns p d \<Longrightarrow> p = q @ r \<Longrightarrow> \<exists>c. folder ns q c"
proof (induction arbitrary: r rule: folder.induct)
  case top
  then show ?case using folder.top by auto
next
  case (child p n)
  show ?case
  proof (cases r rule: rev_cases)
    case Nil
    then show ?thesis using folder.child [OF child.hyps] child.prems by auto
  next
    case (snoc r' x)
    then show ?thesis using child by auto
  qed
qed

lemma folder_step:
  "folder ns (p @ [x]) c \<Longrightarrow> \<exists>n \<in> set ns. in_ino n = x \<and> in_is_dir n = 1 \<and> folder ns p (inode_get_parent_ino n)"
  by (cases rule: folder.cases) auto

lemma folder_path:
  assumes "rooted ns" and "folder ns p d"
  shows "distinct p \<and> set p \<subseteq> in_ino ` set ns"
  using assms(2)
proof (induction rule: folder.induct)
  case (child p n)
  have "in_ino n \<notin> set p"
  proof
    assume "in_ino n \<in> set p"
    then obtain q r where "p = q @ in_ino n # r" by (meson split_list)
    then have p: "p = (q @ [in_ino n]) @ r" by simp
    obtain c where "folder ns (q @ [in_ino n]) c" using folder_prefix [OF child.hyps(1) p] by blast
    then have "folder ns (q @ [in_ino n]) (in_ino n)" using folder_end by fastforce
    from folder_unique [OF this assms(1) folder.child [OF child.hyps]] p show False by simp
  qed
  then show ?case using child by auto
qed simp

lemma folder_short: "rooted ns \<Longrightarrow> folder ns p d \<Longrightarrow> length p \<le> length ns"
  using folder_path [of ns p d] distinct_card [of p] card_mono [of "in_ino ` set ns" "set p"]
    card_image_le [of "set ns" in_ino] card_length [of ns] by auto


lemma tree_entry_of_simps [simp]:
  "te_ino (tree_entry_of ranked n) = in_ino n" "te_is_dir (tree_entry_of ranked n) \<longleftrightarrow> in_is_dir n = 1"
  by (simp_all add: tree_entry_of_def split: option.split)

lemma set_sort_entries [simp]: "set (sort_entries es) = set es" "distinct (sort_entries es) = distinct es"
  by (simp_all add: sort_entries_def)

lemma distinct_map_sort_entries [simp]: "distinct (map te_ino (sort_entries es)) = distinct (map te_ino es)"
  by (simp add: sort_entries_def distinct_map)

lemma tree_children_get:
  "hm_get (tree_children ranked ns) d =
     (let cs = filter (\<lambda>n. inode_get_parent_ino n = d) ns
      in if cs = [] then None else Some (sort_entries (map (tree_entry_of ranked) cs)))"
proof -
  have "hm_get (map (\<lambda>(p, cs). (p, g cs)) m) d = map_option g (hm_get m d)"
    for g :: "inode_raw list \<Rightarrow> tree_entry list" and m
    by (induction m) (auto simp: hm_get_def)
  from this [of "\<lambda>cs. sort_entries (map (tree_entry_of ranked) cs)" "group_by inode_get_parent_ino ns"]
  show ?thesis unfolding tree_children_def Let_def hm_get_group_by by (auto simp: filter_empty_conv image_iff)
qed

lemma folder_det: "folder ns p c \<Longrightarrow> folder ns p d \<Longrightarrow> c = d"
  by (drule folder_end)+ simp

lemma inside_split:
  assumes "folder ns p d"
  shows "inside ns p = (\<Union>n \<in> {n \<in> set ns. inode_get_parent_ino n = d}.
    insert n (if in_is_dir n = 1 then inside ns (p @ [in_ino n]) else {}))" (is "_ = ?union")
proof (intro set_eqI iffI)
  fix n assume "n \<in> inside ns p"
  then obtain q where q: "n \<in> set ns" "folder ns (p @ q) (inode_get_parent_ino n)" by (auto simp: inside_def)
  show "n \<in> ?union"
  proof (cases q)
    case Nil
    then show ?thesis using q folder_det [OF assms] by auto
  next
    case (Cons x q')
    then obtain c where "folder ns (p @ [x]) c" using folder_prefix [OF q(2), of "p @ [x]" q'] by auto
    then obtain m where m: "m \<in> set ns" "in_ino m = x" "in_is_dir m = 1" "folder ns p (inode_get_parent_ino m)"
      using folder_step by blast
    then have "n \<in> inside ns (p @ [in_ino m])" using q Cons by (auto simp: inside_def)
    with m folder_det [OF assms m(4)] show ?thesis by auto
  qed
next
  fix n assume "n \<in> ?union"
  then obtain m where m: "m \<in> set ns" "inode_get_parent_ino m = d"
    "n \<in> insert m (if in_is_dir m = 1 then inside ns (p @ [in_ino m]) else {})" by blast
  show "n \<in> inside ns p"
  proof (cases "n = m")
    case True
    then show ?thesis using m assms by (auto simp: inside_def intro!: exI [of _ "[]"])
  next
    case False
    then show ?thesis using m(3) by (auto simp: inside_def split: if_splits)
  qed
qed

lemma inside_apart:
  assumes "rooted ns" and "in_ino m \<noteq> in_ino n"
  shows "inside ns (p @ [in_ino m]) \<inter> inside ns (p @ [in_ino n]) = {}"
  using folder_unique [OF _ assms(1)] assms(2) by (fastforce simp: inside_def)

lemma inside_below:
  assumes "rooted ns" and "folder ns p d" and "inode_get_parent_ino n = d"
  shows "n \<notin> inside ns (p @ [x])"
  using folder_unique [OF _ assms(1), of "p @ x # q" d p for q] assms(2,3) by (auto simp: inside_def)

text \<open>The entries in the block of lines an entry opens.\<close>

definition block :: "file_score list \<Rightarrow> inode_raw list \<Rightarrow> u64 list \<Rightarrow> tree_entry \<Rightarrow> tree_entry set" where
  "block ranked ns p e = insert e (if te_is_dir e then tree_entry_of ranked ` inside ns (p @ [te_ino e]) else {})"

lemma block_entry:
  "block ranked ns p (tree_entry_of ranked n)
    = tree_entry_of ranked ` insert n (if in_is_dir n = 1 then inside ns (p @ [in_ino n]) else {})"
  by (simp add: block_def)

lemma block_apart:
  assumes ns: "rooted ns" and p: "folder ns p d" and m: "m \<in> set ns" "inode_get_parent_ino m = d"
    and n: "n \<in> set ns" "inode_get_parent_ino n = d" and ne: "in_ino m \<noteq> in_ino n"
  shows "te_ino ` block ranked ns p (tree_entry_of ranked m) \<inter> te_ino ` block ranked ns p (tree_entry_of ranked n) = {}"
proof -
  define I where "I n = insert n (if in_is_dir n = 1 then inside ns (p @ [in_ino n]) else {})" for n
  have inos: "te_ino ` block ranked ns p (tree_entry_of ranked n) = in_ino ` I n" for n
    unfolding block_entry I_def [symmetric] by (simp add: image_image)
  have sub: "I m \<subseteq> set ns" "I n \<subseteq> set ns" using m(1) n(1) by (auto simp: inside_def I_def)
  have "I m \<inter> I n = {}"
    using inside_apart [OF ns ne] inside_below [OF ns p m(2)] inside_below [OF ns p n(2)] ne by (auto simp: I_def)
  moreover have "inj_on in_ino (set ns)" using ns by (simp add: rooted_def distinct_map)
  ultimately show ?thesis unfolding inos using inj_on_image_Int [of in_ino "set ns" "I m" "I n"] sub by simp
qed

lemma block_union:
  assumes "folder ns p d"
  shows "(\<Union>e \<in> tree_entry_of ranked ` {n \<in> set ns. inode_get_parent_ino n = d}. block ranked ns p e)
    = tree_entry_of ranked ` inside ns p"
  unfolding inside_split [OF assms] by (simp only: image_UN block_entry UN_simps)

lemma distinct_apart: "distinct (map f xs) \<Longrightarrow> sorted_wrt (\<lambda>a b. f a \<noteq> f b) xs"
  by (induction xs) auto

lemma tree_item_block:
  assumes ns: "rooted ns" and p: "folder ns p d" and n: "n \<in> set ns" "inode_get_parent_ino n = d" and whole: "ta_depth a = 0"
    and descend: "\<And>prefix depth. folder ns (p @ [in_ino n]) (in_ino n) \<Longrightarrow>
      \<exists>rows. descend (in_ino n) prefix depth = Some rows
        \<and> distinct (map (te_ino \<circ> fst) rows) \<and> fst ` set rows = tree_entry_of ranked ` inside ns (p @ [in_ino n])"
  shows "\<exists>rows. tree_item a descend prefix depth k (i, tree_entry_of ranked n) = Some rows
    \<and> distinct (map (te_ino \<circ> fst) rows) \<and> fst ` set rows = block ranked ns p (tree_entry_of ranked n)"
proof (cases "in_is_dir n = 1")
  case True
  have "folder ns (p @ [in_ino n]) (in_ino n)" using folder.child [of ns p n] p n True by simp
  from descend [OF this, of "prefix @ (if i = k - 1 then ascii ''    '' else BAR)" "Suc depth"]
  obtain rows where rows: "descend (in_ino n) (prefix @ (if i = k - 1 then ascii ''    '' else BAR)) (Suc depth) = Some rows"
    "distinct (map (te_ino \<circ> fst) rows)" "fst ` set rows = tree_entry_of ranked ` inside ns (p @ [in_ino n])"
    by (elim exE conjE)
  have "(\<lambda>r. te_ino (fst r)) ` set rows = in_ino ` inside ns (p @ [in_ino n])"
    using arg_cong [OF rows(3), of "image te_ino"] by (simp add: image_image)
  moreover have "in_ino n \<notin> in_ino ` inside ns (p @ [in_ino n])"
    using inside_below [OF ns p n(2)] rooted_same [OF ns n(1)] by (auto simp: inside_def)
  ultimately show ?thesis using rows True whole by (simp add: tree_item_def block_entry Let_def)
next
  case False
  then show ?thesis by (simp add: tree_item_def block_def Let_def)
qed

text \<open>The recursion of \<open>print_tree\<close> ends, for its path gets longer and stays free of repetitions; it shows each
  inode inside the directory once.\<close>

lemma print_tree_inside:
  assumes ns: "rooted ns" and whole: "ta_depth a = 0"
  shows "folder ns p d \<Longrightarrow> length ns < length p + fuel \<Longrightarrow>
    \<exists>rows. print_tree fuel a (tree_children ranked ns) d prefix depth = Some rows
      \<and> distinct (map (te_ino \<circ> fst) rows) \<and> fst ` set rows = tree_entry_of ranked ` inside ns p"
proof (induction fuel arbitrary: p d prefix depth)
  case 0
  then show ?case using folder_short [OF ns] by fastforce
next
  case (Suc fuel)
  let ?cs = "filter (\<lambda>n. inode_get_parent_ino n = d) ns" and ?entry = "tree_entry_of ranked"
  show ?case
  proof (cases "?cs = []")
    case True
    then have "{n \<in> set ns. inode_get_parent_ino n = d} = {}" by (auto simp: filter_empty_conv)
    then have "inside ns p = {}" using inside_split [OF Suc.prems(1)] by simp
    then show ?thesis using True by (simp add: tree_children_get Let_def)
  next
    case False
    define es where "es = sort_entries (map ?entry ?cs)"
    define item where "item = tree_item a (print_tree fuel a (tree_children ranked ns)) prefix depth (length es)"
    have es: "set es = ?entry ` {n \<in> set ns. inode_get_parent_ino n = d}" by (simp add: es_def)
    have "map te_ino (map ?entry ?cs) = map in_ino ?cs" by simp
    then have dist: "distinct (map te_ino es)"
      unfolding es_def distinct_map_sort_entries using ns by (simp only:) (simp add: rooted_def distinct_map_filter)
    have items: "\<exists>rows. item x = Some rows \<and> distinct (map (te_ino \<circ> fst) rows) \<and> fst ` set rows = block ranked ns p (snd x)"
      if x: "x \<in> set (enumerate 0 es)" for x
    proof -
      obtain i n where n: "x = (i, ?entry n)" "n \<in> set ns" "inode_get_parent_ino n = d"
        using es imageI [OF x, of snd] by (cases x) (auto simp flip: set_map)
      show ?thesis unfolding n(1) item_def snd_conv
        by (rule tree_item_block [OF ns Suc.prems(1) n(2,3) whole], rule Suc.IH) (use Suc.prems(2) in auto)
    qed
    let ?bs = "map (the \<circ> item) (enumerate 0 es)"
    have "hm_get (tree_children ranked ns) d = Some es" using False by (simp add: tree_children_get Let_def es_def)
    moreover have "those (map item (enumerate 0 es)) = Some ?bs" using items by (intro those_map) blast
    ultimately have run: "print_tree (Suc fuel) a (tree_children ranked ns) d prefix depth = Some (concat ?bs)"
      by (simp flip: item_def)
    have b: "distinct (map (te_ino \<circ> fst) (the (item x)))" "fst ` set (the (item x)) = block ranked ns p (snd x)"
      if "x \<in> set (enumerate 0 es)" for x
      using items [OF that] by (elim exE conjE, simp only: option.sel)+
    have "fst ` set (concat ?bs) = (\<Union>x \<in> set (enumerate 0 es). block ranked ns p (snd x))"
      by (simp add: image_UN b(2))
    also have "\<dots> = (\<Union>e \<in> set (map snd (enumerate 0 es)). block ranked ns p e)" by (simp only: set_map image_image UN_simps)
    also have "\<dots> = ?entry ` inside ns p" using block_union [OF Suc.prems(1)] es by simp
    finally have content: "fst ` set (concat ?bs) = ?entry ` inside ns p" .
    have "sorted_wrt (\<lambda>e e'. te_ino ` block ranked ns p e \<inter> te_ino ` block ranked ns p e' = {}) es"
    proof (rule sorted_wrt_mono_rel [OF _ distinct_apart [OF dist]])
      fix e e' assume "e \<in> set es" "e' \<in> set es" "te_ino e \<noteq> te_ino e'"
      then obtain m n where "e = ?entry m" "m \<in> set ns" "inode_get_parent_ino m = d"
        "e' = ?entry n" "n \<in> set ns" "inode_get_parent_ino n = d" "in_ino m \<noteq> in_ino n" by (auto simp: es)
      then show "te_ino ` block ranked ns p e \<inter> te_ino ` block ranked ns p e' = {}"
        using block_apart [OF ns Suc.prems(1)] by simp
    qed
    then have "sorted_wrt (\<lambda>x y. te_ino ` block ranked ns p (snd x) \<inter> te_ino ` block ranked ns p (snd y) = {}) (enumerate 0 es)"
      using sorted_wrt_map [of _ snd "enumerate 0 es"] by simp
    then have "sorted_wrt (\<lambda>x y. set (map (te_ino \<circ> fst) (the (item x))) \<inter> set (map (te_ino \<circ> fst) (the (item y))) = {}) (enumerate 0 es)"
      by (rule sorted_wrt_mono_rel [rotated]) (simp add: b(2) flip: image_image [of te_ino fst])
    then have "distinct (concat (map (\<lambda>x. map (te_ino \<circ> fst) (the (item x))) (enumerate 0 es)))"
      by (rule distinct_concat_apart) (use b(1) in blast)
    then have "distinct (map (te_ino \<circ> fst) (concat ?bs))" by (simp add: map_concat comp_def)
    then show ?thesis using run content by blast
  qed
qed

lemma count_each_total:
  assumes "lnf (Fin 10) = Fin l" and "0 < l"
  shows "\<exists>stats. count_each lnf now ns = Some stats \<and> hm_wf stats \<and> length stats \<le> MAX_TRACKED_FILES"
proof -
  have "\<exists>stats. fold (\<lambda>n stats. Option.bind stats (imp_record lnf now (in_ino n) (inode_get_name n) 0)) ns (Some m) = Some stats
      \<and> hm_wf stats \<and> length stats \<le> MAX_TRACKED_FILES" if "hm_wf m" "length m \<le> MAX_TRACKED_FILES" for m
    using that
  proof (induction ns arbitrary: m)
    case (Cons n ns)
    then show ?case using imp_record_correct [of lnf, OF assms Cons.prems, of now "in_ino n" "inode_get_name n" 0] by auto
  qed simp
  from this [of "[]"] show ?thesis by (simp add: count_each_def)
qed

lemma tree_counts:
  assumes ns: "rooted ns" and rows: "distinct (map (te_ino \<circ> fst) rows)" "fst ` set rows = tree_entry_of ranked ` inside ns p"
  shows "length (filter (P \<circ> fst) rows) = card {n \<in> inside ns p. P (tree_entry_of ranked n)}"
proof -
  have "distinct (map te_ino (map fst rows))" using rows(1) by simp
  then have "distinct (map fst rows)" by (simp only: distinct_map)
  then have "length (filter P (map fst rows)) = card (set (filter P (map fst rows)))" by (simp only: distinct_card distinct_filter)
  moreover have "set (filter P (map fst rows)) = tree_entry_of ranked ` {n \<in> inside ns p. P (tree_entry_of ranked n)}"
    using rows(2) by auto
  moreover have "inj_on (tree_entry_of ranked) (inside ns p)"
  proof (rule inj_onI)
    fix m n assume "m \<in> inside ns p" "n \<in> inside ns p" "tree_entry_of ranked m = tree_entry_of ranked n"
    then show "m = n" using rooted_same [OF ns, of m n] by (metis (no_types, lifting) inside_def mem_Collect_eq tree_entry_of_simps(1))
  qed
  then have "card (tree_entry_of ranked ` {n \<in> inside ns p. P (tree_entry_of ranked n)}) = card {n \<in> inside ns p. P (tree_entry_of ranked n)}"
    by (intro card_image) (auto simp: inj_on_def)
  ultimately show ?thesis by (simp add: filter_map)
qed



end
