(* ===== verification/Cli_Tag.thy ===== *)
theory Cli_Tag
  imports Cli_Snapshots Search
begin

text \<open>
  \<open>vexfs tag\<close> of \<open>src/bin/vexfs.rs\<close>: the tags of a file are the lines of a sidecar file named
  \<open>.tags.<file>\<close> in the root. The command is given its clock; a failed write is ignored, as in the code.
\<close>

section \<open>The command\<close>

datatype tag_outcome =
    TagList "rstring list"
  | TagExists rstring
  | Tagged rstring
  | NoFreeSlot

definition sidecar_name :: "rstring \<Rightarrow> rstring" where
  "sidecar_name filename = ascii ''.tags.'' @ filename"

definition sidecar_text :: "(bytes \<Rightarrow> u32) \<Rightarrow> rstring \<Rightarrow> disk_manager \<Rightarrow> rstring" where
  "sidecar_text crc sidecar d =
     (case inode_named crc sidecar d of
        None \<Rightarrow> []
      | Some (_, n) \<Rightarrow>
          (if 0 < in_size n
           then utf8_lossy (case read_file_data (in_data_offset n) (unat (in_size n)) d of Inr raw \<Rightarrow> raw | Inl _ \<Rightarrow> [])
           else []))"

definition tag_slot :: "(bytes \<Rightarrow> u32) \<Rightarrow> rstring \<Rightarrow> disk_manager \<Rightarrow> nat option \<times> disk_manager" where
  "tag_slot crc sidecar d =
     (case inode_named crc sidecar d of Some (i, _) \<Rightarrow> (Some i, d) | None \<Rightarrow> dm_alloc_inode crc d)"

definition sidecar_inode :: "rstring \<Rightarrow> nat \<Rightarrow> nat \<Rightarrow> u64 \<Rightarrow> u64 \<Rightarrow> inode_raw" where
  "sidecar_inode sidecar slot len data_offset ts =
     inode_set_name sidecar
       (inode_empty\<lparr>in_ino := 0xDEAD0000 + of_nat slot, in_size := of_nat len, in_data_offset := data_offset,
                    in_parent_ino := 1, in_is_used := 1, in_created_at := ts, in_modified_at := ts\<rparr>)"

definition cmd_tag ::
    "(bytes \<Rightarrow> u32) \<Rightarrow> unicode \<Rightarrow> u64 \<Rightarrow> rstring \<Rightarrow> rstring \<Rightarrow> image \<Rightarrow> (cli_error + tag_outcome) \<times> image" where
  "cmd_tag crc uc ts filename tag f =
     (case dm_open crc f of
        (Inl e, f) \<Rightarrow> (Inl (CannotOpen e), f)
      | (Inr d, _) \<Rightarrow>
          (let sidecar = sidecar_name filename; sidecar_data = sidecar_text crc sidecar d in
           if tag = ascii ''list''
           then (Inr (TagList (if str_trim sidecar_data = [] then [] else map str_trim (str_lines sidecar_data))), dm_file d)
           else
             (let tag_clean = to_lowercase uc (str_trim tag) in
              if list_ex (\<lambda>l. str_trim l = tag_clean) (str_lines sidecar_data) then (Inr (TagExists tag_clean), dm_file d)
              else
                (let sidecar_data = sidecar_data @ tag_clean @ [0x0A] in
                 case tag_slot crc sidecar d of
                   (None, d) \<Rightarrow> (Inr NoFreeSlot, dm_file d)
                 | (Some slot, d) \<Rightarrow>
                     (let (data_offset, d) = alloc_data (length sidecar_data) d;
                          d = snd (write_file_data crc data_offset sidecar_data d);
                          d = snd (dm_write_inode crc slot (sidecar_inode sidecar slot (length sidecar_data) data_offset ts) d)
                      in (Inr (Tagged tag_clean), dm_file (dm_flush crc d)))))))"

section \<open>The slot of the sidecar\<close>

lemma inode_reads:
  assumes "it_inv (dm_inode_table d) (dm_file d)" and "i < MAX_FILES"
  shows "\<exists>n. dm_read_inode crc i d = Inr n"
proof (cases "i < inode_capacity d")
  case True
  then show ?thesis using it_read_total [OF assms(1), of i crc] assms(2) by (auto simp: dm_read_inode_def inode_capacity_def)
next
  case False
  then show ?thesis using dm_read_beyond [OF assms(1) _ assms(2)] by blast
qed

definition named_at :: "(bytes \<Rightarrow> u32) \<Rightarrow> rstring \<Rightarrow> disk_manager \<Rightarrow> nat \<Rightarrow> bool" where
  "named_at crc name d i \<longleftrightarrow> (\<exists>n. dm_read_inode crc i d = Inr n \<and> inode_is_valid n \<and> inode_get_name n = name)"

lemma find_pairs:
  "find (\<lambda>(i, n). P n) (filter (\<lambda>(i, n). Q n) (map (\<lambda>i. (i, g i)) is)) = map_option (\<lambda>i. (i, g i)) (find (\<lambda>i. Q (g i) \<and> P (g i)) is)"
  by (induction "is") auto

lemma inode_named_find:
  assumes "it_inv (dm_inode_table d) (dm_file d)"
  shows "inode_named crc name d
    = map_option (\<lambda>i. (i, projr (dm_read_inode crc i d))) (find (named_at crc name d) [0..<MAX_FILES])"
proof -
  have reads: "dm_read_inode crc i d = Inr (projr (dm_read_inode crc i d))" if "i \<in> set [0..<MAX_FILES]" for i
    using inode_reads [OF assms, of i crc] that by auto
  have "find (\<lambda>i. inode_is_valid (projr (dm_read_inode crc i d)) \<and> inode_get_name (projr (dm_read_inode crc i d)) = name) [0..<MAX_FILES]
      = find (named_at crc name d) [0..<MAX_FILES]"
    by (rule find_cong) (use reads in \<open>auto simp: named_at_def dest: sym\<close>)
  moreover have "readable_slots (\<lambda>i. dm_read_inode crc i d) [0..<MAX_FILES] = map (\<lambda>i. (i, projr (dm_read_inode crc i d))) [0..<MAX_FILES]"
    by (rule readable_slots_all) (rule reads)
  ultimately show ?thesis unfolding inode_named_def inode_slots_def by (simp only: find_pairs)
qed

lemma find_replaced:
  assumes "find P xs = None \<or> find P xs = Some i" and "i \<in> set xs" and "distinct xs" and "\<And>j. j \<noteq> i \<Longrightarrow> Q j = P j" and "Q i"
  shows "find Q xs = Some i"
  using assms by (induction xs) (auto split: if_splits)

text \<open>After a slot has been written with a file of that name, the name finds it.\<close>

lemma inode_named_written:
  assumes inv: "it_inv (dm_inode_table d) (dm_file d)" "it_inv (dm_inode_table d') (dm_file d')"
    and i: "i < MAX_FILES" "dm_read_inode crc i d' = Inr n" "inode_is_valid n" "inode_get_name n = name"
    and others: "\<And>j. j \<noteq> i \<Longrightarrow> dm_read_inode crc j d' = dm_read_inode crc j d"
    and before: "inode_named crc name d = None \<or> (\<exists>m. inode_named crc name d = Some (i, m))"
  shows "inode_named crc name d' = Some (i, n)"
proof -
  have "find (named_at crc name d) [0..<MAX_FILES] = None \<or> find (named_at crc name d) [0..<MAX_FILES] = Some i"
    using before unfolding inode_named_find [OF inv(1)] by auto
  then have "find (named_at crc name d') [0..<MAX_FILES] = Some i"
    by (rule find_replaced) (use i others in \<open>auto simp: named_at_def\<close>)
  then show ?thesis unfolding inode_named_find [OF inv(2)] using i(2) by simp
qed

text \<open>A free slot of the table is taken without touching the image.\<close>

lemma tag_slot_inside:
  assumes inv: "it_inv (dm_inode_table d) (dm_file d)" and slot: "tag_slot crc sidecar d = (Some i, d1)" and i: "i < inode_capacity d"
  shows "i < MAX_FILES" and "\<exists>e. d1 = d\<lparr>dm_inode_table := (dm_inode_table d)\<lparr>it_next_end := e\<rparr>\<rparr>"
    and "inode_named crc sidecar d = None \<or> (\<exists>m. inode_named crc sidecar d = Some (i, m))"
proof -
  show "i < MAX_FILES"
    using i block_count_le [OF inv] by (simp add: inode_capacity_def it_capacity_def MAX_FILES_def inode_layout_defs)
  show "inode_named crc sidecar d = None \<or> (\<exists>m. inode_named crc sidecar d = Some (i, m))"
    using slot by (auto simp: tag_slot_def split: option.splits)
  let ?t = "(dm_inode_table d)\<lparr>it_next_end := sb_next_data_offset (dm_superblock d)\<rparr>"
  show "\<exists>e. d1 = d\<lparr>dm_inode_table := (dm_inode_table d)\<lparr>it_next_end := e\<rparr>\<rparr>"
  proof (cases "inode_named crc sidecar d")
    case None
    have al: "dm_alloc_inode crc d = (Some i, d1)" using slot None by (simp add: tag_slot_def)
    have cap: "it_capacity ?t = inode_capacity d" by (simp add: it_capacity_def block_count_def inode_capacity_def)
    show ?thesis
    proof (cases "scan_free crc ?t (dm_file d) [0..<it_capacity ?t]")
      case (Inr r)
      show ?thesis
      proof (cases r)
        case None
        then have "i = it_capacity ?t"
          using al Inr by (auto simp: dm_alloc_inode_def it_alloc_inode_def Let_def split: option.splits prod.splits)
        then show ?thesis using i cap by simp
      next
        case (Some k)
        then show ?thesis using al Inr by (auto simp: dm_alloc_inode_def it_alloc_inode_def Let_def)
      qed
    qed (use al in \<open>simp add: dm_alloc_inode_def it_alloc_inode_def\<close>)
  next
    case (Some p)
    then show ?thesis using slot by (auto simp: tag_slot_def split: prod.splits intro: exI [of _ "it_next_end (dm_inode_table d)"])
  qed
qed


lemma next_end_reads [simp]:
  "dm_read_inode crc j (d\<lparr>dm_inode_table := (dm_inode_table d)\<lparr>it_next_end := e\<rparr>, dm_file := f\<rparr>) = dm_read_inode crc j (d\<lparr>dm_file := f\<rparr>)"
  "dm_read_inode crc j (d\<lparr>dm_inode_table := (dm_inode_table d)\<lparr>it_next_end := e\<rparr>\<rparr>) = dm_read_inode crc j d"
  by (simp_all add: dm_read_inode_def it_read_inode_def inode_offset_def Let_def)

lemma sidecar_inode_named:
  assumes "list_all name_char filename" and "length filename \<le> 193"
  shows "inode_wf (sidecar_inode (sidecar_name filename) i len off ts)"
    and "inode_is_valid (sidecar_inode (sidecar_name filename) i len off ts)"
    and "inode_get_name (sidecar_inode (sidecar_name filename) i len off ts) = sidecar_name filename"
proof -
  let ?s = "sidecar_name filename"
  have name: "list_all name_char ?s" "length ?s \<le> 199" "?s ! 0 = 46" "0 < length ?s"
    using assms by (simp_all add: sidecar_name_def ascii_def name_char_def is_ascii_alphanumeric_def)
  have "0 \<notin> set ?s" using name(1) by (auto simp: list_all_iff)
  then have "decode_name (encode_name 200 ?s) = ?s" using name by (simp add: decode_encode_name)
  then show "inode_get_name (sidecar_inode ?s i len off ts) = ?s"
    by (simp add: sidecar_inode_def inode_get_name_def inode_set_name_def)
  have "encode_name 200 ?s ! 0 = 46" using name(2-4) by (simp add: encode_name_append nth_append)
  then show "inode_is_valid (sidecar_inode ?s i len off ts)"
    by (simp add: inode_is_valid_def sidecar_inode_def inode_set_name_def is_ascii_graphic_def)
  show "inode_wf (sidecar_inode ?s i len off ts)" by (simp only: sidecar_inode_def inode_wf_set_name)
qed

section \<open>Properties\<close>



lemma read_name_length: "dm_read_inode crc i d = Inr n \<Longrightarrow> length (in_name n) = 200"
proof -
  assume rd: "dm_read_inode crc i d = Inr n"
  have "read_bytes f p INODE_BYTES = Inr b \<Longrightarrow> inode_from_bytes crc b = Inr n \<Longrightarrow> length (in_name n) = 200" for f p b n
    using inode_from_bytes_wf [of b crc n] by (auto simp: read_bytes_def fread_def inode_wf_def split: if_splits)
  then show ?thesis
    using rd by (auto simp: dm_read_inode_def it_read_inode_def inode_empty_def split: option.splits sum.splits if_splits)
qed

lemma inode_get_name_chars:
  "length (in_name n) = 200 \<Longrightarrow> list_all name_char (inode_get_name n) \<and> length (inode_get_name n) \<le> 200"
  using length_takeWhile_le [of "\<lambda>c. c \<noteq> 0" "in_name n"]
  by (simp add: inode_get_name_def decode_name_def nul_terminated_def Let_def)

text \<open>The name of a sidecar that is too long for an inode, or has a character inodes cannot hold, is never found again:
  the list of tags stays empty, and no tag is ever refused as a duplicate.\<close>

theorem tags_of_long_names_lost:
  assumes "dm_open crc f = (Inr d, g)" and "194 < length filename \<or> \<not> list_all name_char filename"
  shows "fst (cmd_tag crc uc ts filename (ascii ''list'') f) = Inr (TagList [])
    \<and> (\<forall>tag t. fst (cmd_tag crc uc ts filename tag f) \<noteq> Inr (TagExists t))"
proof -
  have "inode_named crc (sidecar_name filename) d = None"
  proof (rule ccontr)
    assume "inode_named crc (sidecar_name filename) d \<noteq> None"
    then obtain i n where "(i, n) \<in> set (inode_slots crc d)" and name: "inode_get_name n = sidecar_name filename"
      by (auto simp: inode_named_def find_Some_iff) (metis nth_mem)
    then have "(i, n) \<in> set (readable_slots (\<lambda>i. dm_read_inode crc i d) [0..<MAX_FILES])" by (simp add: inode_slots_def)
    moreover have "(i, n) \<in> set (readable_slots r is) \<Longrightarrow> r i = Inr n" for r :: "nat \<Rightarrow> inode_raw disk_result" and "is"
      by (induction "is") (auto split: sum.splits)
    ultimately have "dm_read_inode crc i d = Inr n" by blast
    from inode_get_name_chars [OF read_name_length [OF this]] name assms(2)
    show False by (auto simp: sidecar_name_def ascii_def)
  qed
  then have "sidecar_text crc (sidecar_name filename) d = []" by (simp add: sidecar_text_def)
  then show ?thesis
    by (auto simp: cmd_tag_def assms(1) Let_def str_trim_def trim_start.simps [of "[]"] trim_end.simps [of "[]"]
        str_lines.simps [of "[]"] split: option.splits prod.splits)
qed

text \<open>A letter outside ASCII.\<close>

theorem tags_of_long_names_lost_witness:
  "fst (cmd_tag sum_crc ascii_only 0 [0xC3, 0xA9] (ascii ''list'') (dm_file (dm_flush sum_crc sample_image))) = Inr (TagList [])"
proof -
  obtain d where "dm_open sum_crc (dm_file (dm_flush sum_crc sample_image)) = (Inr d, dm_file d)"
    using sample_image_opens by metis
  from tags_of_long_names_lost [OF this, of "[0xC3, 0xA9]"] show ?thesis
    by (simp add: name_char_def is_ascii_alphanumeric_def)
qed

lemma tag_slot_free:
  assumes inv: "it_inv (dm_inode_table d) (dm_file d)" and "inode_named crc sidecar d = None"
    and "j < inode_capacity d" and "dm_read_inode crc j d = Inr n" and "in_is_used n = 0"
  shows "\<exists>i d1. tag_slot crc sidecar d = (Some i, d1) \<and> i < inode_capacity d"
proof -
  let ?t = "(dm_inode_table d)\<lparr>it_next_end := sb_next_data_offset (dm_superblock d)\<rparr>"
  let ?free = "\<lambda>i. i < it_capacity ?t \<and> \<not> slot_used crc ?t (dm_file d) i"
  have inv': "it_inv ?t (dm_file d)" and cap: "it_capacity ?t = inode_capacity d"
    using inv by (simp_all add: it_inv_def block_count_def block_start_def it_capacity_def inode_capacity_def)
  have "it_read_inode crc ?t (dm_file d) j = Inr n"
    using assms(4) by (simp add: dm_read_inode_def it_read_inode_def inode_offset_def Let_def split: if_splits)
  then have "?free j" using assms(3,5) cap by (simp add: slot_used_def inode_at_def)
  then have "?free (LEAST i. ?free i)" by (rule LeastI)
  moreover have "scan_free crc ?t (dm_file d) [0..<it_capacity ?t] = Inr (Some (LEAST i. ?free i))"
    using scan_free_spec [OF inv' order_refl, of crc 0] \<open>?free j\<close> by auto
  ultimately show ?thesis
    using assms(2) cap by (simp add: tag_slot_def dm_alloc_inode_def it_alloc_inode_def Let_def)
qed


end
