(* ===== verification/Daemon.thy ===== *)
theory Daemon
  imports Cli_Snapshots Text_Format
begin

text \<open>
  The HTTP daemon of \<open>src/bin/vexfs.rs\<close>, which serves files of the mounted directory and the dashboard. The host is
  a tree of files without symbolic links, addressed by the components of a path; a handler is given the bytes
  its one \<open>read\<close> returned. The answer of the language model, the search of the mounted file system and the texts
  of system errors are arguments.
\<close>

section \<open>The host\<close>

datatype host_node = HostFile bytes | HostDir

type_synonym host = "(rstring list, host_node) hmap"

text \<open>\<open>Path::join\<close>: an absolute path replaces the base.\<close>

definition SLASH :: rstring where "SLASH = [0x2F]"

definition path_join :: "rstring \<Rightarrow> rstring \<Rightarrow> rstring" where
  "path_join base p =
     (if starts_with SLASH p then p else if base = [] \<or> ends_with SLASH base then base @ p else base @ SLASH @ p)"

definition resolve :: "rstring \<Rightarrow> rstring list" where
  "resolve p = foldl (\<lambda>cs c. if c = [] \<or> c = ascii ''.'' then cs else if c = ascii ''..'' then butlast cs else cs @ [c])
                 [] (str_split SLASH p)"

definition host_dir :: "rstring list \<Rightarrow> host \<Rightarrow> bool" where
  "host_dir q h \<longleftrightarrow> q = [] \<or> hm_get h q = Some HostDir"

definition host_read :: "rstring \<Rightarrow> host \<Rightarrow> bytes option" where
  "host_read p h =
     (if 0 \<in> set p \<or> ends_with SLASH p then None
      else case hm_get h (resolve p) of Some (HostFile data) \<Rightarrow> Some data | _ \<Rightarrow> None)"

definition host_read_text :: "rstring \<Rightarrow> host \<Rightarrow> rstring option" where
  "host_read_text p h = Option.bind (host_read p h) (\<lambda>data. if utf8_lossy data = data then Some data else None)"

definition host_write :: "rstring \<Rightarrow> bytes \<Rightarrow> host \<Rightarrow> host option" where
  "host_write p data h =
     (let q = resolve p in
      if 0 \<in> set p \<or> ends_with SLASH p \<or> host_dir q h \<or> \<not> host_dir (butlast q) h then None
      else Some (hm_insert q (HostFile data) h))"

definition host_create_dir :: "rstring \<Rightarrow> host \<Rightarrow> host option" where
  "host_create_dir p h =
     (let q = resolve p in
      if 0 \<in> set p \<or> q = [] \<or> hm_get h q \<noteq> None \<or> \<not> host_dir (butlast q) h then None else Some (hm_insert q HostDir h))"

definition below :: "rstring list \<Rightarrow> rstring list \<Rightarrow> bool" where
  "below q k \<longleftrightarrow> length q < length k \<and> take (length q) k = q"

text \<open>\<open>remove_dir_all\<close> for a directory, \<open>remove_file\<close> otherwise. What is below goes first; the root and a directory
  that something is mounted on stay, with an error.\<close>

definition host_remove :: "rstring list \<Rightarrow> rstring \<Rightarrow> host \<Rightarrow> bool \<times> host" where
  "host_remove busy p h =
     (let q = resolve p in
      if 0 \<in> set p then (False, h)
      else if host_dir q h
      then (let h = filter (\<lambda>(k, _). \<not> below q k) h in if q = [] \<or> q = busy then (False, h) else (True, hm_remove q h))
      else if hm_get h q = None \<or> ends_with SLASH p then (False, h)
      else (True, hm_remove q h))"

text \<open>The entries of a directory with their names, in the order of the map.\<close>

definition host_list :: "rstring \<Rightarrow> host \<Rightarrow> (rstring \<times> host_node) list" where
  "host_list p h = List.map_filter (\<lambda>(k, n). if k \<noteq> [] \<and> butlast k = resolve p then Some (last k, n) else None) h"

section \<open>Text helpers\<close>

definition replace_char :: "u8 \<Rightarrow> rstring \<Rightarrow> rstring \<Rightarrow> rstring" where
  "replace_char c t s = concat (map (\<lambda>x. if x = c then t else [x]) s)"

definition escape_json :: "rstring \<Rightarrow> rstring" where
  "escape_json s =
     replace_char 0x09 [0x5C, 0x74] (replace_char 0x0D [0x5C, 0x72] (replace_char 0x0A [0x5C, 0x6E]
       (replace_char 0x22 [0x5C, 0x22] (replace_char 0x5C [0x5C, 0x5C] s))))"

definition hex_digit :: "u8 \<Rightarrow> u8 option" where
  "hex_digit b =
     (if between 0x30 0x39 b then Some (b - 0x30)
      else if between 0x41 0x46 b then Some (b - 0x37)
      else if between 0x61 0x66 b then Some (b - 0x57)
      else None)"

text \<open>\<open>u8::from_str_radix\<close> on two characters, which takes a leading plus sign.\<close>

definition hex_byte :: "rstring \<Rightarrow> rstring \<Rightarrow> u8 option" where
  "hex_byte h1 h2 =
     (case (h1, h2) of
        ([a], [b]) \<Rightarrow>
          (if a = 0x2B then hex_digit b
           else Option.bind (hex_digit a) (\<lambda>x. map_option (\<lambda>y. 16 * x + y) (hex_digit b)))
      | _ \<Rightarrow> None)"

text \<open>\<open>b as char\<close>: the byte is taken as a code point, not as a byte of UTF-8.\<close>

definition latin1 :: "u8 \<Rightarrow> rstring" where
  "latin1 b = (if b < 0x80 then [b] else [0xC0 + b div 64, 0x80 + b mod 64])"

definition decode_pair :: "rstring \<Rightarrow> rstring \<Rightarrow> rstring" where
  "decode_pair h1 h2 = (case hex_byte h1 h2 of Some b \<Rightarrow> latin1 b | None \<Rightarrow> [])"

fun urldecode_chars :: "rstring list \<Rightarrow> rstring" where
  "urldecode_chars [] = []"
| "urldecode_chars (c # cs) =
     (if c \<noteq> ascii ''%'' then c @ urldecode_chars cs
      else case cs of
             [] \<Rightarrow> decode_pair (ascii ''0'') (ascii ''0'')
           | [h1] \<Rightarrow> decode_pair h1 (ascii ''0'')
           | h1 # h2 # rest \<Rightarrow> decode_pair h1 h2 @ urldecode_chars rest)"

definition urldecode :: "rstring \<Rightarrow> rstring" where
  "urldecode s = urldecode_chars (chars_of s)"

definition split_whitespace :: "rstring \<Rightarrow> rstring list" where
  "split_whitespace s = filter (\<lambda>w. w \<noteq> []) (split_chars is_whitespace (chars_of s))"

definition digit_value :: "rstring \<Rightarrow> int" where
  "digit_value s = foldl (\<lambda>n b. 10 * n + uint (b - 0x30)) 0 s"

definition parse_usize :: "rstring \<Rightarrow> nat option" where
  "parse_usize s =
     (let digits = (if starts_with (ascii ''+'') s then tl s else s) in
      if digits = [] \<or> \<not> list_all (between 0x30 0x39) digits \<or> 2 ^ 64 \<le> digit_value digits then None
      else Some (nat (digit_value digits)))"

section \<open>Requests\<close>

definition CRLF :: rstring where "CRLF = [0x0D, 0x0A]"

record http_request =
  hq_method :: rstring
  hq_path :: rstring
  hq_body :: rstring

definition content_length :: "unicode \<Rightarrow> rstring \<Rightarrow> nat" where
  "content_length uc raw =
     (case find (\<lambda>l. starts_with (ascii ''content-length:'') (to_lowercase uc l)) (str_lines raw) of
        None \<Rightarrow> 0
      | Some l \<Rightarrow>
          (case dropWhile (\<lambda>b. b \<noteq> 0x3A) l of
             [] \<Rightarrow> 0
           | _ # rest \<Rightarrow> (case parse_usize (str_trim rest) of Some n \<Rightarrow> n | None \<Rightarrow> 0)))"

text \<open>\<open>get(..n)\<close> is nothing when the text is shorter or \<open>n\<close> lies inside a character.\<close>

definition body_of :: "nat \<Rightarrow> rstring \<Rightarrow> rstring" where
  "body_of len raw =
     (let received = (case str_find (CRLF @ CRLF) raw of Some i \<Rightarrow> drop (i + 4) raw | None \<Rightarrow> []); n = min len (length raw)
      in if length received < n \<or> continuation received n then [] else take n received)"

definition ascii_upper :: "u8 \<Rightarrow> u8" where
  "ascii_upper c = (if between 0x61 0x7A c then c - 0x20 else c)"

text \<open>\<open>upper\<close> is what \<open>to_uppercase\<close> does outside ASCII.\<close>

definition parse_request :: "unicode \<Rightarrow> (rstring \<Rightarrow> rstring) \<Rightarrow> bytes \<Rightarrow> http_request" where
  "parse_request uc upper received =
     (let raw = utf8_lossy received;
          first = (case str_lines raw of l # _ \<Rightarrow> l | [] \<Rightarrow> []);
          parts = split_whitespace first;
          m = (case parts of m # _ \<Rightarrow> m | [] \<Rightarrow> [])
      in \<lparr>hq_method = (if \<forall>c \<in> set m. c < 0x80 then map ascii_upper m else upper m),
          hq_path = (case parts of _ # p # _ \<Rightarrow> p | _ \<Rightarrow> SLASH),
          hq_body = body_of (content_length uc raw) raw\<rparr>)"

section \<open>Replies\<close>

definition cors :: "rstring \<Rightarrow> rstring \<Rightarrow> rstring \<Rightarrow> rstring" where
  "cors status ct body =
     ascii ''HTTP/1.1 '' @ status @ CRLF @ ascii ''Content-Type: '' @ ct @ CRLF @ ascii ''Access-Control-Allow-Origin: *'' @ CRLF
     @ ascii ''Access-Control-Allow-Methods: GET, POST, DELETE, OPTIONS'' @ CRLF
     @ ascii ''Access-Control-Allow-Headers: Content-Type'' @ CRLF
     @ ascii ''Content-Length: '' @ decimal (length body) @ CRLF @ CRLF @ body"

definition json_ok :: "rstring \<Rightarrow> rstring" where
  "json_ok b = cors (ascii ''200 OK'') (ascii ''application/json'') b"

definition json_err :: "rstring \<Rightarrow> rstring" where
  "json_err m = cors (ascii ''400 Bad Request'') (ascii ''application/json'') (ascii ''{\"error\":\"'' @ m @ ascii ''\"}'')"

definition named_ok :: "rstring \<Rightarrow> rstring" where
  "named_ok name = json_ok (ascii ''{\"ok\":true,\"name\":\"'' @ escape_json name @ ascii ''\"}'')"


text \<open>Header and content of a file of the dashboard.\<close>

definition page_header :: "rstring \<Rightarrow> bytes \<Rightarrow> rstring" where
  "page_header ct content =
     ascii ''HTTP/1.1 200 OK'' @ CRLF @ ascii ''Content-Type: '' @ ct @ CRLF
     @ ascii ''Content-Length: '' @ decimal (length content) @ CRLF @ CRLF @ content"

section \<open>The handler of the launcher\<close>

text \<open>What the daemon is started with, and what is outside of it: the texts of system errors, the model that answers
  questions, the search of the mounted file system and the length the host reports for a directory.\<close>

record daemon =
  dn_mountpoint :: rstring
  dn_dashboard_dir :: rstring
  dn_error :: "rstring \<Rightarrow> rstring"
  dn_call_llm :: "rstring \<Rightarrow> rstring \<Rightarrow> host \<Rightarrow> rstring"
  dn_search :: "rstring \<Rightarrow> host \<Rightarrow> rstring option \<times> host"
  dn_dir_len :: nat
  dn_unicode :: unicode

definition TEXT_EXTENSIONS :: "rstring list" where
  "TEXT_EXTENSIONS = map ascii [''txt'', ''md'', ''rs'', ''toml'', ''yaml'', ''yml'', ''json'', ''sh'', ''py'', ''js'', ''ts'',
     ''html'', ''css'', ''c'', ''h'', ''cpp'', ''go'', ''java'', ''log'', ''conf'', ''ini'', ''env'', ''xml'']"

text \<open>\<open>rsplit('.').next()\<close>: a name without a dot is its own extension.\<close>

definition extension :: "rstring \<Rightarrow> rstring" where
  "extension name = rev (takeWhile (\<lambda>b. b \<noteq> 0x2E) (rev name))"

definition json_bool :: "bool \<Rightarrow> rstring" where
  "json_bool b = (if b then ascii ''true'' else ascii ''false'')"

definition file_item :: "daemon \<Rightarrow> rstring \<times> host_node \<Rightarrow> rstring" where
  "file_item dn e =
     (let (name, node) = e;
          sz = (case node of HostFile data \<Rightarrow> length data | HostDir \<Rightarrow> dn_dir_len dn)
      in ascii ''{\"name\":\"'' @ escape_json name @ ascii ''\",\"size\":'' @ decimal sz
         @ ascii '',\"is_dir\":'' @ json_bool (node = HostDir)
         @ ascii '',\"is_text\":'' @ json_bool (to_lowercase (dn_unicode dn) (extension name) \<in> set TEXT_EXTENSIONS) @ ascii ''}'')"

definition api_files :: "daemon \<Rightarrow> host \<Rightarrow> rstring" where
  "api_files dn h =
     ascii ''['' @ join_strs (ascii '','') (map (file_item dn)
       (filter (\<lambda>(name, _). \<not> starts_with (ascii ''.vexfs-'') name) (host_list (dn_mountpoint dn) h))) @ ascii '']''"

definition api_file :: "daemon \<Rightarrow> rstring \<Rightarrow> rstring \<Rightarrow> rstring \<Rightarrow> host \<Rightarrow> rstring \<times> host" where
  "api_file dn m name body h =
     (let fname = urldecode name; fpath = path_join (dn_mountpoint dn) fname; failed = json_err (escape_json (dn_error dn fpath)) in
      if m = ascii ''GET''
      then ((case host_read_text fpath h of
               Some content \<Rightarrow> json_ok (ascii ''{\"name\":\"'' @ escape_json fname @ ascii ''\",\"content\":\"''
                                        @ escape_json content @ ascii ''\"}'')
             | None \<Rightarrow> failed), h)
      else if m = ascii ''POST''
      then (case host_write fpath body h of Some h' \<Rightarrow> (named_ok fname, h') | None \<Rightarrow> (failed, h))
      else if m = ascii ''DELETE''
      then (case host_remove (resolve (dn_mountpoint dn)) fpath h of (ok, h') \<Rightarrow> (if ok then named_ok fname else failed, h'))
      else (json_err (ascii ''method not allowed''), h))"

definition api_dir :: "daemon \<Rightarrow> rstring \<Rightarrow> rstring \<Rightarrow> host \<Rightarrow> rstring \<times> host" where
  "api_dir dn m name h =
     (let dname = urldecode name; dpath = path_join (dn_mountpoint dn) dname in
      if m = ascii ''POST''
      then (case host_create_dir dpath h of
              Some h' \<Rightarrow> (named_ok dname, h') | None \<Rightarrow> (json_err (escape_json (dn_error dn dpath)), h))
      else (json_err (ascii ''method not allowed''), h))"

definition telemetry_text :: "daemon \<Rightarrow> host \<Rightarrow> rstring" where
  "telemetry_text dn h =
     (case host_read_text (path_join (dn_mountpoint dn) (ascii ''.vexfs-telemetry.json'')) h of Some t \<Rightarrow> t | None \<Rightarrow> ascii ''{}'')"

definition dashboard_path :: "rstring \<Rightarrow> rstring \<Rightarrow> rstring" where
  "dashboard_path dashboard_dir path =
     path_join dashboard_dir (if path = SLASH then ascii ''index.html'' else trim_start_char 0x2F path)"

definition page :: "rstring \<Rightarrow> rstring \<Rightarrow> rstring \<Rightarrow> rstring \<Rightarrow> host \<Rightarrow> rstring" where
  "page dashboard_dir html missing path h =
     (case host_read (dashboard_path dashboard_dir path) h of
        Some content \<Rightarrow>
          page_header (if ends_with (ascii ''.css'') path then ascii ''text/css''
                       else if ends_with (ascii ''.js'') path then ascii ''application/javascript'' else html) content
      | None \<Rightarrow> ascii ''HTTP/1.1 404 Not Found'' @ CRLF @ CRLF @ missing)"

definition route :: "daemon \<Rightarrow> http_request \<Rightarrow> host \<Rightarrow> rstring \<times> host" where
  "route dn r h =
     (let m = hq_method r; path = hq_path r; body = hq_body r in
      if m = ascii ''OPTIONS'' then (cors (ascii ''204 No Content'') (ascii ''text/plain'') [], h)
      else if path = ascii ''/api/telemetry'' then (json_ok (telemetry_text dn h), h)
      else if path = ascii ''/api/files'' \<and> m = ascii ''GET'' then (json_ok (api_files dn h), h)
      else if starts_with (ascii ''/api/file/'') path then api_file dn m (drop 10 path) body h
      else if starts_with (ascii ''/api/dir/'') path then api_dir dn m (drop 9 path) h
      else if path = ascii ''/api/search'' \<and> m = ascii ''POST''
      then (case dn_search dn (str_trim body) h of
              (result, h') \<Rightarrow> (json_ok (ascii ''{\"result\":\"''
                 @ escape_json (str_trim (case result of Some t \<Rightarrow> t | None \<Rightarrow> [])) @ ascii ''\"}''), h'))
      else if path = ascii ''/api/ask'' \<and> m = ascii ''POST''
      then (json_ok (ascii ''{\"result\":\"'' @ escape_json (dn_call_llm dn (str_trim body) (telemetry_text dn h) h)
              @ ascii ''\"}''), h)
      else if path = ascii ''/api/snapshots'' \<and> m = ascii ''GET'' then (json_ok (ascii ''[]''), h)
      else (page (dn_dashboard_dir dn) (ascii ''text/html; charset=utf-8'') [] path h, h))"

text \<open>The reply to the bytes of a request, if one is sent.\<close>

definition handle_http :: "daemon \<Rightarrow> (rstring \<Rightarrow> rstring) \<Rightarrow> bytes \<Rightarrow> host \<Rightarrow> rstring option \<times> host" where
  "handle_http dn upper received h =
     (if received = [] then (None, h)
      else case route dn (parse_request (dn_unicode dn) upper received) h of (reply, h') \<Rightarrow> (Some reply, h'))"

section \<open>The stand-alone daemon\<close>

definition handle_client :: "rstring \<Rightarrow> rstring \<Rightarrow> bytes \<Rightarrow> host \<Rightarrow> rstring option" where
  "handle_client mountpoint dashboard_dir received h =
     (if received = [] then None
      else
        (let request = utf8_lossy received;
             req_line = (case str_lines request of l # _ \<Rightarrow> l | [] \<Rightarrow> []);
             parts = split_whitespace req_line;
             path = (case parts of _ # p # _ \<Rightarrow> p | _ \<Rightarrow> SLASH)
         in if (case parts of m # _ \<Rightarrow> m | [] \<Rightarrow> []) \<noteq> ascii ''GET'' then None
            else if path = ascii ''/api/telemetry''
            then Some (case host_read_text (path_join mountpoint (ascii ''.vexfs-telemetry.json'')) h of
                Some content \<Rightarrow> ascii ''HTTP/1.1 200 OK'' @ CRLF @ ascii ''Content-Type: application/json'' @ CRLF
                  @ ascii ''Access-Control-Allow-Origin: *'' @ CRLF @ CRLF @ content
              | None \<Rightarrow> ascii ''HTTP/1.1 500'' @ CRLF @ CRLF @ ascii ''{}'')
            else Some (page dashboard_dir (ascii ''text/html'') (ascii ''404 Not Found'') path h)))"


section \<open>Escaping\<close>

lemma replace_char_simps [simp]:
  "replace_char c t [] = []" "replace_char c t (x # s) = (if x = c then t else [x]) @ replace_char c t s"
  "replace_char c t (a @ b) = replace_char c t a @ replace_char c t b"
  by (simp_all add: replace_char_def)

definition escape_byte :: "u8 \<Rightarrow> rstring" where
  "escape_byte x =
     (if x = 0x5C then [0x5C, 0x5C] else if x = 0x22 then [0x5C, 0x22] else if x = 0x0A then [0x5C, 0x6E]
      else if x = 0x0D then [0x5C, 0x72] else if x = 0x09 then [0x5C, 0x74] else [x])"

lemma escape_json_bytes: "escape_json s = concat (map escape_byte s)"
  by (induction s) (simp_all add: escape_json_def escape_byte_def)

text \<open>What a JSON reader makes of the escapes.\<close>

fun json_unescape :: "rstring \<Rightarrow> rstring" where
  "json_unescape [] = []"
| "json_unescape [x] = [x]"
| "json_unescape (x # y # s) =
     (if x = 0x5C
      then (if y = 0x6E then 0x0A else if y = 0x72 then 0x0D else if y = 0x74 then 0x09 else y) # json_unescape s
      else x # json_unescape (y # s))"

lemma escape_json_roundtrip: "json_unescape (escape_json s) = s"
proof (induction s)
  case (Cons x s)
  have plain: "json_unescape (x # t) = x # json_unescape t" if "x \<noteq> 0x5C" for t using that by (cases t) auto
  show ?case using Cons plain by (auto simp: escape_json_bytes escape_byte_def)
qed (simp add: escape_json_bytes)

section \<open>Paths\<close>

lemma str_find_single: "str_find [c] (x # s) = (if x = c then Some 0 else map_option Suc (str_find [c] s))"
  by (auto simp: starts_with_def)

lemma str_split_byte:
  "str_split [c] [] = [[]]"
  "str_split [c] (x # s) = (if x = c then [] # str_split [c] s
     else case str_split [c] s of w # ws \<Rightarrow> (x # w) # ws | [] \<Rightarrow> [[x]])"
proof -
  show "str_split [c] [] = [[]]" by (simp add: str_split.simps [of "[c]" "[]"])
  show "str_split [c] (x # s) = (if x = c then [] # str_split [c] s
     else case str_split [c] s of w # ws \<Rightarrow> (x # w) # ws | [] \<Rightarrow> [[x]])"
  proof (cases "x = c")
    case True
    then show ?thesis by (subst str_split.simps) (simp add: starts_with_def)
  next
    case False
    then show ?thesis
      by (simp add: str_split.simps [of "[c]" "x # s"] str_split.simps [of "[c]" s] str_find_single del: str_find.simps split: option.split)
  qed
qed

lemma str_split_ne [simp]: "str_split [c] s \<noteq> []"
  by (induction s) (auto simp: str_split_byte split: list.splits)

lemma str_split_snoc: "str_split [c] (s @ [c]) = str_split [c] s @ [[]]"
  by (induction s) (auto simp: str_split_byte split: list.splits)

lemma resolve_slash: "resolve (p @ SLASH) = resolve p"
  by (simp add: resolve_def SLASH_def str_split_snoc)

lemma resolve_join_empty: "resolve (path_join base []) = resolve base"
proof -
  have "\<not> starts_with SLASH []" by (simp add: starts_with_def SLASH_def)
  then show ?thesis using resolve_slash [of base] by (simp add: path_join_def)
qed

lemma path_join_absolute: "starts_with SLASH p \<Longrightarrow> path_join base p = p"
  by (simp add: path_join_def)

section \<open>Properties\<close>

lemma route_file:
  assumes "hq_path r = ascii ''/api/file/'' @ name" and "hq_method r \<noteq> ascii ''OPTIONS''"
  shows "route dn r h = api_file dn (hq_method r) name (hq_body r) h"
proof -
  have "ascii ''/api/file/'' @ name \<noteq> ascii ''/api/telemetry''" "ascii ''/api/file/'' @ name \<noteq> ascii ''/api/files''"
    by (simp_all add: ascii_def)
  moreover have "drop 10 (ascii ''/api/file/'' @ name) = name" by (simp add: ascii_def)
  ultimately show ?thesis using assms by (simp add: route_def Let_def starts_with_iff)
qed

text \<open>A tree of files: every entry lies in a directory.\<close>

definition host_ok :: "host \<Rightarrow> bool" where
  "host_ok h \<longleftrightarrow> hm_wf h \<and> (\<forall>k n. hm_get h k = Some n \<longrightarrow> k \<noteq> [] \<and> host_dir (butlast k) h)"

lemma host_read_file:
  assumes "host_ok h" and "host_read_text p h = Some content"
  shows "0 \<notin> set p" and "\<not> ends_with SLASH p" and "hm_get h (resolve p) = Some (HostFile content)"
    and "\<not> host_dir (resolve p) h" and "host_dir (butlast (resolve p)) h" and "utf8_lossy content = content"
proof -
  obtain data where "host_read p h = Some data" and data: "utf8_lossy data = data" "data = content"
    using assms(2) by (auto simp: host_read_text_def bind_eq_Some_conv split: if_splits)
  then show "0 \<notin> set p" "\<not> ends_with SLASH p" "hm_get h (resolve p) = Some (HostFile content)"
    by (auto simp: host_read_def split: if_splits option.splits host_node.splits)
  with assms(1) show "\<not> host_dir (resolve p) h" "host_dir (butlast (resolve p)) h" by (auto simp: host_ok_def host_dir_def)
  show "utf8_lossy content = content" using data by simp
qed

text \<open>C39: A file request whose name decodes to an absolute path reads, writes or deletes that file of the host, wherever the
  mount point is.\<close>

theorem file_api_leaves_mountpoint:
  assumes "host_ok h" and "host_read_text p h = Some content"
    and "hq_path r = ascii ''/api/file/'' @ name" and "urldecode name = p" and "starts_with SLASH p"
  shows "(hq_method r = ascii ''GET'' \<longrightarrow> route dn r h
        = (json_ok (ascii ''{\"name\":\"'' @ escape_json p @ ascii ''\",\"content\":\"'' @ escape_json content @ ascii ''\"}''), h))
    \<and> (hq_method r = ascii ''POST'' \<longrightarrow> hm_get (snd (route dn r h)) (resolve p) = Some (HostFile (hq_body r)))
    \<and> (hq_method r = ascii ''DELETE'' \<longrightarrow> hm_get (snd (route dn r h)) (resolve p) = None)"
proof -
  note p = host_read_file [OF assms(1,2)]
  have path: "path_join (dn_mountpoint dn) p = p" using assms(5) by (rule path_join_absolute)
  have go: "route dn r h = api_file dn (hq_method r) name (hq_body r) h" if "hq_method r \<noteq> ascii ''OPTIONS''"
    using route_file [OF assms(3) that] .
  have verbs: "ascii ''POST'' \<noteq> ascii ''GET''" "ascii ''DELETE'' \<noteq> ascii ''GET''" "ascii ''DELETE'' \<noteq> ascii ''POST''"
    "ascii ''GET'' \<noteq> ascii ''OPTIONS''" "ascii ''POST'' \<noteq> ascii ''OPTIONS''" "ascii ''DELETE'' \<noteq> ascii ''OPTIONS''"
    by (simp_all add: ascii_def)
  have "hm_wf h" using assms(1) by (simp add: host_ok_def)
  then show ?thesis
    using go verbs p assms(2,4) path
    by (auto simp: api_file_def host_write_def host_remove_def Let_def)
qed

text \<open>Deleting the empty name deletes everything below the mount point, and reports an error.\<close>

theorem delete_without_name_wipes:
  assumes "hq_path r = ascii ''/api/file/''" and "hq_method r = ascii ''DELETE''" and "0 \<notin> set (dn_mountpoint dn)"
    and "host_dir (resolve (dn_mountpoint dn)) h"
  shows "route dn r h = (json_err (escape_json (dn_error dn (path_join (dn_mountpoint dn) []))),
    filter (\<lambda>(k, _). \<not> below (resolve (dn_mountpoint dn)) k) h)"
proof -
  have verbs: "ascii ''DELETE'' \<noteq> ascii ''GET''" "ascii ''DELETE'' \<noteq> ascii ''POST''" "ascii ''DELETE'' \<noteq> ascii ''OPTIONS''"
    by (simp_all add: ascii_def)
  have "hq_path r = ascii ''/api/file/'' @ []" using assms(1) by simp
  note go = route_file [OF this, of dn h, unfolded assms(2), OF verbs(3)]
  have "0 \<notin> set (path_join (dn_mountpoint dn) [])" using assms(3) by (simp add: path_join_def SLASH_def starts_with_def)
  moreover have "urldecode [] = []" by (simp add: urldecode_def chars_of.simps)
  ultimately show ?thesis unfolding go
    using assms(4) verbs by (simp add: api_file_def host_remove_def resolve_join_empty Let_def)
qed

lemma host_write_read: "host_write p data h = Some h' \<Longrightarrow> host_read p h' = Some data"
  by (auto simp: host_write_def host_read_def Let_def split: if_splits)


section \<open>On a small host\<close>

definition sample_host :: host where
  "sample_host = [([ascii ''etc''], HostDir), ([ascii ''etc'', ascii ''passwd''], HostFile (ascii ''root'')),
     ([ascii ''mnt''], HostDir), ([ascii ''mnt'', ascii ''a''], HostFile (ascii ''old''))]"

definition sample_daemon :: daemon where
  "sample_daemon = \<lparr>dn_mountpoint = ascii ''/mnt'', dn_dashboard_dir = ascii ''/srv'', dn_error = id, dn_call_llm = (\<lambda>q t h. []),
     dn_search = (\<lambda>q h. (None, h)), dn_dir_len = 0, dn_unicode = \<lparr>uc_lower = id, uc_alphanumeric = (\<lambda>_. False)\<rparr>\<rparr>"

lemma str_lines_line: "10 \<notin> set l \<Longrightarrow> str_lines (l @ 10 # rest) = strip_cr l # str_lines rest"
proof -
  assume l: "10 \<notin> set l"
  have take: "takeWhile (\<lambda>c. c \<noteq> 10) (l @ 10 # rest) = l" using l by (induction l) auto
  have drop: "dropWhile (\<lambda>c. c \<noteq> 10) (l @ 10 # rest) = 10 # rest" using l by (induction l) auto
  show ?thesis by (subst str_lines.simps) (simp add: Let_def take drop)
qed

definition sample_upload :: bytes where
  "sample_upload = ascii ''POST /api/file/a HTTP/1.1'' @ CRLF @ ascii ''Content-Length: 5'' @ CRLF @ CRLF @ ascii ''new''"

lemma sample_upload_parts:
  "utf8_lossy sample_upload = sample_upload" 
  "str_lines sample_upload = [ascii ''POST /api/file/a HTTP/1.1'', ascii ''Content-Length: 5'', [], ascii ''new'']"
proof -
  show "utf8_lossy sample_upload = sample_upload"
    by (rule utf8_lossy_ascii) (simp add: sample_upload_def ascii_def CRLF_def)
  have "sample_upload = (ascii ''POST /api/file/a HTTP/1.1'' @ [13]) @ 10 # (ascii ''Content-Length: 5'' @ [13]) @ 10 # [13] @ 10 # ascii ''new''"
    by (simp add: sample_upload_def CRLF_def)
  moreover have "str_lines ((ascii ''POST /api/file/a HTTP/1.1'' @ [13]) @ 10 # (ascii ''Content-Length: 5'' @ [13]) @ 10 # [13] @ 10 # ascii ''new'')
      = [ascii ''POST /api/file/a HTTP/1.1'', ascii ''Content-Length: 5'', [], ascii ''new'']"
  proof -
    have no: "10 \<notin> set (ascii ''POST /api/file/a HTTP/1.1'' @ [13])" "10 \<notin> set (ascii ''Content-Length: 5'' @ [13])" "10 \<notin> set [13 :: u8]"
      by (simp_all add: ascii_def)
    have "str_lines (ascii ''new'') = [ascii ''new'']" by (simp add: str_lines.simps ascii_def)
    then show ?thesis
      unfolding str_lines_line [OF no(1)] str_lines_line [OF no(2)] str_lines_line [OF no(3)] by (simp add: strip_cr_def)
  qed
  ultimately show "str_lines sample_upload = [ascii ''POST /api/file/a HTTP/1.1'', ascii ''Content-Length: 5'', [], ascii ''new'']"
    by (simp only:)
qed

lemma sample_request:
  "hq_path (parse_request (dn_unicode sample_daemon) id sample_upload) = ascii ''/api/file/'' @ ascii ''a''"
  "hq_method (parse_request (dn_unicode sample_daemon) id sample_upload) = ascii ''POST''"
  "content_length (dn_unicode sample_daemon) sample_upload = 5"
proof -
  have parts: "split_whitespace (ascii ''POST /api/file/a HTTP/1.1'') = [ascii ''POST'', ascii ''/api/file/a'', ascii ''HTTP/1.1'']"
    by code_simp
  show "hq_path (parse_request (dn_unicode sample_daemon) id sample_upload) = ascii ''/api/file/'' @ ascii ''a''"
    by (simp add: parse_request_def Let_def sample_upload_parts parts) (simp add: ascii_def)
  have "map ascii_upper (ascii ''POST'') = ascii ''POST''" by code_simp
  then show "hq_method (parse_request (dn_unicode sample_daemon) id sample_upload) = ascii ''POST''"
    by (simp add: parse_request_def Let_def sample_upload_parts parts)
  show "content_length (dn_unicode sample_daemon) sample_upload = 5"
    unfolding content_length_def sample_upload_parts(2) by code_simp
qed

lemma host_ok_sample: "host_ok sample_host"
  by (auto simp: host_ok_def sample_host_def hm_wf_def hm_get_def host_dir_def ascii_def split: if_splits)

theorem file_api_leaves_mountpoint_witness:
  "hm_get (snd (route sample_daemon \<lparr>hq_method = ascii ''DELETE'', hq_path = ascii ''/api/file/%2Fetc%2Fpasswd'', hq_body = []\<rparr>
     sample_host)) [ascii ''etc'', ascii ''passwd''] = None"
proof -
  let ?r = "\<lparr>hq_method = ascii ''DELETE'', hq_path = ascii ''/api/file/%2Fetc%2Fpasswd'', hq_body = []\<rparr>"
  have decoded: "urldecode (ascii ''%2Fetc%2Fpasswd'') = ascii ''/etc/passwd''"
    and content: "host_read_text (ascii ''/etc/passwd'') sample_host = Some (ascii ''root'')"
    and place: "resolve (ascii ''/etc/passwd'') = [ascii ''etc'', ascii ''passwd'']"
    by code_simp+
  have path: "hq_path ?r = ascii ''/api/file/'' @ ascii ''%2Fetc%2Fpasswd''" "starts_with SLASH (ascii ''/etc/passwd'')"
    by (simp_all add: ascii_def SLASH_def starts_with_def)
  from file_api_leaves_mountpoint [OF host_ok_sample content path(1) decoded path(2), of sample_daemon] show ?thesis
    unfolding place by simp
qed

theorem delete_without_name_wipes_witness:
  "snd (route sample_daemon \<lparr>hq_method = ascii ''DELETE'', hq_path = ascii ''/api/file/'', hq_body = []\<rparr> sample_host)
    = [([ascii ''etc''], HostDir), ([ascii ''etc'', ascii ''passwd''], HostFile (ascii ''root'')), ([ascii ''mnt''], HostDir)]"
proof -
  have mount: "0 \<notin> set (dn_mountpoint sample_daemon)" "resolve (dn_mountpoint sample_daemon) = [ascii ''mnt'']"
    by code_simp+
  then have "host_dir (resolve (dn_mountpoint sample_daemon)) sample_host"
    by (simp add: host_dir_def sample_host_def hm_get_def ascii_def)
  from delete_without_name_wipes [OF _ _ mount(1) this, of "\<lparr>hq_method = ascii ''DELETE'', hq_path = ascii ''/api/file/'', hq_body = []\<rparr>"]
  show ?thesis unfolding mount(2) by (simp add: sample_host_def below_def ascii_def)
qed


end
