(* ===== verification/Engine_Properties.thy ===== *)
theory Engine_Properties
  imports Engine
begin

text \<open>
  What the AI thread guarantees: its invariant, that it answers every event unless the network has diverged, and
  what its search index holds after a sequence of events.
\<close>

section \<open>The invariant of the thread\<close>

definition platform_ok :: "platform \<Rightarrow> bool" where
  "platform_ok pf \<longleftrightarrow> (\<exists>l > 0. pl_ln pf (Fin 10) = Fin l)"

definition engine_ok :: "ai_engine \<Rightarrow> bool" where
  "engine_ok e \<longleftrightarrow> markov_inv (en_markov e) \<and> neural_ok (en_neural e)
     \<and> hm_wf (en_importance e) \<and> length (en_importance e) \<le> MAX_TRACKED_FILES
     \<and> index_ok (en_search e) \<and> guard_std (en_guard e) \<and> memory_wf (en_memory e) \<and> pairs_tracked (en_memory e)
     \<and> distinct (en_session_files e) \<and> hm_wf (en_write_accumulator e)"

definition diverged :: "platform \<Rightarrow> neural \<Rightarrow> bool" where
  "diverged pf n \<longleftrightarrow> 2 \<le> vocab_size n \<and> NaN \<in> set (snd (snd (forward (pl_math pf) (encode_history n) n)))"

lemma NaN_enumerate: "list_ex (\<lambda>x. snd x = NaN) (enumerate 0 xs) \<longleftrightarrow> NaN \<in> set xs"
proof -
  have "NaN \<in> set xs \<longleftrightarrow> NaN \<in> snd ` set (enumerate 0 xs)" by (metis map_snd_enumerate set_map)
  then show ?thesis by (simp add: image_iff list_ex_iff eq_commute)
qed

lemma top_prediction_diverged:
  assumes "neural_ok n" shows "neural_top_prediction (pl_math pf) n = None \<longleftrightarrow> diverged pf n"
proof -
  have w2: "length (nn_w2 n) = vocab_size n" "length (nn_b2 n) = vocab_size n"
    using assms by (simp_all add: neural_ok_def matrix_ok_def)
  obtain hidden logits probs where f: "forward (pl_math pf) (encode_history n) n = (hidden, logits, probs)" by (metis prod.collapse)
  have len: "length probs = vocab_size n" if "2 \<le> vocab_size n"
    using f w2 that by (auto simp: forward_def Let_def split: if_splits)
  show ?thesis
    using f w2 len
    by (auto simp: neural_top_prediction_def diverged_def max_by_score_def sort_by_score_def NaN_enumerate Let_def
        split: option.splits)
qed

lemma prediction_shown:
  "(case p of Some _ \<Rightarrow> Some () | None \<Rightarrow> map_option (\<lambda>_. ()) (mk_top_prediction ino m)) = Some ()"
  using mk_predict_sorted [of ino m] by (auto simp: mk_top_prediction_def split: option.split)

lemma imp_record_total:
  assumes "platform_ok pf" and "hm_wf stats" and "length stats \<le> MAX_TRACKED_FILES"
  shows "\<exists>stats'. imp_record (pl_ln pf) now ino name secs stats = Some stats' \<and> hm_wf stats' \<and> length stats' \<le> MAX_TRACKED_FILES"
  using imp_record_correct [of "pl_ln pf", OF _ _ assms(2,3)] assms(1) unfolding platform_ok_def by blast

lemma memory_keeps:
  "memory_wf mem \<Longrightarrow> memory_wf (record_access ts ino name mem)" "memory_wf mem \<Longrightarrow> memory_wf (record_read ino mem)"
  "memory_wf mem \<Longrightarrow> memory_wf (record_write ino mem)" "memory_wf mem \<Longrightarrow> memory_wf (close_session ts mem)"
  "pairs_tracked mem \<Longrightarrow> pairs_tracked (record_access ts ino name mem)" "pairs_tracked mem \<Longrightarrow> pairs_tracked (record_read ino mem)"
  "pairs_tracked mem \<Longrightarrow> pairs_tracked (record_write ino mem)" "pairs_tracked mem \<Longrightarrow> pairs_tracked (close_session ts mem)"
  using mem_step_wf [of mem "MemAccess ts ino name"] mem_step_wf [of mem "MemRead ino"] mem_step_wf [of mem "MemWrite ino"]
    mem_step_wf [of mem "MemClose ts"] pairs_tracked_step [of mem "MemAccess ts ino name"] pairs_tracked_step [of mem "MemRead ino"]
    pairs_tracked_step [of mem "MemWrite ino"] pairs_tracked_step [of mem "MemClose ts"]
  by simp_all

lemma check_write_std: "guard_std g \<Longrightarrow> guard_std (snd (check_write l uc now ino name data g))"
  by (rule check_write_state(1))

lemma sync_total:
  assumes "platform_ok pf" and "engine_ok e" shows "\<exists>w'. sync_state pf now e w = Some w'"
proof -
  from assms obtain fs where "ranked_files (pl_ln pf) now (en_importance e) = Some fs"
    using ranked_files_correct [of "pl_ln pf" _ "en_importance e" now] unfolding platform_ok_def engine_ok_def by blast
  then show ?thesis by (simp add: sync_state_def Let_def)
qed

lemma sync_saved: "sync_state pf now e w = Some w' \<Longrightarrow> sh_saved w' = saved_of e \<and> sa_search_result w' = si_last_query_result (en_search e)
    \<and> sa_jarvis_result w' = en_workspace_rendered e"
  by (auto simp: sync_state_def Let_def split: bind_splits)


lemma engine_okD:
  assumes "engine_ok e"
  shows "markov_inv (en_markov e)" "neural_ok (en_neural e)" "hm_wf (en_importance e)" "length (en_importance e) \<le> MAX_TRACKED_FILES"
    "index_ok (en_search e)" "guard_std (en_guard e)" "memory_wf (en_memory e)" "pairs_tracked (en_memory e)"
    "distinct (en_session_files e)" "hm_wf (en_write_accumulator e)"
  using assms by (simp_all add: engine_ok_def)

text \<open>The events at which a network that has produced a NaN stops the thread.\<close>

fun stuck :: "platform \<Rightarrow> fs_event \<Rightarrow> ai_engine \<Rightarrow> bool" where
  "stuck pf (EvOpen ino name sz) e \<longleftrightarrow> (\<exists>n. neural_record (pl_math pf) ino name (en_neural e) = Some n \<and> diverged pf n)"
| "stuck pf (EvAskQuery query file_list) e \<longleftrightarrow> diverged pf (en_neural e)"
| "stuck pf ev e \<longleftrightarrow> False"

lemma open_step:
  assumes "platform_ok pf" and "engine_ok e"
  shows "if stuck pf (EvOpen ino name sz) e then on_open pf now ino name sz e = None
    else \<exists>e'. on_open pf now ino name sz e = Some e' \<and> engine_ok e'"
proof -
  obtain stats where stats: "imp_record (pl_ln pf) now ino name 0 (en_importance e) = Some stats" "hm_wf stats"
    "length stats \<le> MAX_TRACKED_FILES"
    using imp_record_total [OF assms(1) engine_okD(3,4) [OF assms(2)]] by blast
  obtain n where n: "neural_record (pl_math pf) ino name (en_neural e) = Some n" "neural_ok n"
    using neural_record_ok [OF engine_okD(2) [OF assms(2)]] by blast
  note top = top_prediction_diverged [OF n(2), of pf]
  show ?thesis
  proof (cases "diverged pf n")
    case True
    then show ?thesis using stats(1) n(1) top by (simp add: on_open_def Let_def)
  next
    case False
    then obtain p where p: "neural_top_prediction (pl_math pf) n = Some p" using top by blast
    show ?thesis
      using False p stats n assms(2)
      by (simp add: on_open_def Let_def engine_ok_def memory_keeps record_transition_inv prediction_shown split: option.split)
  qed
qed

lemma handle_event_step:
  assumes "platform_ok pf" and "engine_ok e"
  shows "if stuck pf ev e then handle_event pf now ev e = None else \<exists>e'. handle_event pf now ev e = Some e' \<and> engine_ok e'"
proof (cases ev)
  case (EvOpen ino name sz)
  then show ?thesis using open_step [OF assms] by simp
next
  case (EvWrite ino name data)
  then show ?thesis
    using assms(2) by (simp add: on_write_def Let_def engine_ok_def memory_keeps index_file_ok check_write_std)
next
  case (EvClose ino name duration)
  then show ?thesis
    using imp_record_total [OF assms(1) engine_okD(3,4) [OF assms(2)], of now ino name duration] assms(2)
    by (auto simp: on_close_def engine_ok_def)
next
  case (EvDelete ino name)
  then show ?thesis using assms(2) by (simp add: on_delete_def engine_ok_def index_remove_ok)
next
  case (EvSearchQuery query)
  then show ?thesis
    using search_query_answers [OF engine_okD(5) [OF assms(2)], of "pl_ln pf" "pl_unicode pf" query] assms(2)
    by (auto simp: on_search_def engine_ok_def index_ok_def)
next
  case (EvAskQuery query file_list)
  then show ?thesis
    using search_query_answers [OF engine_okD(5) [OF assms(2)], of "pl_ln pf" "pl_unicode pf" query] assms(2)
      top_prediction_diverged [OF engine_okD(2) [OF assms(2)], of pf]
    by (auto simp: run_ask_query_def engine_ok_def index_ok_def)
next
  case EvEndSession
  let ?mem = "close_session now (en_memory e)"
  have mem: "memory_wf ?mem" "pairs_tracked ?mem"
    using engine_okD(7,8) [OF assms(2)] by (simp_all add: memory_keeps)
  obtain model where "recompute (me_co_access ?mem) (stats_map ?mem) (en_session_writes e) (en_session_opens e) (me_names ?mem)
      (en_session_files e) now = Some model"
    using recompute_total [OF mem] by blast
  then show ?thesis using EvEndSession assms(2) mem by (simp add: on_end_session_def Let_def engine_ok_def)
qed (use assms(2) in simp_all)

lemma engine_step_ok:
  assumes "platform_ok pf" and "engine_ok e" and "engine_step pf (now, ev) (e, w) = Some (e', w')"
  shows "engine_ok e'"
  using handle_event_step [OF assms(1,2), of ev now] assms(3)
  by (auto simp: engine_step_def split: bind_splits if_splits)

lemma engine_step_run:
  assumes "platform_ok pf" and "engine_ok e" and "\<not> stuck pf ev e"
  shows "\<exists>e' w'. engine_step pf (now, ev) (e, w) = Some (e', w') \<and> engine_ok e'"
proof -
  obtain e' where e': "handle_event pf now ev e = Some e'" "engine_ok e'"
    using handle_event_step [OF assms(1,2), of ev now] assms(3) by auto
  obtain w' where "sync_state pf now e' w = Some w'" using sync_total [OF assms(1) e'(2)] by blast
  with e' show ?thesis by (simp add: engine_step_def)
qed

lemma run_loop_append: "run_loop pf (xs @ ys) s = Option.bind (run_loop pf xs s) (run_loop pf ys)"
  by (induction xs arbitrary: s) (auto split: bind_splits)

lemma run_loop_ok:
  assumes "platform_ok pf" shows "engine_ok e \<Longrightarrow> run_loop pf evs (e, w) = Some (e', w') \<Longrightarrow> engine_ok e'"
proof (induction evs arbitrary: e w)
  case (Cons x evs)
  obtain now ev where x: "x = (now, ev)" by fastforce
  from Cons.prems(2) obtain e1 w1 where "engine_step pf x (e, w) = Some (e1, w1)" "run_loop pf evs (e1, w1) = Some (e', w')"
    by (auto split: bind_splits)
  then show ?case using Cons.IH engine_step_ok [OF assms Cons.prems(1)] by (simp add: x) blast
qed simp


lemma engine_fresh_ok: "engine_ok (engine_fresh pf now)"
proof -
  have "pairs_tracked (memory_new now)" by (simp add: pairs_tracked_def memory_new_def session_new_def)
  then show ?thesis
    by (simp add: engine_ok_def engine_fresh_def engine_new_def neural_new_ok index_new_ok guard_std_def guard_new_def)
qed

section \<open>A sample thread\<close>

definition sample_platform :: platform where
  "sample_platform = \<lparr>pl_ln = ln_one, pl_log2 = id, pl_math = no_math, pl_unicode = ascii_only, pl_show = fmt_fixed 2\<rparr>"

definition sample_engine :: ai_engine where
  "sample_engine = engine_fresh sample_platform 5"

lemma sample_platform_ok: "platform_ok sample_platform"
  by (auto simp: platform_ok_def sample_platform_def ln_one_def)

lemma sample_engine_ok: "engine_ok sample_engine"
  unfolding sample_engine_def by (rule engine_fresh_ok)

fun uses_network :: "fs_event \<Rightarrow> bool" where
  "uses_network (EvOpen ino name sz) \<longleftrightarrow> True"
| "uses_network (EvAskQuery query file_list) \<longleftrightarrow> True"
| "uses_network ev \<longleftrightarrow> False"

lemma run_loop_total:
  assumes "platform_ok pf" and "\<forall>(_, ev) \<in> set evs. \<not> uses_network ev"
  shows "engine_ok e \<Longrightarrow> \<exists>e' w'. run_loop pf evs (e, w) = Some (e', w') \<and> engine_ok e'"
  using assms(2)
proof (induction evs arbitrary: e w)
  case (Cons x evs)
  obtain now ev where x: "x = (now, ev)" by fastforce
  have "\<not> stuck pf ev e" using Cons.prems(2) x by (cases ev) auto
  then obtain e1 w1 where "engine_step pf x (e, w) = Some (e1, w1)" "engine_ok e1"
    using engine_step_run [OF assms(1) Cons.prems(1), of ev now w] x by auto
  then show ?case using Cons.IH [of e1 w1] Cons.prems(2) by auto
qed simp


section \<open>What the index holds\<close>

definition indexed_as :: "unicode \<Rightarrow> u64 \<Rightarrow> rstring \<Rightarrow> bytes \<Rightarrow> u64 \<Rightarrow> indexed_file" where
  "indexed_as uc ino name content ts = the (hm_get (si_files (index_file uc ino name content ts search_new)) ino)"

definition index_entry :: "u64 \<Rightarrow> ai_engine \<Rightarrow> indexed_file option" where
  "index_entry ino e = hm_get (si_files (en_search e)) ino"

definition accumulated :: "u64 \<Rightarrow> ai_engine \<Rightarrow> bytes" where
  "accumulated ino e = (case hm_get (en_write_accumulator e) ino of Some acc \<Rightarrow> acc | None \<Rightarrow> [])"

fun writes_or_deletes :: "u64 \<Rightarrow> fs_event \<Rightarrow> bool" where
  "writes_or_deletes ino (EvWrite i name data) \<longleftrightarrow> i = ino"
| "writes_or_deletes ino (EvDelete i name) \<longleftrightarrow> i = ino"
| "writes_or_deletes ino ev \<longleftrightarrow> False"

lemma index_file_entry:
  "hm_get (si_files (index_file uc ino name content ts idx)) i
    = (if i = ino then Some (indexed_as uc ino name content ts) else hm_get (si_files idx) i)"
  by (simp add: indexed_as_def index_file_def index_by_name_def Let_def)

lemma indexed_as_name [simp]: "ix_name (indexed_as uc ino name content ts) = name"
  by (simp add: indexed_as_def index_file_def index_by_name_def Let_def)

lemma handle_entry:
  assumes "handle_event pf now ev e = Some e'" and "hm_wf (si_files (en_search e))"
  shows "index_entry ino e' = (case ev of
      EvWrite i name data \<Rightarrow> if i = ino then Some (indexed_as (pl_unicode pf) ino name (accumulated ino e @ data) now) else index_entry ino e
    | EvDelete i name \<Rightarrow> if i = ino then None else index_entry ino e
    | _ \<Rightarrow> index_entry ino e)"
  using assms
  by (cases ev) (auto simp: index_entry_def accumulated_def on_open_def on_write_def on_close_def on_delete_def on_search_def
      run_ask_query_def on_end_session_def index_file_entry index_remove_def Let_def split: bind_splits option.splits)

lemma handle_accumulated:
  assumes "handle_event pf now ev e = Some e'" and "hm_wf (en_write_accumulator e)"
  shows "accumulated ino e' = (case ev of
      EvWrite i name data \<Rightarrow> if i = ino then accumulated ino e @ data else accumulated ino e
    | EvDelete i name \<Rightarrow> if i = ino then [] else accumulated ino e
    | EvClose i name duration \<Rightarrow> if i = ino then [] else accumulated ino e
    | _ \<Rightarrow> accumulated ino e)"
  using assms
  by (cases ev) (auto simp: accumulated_def on_open_def on_write_def on_close_def on_delete_def on_search_def
      run_ask_query_def on_end_session_def Let_def split: bind_splits option.splits if_splits)

lemma engine_step_handle: "engine_step pf (now, ev) (e, w) = Some (e', w') \<Longrightarrow> handle_event pf now ev e = Some e'"
  by (auto simp: engine_step_def split: bind_splits)

lemma run_loop_ConsE:
  assumes "run_loop pf ((now, ev) # evs) (e, w) = Some (e', w')"
  obtains e1 w1 where "engine_step pf (now, ev) (e, w) = Some (e1, w1)" "handle_event pf now ev e = Some e1"
    "run_loop pf evs (e1, w1) = Some (e', w')"
  using assms engine_step_handle by (auto split: bind_splits)

lemma run_loop_appendE:
  assumes "run_loop pf (xs @ ys) (e, w) = Some (e', w')"
  obtains e1 w1 where "run_loop pf xs (e, w) = Some (e1, w1)" "run_loop pf ys (e1, w1) = Some (e', w')"
  using assms by (auto simp: run_loop_append split: bind_splits)

lemma engine_ok_maps: "engine_ok e \<Longrightarrow> hm_wf (si_files (en_search e))" "engine_ok e \<Longrightarrow> hm_wf (en_write_accumulator e)"
  by (simp_all add: engine_ok_def index_ok_def)

lemma entry_unchanged:
  assumes "platform_ok pf"
  shows "engine_ok e \<Longrightarrow> run_loop pf evs (e, w) = Some (e', w') \<Longrightarrow> \<forall>(_, ev) \<in> set evs. \<not> writes_or_deletes ino ev
    \<Longrightarrow> index_entry ino e' = index_entry ino e \<and> (accumulated ino e = [] \<longrightarrow> accumulated ino e' = [])"
proof (induction evs arbitrary: e w)
  case (Cons x evs)
  obtain now ev where x: "x = (now, ev)" by fastforce
  from Cons.prems(2) obtain e1 w1 where 1: "engine_step pf (now, ev) (e, w) = Some (e1, w1)" "handle_event pf now ev e = Some e1"
    "run_loop pf evs (e1, w1) = Some (e', w')"
    unfolding x by (rule run_loop_ConsE)
  have "\<not> writes_or_deletes ino ev" using Cons.prems(3) x by simp
  then have "index_entry ino e1 = index_entry ino e" "accumulated ino e = [] \<Longrightarrow> accumulated ino e1 = []"
    using handle_entry [OF 1(2) engine_ok_maps(1) [OF Cons.prems(1)], of ino]
      handle_accumulated [OF 1(2) engine_ok_maps(2) [OF Cons.prems(1)], of ino]
    by (auto split: fs_event.splits if_splits)
  moreover have "engine_ok e1" by (rule engine_step_ok [OF assms Cons.prems(1) 1(1)])
  ultimately show ?case using Cons.IH [OF _ 1(3)] Cons.prems(3) by auto
qed simp

text \<open>C29: After a file is closed, the next write is indexed as the whole content of the file, whatever the index held
  of it before and wherever in the file the write goes.\<close>

theorem write_after_close_forgets:
  assumes "platform_ok pf" and "engine_ok e"
    and "run_loop pf ((t, EvClose ino n secs) # mid @ (t', EvWrite ino name data) # post) (e, w) = Some (e', w')"
    and "\<forall>(_, ev) \<in> set (mid @ post). \<not> writes_or_deletes ino ev"
  shows "hm_get (si_files (en_search e')) ino = Some (indexed_as (pl_unicode pf) ino name data t')"
proof -
  obtain e1 w1 where 1: "engine_step pf (t, EvClose ino n secs) (e, w) = Some (e1, w1)"
    "handle_event pf t (EvClose ino n secs) e = Some e1"
    "run_loop pf (mid @ (t', EvWrite ino name data) # post) (e1, w1) = Some (e', w')"
    using assms(3) by (rule run_loop_ConsE)
  have ok1: "engine_ok e1" by (rule engine_step_ok [OF assms(1,2) 1(1)])
  have acc1: "accumulated ino e1 = []"
    using handle_accumulated [OF 1(2) engine_ok_maps(2) [OF assms(2)], of ino] by simp
  obtain e2 w2 where 2: "run_loop pf mid (e1, w1) = Some (e2, w2)"
    "run_loop pf ((t', EvWrite ino name data) # post) (e2, w2) = Some (e', w')"
    using 1(3) by (rule run_loop_appendE)
  have ok2: "engine_ok e2" by (rule run_loop_ok [OF assms(1) ok1 2(1)])
  have acc2: "accumulated ino e2 = []" using entry_unchanged [OF assms(1) ok1 2(1), of ino] assms(4) acc1 by auto
  obtain e3 w3 where 3: "engine_step pf (t', EvWrite ino name data) (e2, w2) = Some (e3, w3)"
    "handle_event pf t' (EvWrite ino name data) e2 = Some e3" "run_loop pf post (e3, w3) = Some (e', w')"
    using 2(2) by (rule run_loop_ConsE)
  have "index_entry ino e3 = Some (indexed_as (pl_unicode pf) ino name data t')"
    using handle_entry [OF 3(2) engine_ok_maps(1) [OF ok2], of ino] acc2 by simp
  moreover have "engine_ok e3" by (rule engine_step_ok [OF assms(1) ok2 3(1)])
  ultimately show ?thesis using entry_unchanged [OF assms(1) _ 3(3), of ino] assms(4) by (auto simp: index_entry_def)
qed


theorem write_after_close_forgets_witness:
  "\<exists>e' w'. run_loop sample_platform [(6, EvWrite 2 [97] [98, 99, 100]), (7, EvClose 2 [97] 1), (8, EvWrite 2 [97] [101])]
      (sample_engine, shared_default) = Some (e', w')
    \<and> hm_get (si_files (en_search e')) 2 = Some (indexed_as ascii_only 2 [97] [101] 8)"
proof -
  let ?w = "(6, EvWrite 2 [97] [98, 99, 100])" and ?evs = "[(7, EvClose 2 [97] 1), (8, EvWrite 2 [97] [101])]"
  obtain e1 w1 where 1: "run_loop sample_platform [?w] (sample_engine, shared_default) = Some (e1, w1)" "engine_ok e1"
    using run_loop_total [OF sample_platform_ok _ sample_engine_ok, of "[?w]" shared_default] by auto
  obtain e' w' where 2: "run_loop sample_platform ?evs (e1, w1) = Some (e', w')"
    using run_loop_total [OF sample_platform_ok _ 1(2), of ?evs w1] by auto
  have "run_loop sample_platform ([?w] @ ?evs) (sample_engine, shared_default) = Some (e', w')"
    by (simp only: run_loop_append 1(1) bind.bind_lunit 2)
  then have "run_loop sample_platform (?w # ?evs) (sample_engine, shared_default) = Some (e', w')"
    unfolding append_Cons append_Nil .
  moreover have "hm_get (si_files (en_search e')) 2 = Some (indexed_as ascii_only 2 [97] [101] 8)"
    using write_after_close_forgets [OF sample_platform_ok 1(2), of 7 2 "[97]" 1 "[]" 8 "[97]" "[101]" "[]"] 2
    by (simp add: sample_platform_def)
  ultimately show ?thesis by blast
qed

lemma search_published:
  assumes "platform_ok pf" and "engine_ok e" and "engine_step pf (t, EvSearchQuery q) (e, w) = Some (e', w')"
  shows "\<exists>rs. answers (pl_unicode pf) q (en_search e') rs \<and> sa_search_result w' = search_text q rs
    \<and> si_files (en_search e') = si_files (en_search e)"
proof -
  obtain rs where rs: "search_query (pl_ln pf) (pl_unicode pf) q (en_search e) = Some rs" "answers (pl_unicode pf) q (en_search e) rs"
    using search_query_answers [OF engine_okD(5) [OF assms(2)]] by blast
  have step: "handle_event pf t (EvSearchQuery q) e = Some e'" "sync_state pf t e' w = Some w'"
    using assms(3) by (auto simp: engine_step_def split: bind_splits)
  have e': "e' = e\<lparr>en_search := (en_search e)\<lparr>si_last_query_result := search_text q rs\<rparr>\<rparr>"
    using step(1) rs(1) by (simp add: on_search_def)
  with rs(2) sync_saved [OF step(2)] show ?thesis by (auto simp: answers_def)
qed

text \<open>C28: The result of a query is the list of answers over the files as last written: a file whose name holds a term of
  the query is among them once it has been written, and a deleted file is not, until it is written again.\<close>

theorem search_follows_events:
  assumes "platform_ok pf" and "engine_ok e"
    and "run_loop pf ((t, ev) # mid @ [(t', EvSearchQuery q)]) (e, w) = Some (e', w')"
    and "\<forall>(_, ev') \<in> set mid. \<not> writes_or_deletes ino ev'"
  shows "\<exists>rs. answers (pl_unicode pf) q (en_search e') rs \<and> sa_search_result w' = search_text q rs
    \<and> (case ev of
         EvWrite i name data \<Rightarrow> i = ino \<and> list_ex (\<lambda>v. str_contains v (to_lowercase (pl_unicode pf) name))
             (terms_of (pl_unicode pf) (to_lowercase (pl_unicode pf) q)) \<longrightarrow> (ino, name) \<in> (\<lambda>r. (sr_ino r, sr_name r)) ` set rs
       | EvDelete i name \<Rightarrow> i = ino \<longrightarrow> ino \<notin> sr_ino ` set rs
       | _ \<Rightarrow> True)"
proof -
  let ?uc = "pl_unicode pf"
  obtain e1 w1 where 1: "engine_step pf (t, ev) (e, w) = Some (e1, w1)" "handle_event pf t ev e = Some e1"
    "run_loop pf (mid @ [(t', EvSearchQuery q)]) (e1, w1) = Some (e', w')"
    using assms(3) by (rule run_loop_ConsE)
  have ok1: "engine_ok e1" by (rule engine_step_ok [OF assms(1,2) 1(1)])
  obtain e2 w2 where 2: "run_loop pf mid (e1, w1) = Some (e2, w2)" "run_loop pf [(t', EvSearchQuery q)] (e2, w2) = Some (e', w')"
    using 1(3) by (rule run_loop_appendE)
  have ok2: "engine_ok e2" by (rule run_loop_ok [OF assms(1) ok1 2(1)])
  have "engine_step pf (t', EvSearchQuery q) (e2, w2) = Some (e', w')" using 2(2) by (auto split: bind_splits)
  from search_published [OF assms(1) ok2 this] obtain rs where rs: "answers ?uc q (en_search e') rs"
    "sa_search_result w' = search_text q rs" "si_files (en_search e') = si_files (en_search e2)" by blast
  have entry: "index_entry ino e' = index_entry ino e1"
    using entry_unchanged [OF assms(1) ok1 2(1) assms(4)] rs(3) by (simp add: index_entry_def)
  note handled = handle_entry [OF 1(2) engine_ok_maps(1) [OF assms(2)], of ino]
  have found: "(ino, name) \<in> (\<lambda>r. (sr_ino r, sr_name r)) ` set rs"
    if "ev = EvWrite ino name data" "v \<in> set (terms_of ?uc (to_lowercase ?uc q))" "str_contains v (to_lowercase ?uc name)" for name data v
  proof -
    note asm = that
    obtain f where f: "hm_get (si_files (en_search e')) ino = Some f" "ix_name f = name"
      using entry handled asm(1) by (auto simp: index_entry_def)
    then obtain r where r: "r \<in> set rs" "sr_ino r = ino" using answersD(2) [OF rs(1) f(1) asm(2)] asm(3) by blast
    moreover have "sr_name r = name" using answersD(1) [OF rs(1) r(1)] f r(2) by auto
    ultimately show ?thesis by force
  qed
  have gone: "ino \<notin> sr_ino ` set rs" if "ev = EvDelete ino name" for name
  proof
    assume "ino \<in> sr_ino ` set rs"
    then obtain f where "hm_get (si_files (en_search e')) ino = Some f" using answersD(1) [OF rs(1)] by blast
    then show False using entry handled that by (simp add: index_entry_def)
  qed
  show ?thesis using rs(1,2) found gone by (intro exI [of _ rs]) (auto simp: list_ex_iff split: fs_event.split)
qed

theorem search_follows_events_witness:
  "\<exists>e' w' rs. run_loop sample_platform [(6, EvWrite 2 (ascii ''auth.rs'') [98]), (7, EvSearchQuery (ascii ''Auth''))]
      (sample_engine, shared_default) = Some (e', w')
    \<and> sa_search_result w' = search_text (ascii ''Auth'') rs \<and> (2, ascii ''auth.rs'') \<in> (\<lambda>r. (sr_ino r, sr_name r)) ` set rs"
proof -
  let ?evs = "[(6, EvWrite 2 (ascii ''auth.rs'') [98]), (7, EvSearchQuery (ascii ''Auth''))]"
  obtain e' w' where run: "run_loop sample_platform ?evs (sample_engine, shared_default) = Some (e', w')"
    using run_loop_total [OF sample_platform_ok _ sample_engine_ok, of ?evs shared_default] by auto
  have uc: "pl_unicode sample_platform = ascii_only" by (simp add: sample_platform_def)
  have "list_ex (\<lambda>v. str_contains v (to_lowercase ascii_only (ascii ''auth.rs''))) (terms_of ascii_only (to_lowercase ascii_only (ascii ''Auth'')))"
    by code_simp
  then show ?thesis
    using search_follows_events [OF sample_platform_ok sample_engine_ok, of 6 "EvWrite 2 (ascii ''auth.rs'') [98]" "[]" 7 "ascii ''Auth''"
        shared_default e' w' 2] run
    unfolding uc by (simp del: run_loop.simps) blast
qed


end
