(* ===== verification/Ai_Session.thy ===== *)
theory Ai_Session
  imports Engine_Properties Vex_Properties "HOL-Library.Sublist"
begin

text \<open>
  The file system and the AI thread together: the events a session sends, what the thread has published while the
  image is mounted, and what the next mount starts from.
\<close>

section \<open>What the handlers send\<close>

named_theorems sends

lemma persist_sends [sends]: "persist_to_disk w ino name data idx s = Some s' \<Longrightarrow> fs_events s' = fs_events s"
  by (auto simp: persist_to_disk_def Let_def case_prod_unfold split: bind_splits)

lemma flush_due_sends [sends]: "flush_due w due s = Some s' \<Longrightarrow> fs_events s' = fs_events s"
proof (induction due arbitrary: s)
  case (Cons i due)
  then show ?case
    by (cases "wb_take i (fs_write_buffer s)") (auto dest!: persist_sends split: option.splits bind_splits)
qed simp

lemma flush_file_sends [sends]: "flush_file w ino s = Some s' \<Longrightarrow> fs_events s' = fs_events s"
  by (auto simp: flush_file_def Let_def case_prod_unfold dest: flush_due_sends split: option.splits if_splits)

lemma pre_eviction_sends [sends]: "pre_eviction_flush w s = Some s' \<Longrightarrow> fs_events s' = fs_events s"
  by (auto simp: pre_eviction_flush_def Let_def case_prod_unfold dest!: persist_sends split: option.splits if_splits bind_splits prod.splits)

lemma flush_evicted_sends [sends]: "flush_evicted w ino s = Some s' \<Longrightarrow> fs_events s' = fs_events s"
  by (auto simp: flush_evicted_def Let_def case_prod_unfold dest!: persist_sends split: option.splits if_splits bind_splits prod.splits sum.splits)

lemma flush_evictions_sends [sends]: "flush_evictions w inos s = Some s' \<Longrightarrow> fs_events s' = fs_events s"
  by (induction inos arbitrary: s) (auto dest!: flush_evicted_sends split: bind_splits)

lemma cache_insert_sends [sends]: "cache_insert w ino data s = Some s' \<Longrightarrow> fs_events s' = fs_events s"
  by (auto simp: cache_insert_def flush_cache_evictions_def Let_def case_prod_unfold
      dest!: pre_eviction_sends flush_evictions_sends split: bind_splits)

lemma take_snapshot_sends [sends]: "take_snapshot w ino name data off s = Some s' \<Longrightarrow> fs_events s' = fs_events s"
  by (auto simp: take_snapshot_def Let_def case_prod_unfold split: option.splits if_splits bind_splits prod.splits)

lemma maybe_gc_sends [sends]: "maybe_gc_snapshots s = Some s' \<Longrightarrow> fs_events s' = fs_events s"
  by (auto simp: maybe_gc_snapshots_def Let_def case_prod_unfold split: option.splits if_splits bind_splits prod.splits)

definition no_end :: "vexfs \<Rightarrow> bool" where
  "no_end s \<longleftrightarrow> EvEndSession \<notin> set (fs_events s)"

lemma serve_no_end:
  assumes "serve full w r s = Some (a, s')" and "no_end s" shows "no_end s'"
proof (cases r)
  case (ReqLookup parent name)
  then show ?thesis using assms by (auto simp: no_end_def vex_lookup_def Let_def split: option.splits)
next
  case (ReqGetattr ino)
  then show ?thesis using assms by (auto simp: no_end_def vex_getattr_def)
next
  case (ReqRead ino off sz)
  then show ?thesis
    using assms by (auto simp: no_end_def vex_read_def Let_def dest!: cache_insert_sends split: option.splits if_splits bind_splits prod.splits)
next
  case (ReqWrite ino off data)
  then show ?thesis
    using assms by (auto simp: no_end_def vex_write_def Let_def dest!: sends split: option.splits if_splits bind_splits prod.splits)
next
  case (ReqFlush ino)
  then show ?thesis using assms by (auto simp: no_end_def vex_flush_def dest!: sends split: bind_splits)
next
  case (ReqFsync ino)
  then show ?thesis using assms by (auto simp: no_end_def vex_fsync_def dest!: sends split: bind_splits)
next
  case (ReqReaddir ino off)
  then show ?thesis using assms by (auto simp: no_end_def vex_readdir_def)
next
  case (ReqCreate parent name)
  then show ?thesis
    using assms by (auto simp: no_end_def vex_create_def Let_def add_file_def dest!: sends split: option.splits if_splits bind_splits prod.splits)
next
  case (ReqMkdir parent name)
  then show ?thesis
    using assms by (auto simp: no_end_def vex_mkdir_def Let_def add_file_def split: option.splits if_splits bind_splits prod.splits)
next
  case (ReqUnlink parent name)
  then show ?thesis
    using assms by (auto simp: no_end_def vex_unlink_def Let_def split: option.splits if_splits bind_splits prod.splits)
next
  case (ReqRmdir parent name)
  then show ?thesis
    using assms by (auto simp: no_end_def vex_rmdir_def Let_def split: option.splits if_splits bind_splits)
next
  case (ReqRename parent name newparent newname)
  then show ?thesis
    using assms by (auto simp: no_end_def vex_rename_def Let_def split: option.splits if_splits bind_splits prod.splits sum.splits disk_error.splits)
next
  case (ReqSetattr ino sz)
  then show ?thesis
    using assms by (auto simp: no_end_def vex_setattr_def Let_def dest!: sends split: option.splits if_splits bind_splits prod.splits)
next
  case ReqStatfs
  then show ?thesis using assms by (auto simp: no_end_def vex_statfs_def Let_def)
next
  case (ReqRelease ino)
  then show ?thesis using assms by (auto simp: no_end_def vex_release_def split: option.splits)
qed

lemma session_no_end: "session full rs s = Some (as, s') \<Longrightarrow> no_end s \<Longrightarrow> no_end s'"
proof (induction rs arbitrary: s as)
  case (Cons x rs)
  then show ?case by (cases x) (auto split: bind_splits, blast dest: serve_no_end)
qed simp


lemma load_inode_sends: "load_inode w i n s = Some s' \<Longrightarrow> fs_events s' = fs_events s"
  by (auto simp: load_inode_def Let_def split: if_splits bind_splits)

lemma load_inodes_sends: "load_inodes w is s = Some s' \<Longrightarrow> fs_events s' = fs_events s"
proof (induction "is" arbitrary: s)
  case (Cons i rest)
  then show ?case by (auto dest!: load_inode_sends split: sum.splits disk_error.splits bind_splits)
qed simp

lemma load_snapshots_sends: "load_snapshots w is s = Some s' \<Longrightarrow> fs_events s' = fs_events s"
proof (induction "is" arbitrary: s)
  case (Cons i rest)
  then show ?case by (force simp: load_snapshot_def Let_def split: sum.splits disk_error.splits if_splits)
qed simp

lemma load_no_end: "vex_load w disk = Some s \<Longrightarrow> fs_events s = []"
  by (auto simp: vex_load_def vex_new_def dest!: load_inodes_sends load_snapshots_sends split: bind_splits)

lemma handle_rendered:
  "handle_event pf now ev e = Some e' \<Longrightarrow> ev \<noteq> EvEndSession \<Longrightarrow> en_workspace_rendered e' = en_workspace_rendered e"
  by (cases ev) (auto simp: on_open_def on_write_def on_close_def on_delete_def on_search_def run_ask_query_def Let_def
      split: bind_splits)

lemma run_loop_jarvis:
  "run_loop pf evs (e, w) = Some (e', w') \<Longrightarrow> EvEndSession \<notin> snd ` set evs \<Longrightarrow> en_workspace_rendered e = []
    \<Longrightarrow> sa_jarvis_result w = [] \<Longrightarrow> sa_jarvis_result w' = []"
proof (induction evs arbitrary: e w)
  case (Cons x evs)
  obtain now ev where x: "x = (now, ev)" by fastforce
  from Cons.prems(1) obtain e1 w1 where 1: "engine_step pf (now, ev) (e, w) = Some (e1, w1)" "handle_event pf now ev e = Some e1"
    "run_loop pf evs (e1, w1) = Some (e', w')"
    unfolding x by (rule run_loop_ConsE)
  have "en_workspace_rendered e1 = []" using handle_rendered [OF 1(2)] Cons.prems(2,3) x by auto
  moreover from this have "sa_jarvis_result w1 = []" using 1(1,2) sync_saved by (fastforce simp: engine_step_def split: bind_splits)
  ultimately show ?case using Cons.IH [OF 1(3)] Cons.prems(2) by simp
qed simp

lemma load_rendered [simp]: "en_workspace_rendered (engine_load pf h now img fs docs) = []"
  by (simp add: engine_load_def engine_new_def Let_def case_prod_unfold)

text \<open>C30: While the file system is mounted \<open>.vexfs-jarvis\<close> reads empty, whatever requests were served and however far the
  thread has got: the brief is made only when the session ends, and that event is sent only on unmounting.\<close>

theorem jarvis_empty_while_mounted:
  assumes "vex_load w0 disk = Some s0" and "session full rs s0 = Some (as, s)"
    and "prefix (map snd evs) (fs_events s)"
    and "run_loop pf evs (engine_load pf h now img fs (fs_search_docs s0), shared_default) = Some (e, st)"
    and "w_ai w = ai_state.truncate st"
  shows "vex_read w JARVIS_INO off sz s = Some (reply_slice off sz [], s)"
proof -
  have "no_end s" using session_no_end [OF assms(2)] load_no_end [OF assms(1)] by (simp add: no_end_def)
  then have "EvEndSession \<notin> set (map snd evs)" using set_mono_prefix [OF assms(3)] by (auto simp: no_end_def)
  then have "sa_jarvis_result st = []"
    using run_loop_jarvis [OF assms(4)] by (simp add: shared_default_def)
  then show ?thesis by (simp add: vex_read_def assms(5) ai_state.truncate_def JARVIS_INO_def CONTEXT_INO_def)
qed


lemma load_empty_ok: "engine_ok (engine_load pf h now img [] docs)"
proof -
  have docs: "index_ok (fold (\<lambda>(ino, name, data, modified_at). index_file (pl_unicode pf) ino name data modified_at) docs idx)"
    if "index_ok idx" for idx
    using that by (induction docs arbitrary: idx) (auto simp: index_file_ok)
  have "pairs_tracked (memory_new now)" by (simp add: pairs_tracked_def memory_new_def session_new_def)
  then show ?thesis
    using docs [OF index_new_ok]
    by (simp add: engine_load_def load_neural_def restore_ai_def ai_load_def mem_load_def engine_new_def Let_def
        engine_ok_def neural_new_ok guard_std_def guard_new_def index_documents_def restore_markov_def hm_of_list_def)
qed

theorem jarvis_empty_while_mounted_witness:
  "\<exists>s0 s e st. vex_load sample_world sample_disk = Some s0
    \<and> session (\<lambda>_ _. False) [(sample_world, ReqWrite SEARCH_INO 0 [97])] s0 = Some ([ReplyWritten 1], s)
    \<and> run_loop sample_platform [(9, EvSearchQuery (str_trim (utf8_lossy [97])))]
        (engine_load sample_platform (\<lambda>_. []) 5 [97] [] (fs_search_docs s0), shared_default) = Some (e, st)
    \<and> vex_read (sample_world\<lparr>w_ai := ai_state.truncate st\<rparr>) JARVIS_INO 0 10 s = Some (reply_slice 0 10 [], s)"
proof -
  let ?q = "str_trim (utf8_lossy [97])"
  obtain s0 where s0: "vex_load sample_world sample_disk = Some s0"
    using load_runs [OF sample_dir, of sample_world] by (auto elim: runsE)
  let ?s = "send (EvSearchQuery ?q) (s0\<lparr>fs_search_query := ?q\<rparr>)"
  have run: "session (\<lambda>_ _. False) [(sample_world, ReqWrite SEARCH_INO 0 [97])] s0 = Some ([ReplyWritten 1], ?s)"
    by (simp add: vex_write_def Let_def)
  have evs: "prefix (map snd [(9, EvSearchQuery ?q)]) (fs_events ?s)" using load_no_end [OF s0] by (simp add: send_def)
  obtain e st where thread: "run_loop sample_platform [(9, EvSearchQuery ?q)]
      (engine_load sample_platform (\<lambda>_. []) 5 [97] [] (fs_search_docs s0), shared_default) = Some (e, st)"
    using run_loop_total [OF sample_platform_ok _ load_empty_ok, of "[(9, EvSearchQuery ?q)]"] by (simp del: run_loop.simps) blast
  from jarvis_empty_while_mounted [OF s0 run evs thread, of "sample_world\<lparr>w_ai := ai_state.truncate st\<rparr>" 0 10]
  have "vex_read (sample_world\<lparr>w_ai := ai_state.truncate st\<rparr>) JARVIS_INO 0 10 ?s = Some (reply_slice 0 10 [], ?s)" by simp
  with s0 run thread show ?thesis by blast
qed

section \<open>Unmounting and mounting again\<close>

lemma neural_after_save:
  assumes "\<forall>b. length (h b) = 32" and "length (sv_neural_weights st) < 2 ^ 32"
  shows "load_neural h (ai_path img) (save_ai h now img st fs) = Some (sv_neural_weights st)"
proof -
  have path: "mem_path img \<noteq> neural_path (ai_path img)" by (rule paths_differ)
  have cong: "load_neural h (ai_path img) (hm_insert (mem_path img) v fs') = load_neural h (ai_path img) fs'" for v fs'
    using path by (simp add: load_neural_def)
  have "load_neural h (ai_path img) (save_neural h (ai_path img) (sv_neural_weights st) fs') = Some (sv_neural_weights st)" for fs'
    using neural_weights_shared [OF assms] by blast
  then show ?thesis by (auto simp: save_ai_def Let_def mem_save_def cong split: option.split)
qed

definition network_fits :: "neural \<Rightarrow> bool" where
  "network_fits n \<longleftrightarrow> vocab_size n < 2 ^ 32 \<and> length (neural_to_bytes n) < 2 ^ 32
     \<and> (\<forall>name \<in> set (nn_idx_to_name n). length name < 2 ^ 32 \<and> utf8_lossy name = name)"


lemma length_concat_const: "\<forall>x \<in> set xs. length (f x) = k \<Longrightarrow> length (concat (map f xs)) = k * length xs"
  by (induction xs) simp_all

lemma length_fresh_network: "length (neural_to_bytes (neural_new fm)) = 1172"
proof -
  let ?n = "neural_new fm"
  have rows: "\<forall>x \<in> set (zip (nn_w1 ?n) (nn_b1 ?n)). length (row_bytes x) = 36"
    by (auto simp: row_bytes_def f32_to_le_def length_concat comp_def sum_list_triv neural_new_def Let_def INPUT_SIZE_def dest!: set_zip_leftD)
  have "length (zip (nn_w1 ?n) (nn_b1 ?n)) = 32" "nn_w2 ?n = []" "nn_idx_to_ino ?n = []" "nn_idx_to_name ?n = []"
    by (simp_all add: neural_new_def Let_def HIDDEN_SIZE_def)
  then show ?thesis using length_concat_const [OF rows] by (simp add: neural_to_bytes_def)
qed


end
