(* ===== verification/Spec2Isabelle.thy ===== *)
theory Spec2Isabelle
  imports Vex_Properties Fsck Cli_Tree Cli_Tag Daemon Ai_Session
begin

text \<open>
  VexFS is a file system in user space: one image file holds everything, a FUSE layer serves the
  requests of the kernel, and a background thread watches what is opened and written. This
  development models the storage stack and the request handlers as total, executable functions on
  explicit states, and proves what makes them correct, and where they are not, what they do instead.

  \<^bold>\<open>The parts and how they call each other.\<close> \<open>src/fuse/mod.rs\<close> keeps an index from (parent, name) to
  inode numbers (\<open>src/fs/btree.rs\<close>), a map of file records, a byte-budgeted cache of contents
  (\<open>src/cache/mod.rs\<close>), a buffer of pending writes (\<open>src/fs/buffer.rs\<close>) and lists of snapshots
  (\<open>src/fs/snapshot.rs\<close>). It writes through the disk manager (\<open>src/fs/mod.rs\<close>), which combines the
  record codecs (\<open>src/fs/disk.rs\<close>), the write-ahead journal (\<open>src/fs/journal.rs\<close>), the free-extent list
  (\<open>src/fs/free_list.rs\<close>) and the inode table (\<open>src/fs/inode_table.rs\<close>); cold files pass
  \<open>src/fs/compress.rs\<close> on the way.

  \<^bold>\<open>Theories.\<close>
  \<^item> \<open>Prelude\<close>: bytes and little-endian codecs, the image as a byte function with a length
    (\<open>fread\<close>, \<open>fwrite\<close>), hash maps as association lists (\<open>hmap\<close>), list and word lemmas.
  \<^item> \<open>Record_Codec\<close>: the laws of a checksummed fixed-size record as a locale, interpreted for the
    superblock, the inode and the snapshot records in \<open>Disk\<close>.
  \<^item> \<open>Disk\<close>: \<open>disk.rs\<close>. \<open>Journal\<close>: \<open>journal.rs\<close>, with \<open>journal_holds\<close> (the image holds exactly these
    entries) and the images a crash can leave. \<open>Free_List\<close>: \<open>free_list.rs\<close>, with the set of free bytes
    as its abstraction. \<open>Inode_Table\<close>: \<open>inode_table.rs\<close>. \<open>Disk_Manager\<close>: \<open>fs/mod.rs\<close> over these.
  \<^item> \<open>BTree\<close>: \<open>btree.rs\<close>, with a locale for a map of sorted lists and its refinement by the tree.
    \<open>Cache\<close>: \<open>cache/mod.rs\<close>, with a queue locale for the ordered sets with tombstones.
    \<open>Compress\<close>, \<open>Write_Buffer\<close>, \<open>Snapshots\<close>: the files of those names under \<open>src/fs\<close>.
  \<^item> \<open>Utf8\<close>: the standard library's lossy decoding, trimming and substring test.
  \<^item> \<open>Vex_State\<close>: the state of \<open>VexFS\<close>, mounting and the flushing helpers. \<open>Vex_Fuse\<close>: the handlers.
    \<open>Vex_Safety\<close>: a calculus of calls that come back and the invariant \<open>vex_safe\<close>. \<open>Vex_Namespace\<close>: the
    view of the index as a map and what each handler does to it. \<open>Vex_Session\<close>: requests as a
    datatype, sequences of them, and the invariants along them. \<open>Vex_Properties\<close>: the properties of
    the whole stack.
  \<^item> \<open>Access_Log\<close>: \<open>src/ai/logger.rs\<close> and \<open>src/allocator/mod.rs\<close>. \<open>Markov\<close>: the transition table of
    \<open>src/ai/markov.rs\<close> and its replay when mounting. \<open>Memory\<close>: the engine of \<open>src/ai/memory.rs\<close>, with
    \<open>Memory_Context\<close> for the summary it publishes.
  \<^item> \<open>Stream_Codec\<close>: readers over a byte stream, with the laws of a reader (it never needs less than it
    consumed) and of a codec as locales. \<open>Ai_Persist\<close>: \<open>src/ai/persist.rs\<close>. \<open>Memory_Codec\<close>: the byte
    format of the engine, \<open>src/ai/memory_persist.rs\<close>, and the saving and restoring of AI state when the
    file system is unmounted (\<open>flush_all\<close>) and mounted (\<open>load\<close>).
  \<^item> \<open>Floats\<close>: IEEE arithmetic as rounding of rationals, and sorting by a score; \<open>F32_Bits\<close>: the bits of an
    \<open>f32\<close>. \<open>Text\<close> and \<open>Text_Format\<close>: the string functions and the number formatting the code uses.
  \<^item> \<open>Importance\<close>: \<open>src/ai/importance.rs\<close> and the predictions of \<open>markov.rs\<close>. \<open>Search\<close>: \<open>src/ai/search.rs\<close>.
    \<open>Entropy\<close>: \<open>src/ai/entropy.rs\<close>. \<open>Union_Find\<close>, \<open>Workspace\<close>: \<open>src/ai/workspace.rs\<close>. \<open>Jarvis\<close>:
    \<open>src/ai/jarvis.rs\<close>. \<open>Neural\<close>: \<open>src/ai/neural.rs\<close>.
  \<^item> \<open>Engine\<close>: \<open>src/ai/engine.rs\<close>, one function per event, the loop of the thread as a fold over the events it
    receives, and its start by \<open>VexFS::new\<close> and \<open>VexFS::load\<close>. \<open>Engine_Properties\<close>: its invariant and what it
    publishes. \<open>Ai_Session\<close>: the thread and the FUSE layer together, by the events the handlers send.
  \<^item> \<open>Fsck\<close>: \<open>cmd_mkfs\<close> and \<open>cmd_fsck\<close> of \<open>src/bin/vexfs.rs\<close>, with a declarative predicate of a consistent
    image. \<open>Cli_Snapshots\<close>: the snapshot commands and the diff viewer of the same file. \<open>Cli_Query\<close>: \<open>find\<close>,
    \<open>search\<close>, \<open>status\<close>, \<open>info\<close>, \<open>heat\<close> and \<open>graph\<close>. \<open>Cli_Tree\<close>: \<open>tree\<close>. \<open>Cli_Tag\<close>: \<open>tag\<close>. \<open>Daemon\<close>: the
    HTTP handlers of \<open>daemon\<close> and \<open>gui\<close>, on a tree of host files.

  \<^bold>\<open>What the lemmas show.\<close> Codecs round-trip and reject corruption (\<open>Disk\<close>); a crash at any write of a
  journaled transaction leaves all or nothing of it (\<open>Journal\<close>, \<open>Disk_Manager\<close>); allocations are
  disjoint and freeing returns only what was freed (\<open>Free_List\<close>, \<open>Disk_Manager\<close>); the tree refines a
  finite map under any sequence of operations (\<open>BTree\<close>); the cache keeps exact byte counts and its
  budget on insertion, and its eviction loop ends (\<open>Cache\<close>); every sequence of requests on a mounted
  image is answered, the namespace stays consistent, and reads return what was written
  (\<open>Vex_Properties\<close>). The access log keeps the newest events, the memory engine keeps its counts
  consistent and its window aligned with the days (\<open>Access_Log\<close>, \<open>Memory\<close>), and what was learnt survives
  a remount while damaged files are refused (\<open>Ai_Persist\<close>, \<open>Memory_Codec\<close>). Scores are numbers between zero and
  one and ranking never panics (\<open>Importance\<close>); a query returns the answers over the indexed files (\<open>Search\<close>);
  clusters are the connected components of strong pairs (\<open>Union_Find\<close>, \<open>Workspace\<close>); the network keeps its
  shape and its prediction is a file no other but the last one beats (\<open>Neural\<close>). The thread handles every
  sequence of events, up to one panic that is characterised, its published results follow the events, and
  its state survives a remount (\<open>Engine_Properties\<close>, \<open>Ai_Session\<close>). The checker accepts exactly the
  consistent images (\<open>Fsck\<close>); a restored version, as a tag, occupies bytes nothing else uses, and a
  collection keeps the newest snapshots (\<open>Cli_Snapshots\<close>, \<open>Cli_Tag\<close>); \<open>tree\<close> ends and shows every inode below
  the root once (\<open>Cli_Tree\<close>), and \<open>find --regex\<close> accepts only texts of the pattern (\<open>Cli_Query\<close>). Other
  properties pin down defects: replay that resurrects freed inodes, block directory and free list sharing
  bytes, files sharing an extent, writes dropped on eviction, a repair that frees bytes in use, an index that
  forgets a file written after a close, a brief that is never shown, a heatmap that is always uniform, a file
  service that reaches every file of the host and empties a file whose upload comes in two parts.

  \<^bold>\<open>Conventions.\<close> Machine integers are words (\<open>u8\<close>, \<open>u32\<close>, \<open>u64\<close>); \<open>usize\<close> values that index buffers are
  \<open>nat\<close>, and sums that could wrap are bounded by hypotheses. Overflow follows the release profile
  (it wraps). Errors are the sum \<open>disk_error + 'a\<close>; \<open>Panic\<close> marks a Rust panic. In the FUSE layer \<open>None\<close> is a
  call that does not come back, in the AI models and the commands a panic. Strings are lists of UTF-8 bytes.
  Floats are rationals with infinities and one NaN, rounded after each operation; a zero has no sign. The
  eviction loop is a \<open>partial_function\<close> on options, proved to end on every reachable cache. The recursion of
  \<open>tree\<close> has fuel, which stands for the stack: more than the number of named inodes is enough, for a path
  never repeats an inode. The walk of \<open>find\<close> up the parents stops after 64 steps, as in the code.

  \<^bold>\<open>Parameters.\<close> The CRC of \<open>crc32fast\<close>, the \<open>zstd\<close> codec, the hash of \<open>blake3\<close>, the clock, the state the AI
  thread shares and the capacity of a \<open>fuser\<close> directory buffer are arguments; so are \<open>ln\<close>, \<open>log2\<close>, \<open>sqrt\<close>,
  \<open>sin\<close> and \<open>exp\<close>, whose last bits Rust leaves to the platform, the Unicode tables of case and character
  classes, and the shortest decimal of an \<open>f32\<close>; and for the daemon the answer of the language model, the
  search of the mounted file system and the texts of system errors. An operation reads the clock once. Hash maps iterate in the
  order of an association list; no property depends on that order.

  \<^bold>\<open>Not modelled.\<close> Device errors other than reading past the end (\<open>write_all\<close>, \<open>sync_all\<close> and \<open>flush\<close> of the
  image and of the files beside it succeed). Console output of the library, \<open>ai_status\<close> and the status lines
  of the network and the guard, which only print. The channel and the lock between the FUSE layer and the AI
  thread: the thread gets the events in the order they were sent, at any progress, and the 50 ms that \<open>flush_all\<close>
  waits are a hypothesis of the property that needs them. The rest of the command-line tool (argument parsing,
  configuration, mounting, sockets, the request to a language model, the launcher, benchmarks) and the desktop application (\<open>src/bin\<close>), which
  are terminal, network and window front ends without state of the file system.
\<close>

end
